(* ===== verification/Prelude.thy ===== *)
theory Prelude
  imports Main "HOL-Library.Word" "HOL-Library.List_Lexorder" "HOL-Library.Product_Lexorder"
begin

text \<open>
  Shared vocabulary of the development: the machine types, the outcome of a routine that can
  panic or refuse its input, Rust's three-valued \<^verbatim>\<open>Ordering\<close> and its comparison of byte slices,
  and the facts on numbers and lists that several components use.

  A \<^verbatim>\<open>usize\<close> that counts bytes or entries of something held in memory is a \<open>nat\<close>; a
  \<^verbatim>\<open>u8\<close>, \<^verbatim>\<open>u16\<close>, \<^verbatim>\<open>u32\<close> or \<^verbatim>\<open>u64\<close> is a word of its width. Where the code narrows, wraps or
  checks an arithmetic operation, the model writes the operation out.
\<close>

unbundle bit_operations_syntax

subsection \<open>Machine types\<close>

type_synonym u8 = "8 word"
type_synonym u16 = "16 word"
type_synonym u32 = "32 word"
type_synonym u64 = "64 word"
type_synonym bytes = "u8 list"

text \<open>The bound a checked 64-bit \<^verbatim>\<open>usize\<close> operation is tested against.\<close>

definition usize_bound :: nat where
  "usize_bound = 2 ^ 64"

definition checked_add_usize :: "nat \<Rightarrow> nat \<Rightarrow> nat option" where
  "checked_add_usize a b = (if a + b < usize_bound then Some (a + b) else None)"

definition checked_mul_usize :: "nat \<Rightarrow> nat \<Rightarrow> nat option" where
  "checked_mul_usize a b = (if a * b < usize_bound then Some (a * b) else None)"

subsection \<open>Panics and refusals as values\<close>

text \<open>
  A routine over untrusted bytes has three ways to end: it panics (a slice out of range, a failed
  \<^verbatim>\<open>expect\<close>), it refuses (\<^verbatim>\<open>None\<close> or \<^verbatim>\<open>false\<close>), or it gives a value.
\<close>

datatype 'a outcome = Panics | Refuses | Gives 'a

primrec bind_outcome :: "'a outcome \<Rightarrow> ('a \<Rightarrow> 'b outcome) \<Rightarrow> 'b outcome" where
  "bind_outcome Panics f = Panics"
| "bind_outcome Refuses f = Refuses"
| "bind_outcome (Gives x) f = f x"

lemma bind_outcome_Gives_iff:
  "bind_outcome m f = Gives y \<longleftrightarrow> (\<exists>x. m = Gives x \<and> f x = Gives y)"
  by (cases m) auto

lemma bind_outcome_Panics_iff:
  "bind_outcome m f = Panics \<longleftrightarrow> m = Panics \<or> (\<exists>x. m = Gives x \<and> f x = Panics)"
  by (cases m) auto

lemma bind_outcome_cong [fundef_cong]:
  "m = m' \<Longrightarrow> (\<And>x. m' = Gives x \<Longrightarrow> f x = f' x) \<Longrightarrow> bind_outcome m f = bind_outcome m' f'"
  by (cases m') simp_all

lemma bind_outcome_assoc:
  "bind_outcome (bind_outcome m f) g = bind_outcome m (\<lambda>x. bind_outcome (f x) g)"
  by (cases m) simp_all

text \<open>\<^verbatim>\<open>slice::get\<close> and \<^verbatim>\<open>get(at..)\<close>.\<close>

definition get_at :: "'a list \<Rightarrow> nat \<Rightarrow> 'a option" where
  "get_at xs i = (if i < length xs then Some (xs ! i) else None)"

definition get_from :: "'a list \<Rightarrow> nat \<Rightarrow> 'a list option" where
  "get_from xs i = (if i \<le> length xs then Some (drop i xs) else None)"

lemma get_at_Some_iff: "get_at xs i = Some x \<longleftrightarrow> i < length xs \<and> xs ! i = x"
  by (auto simp: get_at_def)

lemma get_at_None_iff: "get_at xs i = None \<longleftrightarrow> length xs \<le> i"
  by (auto simp: get_at_def)

subsection \<open>Rust's Ordering\<close>

datatype cmp = CLess | CEqual | CGreater

instantiation cmp :: linorder
begin

fun cmp_rank :: "cmp \<Rightarrow> nat" where
  "cmp_rank CLess = 0" | "cmp_rank CEqual = 1" | "cmp_rank CGreater = 2"

definition less_eq_cmp :: "cmp \<Rightarrow> cmp \<Rightarrow> bool" where
  "less_eq_cmp a b \<longleftrightarrow> cmp_rank a \<le> cmp_rank b"

definition less_cmp :: "cmp \<Rightarrow> cmp \<Rightarrow> bool" where
  "less_cmp a b \<longleftrightarrow> cmp_rank a < cmp_rank b"

instance
proof
  fix a b :: cmp
  show "a \<le> b \<Longrightarrow> b \<le> a \<Longrightarrow> a = b"
    by (cases a; cases b) (auto simp: less_eq_cmp_def)
qed (auto simp: less_eq_cmp_def less_cmp_def)

end

text \<open>\<^verbatim>\<open>Ord::cmp\<close> of a linear order; on byte lists the order is the lexicographic one.\<close>

definition cmp_of :: "'a::linorder \<Rightarrow> 'a \<Rightarrow> cmp" where
  "cmp_of a b = (if a < b then CLess else if a = b then CEqual else CGreater)"

lemma cmp_of_simps [simp]:
  "cmp_of a b = CEqual \<longleftrightarrow> a = b"
  "cmp_of a b = CLess \<longleftrightarrow> a < b"
  "cmp_of a b = CGreater \<longleftrightarrow> b < a"
  by (auto simp: cmp_of_def)

subsection \<open>Lexicographic comparison of lists\<close>

text \<open>The order on lists sees past a shared prefix, and a proper prefix is below its extensions.\<close>

lemma lex_append_left [simp]:
  fixes xs :: "'a::linorder list"
  shows "xs @ ys < xs @ zs \<longleftrightarrow> ys < zs" and "xs @ ys \<le> xs @ zs \<longleftrightarrow> ys \<le> zs"
  by (induction xs) auto

lemma lex_prefix_le [simp]: "xs \<le> xs @ ys" for xs :: "'a::linorder list"
  by (induction xs) auto

lemma lex_prefix_less [simp]: "xs < xs @ ys \<longleftrightarrow> ys \<noteq> []" for xs :: "'a::linorder list"
  by (induction xs) (cases ys, simp_all)

lemma cmp_of_append [simp]:
  fixes xs :: "'a::linorder list"
  shows "cmp_of (xs @ ys) (xs @ zs) = cmp_of ys zs"
  by (simp add: cmp_of_def)

lemma cmp_of_Cons [simp]:
  fixes x y :: "'a::linorder"
  shows "cmp_of (x # xs) (y # ys) = (if x = y then cmp_of xs ys else cmp_of x y)"
  by (simp add: cmp_of_def)

lemma cmp_of_Nil [simp]:
  fixes xs :: "'a::linorder list"
  shows "cmp_of [] xs = (if xs = [] then CEqual else CLess)"
    and "cmp_of xs [] = (if xs = [] then CEqual else CGreater)"
  by (cases xs; simp add: cmp_of_def)+

text \<open>The number of leading elements two lists share.\<close>

fun lcp :: "'a list \<Rightarrow> 'a list \<Rightarrow> nat" where
  "lcp (x # xs) (y # ys) = (if x = y then Suc (lcp xs ys) else 0)"
| "lcp _ _ = 0"

lemma lcp_Nil [simp]: "lcp [] ys = 0" "lcp xs [] = 0"
  by simp (cases xs, simp_all)

lemma lcp_le: "lcp xs ys \<le> length xs" "lcp xs ys \<le> length ys"
  by (induction xs ys rule: lcp.induct) simp_all

lemma lcp_take: "take (lcp xs ys) xs = take (lcp xs ys) ys"
  by (induction xs ys rule: lcp.induct) simp_all

lemma lcp_append [simp]: "lcp (xs @ ys) (xs @ zs) = length xs + lcp ys zs"
  by (induction xs) simp_all

lemma lcp_comm: "lcp xs ys = lcp ys xs"
  by (induction xs ys rule: lcp.induct) simp_all

lemma lcp_nth_neq:
  "lcp xs ys < length xs \<Longrightarrow> lcp xs ys < length ys \<Longrightarrow> xs ! lcp xs ys \<noteq> ys ! lcp xs ys"
  by (induction xs ys rule: lcp.induct) (simp_all split: if_splits)

lemma less_lcp_iff:
  "i < lcp xs ys \<longleftrightarrow> i < length xs \<and> i < length ys \<and> take (Suc i) xs = take (Suc i) ys"
proof (induction xs ys arbitrary: i rule: lcp.induct)
  case (1 x xs y ys)
  then show ?case by (cases i) auto
qed simp_all

lemma lcp_drop: "lcp xs ys = k + lcp (drop k xs) (drop k ys)" if "k \<le> lcp xs ys"
  using that
proof (induction xs ys arbitrary: k rule: lcp.induct)
  case (1 x xs y ys)
  then show ?case by (cases k) (auto split: if_splits)
qed simp_all

lemma cmp_of_lcp:
  fixes xs ys :: "'a::linorder list"
  shows "cmp_of xs ys =
    (if lcp xs ys = length xs then (if length xs = length ys then CEqual else CLess)
     else if lcp xs ys = length ys then CGreater
     else cmp_of (xs ! lcp xs ys) (ys ! lcp xs ys))"
  by (induction xs ys rule: lcp.induct) auto

subsection \<open>Rounded-up division\<close>

definition div_ceil :: "nat \<Rightarrow> nat \<Rightarrow> nat" where
  "div_ceil a b = a div b + (if a mod b = 0 then 0 else 1)"

lemma div_ceil_mult: "div_ceil a b * b = a div b * b + (if a mod b = 0 then 0 else b)"
  by (simp add: div_ceil_def distrib_right)

lemma div_ceil_bounds:
  assumes "0 < b"
  shows "a \<le> div_ceil a b * b" and "div_ceil a b * b < a + b"
proof -
  have e: "a div b * b + a mod b = a" by (rule div_mult_mod_eq)
  have m: "a mod b < b" using assms by simp
  have d: "div_ceil a b * b = a div b * b + (if a mod b = 0 then 0 else b)"
    by (rule div_ceil_mult)
  consider "a mod b = 0" "div_ceil a b * b = a div b * b" | "a mod b > 0" "div_ceil a b * b = a div b * b + b"
    using d by (cases "a mod b = 0") auto
  then have "a \<le> div_ceil a b * b \<and> div_ceil a b * b < a + b"
  proof cases
    case 1
    with e assms show ?thesis by linarith
  next
    case 2
    with e m show ?thesis by linarith
  qed
  then show "a \<le> div_ceil a b * b" and "div_ceil a b * b < a + b" by simp_all
qed

lemmas div_ceil_mult_ge = div_ceil_bounds(1)
lemmas div_ceil_less = div_ceil_bounds(2)

lemma div_ceil_le_iff: "0 < b \<Longrightarrow> div_ceil a b \<le> c \<longleftrightarrow> a \<le> c * b"
proof
  assume b: "0 < b"
  show "a \<le> c * b" if "div_ceil a b \<le> c"
    using div_ceil_mult_ge [OF b, of a] mult_le_mono1 [OF that, of b] by linarith
  show "div_ceil a b \<le> c" if "a \<le> c * b"
  proof (rule ccontr)
    assume "\<not> div_ceil a b \<le> c"
    then have "Suc c * b \<le> div_ceil a b * b" by (intro mult_le_mono1) simp
    with that div_ceil_less [OF b, of a] show False by simp
  qed
qed

subsection \<open>Chunks\<close>

text \<open>\<^verbatim>\<open>slice::chunks\<close>: runs of \<open>n\<close> elements, the last one as short as what is left.\<close>

function chunks :: "nat \<Rightarrow> 'a list \<Rightarrow> 'a list list" where
  "chunks n xs = (if n = 0 \<or> xs = [] then [] else take n xs # chunks n (drop n xs))"
  by pat_completeness auto
termination by (relation "measure (\<lambda>(n, xs). length xs)") auto

declare chunks.simps [simp del]

lemma chunks_Nil [simp]: "chunks n [] = []"
  by (simp add: chunks.simps)

lemma div_ceil_0 [simp]: "div_ceil 0 b = 0"
  by (simp add: div_ceil_def)

lemma div_ceil_step: "0 < n \<Longrightarrow> 0 < a \<Longrightarrow> div_ceil a n = Suc (div_ceil (a - n) n)"
proof (cases "n \<le> a")
  case True
  assume "0 < n"
  then show ?thesis using True by (simp add: div_ceil_def le_div_geq le_mod_geq)
next
  case False
  assume "0 < n" "0 < a"
  then show ?thesis using False by (simp add: div_ceil_def)
qed

lemma length_chunks: "0 < n \<Longrightarrow> length (chunks n xs) = div_ceil (length xs) n"
proof (induction n xs rule: chunks.induct)
  case (1 n xs)
  then show ?case
    using div_ceil_step [of n "length xs"] by (subst chunks.simps) (cases "xs = []", simp_all)
qed

lemma nth_chunks:
  "0 < n \<Longrightarrow> j < length (chunks n xs) \<Longrightarrow> chunks n xs ! j = take n (drop (j * n) xs)"
proof (induction n xs arbitrary: j rule: chunks.induct)
  case (1 n xs)
  then have xs: "xs \<noteq> []" by auto
  then have e: "chunks n xs = take n xs # chunks n (drop n xs)"
    using 1(2) by (subst chunks.simps) simp
  show ?case
  proof (cases j)
    case 0
    then show ?thesis by (simp add: e)
  next
    case (Suc k)
    then show ?thesis using 1 xs by (simp add: e add.commute)
  qed
qed

lemma less_length_chunks:
  assumes "0 < n" "i < length xs"
  shows "i div n < length (chunks n xs)"
proof -
  have "i div n * n \<le> i" by (rule div_times_less_eq_dividend)
  then have "\<not> div_ceil (length xs) n \<le> i div n"
    using assms div_ceil_mult_ge [of n "length xs"] mult_le_mono1 [of "div_ceil (length xs) n" "i div n" n]
    by linarith
  then show ?thesis using assms by (simp add: length_chunks)
qed

subsection \<open>Numbers\<close>

text \<open>\<^verbatim>\<open>BITS - x.leading_zeros()\<close>: the bits a number takes.\<close>

fun bit_len :: "nat \<Rightarrow> nat" where
  "bit_len n = (if n = 0 then 0 else Suc (bit_len (n div 2)))"

declare bit_len.simps [simp del]

lemma bit_len_le_iff: "bit_len n \<le> k \<longleftrightarrow> n < 2 ^ k"
proof (induction n arbitrary: k rule: bit_len.induct)
  case (1 n)
  show ?case
  proof (cases "n = 0")
    case True
    then show ?thesis by (simp add: bit_len.simps)
  next
    case False
    then have e: "bit_len n = Suc (bit_len (n div 2))" by (subst bit_len.simps) simp
    show ?thesis
    proof (cases k)
      case 0
      with False e show ?thesis by simp
    next
      case (Suc m)
      have "n div 2 < 2 ^ m \<longleftrightarrow> n < 2 ^ m * 2" by (rule div_less_iff_less_mult) simp
      with Suc e 1 False show ?thesis by (simp add: mult.commute)
    qed
  qed
qed

lemma less_bit_len: "n < 2 ^ bit_len n"
  using bit_len_le_iff [of n "bit_len n"] by simp


lemma div_power_less: "(a::nat) < 2 ^ (m + n) \<Longrightarrow> a div 2 ^ m < 2 ^ n"
  by (simp add: less_mult_imp_div_less power_add mult.commute)

lemma mod_power_div:
  "((a::nat) mod 2 ^ (m + n)) div 2 ^ m = (a div 2 ^ m) mod 2 ^ n"
  by (metis drop_bit_eq_div drop_bit_take_bit take_bit_eq_mod add_diff_cancel_left')

lemma mod_power_mod:
  "n \<le> m \<Longrightarrow> ((a::nat) mod 2 ^ m) mod 2 ^ n = a mod 2 ^ n"
  by (simp add: le_imp_power_dvd mod_mod_cancel)

lemma power_256: "(256::nat) ^ n = 2 ^ (8 * n)"
  by (simp add: power_mult)

end
