(* ===== verification/Le_Bytes.thy ===== *)
theory Le_Bytes
  imports Prelude
begin

text \<open>
  Little-endian numbers and bit streams over byte lists: what \<^verbatim>\<open>to_le_bytes\<close> and
  \<^verbatim>\<open>from_le_bytes\<close> compute, the number a byte list denotes, the field of \<open>w\<close> bits at a bit
  position of it, and the lemma every packed reader rests on: an eight-byte load, a shift of less
  than eight and a mask read exactly that field.
\<close>

subsection \<open>The number a byte list denotes\<close>

primrec le_nat :: "bytes \<Rightarrow> nat" where
  "le_nat [] = 0"
| "le_nat (b # bs) = unat b + 256 * le_nat bs"

primrec le_bytes :: "nat \<Rightarrow> nat \<Rightarrow> bytes" where
  "le_bytes 0 x = []"
| "le_bytes (Suc n) x = of_nat x # le_bytes n (x div 256)"

lemma length_le_bytes [simp]: "length (le_bytes n x) = n"
  by (induction n arbitrary: x) simp_all

lemma unat_of_nat_u8: "unat (of_nat x :: u8) = x mod 256"
  by (simp add: unat_of_nat)

lemma unat_less_power: "unat (w :: 'a::len word) < 2 ^ LENGTH('a)"
  by (rule unsigned_less)

lemma unat_u8_less [simp]: "unat (b :: u8) < 256"
  using unat_less_power [of b] by simp

lemma le_nat_le_bytes: "le_nat (le_bytes n x) = x mod 256 ^ n"
proof (induction n arbitrary: x)
  case (Suc n)
  have "x mod 256 + 256 * (x div 256 mod 256 ^ n) = x mod (256 * 256 ^ n)"
    by (simp add: mod_mult2_eq)
  then show ?case by (simp add: Suc unat_of_nat_u8)
qed simp

lemma le_bytes_le_nat: "length bs = n \<Longrightarrow> le_bytes n (le_nat bs) = bs"
proof (induction bs arbitrary: n)
  case (Cons b bs)
  have "of_nat (unat b + 256 * le_nat bs) = b"
    by (rule word_unat_eq_iff [THEN iffD2]) (simp only: unat_of_nat_u8, simp)
  moreover have "(unat b + 256 * le_nat bs) div 256 = le_nat bs"
    using unat_u8_less [of b] by simp
  ultimately show ?case using Cons by auto
qed simp

lemma le_nat_append: "le_nat (xs @ ys) = le_nat xs + 256 ^ length xs * le_nat ys"
  by (induction xs) (simp_all add: algebra_simps)

lemma le_nat_less: "le_nat bs < 256 ^ length bs"
proof (induction bs)
  case (Cons b bs)
  have "256 * le_nat bs + 256 \<le> 256 * 256 ^ length bs"
    using Cons by (metis Suc_leI mult_Suc_right mult_le_mono2 add.commute)
  moreover have "unat b < 256" by simp
  ultimately have "unat b + 256 * le_nat bs < 256 * 256 ^ length bs" by linarith
  then show ?case by simp
qed simp

lemma le_nat_less_power2: "le_nat bs < 2 ^ (8 * length bs)"
  using le_nat_less [of bs] by (simp add: power_256)

lemma le_nat_replicate_0 [simp]: "le_nat (replicate n 0) = 0"
  by (induction n) simp_all

lemma le_nat_inj: "length xs = length ys \<Longrightarrow> le_nat xs = le_nat ys \<longleftrightarrow> xs = ys"
  by (metis le_bytes_le_nat)

lemma le_nat_take: "le_nat (take k bs) = le_nat bs mod 256 ^ k"
proof (cases "k \<le> length bs")
  case True
  have "le_nat bs = le_nat (take k bs) + 256 ^ k * le_nat (drop k bs)"
    using le_nat_append [of "take k bs" "drop k bs"] True by simp
  then show ?thesis using le_nat_less [of "take k bs"] True by simp
next
  case False
  then have "le_nat bs < 256 ^ k"
    using le_nat_less [of bs] by (meson le_less_trans less_le_trans nat_le_linear power_increasing
      one_le_numeral order_less_imp_le)
  then show ?thesis using False by simp
qed

lemma le_nat_drop: "le_nat (drop k bs) = le_nat bs div 256 ^ k"
proof (cases "k \<le> length bs")
  case True
  have "le_nat bs = le_nat (take k bs) + 256 ^ k * le_nat (drop k bs)"
    using le_nat_append [of "take k bs" "drop k bs"] True by simp
  then show ?thesis using le_nat_less [of "take k bs"] True by simp
next
  case False
  then have "le_nat bs < 256 ^ k"
    using le_nat_less [of bs] by (meson le_less_trans less_le_trans nat_le_linear power_increasing
      one_le_numeral order_less_imp_le)
  then show ?thesis using False by simp
qed

subsection \<open>Words and their bytes\<close>

text \<open>\<^verbatim>\<open>u64::from_le_bytes\<close> and \<^verbatim>\<open>to_le_bytes\<close>, and the same at four and two bytes.\<close>

definition u64_of :: "bytes \<Rightarrow> u64" where
  "u64_of bs = of_nat (le_nat bs)"

definition u64_bytes :: "u64 \<Rightarrow> bytes" where
  "u64_bytes w = le_bytes 8 (unat w)"

definition u32_of :: "bytes \<Rightarrow> u32" where
  "u32_of bs = of_nat (le_nat bs)"

definition u32_bytes :: "u32 \<Rightarrow> bytes" where
  "u32_bytes w = le_bytes 4 (unat w)"

lemma length_word_bytes [simp]: "length (u64_bytes w) = 8" "length (u32_bytes v) = 4"
  by (simp_all add: u64_bytes_def u32_bytes_def)

lemma le_nat_word_bytes [simp]:
  "le_nat (u64_bytes w) = unat w" "le_nat (u32_bytes v) = unat v"
  using unat_less_power [of w] unat_less_power [of v]
  by (simp_all add: u64_bytes_def u32_bytes_def le_nat_le_bytes)

lemma u64_of_bytes [simp]: "u64_of (u64_bytes w) = w"
  by (simp add: u64_of_def)

lemma u32_of_bytes [simp]: "u32_of (u32_bytes w) = w"
  by (simp add: u32_of_def)

text \<open>The same for two bytes.\<close>

definition u16_bytes :: "u16 \<Rightarrow> bytes" where
  "u16_bytes w = le_bytes 2 (unat w)"

lemma u16_bytes_word: "length (u16_bytes w) = 2" "of_nat (le_nat (u16_bytes w)) = w"
proof -
  show "length (u16_bytes w) = 2" by (simp add: u16_bytes_def)
  have "unat w < 256 ^ 2" using unat_less_power [of w] by simp
  then show "of_nat (le_nat (u16_bytes w)) = w" by (simp add: u16_bytes_def le_nat_le_bytes)
qed

lemma unat_u64_of: "length bs \<le> 8 \<Longrightarrow> unat (u64_of bs) = le_nat bs"
proof -
  assume "length bs \<le> 8"
  then have "(256::nat) ^ length bs \<le> 256 ^ 8" by (intro power_increasing) simp_all
  then have "le_nat bs < 2 ^ 64" using le_nat_less [of bs] by simp
  then show ?thesis by (simp add: u64_of_def unat_of_nat)
qed

lemma u64_bytes_of: "length bs = 8 \<Longrightarrow> u64_bytes (u64_of bs) = bs"
  by (simp add: u64_bytes_def unat_u64_of le_bytes_le_nat)

text \<open>
  Eight bytes at an offset, the ones past the end read as zero: a whole word where eight are
  left and a word assembled in a zeroed buffer where fewer are.
\<close>

definition load8 :: "bytes \<Rightarrow> nat \<Rightarrow> u64" where
  "load8 bs at = u64_of (take 8 (drop at bs))"

lemma unat_load8: "unat (load8 bs at) = le_nat bs div 256 ^ at mod 256 ^ 8"
  by (simp add: load8_def unat_u64_of le_nat_take le_nat_drop)

lemma drop_concat_words:
  "j \<le> length ws \<Longrightarrow> drop (j * 8) (concat (map u64_bytes ws)) = concat (map u64_bytes (drop j ws))"
proof (induction ws arbitrary: j)
  case (Cons w ws)
  then show ?case by (cases j) simp_all
qed simp

lemma load8_concat_words:
  assumes "j < length ws"
  shows "load8 (concat (map u64_bytes ws)) (j * 8) = ws ! j"
proof -
  have "drop j ws = ws ! j # drop (Suc j) ws" using assms by (simp add: Cons_nth_drop_Suc)
  then show ?thesis using assms by (simp add: load8_def drop_concat_words)
qed

lemma length_concat_words [simp]: "length (concat (map u64_bytes ws)) = length ws * 8"
  by (induction ws) simp_all

subsection \<open>Masks and fields\<close>

text \<open>\<^verbatim>\<open>(1u64 << k) - 1\<close>, the word of \<open>k\<close> low ones.\<close>

definition low_ones :: "nat \<Rightarrow> u64" where
  "low_ones k = push_bit k 1 - 1"

lemma low_ones_mask: "low_ones k = mask k"
  by (simp add: low_ones_def mask_eq_exp_minus_1 push_bit_eq_mult)

lemma unat_and_mask: "unat (w AND mask k) = unat w mod 2 ^ k"
  by (simp only: take_bit_eq_mask [symmetric] unsigned_take_bit_eq take_bit_eq_mod [where 'a = nat])

lemma unat_and_low_ones: "unat (w AND low_ones k) = unat w mod 2 ^ k"
  by (simp add: low_ones_mask unat_and_mask)

lemma unat_drop_bit: "unat (drop_bit k w) = unat w div 2 ^ k"
  by (simp only: unsigned_drop_bit_eq take_bit_nat_eq_self [OF unsigned_less]
      drop_bit_eq_div [where 'a = nat])

lemma unat_push_bit: "unat (push_bit k (w::'a::len word)) = (2 ^ k * unat w) mod 2 ^ LENGTH('a)"
  by (simp only: unsigned_push_bit_eq take_bit_eq_mod push_bit_eq_mult [where 'a = nat] mult.commute)

text \<open>The \<open>w\<close> bits at bit \<open>pos\<close> of the number the bytes denote.\<close>

definition field_at :: "nat \<Rightarrow> nat \<Rightarrow> nat \<Rightarrow> nat" where
  "field_at n pos w = n div 2 ^ pos mod 2 ^ w"

lemma field_at_less [simp]: "field_at n pos w < 2 ^ w"
  by (simp add: field_at_def)

lemma load_field:
  assumes "s + w \<le> 64"
  shows "unat (drop_bit s (load8 bs at) AND low_ones w) = field_at (le_nat bs) (8 * at + s) w"
proof -
  have "64 = s + (64 - s)" using assms by simp
  then have "le_nat bs div 256 ^ at mod 256 ^ 8 div 2 ^ s
      = le_nat bs div 256 ^ at div 2 ^ s mod 2 ^ (64 - s)"
    using mod_power_div [of "le_nat bs div 256 ^ at" s "64 - s"] by (simp add: power_256)
  then have "unat (drop_bit s (load8 bs at)) = le_nat bs div 2 ^ (8 * at + s) mod 2 ^ (64 - s)"
    by (simp add: unat_drop_bit unat_load8 power_256 div_mult2_eq power_add)
  then show ?thesis
    using assms by (simp add: unat_and_low_ones field_at_def mod_power_mod)
qed

lemma load_field_bit:
  assumes "w \<le> 56"
  shows "unat (drop_bit (p mod 8) (load8 bs (p div 8)) AND low_ones w) = field_at (le_nat bs) p w"
proof -
  have "p mod 8 < 8" by simp
  with assms have "p mod 8 + w \<le> 64" by linarith
  from load_field [OF this, of bs "p div 8"] show ?thesis by simp
qed

subsection \<open>Numbers made of fields\<close>

text \<open>The number whose \<open>w\<close>-bit digits, lowest first, are the list's elements.\<close>

primrec digits :: "nat \<Rightarrow> nat list \<Rightarrow> nat" where
  "digits w [] = 0"
| "digits w (x # xs) = x + 2 ^ w * digits w xs"

lemma digits_append: "digits w (xs @ ys) = digits w xs + 2 ^ (w * length xs) * digits w ys"
  by (induction xs) (simp_all add: algebra_simps power_add)

lemma digits_less: "\<forall>x\<in>set xs. x < 2 ^ w \<Longrightarrow> digits w xs < 2 ^ (w * length xs)"
proof (induction xs)
  case (Cons x xs)
  then have "2 ^ w * (digits w xs + 1) \<le> 2 ^ w * 2 ^ (w * length xs)"
    by (intro mult_le_mono2) simp
  with Cons.prems show ?case by (simp add: power_add)
qed simp

lemma digits_drop:
  "\<forall>x\<in>set xs. x < 2 ^ w \<Longrightarrow> i \<le> length xs \<Longrightarrow> digits w xs div 2 ^ (w * i) = digits w (drop i xs)"
proof -
  assume x: "\<forall>x\<in>set xs. x < 2 ^ w" and i: "i \<le> length xs"
  then have "\<forall>x\<in>set (take i xs). x < 2 ^ w" by (meson in_set_takeD)
  then have "digits w (take i xs) < 2 ^ (w * i)"
    using digits_less [of "take i xs" w] i by simp
  then show ?thesis using digits_append [of w "take i xs" "drop i xs"] i by simp
qed

lemma digits_field:
  assumes "\<forall>x\<in>set xs. x < 2 ^ w" "i < length xs"
  shows "field_at (digits w xs) (w * i) w = xs ! i"
proof -
  have "drop i xs = xs ! i # drop (Suc i) xs" using assms(2) by (simp add: Cons_nth_drop_Suc)
  then show ?thesis
    using assms by (simp add: field_at_def digits_drop)
qed

text \<open>What lies above the bits of a field does not touch it.\<close>

lemma field_at_plus:
  assumes "pos + w \<le> m"
  shows "field_at (n + 2 ^ m * k) pos w = field_at n pos w"
proof -
  obtain j where m: "m = pos + (w + j)" using assms by (metis add.assoc le_Suc_ex)
  have "(n + 2 ^ m * k) div 2 ^ pos = n div 2 ^ pos + 2 ^ w * (2 ^ j * k)"
    by (simp add: m power_add mult.assoc)
  then show ?thesis by (simp add: field_at_def)
qed

lemma field_at_shift: "n < 2 ^ m \<Longrightarrow> field_at (n + 2 ^ m * k) (m + pos) w = field_at k pos w"
  by (simp add: field_at_def power_add div_mult2_eq)

subsection \<open>ORing a field in is adding it\<close>

lemma or_push_bit_add:
  fixes a v :: "'a::len word"
  assumes "unat a < 2 ^ s"
  shows "a OR push_bit s v = a + push_bit s v"
proof -
  have "take_bit s a = a"
    using assms by (simp add: word_unat_eq_iff unsigned_take_bit_eq take_bit_nat_eq_self)
  then have "\<not> bit a n" if "s \<le> n" for n
    using that by (metis bit_take_bit_iff leD)
  then have "a AND push_bit s v = 0"
    by (intro bit_eqI) (auto simp: bit_simps)
  then show ?thesis by (simp add: disjunctive_add_eq_or)
qed

lemma unat_or_push_bit:
  fixes a v :: "'a::len word"
  assumes "unat a < 2 ^ s" "unat v < 2 ^ w" "s + w \<le> LENGTH('a)"
  shows "unat (a OR push_bit s v) = unat a + 2 ^ s * unat v"
proof -
  have "2 ^ s * (unat v + 1) \<le> 2 ^ s * 2 ^ w" using assms(2) by (intro mult_le_mono2) simp
  also have "\<dots> \<le> 2 ^ LENGTH('a)" using assms(3) by (metis power_add power_increasing one_le_numeral)
  finally have m: "2 ^ s * unat v + 2 ^ s \<le> 2 ^ LENGTH('a)" by simp
  moreover have "0 < (2::nat) ^ s" by simp
  ultimately have "2 ^ s * unat v < 2 ^ LENGTH('a)" by linarith
  then have "unat (push_bit s v) = 2 ^ s * unat v" by (simp add: unat_push_bit)
  moreover note m
  ultimately show ?thesis
    using assms(1) by (simp add: or_push_bit_add unat_word_ariths)
qed

lemma nat_and_mask: "(n::nat) AND (2 ^ w - 1) = n mod 2 ^ w"
  by (simp only: mask_eq_exp_minus_1 [symmetric] take_bit_eq_mask [symmetric] take_bit_eq_mod)

end
