(* ===== verification/Offsets.thy ===== *)
theory Offsets
  imports Le_Bytes
begin

text \<open>
  \<^verbatim>\<open>src/offsets.rs\<close>: a non-decreasing array of 64-bit offsets kept as one base for every
  \<open>2 ^ shift\<close> entries and a delta of \<open>width\<close> bits for each, and the same without bases. The writer
  ORs each delta into eight bytes of a zeroed buffer; the reader loads eight bytes, shifts and
  masks. A slice out of range is a panic, which is a value of the model.
\<close>

subsection \<open>Reading and writing eight bytes in place\<close>

definition read8 :: "bytes \<Rightarrow> nat \<Rightarrow> u64 outcome" where
  "read8 bs at = (if at + 8 \<le> length bs then Gives (load8 bs at) else Panics)"

definition or_field :: "bytes \<Rightarrow> nat \<Rightarrow> u64 \<Rightarrow> bytes outcome" where
  "or_field ds p v =
    bind_outcome (read8 ds (p div 8)) (\<lambda>w.
      Gives (take (p div 8) ds @ u64_bytes (w OR push_bit (p mod 8) v) @ drop (p div 8 + 8) ds))"

subsection \<open>Sizes and widths\<close>

definition MAX_WIDTH :: nat where
  "MAX_WIDTH = 56"

definition SHIFT :: nat where
  "SHIFT = 6"

definition bases_len :: "nat \<Rightarrow> nat \<Rightarrow> nat" where
  "bases_len n shift = div_ceil n (2 ^ shift) * 8"

definition deltas_len :: "nat \<Rightarrow> nat \<Rightarrow> nat" where
  "deltas_len n width = (if n = 0 then 0 else div_ceil (n * width) 8 + 8)"

definition section_len :: "nat \<Rightarrow> nat \<Rightarrow> nat \<Rightarrow> nat option" where
  "section_len n width shift =
    Option.bind (checked_mul_usize (div_ceil n (2 ^ shift)) 8) (\<lambda>bases.
    Option.bind
      (if n = 0 then Some 0
       else Option.bind (checked_mul_usize n width) (\<lambda>b. checked_add_usize (div_ceil b 8) 8))
      (\<lambda>deltas. checked_add_usize bases deltas))"

definition width_of :: "u64 list \<Rightarrow> nat \<Rightarrow> nat" where
  "width_of values shift =
    bit_len (unat (Max (set (0 # map (\<lambda>c. last c - hd c) (chunks (2 ^ shift) values)))))"

definition packed_width_of :: "u64 list \<Rightarrow> nat" where
  "packed_width_of values = bit_len (unat (Max (set (0 # values))))"

subsection \<open>Packing\<close>

text \<open>One pass over the values from index \<open>i\<close> on, each put where its index says.\<close>

fun put_all :: "nat \<Rightarrow> (nat \<Rightarrow> u64 \<Rightarrow> u64) \<Rightarrow> nat \<Rightarrow> u64 list \<Rightarrow> bytes \<Rightarrow> bytes outcome" where
  "put_all width delta i [] ds = Gives ds"
| "put_all width delta i (v # vs) ds =
    bind_outcome (or_field ds (i * width) (delta i v)) (put_all width delta (Suc i) vs)"

definition pack :: "u64 list \<Rightarrow> nat \<Rightarrow> nat \<Rightarrow> (bytes \<times> bytes) outcome" where
  "pack values shift width =
    bind_outcome
      (put_all width (\<lambda>i v. v - values ! (i div 2 ^ shift * 2 ^ shift)) 0 values
        (replicate (deltas_len (length values) width) 0))
      (\<lambda>deltas. Gives (concat (map (\<lambda>c. u64_bytes (hd c)) (chunks (2 ^ shift) values)), deltas))"

definition packed_pack :: "u64 list \<Rightarrow> nat \<Rightarrow> bytes outcome" where
  "packed_pack values width =
    put_all width (\<lambda>i v. v) 0 values (replicate (deltas_len (length values) width) 0)"

subsection \<open>Reading\<close>

record packed =
  p_deltas :: bytes
  p_width :: nat

definition packed_at :: "packed \<Rightarrow> nat \<Rightarrow> u64 outcome" where
  "packed_at p i = (let b = i * p_width p in
    bind_outcome (read8 (p_deltas p) (b div 8)) (\<lambda>w.
      Gives (drop_bit (b mod 8) w AND low_ones (p_width p))))"

definition packed_pair :: "packed \<Rightarrow> nat \<Rightarrow> (u64 \<times> u64) outcome" where
  "packed_pair p i =
    (if 2 * p_width p + 7 > 64
     then bind_outcome (packed_at p i) (\<lambda>x. bind_outcome (packed_at p (i + 1)) (\<lambda>y. Gives (x, y)))
     else let b = i * p_width p in
       bind_outcome (read8 (p_deltas p) (b div 8)) (\<lambda>w0. let w = drop_bit (b mod 8) w0 in
         Gives (w AND low_ones (p_width p), drop_bit (p_width p) w AND low_ones (p_width p))))"

record offsets =
  o_bases :: bytes
  o_deltas :: bytes
  o_width :: nat
  o_shift :: nat

definition offsets_at :: "offsets \<Rightarrow> nat \<Rightarrow> u64 outcome" where
  "offsets_at f i =
    bind_outcome (read8 (o_bases f) (i div 2 ^ o_shift f * 8)) (\<lambda>base. let b = i * o_width f in
    bind_outcome (read8 (o_deltas f) (b div 8)) (\<lambda>w.
      Gives (base + (drop_bit (b mod 8) w AND low_ones (o_width f)))))"

definition offsets_pair :: "offsets \<Rightarrow> nat \<Rightarrow> (u64 \<times> u64) outcome" where
  "offsets_pair f i =
    (if 2 * o_width f + 7 > 64
     then bind_outcome (offsets_at f i) (\<lambda>x. bind_outcome (offsets_at f (i + 1)) (\<lambda>y. Gives (x, y)))
     else let j = i div 2 ^ o_shift f; k = (i + 1) div 2 ^ o_shift f in
       bind_outcome (read8 (o_bases f) (j * 8)) (\<lambda>first.
       bind_outcome (if j = k then Gives first else read8 (o_bases f) (k * 8)) (\<lambda>second.
       let b = i * o_width f in
       bind_outcome (read8 (o_deltas f) (b div 8)) (\<lambda>w0. let w = drop_bit (b mod 8) w0 in
         Gives (first + (w AND low_ones (o_width f)),
                second + (drop_bit (o_width f) w AND low_ones (o_width f)))))))"

definition offsets_len :: "offsets \<Rightarrow> nat" where
  "offsets_len f = length (o_bases f) + length (o_deltas f)"

subsection \<open>Adding a field in place\<close>

lemma le_nat_splice:
  assumes "at + length new \<le> length ds"
  shows "le_nat (take at ds @ new @ drop (at + length new) ds) + 256 ^ at * le_nat (take (length new) (drop at ds))
    = le_nat ds + 256 ^ at * le_nat new"
proof -
  have "ds = take at ds @ take (length new) (drop at ds) @ drop (at + length new) ds"
    by (metis add.commute append_take_drop_id drop_drop)
  then have "le_nat ds = le_nat (take at ds @ take (length new) (drop at ds) @ drop (at + length new) ds)"
    by simp
  then show ?thesis using assms by (simp add: le_nat_append algebra_simps min_def)
qed

lemma or_field_adds:
  assumes "p div 8 + 8 \<le> length ds" "le_nat ds < 2 ^ p" "unat v < 2 ^ w" "w \<le> 56"
  obtains ds' where "or_field ds p v = Gives ds'" "length ds' = length ds"
    "le_nat ds' = le_nat ds + 2 ^ p * unat v"
proof (rule that)
  let ?at = "p div 8" and ?s = "p mod 8"
  let ?w = "load8 ds ?at OR push_bit ?s v"
  let ?ds' = "take ?at ds @ u64_bytes ?w @ drop (?at + 8) ds"
  have p: "p = 8 * ?at + ?s" by simp
  have "le_nat ds div 256 ^ ?at < 2 ^ ?s"
    using assms(2) div_power_less [of "le_nat ds" "8 * ?at" ?s] p by (simp add: power_256)
  then have a: "unat (load8 ds ?at) < 2 ^ ?s"
    by (simp add: unat_load8)
  have "?s < 8" by simp
  then have "?s + w \<le> 64" using assms(4) by linarith
  then have w: "unat ?w = unat (load8 ds ?at) + 2 ^ ?s * unat v"
    by (intro unat_or_push_bit [OF a assms(3)]) simp
  show "or_field ds p v = Gives ?ds'" using assms(1) by (simp add: or_field_def read8_def)
  show "length ?ds' = length ds" using assms(1) by simp
  have "unat (load8 ds ?at) = le_nat (take 8 (drop ?at ds))"
    by (simp add: load8_def unat_u64_of)
  moreover have "(2::nat) ^ p = 256 ^ ?at * 2 ^ ?s"
    by (subst p) (simp only: power_add power_256)
  ultimately show "le_nat ?ds' = le_nat ds + 2 ^ p * unat v"
    using le_nat_splice [of ?at "u64_bytes ?w" ds] assms(1) w by (simp add: algebra_simps)
qed

subsection \<open>What the buffer holds after packing\<close>

lemma put_all_digits:
  assumes "w \<le> 56"
    and "\<forall>(k, v) \<in> set (enumerate i vs). unat (delta k v) < 2 ^ w"
    and "le_nat ds < 2 ^ (i * w)"
    and "vs \<noteq> [] \<Longrightarrow> (i + length vs) * w \<le> 8 * (length ds - 8) \<and> 8 \<le> length ds"
  shows "\<exists>ds'. put_all w delta i vs ds = Gives ds' \<and> length ds' = length ds \<and>
    le_nat ds' = le_nat ds + 2 ^ (i * w) * digits w (map (\<lambda>(k, v). unat (delta k v)) (enumerate i vs))"
  using assms(2-)
proof (induction vs arbitrary: i ds)
  case (Cons v vs)
  let ?p = "i * w"
  have room: "(i + length (v # vs)) * w \<le> 8 * (length ds - 8)" "8 \<le> length ds"
    using Cons.prems(3) by simp_all
  have "?p \<le> (i + length (v # vs)) * w" by (intro mult_le_mono1) simp
  then have "?p div 8 + 8 \<le> length ds" using room by linarith
  moreover have fits: "unat (delta i v) < 2 ^ w" using Cons.prems(1) by simp
  ultimately obtain d1 where d1: "or_field ds ?p (delta i v) = Gives d1" "length d1 = length ds"
    "le_nat d1 = le_nat ds + 2 ^ ?p * unat (delta i v)"
    by (rule or_field_adds [OF _ Cons.prems(2) _ assms(1)])
  have "2 ^ ?p * (unat (delta i v) + 1) \<le> 2 ^ ?p * 2 ^ w"
    using fits by (intro mult_le_mono2) simp
  then have "le_nat d1 < 2 ^ (Suc i * w)"
    using d1(3) Cons.prems(2) by (simp add: power_add mult.commute)
  moreover have "\<forall>(k, v) \<in> set (enumerate (Suc i) vs). unat (delta k v) < 2 ^ w"
    using Cons.prems(1) by simp
  moreover have "(Suc i + length vs) * w \<le> 8 * (length d1 - 8) \<and> 8 \<le> length d1"
    using room d1(2) by simp
  ultimately obtain d2 where "put_all w delta (Suc i) vs d1 = Gives d2" "length d2 = length d1"
    "le_nat d2 = le_nat d1 + 2 ^ (Suc i * w) *
      digits w (map (\<lambda>(k, v). unat (delta k v)) (enumerate (Suc i) vs))"
    using Cons.IH [of "Suc i" d1] by blast
  then show ?case using d1 by (simp add: algebra_simps power_add)
qed simp

lemma deltas_len_room: "n \<noteq> 0 \<Longrightarrow> n * w \<le> 8 * (deltas_len n w - 8) \<and> 8 \<le> deltas_len n w"
  using div_ceil_mult_ge [of 8 "n * w"] by (simp add: deltas_len_def mult.commute)

lemma put_all_zeroed:
  assumes "w \<le> 56" and "\<forall>i<length vs. unat (delta i (vs ! i)) < 2 ^ w"
  obtains ds where "put_all w delta 0 vs (replicate (deltas_len (length vs) w) 0) = Gives ds"
    "length ds = deltas_len (length vs) w"
    "\<And>i. i < length vs \<Longrightarrow> i * w div 8 + 8 \<le> length ds \<and>
      field_at (le_nat ds) (i * w) w = unat (delta i (vs ! i))"
proof -
  let ?e = "map (\<lambda>(k, v). unat (delta k v)) (enumerate 0 vs)"
  let ?z = "replicate (deltas_len (length vs) w) (0 :: u8)"
  have all: "\<forall>(k, v) \<in> set (enumerate 0 vs). unat (delta k v) < 2 ^ w"
    using assms(2) by (auto simp: in_set_enumerate_eq)
  have z: "le_nat ?z < 2 ^ (0 * w)" by simp
  have r: "vs \<noteq> [] \<Longrightarrow> (0 + length vs) * w \<le> 8 * (length ?z - 8) \<and> 8 \<le> length ?z"
    using deltas_len_room [of "length vs" w] by simp
  obtain ds where ds: "put_all w delta 0 vs ?z = Gives ds" "length ds = length ?z"
    "le_nat ds = le_nat ?z + 2 ^ (0 * w) * digits w ?e"
    using put_all_digits [OF assms(1) all z r] by blast
  have e: "\<forall>x \<in> set ?e. x < 2 ^ w" using all by auto
  show ?thesis
  proof (rule that)
    show "put_all w delta 0 vs ?z = Gives ds" by (rule ds)
    show "length ds = deltas_len (length vs) w" using ds by simp
    fix i assume i: "i < length vs"
    then have "i * w \<le> length vs * w" by simp
    then have "i * w div 8 + 8 \<le> length ds"
      using deltas_len_room [of "length vs" w] i ds(2) by (simp; linarith)
    moreover have "field_at (le_nat ds) (i * w) w = unat (delta i (vs ! i))"
      using digits_field [OF e, of i] ds(3) i by (simp add: mult.commute nth_enumerate_eq)
    ultimately show "i * w div 8 + 8 \<le> length ds \<and>
      field_at (le_nat ds) (i * w) w = unat (delta i (vs ! i))" by simp
  qed
qed

subsection \<open>The narrowest width\<close>

lemma bit_len_Max_le_iff:
  assumes "finite S" "S \<noteq> {}"
  shows "bit_len (unat (Max S)) \<le> w \<longleftrightarrow> (\<forall>x \<in> S. unat (x::u64) < 2 ^ w)"
  unfolding bit_len_le_iff
proof
  assume m: "unat (Max S) < 2 ^ w"
  have "unat x \<le> unat (Max S)" if "x \<in> S" for x
    using Max_ge [OF assms(1) that] by (simp only: word_le_nat_alt)
  then show "\<forall>x \<in> S. unat x < 2 ^ w" using m by (meson le_less_trans)
next
  assume "\<forall>x \<in> S. unat x < 2 ^ w"
  then show "unat (Max S) < 2 ^ w" using Max_in [OF assms] by blast
qed

lemma width_of_le_iff:
  "width_of values shift \<le> w \<longleftrightarrow> (\<forall>c \<in> set (chunks (2 ^ shift) values). unat (last c - hd c) < 2 ^ w)"
  unfolding width_of_def by (subst bit_len_Max_le_iff) auto

lemma packed_width_of_le_iff: "packed_width_of values \<le> w \<longleftrightarrow> (\<forall>v \<in> set values. unat v < 2 ^ w)"
  unfolding packed_width_of_def by (subst bit_len_Max_le_iff) auto

text \<open>Entry \<open>i\<close> belongs to chunk \<open>i div 2 ^ shift\<close>, which opens at its base.\<close>

lemma chunk_of:
  assumes "i < length xs" "0 < n"
  shows "i div n < length (chunks n xs)"
    "hd (chunks n xs ! (i div n)) = xs ! (i div n * n)"
    "xs ! i \<in> set (chunks n xs ! (i div n))"
proof -
  show l: "i div n < length (chunks n xs)" using assms by (rule less_length_chunks [rotated])
  have b: "i div n * n \<le> i" by (rule div_times_less_eq_dividend)
  have c: "chunks n xs ! (i div n) = take n (drop (i div n * n) xs)"
    using assms l by (simp add: nth_chunks)
  show "hd (chunks n xs ! (i div n)) = xs ! (i div n * n)"
    using assms le_less_trans [OF b assms(1)] by (simp add: c hd_take hd_drop_conv_nth)
  have "i div n * n \<le> length xs" using le_less_trans [OF b assms(1)] by (rule less_imp_le)
  then have "take n (drop (i div n * n) xs) ! (i mod n) = xs ! (i div n * n + i mod n)"
    using assms(2) by (simp only: nth_take mod_less_divisor nth_drop)
  then have "take n (drop (i div n * n) xs) ! (i mod n) = xs ! i"
    by (simp only: div_mult_mod_eq)
  moreover have "i mod n < length (take n (drop (i div n * n) xs))"
    using assms b div_mult_mod_eq [of i n] mod_less_divisor [of n i] by (simp; linarith)
  ultimately show "xs ! i \<in> set (chunks n xs ! (i div n))"
    unfolding c by (metis nth_mem)
qed

lemma sorted_chunk: "sorted xs \<Longrightarrow> c \<in> set (chunks n xs) \<Longrightarrow> sorted c \<and> c \<noteq> []"
proof (induction n xs rule: chunks.induct)
  case (1 n xs)
  then have "n \<noteq> 0" "xs \<noteq> []" by (auto simp: chunks.simps [of n xs] split: if_splits)
  with 1 show ?case
    by (auto simp: chunks.simps [of n xs] sorted_wrt_take sorted_wrt_drop)
qed

lemma sorted_hd_last:
  assumes "sorted c" "(x::'a::linorder) \<in> set c"
  shows "hd c \<le> x" "x \<le> last c"
proof -
  from assms(2) obtain i where i: "i < length c" "x = c ! i" by (metis in_set_conv_nth)
  then have "hd c = c ! 0" "last c = c ! (length c - 1)" by (cases c; simp add: last_conv_nth)+
  with i assms(1) show "hd c \<le> x" "x \<le> last c" by (simp_all add: sorted_nth_mono)
qed

lemma delta_fits:
  assumes "sorted values" "width_of values shift \<le> w" "i < length values"
  shows "unat (values ! i - values ! (i div 2 ^ shift * 2 ^ shift)) < 2 ^ w"
proof -
  let ?c = "chunks (2 ^ shift) values ! (i div 2 ^ shift)"
  note c = chunk_of [OF assms(3), of "2 ^ shift"]
  have m: "?c \<in> set (chunks (2 ^ shift) values)" using c(1) by simp
  then have "sorted ?c" using sorted_chunk [OF assms(1)] by blast
  moreover have "values ! i \<in> set ?c" using c(3) by simp
  ultimately have le: "hd ?c \<le> values ! i" "values ! i \<le> last ?c"
    by (rule sorted_hd_last)+
  then have "unat (values ! i - hd ?c) \<le> unat (last ?c - hd ?c)"
    by (simp add: unat_sub word_le_nat_alt)
  also have "\<dots> < 2 ^ w" using assms(2) m by (simp add: width_of_le_iff)
  finally show ?thesis using c(2) by simp
qed

subsection \<open>Reading back\<close>

lemma masked_field_val:
  assumes "w \<le> 56" "field_at (le_nat ds) p w = unat v"
  shows "drop_bit (p mod 8) (load8 ds (p div 8)) AND low_ones w = v"
  by (rule word_unat_eq_iff [THEN iffD2]) (simp only: load_field_bit [OF assms(1)] assms(2))

lemma pack_reads_back:
  assumes "sorted values" "width_of values shift \<le> width" "width \<le> MAX_WIDTH"
  shows "\<exists>bases deltas. pack values shift width = Gives (bases, deltas) \<and>
    length bases = bases_len (length values) shift \<and>
    length deltas = deltas_len (length values) width \<and>
    (\<forall>i < length values.
      offsets_at \<lparr>o_bases = bases, o_deltas = deltas, o_width = width, o_shift = shift\<rparr> i
        = Gives (values ! i))"
proof -
  let ?S = "2 ^ shift :: nat"
  let ?base = "\<lambda>i. values ! (i div ?S * ?S)"
  let ?cs = "chunks ?S values"
  let ?bases = "concat (map (\<lambda>c. u64_bytes (hd c)) ?cs)"
  have w: "width \<le> 56" using assms(3) by (simp add: MAX_WIDTH_def)
  have fits: "\<forall>i < length values. unat (values ! i - ?base i) < 2 ^ width"
    using delta_fits [OF assms(1,2)] by blast
  obtain ds where ds: "put_all width (\<lambda>i v. v - ?base i) 0 values
        (replicate (deltas_len (length values) width) 0) = Gives ds"
      "length ds = deltas_len (length values) width"
      "\<And>i. i < length values \<Longrightarrow> i * width div 8 + 8 \<le> length ds \<and>
        field_at (le_nat ds) (i * width) width = unat (values ! i - ?base i)"
    using put_all_zeroed [where delta = "\<lambda>i v. v - ?base i", OF w fits] by blast
  have cs: "?bases = concat (map u64_bytes (map hd ?cs))" by (simp add: comp_def)
  have len: "length ?bases = bases_len (length values) shift"
    by (simp only: cs length_concat_words) (simp add: bases_len_def length_chunks)
  have "offsets_at \<lparr>o_bases = ?bases, o_deltas = ds, o_width = width, o_shift = shift\<rparr> i
      = Gives (values ! i)" if i: "i < length values" for i
  proof -
    note c = chunk_of [OF i, of ?S]
    have "load8 ?bases (i div ?S * 8) = ?base i"
      unfolding cs using c by (subst load8_concat_words) simp_all
    moreover have "i div ?S * 8 + 8 \<le> length ?bases"
      using c(1) by (simp only: cs length_concat_words) simp
    ultimately show ?thesis
      using ds(3) [OF i] masked_field_val [OF w, of ds "i * width" "values ! i - ?base i"]
      by (simp add: offsets_at_def read8_def)
  qed
  with ds len show ?thesis by (auto simp: pack_def)
qed

text \<open>C16. The two sections \<^verbatim>\<open>pack\<close> writes for a sorted array have the lengths the loader expects, no
  slice of the writer is out of range, and \<^verbatim>\<open>Offsets::at\<close> reads every entry back, at every width
  from the narrowest one up to the widest a blob may declare.\<close>

theorem offsets_pack_roundtrip:
  assumes "sorted values" "width_of values shift \<le> width" "width \<le> MAX_WIDTH"
  shows "\<exists>bases deltas. pack values shift width = Gives (bases, deltas) \<and>
    length bases = bases_len (length values) shift \<and>
    length deltas = deltas_len (length values) width \<and>
    (\<forall>i < length values.
      offsets_at \<lparr>o_bases = bases, o_deltas = deltas, o_width = width, o_shift = shift\<rparr> i
        = Gives (values ! i))"
  by (rule pack_reads_back [OF assms])

theorem offsets_pack_roundtrip_witness:
  "\<exists>bases deltas. pack [5, 7, 7, 1000] 1 10 = Gives (bases, deltas) \<and>
    length bases = bases_len (length [5, 7, 7, 1000 :: u64]) 1 \<and>
    length deltas = deltas_len (length [5, 7, 7, 1000 :: u64]) 10 \<and>
    (\<forall>i < length [5, 7, 7, 1000 :: u64].
      offsets_at \<lparr>o_bases = bases, o_deltas = deltas, o_width = 10, o_shift = 1\<rparr> i
        = Gives ([5, 7, 7, 1000] ! i))"
  by (rule offsets_pack_roundtrip)
    (simp_all add: width_of_def chunks.simps bit_len.simps MAX_WIDTH_def)

lemma packed_pack_reads:
  assumes "packed_width_of values \<le> width" "width \<le> MAX_WIDTH"
  shows "\<exists>ds. packed_pack values width = Gives ds \<and> length ds = deltas_len (length values) width \<and>
    (\<forall>i < length values. packed_at \<lparr>p_deltas = ds, p_width = width\<rparr> i = Gives (values ! i))"
proof -
  have w: "width \<le> 56" using assms(2) by (simp add: MAX_WIDTH_def)
  have fits: "\<forall>i < length values. unat (values ! i) < 2 ^ width"
    using assms(1) by (simp add: packed_width_of_le_iff)
  obtain ds where ds: "put_all width (\<lambda>i v. v) 0 values
        (replicate (deltas_len (length values) width) 0) = Gives ds"
      "length ds = deltas_len (length values) width"
      "\<And>i. i < length values \<Longrightarrow> i * width div 8 + 8 \<le> length ds \<and>
        field_at (le_nat ds) (i * width) width = unat (values ! i)"
    using put_all_zeroed [where delta = "\<lambda>i v. v", OF w fits] by blast
  then show ?thesis
    using masked_field_val [OF w, of ds]
    by (auto simp: packed_pack_def packed_at_def read8_def)
qed

subsection \<open>Two neighbours out of one load\<close>

lemma one_load_two_fields:
  assumes "2 * w + 7 \<le> 64"
  shows "drop_bit w (drop_bit (p mod 8) (load8 ds (p div 8))) AND low_ones w =
      drop_bit ((p + w) mod 8) (load8 ds ((p + w) div 8)) AND low_ones w"
proof -
  have "p mod 8 < 8" by simp
  then have "(p mod 8 + w) + w \<le> 64" using assms by linarith
  from load_field [OF this, of ds "p div 8"]
  have "unat (drop_bit w (drop_bit (p mod 8) (load8 ds (p div 8))) AND low_ones w)
      = field_at (le_nat ds) (p + w) w"
    by (simp add: drop_bit_drop_bit add.commute add.left_commute)
  moreover have "w \<le> 56" using assms by simp
  ultimately show "drop_bit w (drop_bit (p mod 8) (load8 ds (p div 8))) AND low_ones w =
      drop_bit ((p + w) mod 8) (load8 ds ((p + w) div 8)) AND low_ones w"
    by (simp add: word_unat_eq_iff load_field_bit)
qed

lemma offsets_pair_at:
  assumes "offsets_at f i = Gives x" "offsets_at f (i + 1) = Gives y"
  shows "offsets_pair f i = Gives (x, y)"
proof (cases "2 * o_width f + 7 > 64")
  case True
  with assms show ?thesis by (simp add: offsets_pair_def)
next
  case False
  then have w: "2 * o_width f + 7 \<le> 64" by simp
  have e: "(i + 1) * o_width f = i * o_width f + o_width f" by simp
  show ?thesis
    using assms one_load_two_fields [OF w, of "i * o_width f" "o_deltas f"] False
    unfolding offsets_at_def offsets_pair_def e Let_def
    by (auto simp: bind_outcome_Gives_iff read8_def split: if_splits)
qed

lemma packed_pair_at:
  assumes "packed_at f i = Gives x" "packed_at f (i + 1) = Gives y"
  shows "packed_pair f i = Gives (x, y)"
proof (cases "2 * p_width f + 7 > 64")
  case True
  with assms show ?thesis by (simp add: packed_pair_def)
next
  case False
  then have w: "2 * p_width f + 7 \<le> 64" by simp
  have e: "(i + 1) * p_width f = i * p_width f + p_width f" by simp
  show ?thesis
    using assms one_load_two_fields [OF w, of "i * p_width f" "p_deltas f"] False
    unfolding packed_at_def packed_pair_def e Let_def
    by (auto simp: bind_outcome_Gives_iff read8_def split: if_splits)
qed

text \<open>C17. \<^verbatim>\<open>section_len\<close> over a header's count gives the length of the two sections \<^verbatim>\<open>pack\<close> writes,
  or nothing, and it gives it exactly when no intermediate of the arithmetic leaves 64 bits.\<close>

theorem section_len_exact:
  "section_len n width shift =
    (if bases_len n shift < usize_bound \<and> (n = 0 \<or> n * width < usize_bound) \<and>
        bases_len n shift + deltas_len n width < usize_bound
     then Some (bases_len n shift + deltas_len n width) else None)"
  by (auto simp: section_len_def bases_len_def deltas_len_def checked_mul_usize_def
      checked_add_usize_def bind_eq_Some_conv)

end
