(* ===== verification/Room.thy ===== *)
theory Room
  imports Prelude
begin

text \<open>
  \<^verbatim>\<open>src/room.rs\<close>: uninitialised room at the end of a vector. A slot that was never written is
  \<open>None\<close>; a store or a slice out of range panics; \<^verbatim>\<open>commit\<close> is unsafe in the code, and here it gives
  a vector only where its contract holds (the first \<open>n\<close> slots written and \<open>n\<close> within the room), so
  that a decoder that never ends in \<open>Panics\<close> keeps the contract on every input.
\<close>

type_synonym slots = "u8 option list"

definition room_of :: "nat \<Rightarrow> slots" where
  "room_of n = replicate n None"

definition room_byte :: "slots \<Rightarrow> nat \<Rightarrow> u8 \<Rightarrow> slots outcome" where
  "room_byte room at b = (if at < length room then Gives (room[at := Some b]) else Panics)"

definition room_put :: "slots \<Rightarrow> nat \<Rightarrow> bytes \<Rightarrow> slots outcome" where
  "room_put room at src =
    (if at + length src \<le> length room
     then Gives (take at room @ map Some src @ drop (at + length src) room) else Panics)"

definition commit :: "bytes \<Rightarrow> nat \<Rightarrow> slots \<Rightarrow> bytes outcome" where
  "commit out n room =
    (if n \<le> length room \<and> None \<notin> set (take n room)
     then Gives (out @ map the (take n room)) else Panics)"

text \<open>The room holds \<open>bs\<close> at its start, and has \<open>n\<close> slots in all.\<close>

definition room_has :: "slots \<Rightarrow> nat \<Rightarrow> bytes \<Rightarrow> bool" where
  "room_has room n bs \<longleftrightarrow> length room = n \<and> length bs \<le> n \<and> take (length bs) room = map Some bs"

lemma room_has_of [simp]: "room_has (room_of n) n []"
  by (simp add: room_has_def room_of_def)

lemma room_has_take: "room_has room n bs \<Longrightarrow> room_has room n (take k bs)"
  by (auto simp: room_has_def min_def take_map [symmetric] dest: arg_cong [where f = "take k"])

lemma room_byte_has:
  assumes "room_has room n bs" "length bs < n"
  obtains room' where "room_byte room (length bs) b = Gives room'" "room_has room' n (bs @ [b])"
proof (rule that)
  show "room_byte room (length bs) b = Gives (room[length bs := Some b])"
    using assms by (simp add: room_byte_def room_has_def)
  show "room_has (room[length bs := Some b]) n (bs @ [b])"
    using assms by (simp add: room_has_def take_Suc_conv_app_nth)
qed

lemma room_put_has:
  assumes "room_has room n bs" "length bs + length src \<le> n"
  obtains room' where "room_put room (length bs) src = Gives room'" "room_has room' n (bs @ src)"
proof (rule that)
  show "room_put room (length bs) src =
      Gives (take (length bs) room @ map Some src @ drop (length bs + length src) room)"
    using assms by (simp add: room_put_def room_has_def)
  show "room_has (take (length bs) room @ map Some src @ drop (length bs + length src) room) n (bs @ src)"
    using assms by (simp add: room_has_def)
qed

lemma commit_has: "room_has room n bs \<Longrightarrow> commit out (length bs) room = Gives (out @ bs)"
  by (auto simp: room_has_def commit_def comp_def)

end
