(* ===== verification/Packed.thy ===== *)
theory Packed
  imports Le_Bytes Room
begin

text \<open>
  \<^verbatim>\<open>src/packed.rs\<close>: the fixed-width code over a shard's suffix alphabet. The commonest bytes take
  one code, the next ones two (the all-ones code first), any other byte two all-ones codes and its
  eight bits. The codes of a run are one continuous bit stream.
\<close>

subsection \<open>The alphabet\<close>

definition WIDTHS :: "nat list" where
  "WIDTHS = [1..<9]"

definition top :: "nat \<Rightarrow> nat" where
  "top width = 2 ^ width - 1"

definition raw_codes :: "nat \<Rightarrow> nat" where
  "raw_codes width = 2 + div_ceil 8 width"

text \<open>\<open>a_code\<close> is the inverse of the two tables: \<open>0xFFFF\<close> for a byte neither names, and the top bit
  for a byte of the second one.\<close>

record alphabet =
  a_width :: nat
  a_one :: bytes
  a_two :: bytes
  a_code :: "u16 list"

definition NO_CODE :: u16 where
  "NO_CODE = 0xFFFF"

text \<open>The nonzero frequencies with their bytes, by frequency downwards and then by byte.\<close>

definition ranked_of :: "nat list \<Rightarrow> (nat \<times> u8) list" where
  "ranked_of freq =
    sort_key (\<lambda>(f, b). (- int f, b))
      (map (\<lambda>b. (freq ! b, of_nat b)) (filter (\<lambda>b. freq ! b > 0) [0..<256]))"

definition freq_sum :: "(nat \<times> u8) list \<Rightarrow> nat" where
  "freq_sum r = sum_list (map fst r)"

definition alphabet_bits :: "(nat \<times> u8) list \<Rightarrow> nat \<Rightarrow> nat" where
  "alphabet_bits ranked width =
    (if length ranked \<le> 2 ^ width then freq_sum ranked * width
     else let k = top width;
       one = freq_sum (take k ranked);
       two = freq_sum (drop k (take (min (2 * k) (length ranked)) ranked));
       rest = freq_sum (case get_from ranked (2 * k) of None \<Rightarrow> [] | Some r \<Rightarrow> r)
     in (one + 2 * two + rest * raw_codes width) * width)"

definition split_alphabet :: "(nat \<times> u8) list \<Rightarrow> nat \<Rightarrow> bytes \<times> bytes" where
  "split_alphabet ranked width = (let bs = map snd ranked in
    if length bs \<le> 2 ^ width then (bs, [])
    else let k = top width in (take k bs, drop k (take (min (2 * k) (length bs)) bs)))"

text \<open>The code table a build fills: the position for a byte of \<open>one\<close>, the tagged position for a
  byte of \<open>two\<close>.\<close>

fun put_codes :: "u16 \<Rightarrow> nat \<Rightarrow> bytes \<Rightarrow> u16 list \<Rightarrow> u16 list" where
  "put_codes tag i [] code = code"
| "put_codes tag i (b # bs) code = put_codes tag (Suc i) bs (code[unat b := tag OR of_nat i])"

definition two_tag :: u16 where
  "two_tag = push_bit 15 1"

definition alphabet_of :: "nat list \<Rightarrow> (alphabet \<times> nat) option" where
  "alphabet_of freq = (let ranked = ranked_of freq in
    if ranked = [] then None
    else let
      wb = arg_min_list (\<lambda>(w, bits). (bits, w)) (map (\<lambda>w. (w, alphabet_bits ranked w)) WIDTHS);
      width = fst wb;
      ot = split_alphabet ranked width;
      code = put_codes two_tag 0 (snd ot) (put_codes 0 0 (fst ot) (replicate 256 NO_CODE))
    in Some (\<lparr>a_width = width, a_one = fst ot, a_two = snd ot, a_code = code\<rparr>, snd wb))"

definition codes_for :: "alphabet \<Rightarrow> bytes \<Rightarrow> nat" where
  "codes_for a s = sum_list (map (\<lambda>b. let c = a_code a ! unat b in
    if c = NO_CODE then raw_codes (a_width a) else if drop_bit 15 c = 1 then 2 else 1) s)"

subsection \<open>The bit stream being written\<close>

record bits =
  b_out :: bytes
  b_len :: nat
  b_bits :: u64
  b_used :: nat

definition bits_new :: bits where
  "bits_new = \<lparr>b_out = [], b_len = 0, b_bits = 0, b_used = 0\<rparr>"

fun flush_bytes :: "bytes \<Rightarrow> u64 \<Rightarrow> nat \<Rightarrow> bytes \<times> u64 \<times> nat" where
  "flush_bytes out acc used =
    (if used \<ge> 8 then flush_bytes (out @ [ucast acc]) (drop_bit 8 acc) (used - 8)
     else (out, acc, used))"

declare flush_bytes.simps [simp del]

definition bits_push :: "nat \<Rightarrow> nat \<Rightarrow> bits \<Rightarrow> bits" where
  "bits_push code width b =
    (case flush_bytes (b_out b) (b_bits b OR push_bit (b_used b) (of_nat code)) (b_used b + width) of
       (out, acc, used) \<Rightarrow> \<lparr>b_out = out, b_len = b_len b + 1, b_bits = acc, b_used = used\<rparr>)"

definition bits_drain :: "bits \<Rightarrow> bytes \<Rightarrow> bytes \<times> bits" where
  "bits_drain b out =
    (out @ (if b_used b > 0 then b_out b @ [ucast (b_bits b)] else b_out b), bits_new)"

definition bits_pad :: "bits \<Rightarrow> bits" where
  "bits_pad b = (if b_used b > 0
    then b\<lparr>b_out := b_out b @ [ucast (b_bits b)], b_bits := 0, b_used := 0\<rparr> else b)"

definition bits_extend :: "bits \<Rightarrow> bytes \<Rightarrow> bits" where
  "bits_extend b bs = b\<lparr>b_out := b_out b @ bs\<rparr>"

subsection \<open>Encoding\<close>

fun push_raw :: "nat \<Rightarrow> nat \<Rightarrow> nat \<Rightarrow> bits \<Rightarrow> bits" where
  "push_raw width left 0 b = b"
| "push_raw width left (Suc n) b =
    push_raw width (drop_bit width left) n (bits_push (left AND top width) width b)"

definition encode_byte :: "alphabet \<Rightarrow> u8 \<Rightarrow> bits \<Rightarrow> bits" where
  "encode_byte a b out = (let w = a_width a; c = a_code a ! unat b in
    if c = NO_CODE
    then push_raw w (unat b) (div_ceil 8 w) (bits_push (top w) w (bits_push (top w) w out))
    else if drop_bit 15 c = 1
    then bits_push (unat (c AND 0x7FFF)) w (bits_push (top w) w out)
    else bits_push (unat c) w out)"

definition encode_into :: "alphabet \<Rightarrow> bytes \<Rightarrow> bits \<Rightarrow> bits \<times> nat" where
  "encode_into a s out = (let out' = fold (encode_byte a) s out in (out', b_len out' - b_len out))"

subsection \<open>Reading codes\<close>

record codes =
  c_bytes :: bytes
  c_start :: nat
  c_width :: nat
  c_len :: nat

text \<open>The word at a byte of the stream: eight bytes where eight are left, a zero-filled buffer
  otherwise. Both are \<open>load8\<close>; only the range check differs.\<close>

definition codes_at :: "codes \<Rightarrow> nat \<Rightarrow> nat option" where
  "codes_at c i =
    (if i \<ge> c_len c then None
     else let p = c_start c + i * c_width c in
       case get_from (c_bytes c) (p div 8) of
         None \<Rightarrow> None
       | Some tail \<Rightarrow>
           if length tail < 8 \<and> p + c_width c > length (c_bytes c) * 8 then None
           else Some (unat (drop_bit (p mod 8) (load8 tail 0)) AND top (c_width c)))"

text \<open>The escaped byte's eight bits, \<open>width\<close> at a time; the accumulator is a \<^verbatim>\<open>u32\<close>.\<close>

fun raw_byte :: "alphabet \<Rightarrow> codes \<Rightarrow> nat \<Rightarrow> nat \<Rightarrow> nat \<Rightarrow> u32 \<Rightarrow> u32 option" where
  "raw_byte a c at i 0 acc = Some acc"
| "raw_byte a c at i (Suc n) acc =
    (case codes_at c (at + 2 + i) of
       None \<Rightarrow> None
     | Some x \<Rightarrow> raw_byte a c at (Suc i) n (acc OR push_bit (i * a_width a) (of_nat x)))"

definition byte_at :: "alphabet \<Rightarrow> codes \<Rightarrow> nat \<Rightarrow> (u8 \<times> nat) option" where
  "byte_at a c at =
    (case codes_at c at of
       None \<Rightarrow> None
     | Some first \<Rightarrow>
        if a_two a = [] \<or> first \<noteq> top (a_width a)
        then map_option (\<lambda>b. (b, 1)) (get_at (a_one a) first)
        else (case codes_at c (at + 1) of
            None \<Rightarrow> None
          | Some second \<Rightarrow>
             if second \<noteq> top (a_width a)
             then map_option (\<lambda>b. (b, 2)) (get_at (a_two a) second)
             else map_option (\<lambda>x. (ucast x, 2 + div_ceil 8 (a_width a)))
               (raw_byte a c at 0 (div_ceil 8 (a_width a)) 0)))"

subsection \<open>Decoding\<close>

text \<open>The loop that takes a byte's codes at a time.\<close>

function decode_loop :: "alphabet \<Rightarrow> codes \<Rightarrow> nat \<Rightarrow> nat \<Rightarrow> nat \<Rightarrow> slots \<Rightarrow> (slots \<times> nat) outcome" where
  "decode_loop a c want at o' room =
    (if at < c_len c \<and> o' < want then
       (case byte_at a c at of
          None \<Rightarrow> Refuses
        | Some (b, took) \<Rightarrow>
            bind_outcome (room_byte room o' b) (decode_loop a c want (at + took) (o' + 1)))
     else Gives (room, o'))"
  by pat_completeness auto
termination by (relation "measure (\<lambda>(a, c, want, at, o', room). want - o')") auto

declare decode_loop.simps [simp del]

definition decode_bytewise :: "alphabet \<Rightarrow> codes \<Rightarrow> nat \<Rightarrow> bytes \<Rightarrow> bytes outcome" where
  "decode_bytewise a c want out =
    bind_outcome (decode_loop a c want 0 0 (room_of want)) (\<lambda>(room, o'). commit out o' room)"

text \<open>The word at code \<open>done\<close> and the bits of it that belong to the stream: all of a whole word, and
  of a short tail only the bytes it holds.\<close>

definition word_at_code :: "codes \<Rightarrow> nat \<Rightarrow> nat \<Rightarrow> (u64 \<times> nat) option" where
  "word_at_code c width done =
    (let p = c_start c + done * width; shift = p mod 8 in
     map_option (\<lambda>tail. (drop_bit shift (load8 tail 0),
         if length tail \<ge> 8 then 64 - shift else length tail * 8 - shift))
       (get_from (c_bytes c) (p div 8)))"

fun spread_slots :: "alphabet \<Rightarrow> nat \<Rightarrow> nat \<Rightarrow> u64 \<Rightarrow> slots \<Rightarrow> slots outcome" where
  "spread_slots a 0 at word room = Gives room"
| "spread_slots a (Suc n) at word room =
    (case get_at (a_one a) (unat (word AND of_nat (top (a_width a)))) of
       None \<Rightarrow> Refuses
     | Some b \<Rightarrow>
         bind_outcome (room_byte room at b) (spread_slots a n (at + 1) (drop_bit (a_width a) word)))"

function spread_loop :: "alphabet \<Rightarrow> codes \<Rightarrow> nat \<Rightarrow> nat \<Rightarrow> slots \<Rightarrow> slots outcome" where
  "spread_loop a c want done room =
    (if done < want then
       (case word_at_code c (a_width a) done of
          None \<Rightarrow> Refuses
        | Some (word, have) \<Rightarrow>
            (let n = min (have div a_width a) (want - done) in
             if n = 0 then Refuses
             else bind_outcome (spread_slots a n done word room) (spread_loop a c want (done + n))))
     else Gives room)"
  by pat_completeness auto
termination by (relation "measure (\<lambda>(a, c, want, done, room). want - done)") auto

declare spread_loop.simps [simp del]

definition spread :: "alphabet \<Rightarrow> codes \<Rightarrow> nat \<Rightarrow> bytes \<Rightarrow> bytes outcome" where
  "spread a c want out = bind_outcome (spread_loop a c want 0 (room_of want)) (commit out want)"

definition decode_into :: "alphabet \<Rightarrow> codes \<Rightarrow> bytes \<Rightarrow> nat \<Rightarrow> bytes outcome" where
  "decode_into a c out cap = (let want = min (c_len c) cap in
    if a_two a = [] then spread a c want out else decode_bytewise a c want out)"

subsection \<open>Comparing without decoding\<close>

definition ended_at :: "nat \<Rightarrow> bytes \<Rightarrow> nat \<times> cmp" where
  "ended_at c rest = (c, if c = length rest then CEqual else CLess)"

function compare_loop :: "alphabet \<Rightarrow> codes \<Rightarrow> bytes \<Rightarrow> nat \<Rightarrow> nat \<Rightarrow> nat \<times> cmp" where
  "compare_loop a cs rest at c =
    (if at < c_len cs then
       (case byte_at a cs at of
          None \<Rightarrow> ended_at c rest
        | Some (b, took) \<Rightarrow>
            (case get_at rest c of
               None \<Rightarrow> (c, CGreater)
             | Some theirs \<Rightarrow>
                 if b \<noteq> theirs then (c, cmp_of b theirs)
                 else compare_loop a cs rest (at + took) (c + 1)))
     else ended_at c rest)"
  by pat_completeness auto
termination by (relation "measure (\<lambda>(a, cs, rest, at, c). length rest - c)")
  (auto simp: get_at_Some_iff)

declare compare_loop.simps [simp del]

text \<open>One word of codes against the rest: \<open>Inl\<close> with an answer, or \<open>Inr\<close> with the shared length
  so far and the bits of the word that are left.\<close>

fun spread_cmp_word :: "alphabet \<Rightarrow> bytes \<Rightarrow> nat \<Rightarrow> u64 \<Rightarrow> nat \<Rightarrow> (nat \<times> cmp) + (nat \<times> u64)" where
  "spread_cmp_word a rest 0 word c = Inr (c, word)"
| "spread_cmp_word a rest (Suc n) word c =
    (case get_at (a_one a) (unat (word AND of_nat (top (a_width a)))) of
       None \<Rightarrow> Inl (ended_at c rest)
     | Some b \<Rightarrow>
         if b \<noteq> rest ! c then Inl (c, cmp_of b (rest ! c))
         else spread_cmp_word a rest n (drop_bit (a_width a) word) (c + 1))"

lemma spread_cmp_word_count: "spread_cmp_word a rest n word c = Inr (c', w) \<Longrightarrow> c' = c + n"
proof (induction n arbitrary: word c)
  case (Suc n)
  then show ?case by (fastforce split: option.splits if_splits)
qed simp

function spread_cmp :: "alphabet \<Rightarrow> codes \<Rightarrow> bytes \<Rightarrow> nat \<Rightarrow> nat \<times> cmp" where
  "spread_cmp a cs rest c =
    (if c < c_len cs then
       (case word_at_code cs (a_width a) c of
          None \<Rightarrow> ended_at c rest
        | Some (word, have) \<Rightarrow>
            (let k = min (have div a_width a) (c_len cs - c) in
             if k = 0 then ended_at c rest
             else let n = min k (length rest - c) in
               (case spread_cmp_word a rest n word c of
                  Inl r \<Rightarrow> r
                | Inr (c', word') \<Rightarrow>
                    if n < k then
                      (if get_at (a_one a) (unat (word' AND of_nat (top (a_width a)))) = None
                       then ended_at c' rest else (c', CGreater))
                    else spread_cmp a cs rest c')))
     else ended_at c rest)"
  by pat_completeness auto
termination
  by (relation "measure (\<lambda>(a, cs, rest, c). c_len cs - c)")
    (auto dest: spread_cmp_word_count)

declare spread_cmp.simps [simp del]

definition compare :: "alphabet \<Rightarrow> codes \<Rightarrow> bytes \<Rightarrow> nat \<times> cmp" where
  "compare a cs rest =
    (if a_two a = [] then spread_cmp a cs rest 0 else compare_loop a cs rest 0 0)"

subsection \<open>The alphabet in a blob\<close>

definition alphabet_len :: "alphabet \<Rightarrow> nat" where
  "alphabet_len a = 3 + length (a_one a) + length (a_two a)"

definition alphabet_write :: "alphabet \<Rightarrow> bytes \<Rightarrow> bytes" where
  "alphabet_write a out =
    out @ [of_nat (a_width a), of_nat (length (a_one a) - 1), of_nat (length (a_two a))]
      @ a_one a @ a_two a"

text \<open>The read fills the code table too, and refuses a byte that is named twice.\<close>

fun read_codes :: "u16 \<Rightarrow> nat \<Rightarrow> bytes \<Rightarrow> u16 list \<Rightarrow> u16 list option" where
  "read_codes tag i [] code = Some code"
| "read_codes tag i (b # bs) code =
    (if code ! unat b \<noteq> NO_CODE then None
     else read_codes tag (Suc i) bs (code[unat b := tag OR of_nat i]))"

definition alphabet_read :: "bytes \<Rightarrow> alphabet option" where
  "alphabet_read bs = (case bs of
      w # o' # t # rest \<Rightarrow>
        (let width = unat w; ones = unat o' + 1 in
         if width \<notin> set WIDTHS \<or> length rest \<noteq> ones + unat t then None
         else let one = take ones rest; two = drop ones rest in
           if length one > 2 ^ width \<or> length two > top width then None
           else if two \<noteq> [] \<and> length one \<noteq> top width then None
           else Option.bind (read_codes 0 0 one (replicate 256 NO_CODE)) (\<lambda>code.
                Option.bind (read_codes two_tag 0 two code) (\<lambda>code.
                  Some \<lparr>a_width = width, a_one = one, a_two = two, a_code = code\<rparr>)))
    | _ \<Rightarrow> None)"

subsection \<open>What the stream holds\<close>

text \<open>The number a stream under construction stands for, and its length in bits.\<close>

definition bits_nat :: "bits \<Rightarrow> nat" where
  "bits_nat b = le_nat (b_out b) + 2 ^ (8 * length (b_out b)) * unat (b_bits b)"

definition bits_total :: "bits \<Rightarrow> nat" where
  "bits_total b = 8 * length (b_out b) + b_used b"

definition bits_ok :: "bits \<Rightarrow> bool" where
  "bits_ok b \<longleftrightarrow> unat (b_bits b) < 2 ^ b_used b \<and> b_used b < 8"

lemma bits_new_ok [simp]: "bits_ok bits_new" "bits_nat bits_new = 0" "bits_total bits_new = 0"
  "b_len bits_new = 0"
  by (simp_all add: bits_ok_def bits_nat_def bits_total_def bits_new_def)

lemma unat_ucast_u8: "unat (ucast (w :: u64) :: u8) = unat w mod 256"
  by (simp add: unsigned_ucast_eq take_bit_eq_mod)

lemma flush_bytes_value:
  assumes "flush_bytes out acc used = (out', acc', used')" "unat acc < 2 ^ used"
  shows "le_nat out' + 2 ^ (8 * length out') * unat acc' = le_nat out + 2 ^ (8 * length out) * unat acc
    \<and> 8 * length out' + used' = 8 * length out + used \<and> unat acc' < 2 ^ used' \<and> used' < 8"
  using assms
proof (induction out acc used rule: flush_bytes.induct)
  case (1 out acc used)
  show ?case
  proof (cases "used \<ge> 8")
    case False
    then show ?thesis using 1 by (simp add: flush_bytes.simps)
  next
    case True
    have s: "unat (drop_bit 8 acc) < 2 ^ (used - 8)"
      using 1(3) True div_power_less [of "unat acc" 8 "used - 8"] by (simp add: unat_drop_bit)
    have e: "flush_bytes (out @ [ucast acc]) (drop_bit 8 acc) (used - 8) = (out', acc', used')"
      using 1(2) True by (subst (asm) flush_bytes.simps) simp
    have v: "unat acc = unat acc mod 256 + 256 * unat (drop_bit 8 acc)"
      by (simp add: unat_drop_bit)
    have "le_nat (out @ [ucast acc]) + 2 ^ (8 * length (out @ [ucast acc])) * unat (drop_bit 8 acc)
        = le_nat out + 2 ^ (8 * length out) * unat acc"
      by (subst v) (simp add: le_nat_append unat_ucast_u8 power_256 power_add algebra_simps)
    then show ?thesis using 1(1) [OF True e s] True by simp
  qed
qed

lemma bits_push_value:
  assumes "bits_ok b" "code < 2 ^ width" "width \<le> 56"
  shows "bits_nat (bits_push code width b) = bits_nat b + 2 ^ bits_total b * code"
    and "bits_total (bits_push code width b) = bits_total b + width"
    and "bits_ok (bits_push code width b)"
    and "b_len (bits_push code width b) = b_len b + 1"
proof -
  let ?acc = "b_bits b OR push_bit (b_used b) (of_nat code)"
  obtain out acc used where f: "flush_bytes (b_out b) ?acc (b_used b + width) = (out, acc, used)"
    by (cases "flush_bytes (b_out b) ?acc (b_used b + width)") auto
  have "(2::nat) ^ width \<le> 2 ^ 56" using assms(3) by (rule power_increasing) simp
  then have c: "unat (of_nat code :: u64) = code" using assms(2) by (simp add: unat_of_nat)
  have u: "unat ?acc = unat (b_bits b) + 2 ^ b_used b * code"
    using unat_or_push_bit [of "b_bits b" "b_used b" "of_nat code" width] assms c
    by (simp add: bits_ok_def)
  have "2 ^ b_used b * (code + 1) \<le> 2 ^ b_used b * 2 ^ width"
    using assms(2) by (intro mult_le_mono2) simp
  then have "unat ?acc < 2 ^ (b_used b + width)"
    using assms(1) by (simp add: u power_add bits_ok_def)
  note v = flush_bytes_value [OF f this]
  have p: "bits_push code width b = \<lparr>b_out = out, b_len = b_len b + 1, b_bits = acc, b_used = used\<rparr>"
    by (simp add: bits_push_def f)
  show "bits_nat (bits_push code width b) = bits_nat b + 2 ^ bits_total b * code"
    using v by (simp add: p bits_nat_def bits_total_def u power_add algebra_simps)
  show "bits_total (bits_push code width b) = bits_total b + width"
    "bits_ok (bits_push code width b)" "b_len (bits_push code width b) = b_len b + 1"
    using v by (simp_all add: p bits_total_def bits_ok_def)
qed

definition push_all :: "nat \<Rightarrow> nat list \<Rightarrow> bits \<Rightarrow> bits" where
  "push_all width cs b = fold (\<lambda>c. bits_push c width) cs b"

lemma push_all_simps [simp]:
  "push_all w [] b = b" "push_all w (c # cs) b = push_all w cs (bits_push c w b)"
  "push_all w (cs @ ds) b = push_all w ds (push_all w cs b)"
  by (simp_all add: push_all_def)

lemma push_all_value:
  assumes "bits_ok b" "\<forall>c \<in> set cs. c < 2 ^ w" "w \<le> 56"
  shows "bits_nat (push_all w cs b) = bits_nat b + 2 ^ bits_total b * digits w cs"
    and "bits_total (push_all w cs b) = bits_total b + w * length cs"
    and "bits_ok (push_all w cs b)"
    and "b_len (push_all w cs b) = b_len b + length cs"
  using assms
  by (induction cs arbitrary: b) (simp_all add: bits_push_value algebra_simps power_add)

lemma bits_nat_less: "bits_ok b \<Longrightarrow> bits_nat b < 2 ^ bits_total b"
proof -
  assume "bits_ok b"
  then have "2 ^ (8 * length (b_out b)) * (unat (b_bits b) + 1) \<le> 2 ^ (8 * length (b_out b)) * 2 ^ b_used b"
    by (intro mult_le_mono2) (simp add: bits_ok_def)
  then show ?thesis
    using le_nat_less_power2 [of "b_out b"] by (simp add: bits_nat_def bits_total_def power_add)
qed

lemma bits_drain_value:
  assumes "bits_ok b"
  shows "le_nat (fst (bits_drain b [])) = bits_nat b"
    and "length (fst (bits_drain b [])) = div_ceil (bits_total b) 8"
    and "snd (bits_drain b out) = bits_new"
    and "fst (bits_drain b out) = out @ fst (bits_drain b [])"
proof -
  have m: "unat (b_bits b) < 256"
  proof -
    have "(2::nat) ^ b_used b \<le> 2 ^ 8" using assms by (intro power_increasing) (simp_all add: bits_ok_def)
    then show ?thesis using assms by (simp add: bits_ok_def)
  qed
  show "le_nat (fst (bits_drain b [])) = bits_nat b"
    using assms m
    by (auto simp: bits_drain_def bits_nat_def le_nat_append unat_ucast_u8 power_256 bits_ok_def)
  show "length (fst (bits_drain b [])) = div_ceil (bits_total b) 8"
    using assms by (simp add: bits_drain_def bits_total_def div_ceil_def bits_ok_def)
qed (simp_all add: bits_drain_def)

subsection \<open>The codes of one byte\<close>

primrec raw_digits :: "nat \<Rightarrow> nat \<Rightarrow> nat \<Rightarrow> nat list" where
  "raw_digits w left 0 = []"
| "raw_digits w left (Suc n) = (left mod 2 ^ w) # raw_digits w (left div 2 ^ w) n"

definition byte_codes :: "alphabet \<Rightarrow> u8 \<Rightarrow> nat list" where
  "byte_codes a b = (let w = a_width a; c = a_code a ! unat b in
    if c = NO_CODE then top w # top w # raw_digits w (unat b) (div_ceil 8 w)
    else if drop_bit 15 c = 1 then [top w, unat (c AND 0x7FFF)]
    else [unat c])"

lemma length_raw_digits [simp]: "length (raw_digits w left n) = n"
  by (induction n arbitrary: left) simp_all

lemma raw_digits_less: "x \<in> set (raw_digits w left n) \<Longrightarrow> x < 2 ^ w"
  by (induction n arbitrary: left) auto

lemma and_top: "(n::nat) AND top w = n mod 2 ^ w"
  by (simp only: top_def nat_and_mask)

lemma push_raw_codes: "push_raw w left n b = push_all w (raw_digits w left n) b"
  by (induction n arbitrary: left b)
    (simp_all add: and_top drop_bit_eq_div)

lemma encode_byte_codes: "encode_byte a b out = push_all (a_width a) (byte_codes a b) out"
  by (simp add: encode_byte_def byte_codes_def Let_def push_raw_codes)

definition codes_of :: "alphabet \<Rightarrow> bytes \<Rightarrow> nat list" where
  "codes_of a s = concat (map (byte_codes a) s)"

lemma codes_of_simps [simp]:
  "codes_of a [] = []" "codes_of a (b # s) = byte_codes a b @ codes_of a s"
  "codes_of a (s @ t) = codes_of a s @ codes_of a t"
  by (simp_all add: codes_of_def)

lemma encode_codes: "fold (encode_byte a) s out = push_all (a_width a) (codes_of a s) out"
  by (induction s arbitrary: out) (simp_all add: encode_byte_codes)

lemma length_codes_of: "length (codes_of a s) = codes_for a s"
  by (induction s) (simp_all add: codes_for_def byte_codes_def raw_codes_def Let_def)

subsection \<open>Well-formed alphabets\<close>

text \<open>What \<^verbatim>\<open>of\<close> builds and \<^verbatim>\<open>read\<close> accepts: every code names one byte, the tables fit the width,
  and the code table is their inverse.\<close>

definition tables_ok :: "nat \<Rightarrow> bytes \<Rightarrow> bytes \<Rightarrow> bool" where
  "tables_ok w one two \<longleftrightarrow> w \<in> set WIDTHS \<and> one \<noteq> [] \<and> length one \<le> 2 ^ w \<and> length two \<le> top w \<and>
    (two \<noteq> [] \<longrightarrow> length one = top w) \<and> distinct (one @ two)"

definition alphabet_wf :: "alphabet \<Rightarrow> bool" where
  "alphabet_wf a \<longleftrightarrow> tables_ok (a_width a) (a_one a) (a_two a) \<and>
    a_code a = put_codes two_tag 0 (a_two a) (put_codes 0 0 (a_one a) (replicate 256 NO_CODE))"

text \<open>What the alphabet can write: an alphabet that fits its width has no escape.\<close>

definition covers :: "alphabet \<Rightarrow> bytes \<Rightarrow> bool" where
  "covers a s \<longleftrightarrow> (a_two a = [] \<longrightarrow> set s \<subseteq> set (a_one a))"

lemma length_put_codes [simp]: "length (put_codes tag i bs code) = length code"
  by (induction tag i bs code rule: put_codes.induct) simp_all

lemma unat_u8_inj [simp]: "unat (a :: u8) = unat b \<longleftrightarrow> a = b"
  by (simp add: word_unat_eq_iff)

lemma put_codes_other: "b \<notin> set bs \<Longrightarrow> put_codes tag i bs code ! unat b = code ! unat b"
  by (induction tag i bs code rule: put_codes.induct) (auto simp: nth_list_update)

lemma put_codes_nth:
  assumes "distinct bs" "length code = 256" "j < length bs"
  shows "put_codes tag i bs code ! unat (bs ! j) = tag OR of_nat (i + j)"
  using assms
proof (induction tag i bs code arbitrary: j rule: put_codes.induct)
  case (2 tag i x bs code)
  then show ?case by (cases j) (simp_all add: put_codes_other)
qed simp

lemma code_of_one:
  assumes "alphabet_wf a" "j < length (a_one a)"
  shows "a_code a ! unat (a_one a ! j) = of_nat j"
proof -
  have "a_one a ! j \<notin> set (a_two a)"
    using assms(1) nth_mem [OF assms(2)] unfolding alphabet_wf_def tables_ok_def distinct_append by blast
  then show ?thesis
    using assms put_codes_nth [of "a_one a" "replicate 256 NO_CODE" j 0 0]
    by (simp add: alphabet_wf_def tables_ok_def put_codes_other)
qed

lemma code_of_two:
  assumes "alphabet_wf a" "j < length (a_two a)"
  shows "a_code a ! unat (a_two a ! j) = two_tag OR of_nat j"
  using assms by (simp add: alphabet_wf_def tables_ok_def put_codes_nth)

lemma code_of_neither:
  assumes "alphabet_wf a" "b \<notin> set (a_one a)" "b \<notin> set (a_two a)"
  shows "a_code a ! unat b = NO_CODE"
  using assms by (simp add: alphabet_wf_def put_codes_other)

lemma tables_sizes:
  assumes "tables_ok w one two"
  shows "1 \<le> w" "w \<le> 8" "length one \<le> 256" "length two < 256" "top w < 256" "length two \<le> top w"
proof -
  show w: "1 \<le> w" "w \<le> 8" using assms by (simp_all add: tables_ok_def WIDTHS_def)
  have p: "(2::nat) ^ w \<le> 2 ^ 8" using w by (intro power_increasing) simp_all
  then show "length one \<le> 256" using assms by (simp add: tables_ok_def)
  show t: "top w < 256" using p by (simp add: top_def)
  show "length two \<le> top w" using assms by (simp add: tables_ok_def)
  then show "length two < 256" using t by simp
qed

text \<open>The two kinds of entry of the code table, and the sentinel, told apart.\<close>

lemma unat_small_u16: "j < 65536 \<Longrightarrow> unat (of_nat j :: u16) = j"
  by (simp add: unat_of_nat)

lemma unat_tagged:
  assumes "j < 2 ^ 15"
  shows "unat (two_tag OR of_nat j) = j + 2 ^ 15"
proof -
  have "unat (of_nat j OR push_bit 15 1 :: u16) = j + 2 ^ 15"
    using unat_or_push_bit [of "of_nat j :: u16" 15 1 1] assms by (simp add: unat_small_u16)
  then show ?thesis by (simp only: two_tag_def or.commute)
qed

lemma plain_entry:
  assumes "j < 256"
  shows "(of_nat j :: u16) \<noteq> NO_CODE" "drop_bit 15 (of_nat j :: u16) \<noteq> 1" "unat (of_nat j :: u16) = j"
  using assms by (simp_all add: NO_CODE_def word_unat_eq_iff unat_drop_bit unat_small_u16)

lemma tagged_entry:
  assumes "j < 255"
  shows "two_tag OR of_nat j \<noteq> NO_CODE" "drop_bit 15 (two_tag OR of_nat j) = 1"
    "unat ((two_tag OR of_nat j) AND 0x7FFF) = j"
proof -
  have u: "unat (two_tag OR of_nat j) = j + 2 ^ 15" using assms by (intro unat_tagged) simp
  show "two_tag OR of_nat j \<noteq> NO_CODE"
    using u assms by (auto simp: NO_CODE_def word_unat_eq_iff)
  show "drop_bit 15 (two_tag OR of_nat j) = 1"
    using assms by (simp only: word_unat_eq_iff unat_drop_bit u) simp
  have m: "(0x7FFF :: u16) = mask 15" by (simp add: mask_eq_exp_minus_1)
  show "unat ((two_tag OR of_nat j) AND 0x7FFF) = j"
    unfolding m unat_and_mask u using assms by simp
qed

text \<open>So a byte's codes, by where the tables hold it.\<close>

lemma byte_codes_cases:
  assumes "alphabet_wf a"
  obtains (One) j where "j < length (a_one a)" "b = a_one a ! j" "byte_codes a b = [j]"
  | (Two) j where "j < length (a_two a)" "b = a_two a ! j" "byte_codes a b = [top (a_width a), j]"
  | (Raw) "b \<notin> set (a_one a)" "b \<notin> set (a_two a)"
      "byte_codes a b = top (a_width a) # top (a_width a) #
        raw_digits (a_width a) (unat b) (div_ceil 8 (a_width a))"
proof -
  have t: "tables_ok (a_width a) (a_one a) (a_two a)" using assms by (simp add: alphabet_wf_def)
  note sizes = tables_sizes [OF t]
  consider "b \<in> set (a_one a)" | "b \<in> set (a_two a)" | "b \<notin> set (a_one a)" "b \<notin> set (a_two a)"
    by blast
  then show thesis
  proof cases
    case 1
    then obtain j where j: "j < length (a_one a)" "b = a_one a ! j" by (metis in_set_conv_nth)
    then have "j < 256" using sizes by linarith
    with j show thesis
      using plain_entry [of j] code_of_one [OF assms j(1)] by (intro One) (simp_all add: byte_codes_def)
  next
    case 2
    then obtain j where j: "j < length (a_two a)" "b = a_two a ! j" by (metis in_set_conv_nth)
    then have "j < 255" using sizes by linarith
    with j show thesis
      using tagged_entry [of j] code_of_two [OF assms j(1)] by (intro Two) (simp_all add: byte_codes_def)
  next
    case 3
    then show thesis using code_of_neither [OF assms] by (intro Raw) (simp_all add: byte_codes_def Let_def)
  qed
qed

lemma top_less [simp]: "top w < 2 ^ w"
  by (simp add: top_def)

lemma byte_codes_less:
  assumes "alphabet_wf a" "c \<in> set (byte_codes a b)"
  shows "c < 2 ^ a_width a"
proof -
  have t: "tables_ok (a_width a) (a_one a) (a_two a)" using assms(1) by (simp add: alphabet_wf_def)
  then have l: "length (a_one a) \<le> 2 ^ a_width a" "length (a_two a) < 2 ^ a_width a"
    using tables_sizes [OF t] le_less_trans [OF _ top_less] by (simp_all add: tables_ok_def)
  show ?thesis
    using assms(1)
  proof (cases rule: byte_codes_cases [of a b])
    case Raw
    then show ?thesis using assms(2) raw_digits_less by auto
  qed (use assms(2) l in auto)
qed

lemma codes_of_less: "alphabet_wf a \<Longrightarrow> \<forall>c \<in> set (codes_of a s). c < 2 ^ a_width a"
  by (auto simp: codes_of_def byte_codes_less)

text \<open>A code list is what the reader finds.\<close>

definition holds :: "codes \<Rightarrow> nat list \<Rightarrow> bool" where
  "holds c cs \<longleftrightarrow> c_len c = length cs \<and> (\<forall>i < length cs. codes_at c i = Some (cs ! i))"

lemma holds_at: "holds c (pre @ x # post) \<Longrightarrow> codes_at c (length pre) = Some x"
  by (auto simp: holds_def)

lemma codes_at_field:
  assumes "i < c_len c" "c_width c \<le> 8" "c_start c + i * c_width c + c_width c \<le> 8 * length (c_bytes c)"
  shows "codes_at c i = Some (field_at (le_nat (c_bytes c)) (c_start c + i * c_width c) (c_width c))"
proof -
  let ?p = "c_start c + i * c_width c"
  have g: "get_from (c_bytes c) (?p div 8) = Some (drop (?p div 8) (c_bytes c))"
    using assms(3) by (simp add: get_from_def)
  have "unat (drop_bit (?p mod 8) (load8 (c_bytes c) (?p div 8))) AND top (c_width c)
      = field_at (le_nat (c_bytes c)) ?p (c_width c)"
    using load_field_bit [of "c_width c" ?p "c_bytes c"] assms(2)
    by (simp add: and_top unat_and_low_ones)
  moreover have "load8 (drop k bs) 0 = load8 bs k" for k and bs :: bytes
    by (simp add: load8_def)
  ultimately show ?thesis using assms g by (simp add: codes_at_def mult.commute)
qed

text \<open>The codes pushed between two states of one stream are what a reader placed there finds, in
  any longer stream the second state grows into.\<close>

lemma holds_pushed:
  assumes b: "bits_ok b" and w: "1 \<le> w" "w \<le> 8"
    and cs: "\<forall>c \<in> set cs. c < 2 ^ w" and later: "\<forall>c \<in> set later. c < 2 ^ w"
    and bs: "bs = fst (bits_drain (push_all w later (push_all w cs b)) [])"
  shows "holds \<lparr>c_bytes = bs @ beyond, c_start = bits_total b, c_width = w, c_len = length cs\<rparr> cs"
  unfolding holds_def
proof (intro conjI allI impI)
  let ?c = "\<lparr>c_bytes = bs @ beyond, c_start = bits_total b, c_width = w, c_len = length cs\<rparr>"
  let ?b1 = "push_all w cs b" and ?b2 = "push_all w later (push_all w cs b)"
  have w56: "w \<le> 56" using w by simp
  note v1 = push_all_value [OF b cs w56]
  note v2 = push_all_value [OF v1(3) later w56]
  note d = bits_drain_value [OF v2(3)]
  have total: "bits_total b + w * length cs \<le> 8 * length bs"
    using d(2) v1(2) v2(2) div_ceil_mult_ge [of 8 "bits_total ?b2"] bs by simp
  fix i assume i: "i < length cs"
  have iw: "i * w + w \<le> w * length cs"
    using i by (metis Suc_leI add.commute mult.commute mult_Suc mult_le_mono2)
  have "codes_at ?c i = Some (field_at (le_nat (bs @ beyond)) (bits_total b + i * w) w)"
    using codes_at_field [of i ?c] i w total iw by simp
  also have "field_at (le_nat (bs @ beyond)) (bits_total b + i * w) w = cs ! i"
  proof -
    have "le_nat (bs @ beyond) = le_nat bs + 2 ^ (8 * length bs) * le_nat beyond"
      by (simp add: le_nat_append power_256)
    then have "field_at (le_nat (bs @ beyond)) (bits_total b + i * w) w
        = field_at (le_nat bs) (bits_total b + i * w) w"
      using field_at_plus [of "bits_total b + i * w" w "8 * length bs"] total iw by simp
    also have "\<dots> = field_at (bits_nat ?b1) (bits_total b + i * w) w"
      using field_at_plus [of "bits_total b + i * w" w "bits_total ?b1" "bits_nat ?b1" "digits w later"]
        d(1) v2(1) v1(2) iw bs by simp
    also have "\<dots> = field_at (digits w cs) (i * w) w"
      unfolding v1(1) using field_at_shift [OF bits_nat_less [OF b]] by simp
    also have "\<dots> = cs ! i" using digits_field [OF cs i] by (simp add: mult.commute)
    finally show ?thesis .
  qed
  finally show "codes_at ?c i = Some (cs ! i)" .
qed simp

subsection \<open>Reading a byte back\<close>

lemma raw_byte_value:
  assumes "w = a_width a" "w \<le> 16"
    and "\<And>k. k < n \<Longrightarrow> codes_at c (at + 2 + i + k) = Some (raw_digits w left n ! k)"
    and "unat acc < 2 ^ (i * w)" "(i + n) * w \<le> 32"
  shows "\<exists>acc'. raw_byte a c at i n acc = Some acc' \<and> unat acc' = unat acc + 2 ^ (i * w) * (left mod 2 ^ (n * w))"
  using assms(3-)
proof (induction n arbitrary: i acc left)
  case (Suc n)
  let ?x = "left mod 2 ^ w"
  have x: "codes_at c (at + 2 + i) = Some ?x" using Suc.prems(1) [of 0] by simp
  have "?x < 2 ^ w" by simp
  moreover have "(2::nat) ^ w \<le> 2 ^ 16" using assms(2) by (rule power_increasing) simp
  ultimately have "?x < 2 ^ 16" by (rule less_le_trans)
  then have "?x < 2 ^ 32" by simp
  then have xw: "unat (of_nat ?x :: u32) = ?x" by (simp only: unat_of_nat) simp
  have "(i + Suc n) * w = i * w + w + n * w" by (simp add: algebra_simps)
  then have room: "i * w + w \<le> 32" "(Suc i + n) * w \<le> 32" using Suc.prems(3) by simp_all
  have u: "unat (acc OR push_bit (i * w) (of_nat ?x)) = unat acc + 2 ^ (i * w) * ?x"
    using unat_or_push_bit [of acc "i * w" "of_nat ?x" w] Suc.prems(2) room(1) xw by simp
  have "2 ^ (i * w) * (?x + 1) \<le> 2 ^ (i * w) * 2 ^ w"
    using \<open>?x < 2 ^ w\<close> by (intro mult_le_mono2) (simp only: Suc_le_eq Suc_eq_plus1 [symmetric])
  then have small: "unat (acc OR push_bit (i * w) (of_nat ?x)) < 2 ^ (Suc i * w)"
    using Suc.prems(2) u by (simp add: power_add mult.commute)
  have rest: "codes_at c (at + 2 + Suc i + k) = Some (raw_digits w (left div 2 ^ w) n ! k)" if "k < n" for k
    using Suc.prems(1) [of "Suc k"] that by simp
  obtain acc' where acc': "raw_byte a c at (Suc i) n (acc OR push_bit (i * w) (of_nat ?x)) = Some acc'"
    "unat acc' = unat acc + 2 ^ (i * w) * ?x + 2 ^ (Suc i * w) * (left div 2 ^ w mod 2 ^ (n * w))"
    using Suc.IH [OF rest small room(2)] unfolding u by blast
  have "left mod 2 ^ (Suc n * w) = ?x + 2 ^ w * (left div 2 ^ w mod 2 ^ (n * w))"
    by (simp add: power_add mod_mult2_eq mult.commute add.commute)
  then have "unat acc' = unat acc + 2 ^ (i * w) * (left mod 2 ^ (Suc n * w))"
    using acc'(2) by (simp add: algebra_simps power_add)
  then show ?case using acc'(1) x assms(1) by simp
qed simp

lemma raw_width:
  assumes "1 \<le> w" "w \<le> 8"
  shows "8 \<le> div_ceil 8 w * w" "div_ceil 8 w * w \<le> 16"
  using assms div_ceil_mult_ge [of w 8] div_ceil_less [of w 8] by auto

lemma byte_at_holds:
  assumes wf: "alphabet_wf a" and cov: "covers a [b]" and h: "holds c (pre @ byte_codes a b @ post)"
  shows "byte_at a c (length pre) = Some (b, length (byte_codes a b))"
proof -
  let ?w = "a_width a"
  have t: "tables_ok ?w (a_one a) (a_two a)" using wf by (simp add: alphabet_wf_def)
  note sizes = tables_sizes [OF t]
  show ?thesis
    using wf
  proof (cases rule: byte_codes_cases [of a b])
    case (One j)
    have "codes_at c (length pre) = Some j" using holds_at [of c pre j post] h One by simp
    moreover have "a_two a = [] \<or> j \<noteq> top ?w" using One(1) t by (auto simp: tables_ok_def)
    ultimately show ?thesis using One by (auto simp: byte_at_def get_at_def)
  next
    case (Two j)
    have "codes_at c (length pre) = Some (top ?w)"
      using holds_at [of c pre "top ?w" "j # post"] h Two by simp
    moreover have "codes_at c (length pre + 1) = Some j"
      using holds_at [of c "pre @ [top ?w]" j post] h Two by simp
    moreover have "j \<noteq> top ?w" "a_two a \<noteq> []" using Two(1) sizes(6) by auto
    ultimately show ?thesis using Two by (simp add: byte_at_def get_at_def)
  next
    case Raw
    let ?n = "div_ceil 8 ?w"
    let ?ds = "raw_digits ?w (unat b) ?n"
    have two: "a_two a \<noteq> []" using Raw(1) cov by (auto simp: covers_def)
    have "codes_at c (length pre) = Some (top ?w)"
      using holds_at [of c pre "top ?w" "top ?w # ?ds @ post"] h Raw(3) by simp
    moreover have "codes_at c (length pre + 1) = Some (top ?w)"
      using holds_at [of c "pre @ [top ?w]" "top ?w" "?ds @ post"] h Raw(3) by simp
    moreover obtain acc where acc: "raw_byte a c (length pre) 0 ?n 0 = Some acc"
      "unat acc = unat b mod 2 ^ (?n * ?w)"
    proof -
      have "codes_at c (length pre + 2 + 0 + k) = Some (?ds ! k)" if "k < ?n" for k
        using h that unfolding Raw(3) holds_def by (auto simp: nth_append)
      then show thesis
        using raw_byte_value [of ?w a ?n c "length pre" 0 "unat b" 0] sizes(2) raw_width [OF sizes(1,2)] that
        by auto
    qed
    moreover have "ucast acc = b"
    proof -
      have "(2::nat) ^ 8 \<le> 2 ^ (?n * ?w)" using raw_width [OF sizes(1,2)] by (intro power_increasing) simp_all
      then have "unat acc = unat b" using acc(2) unat_u8_less [of b] by (simp del: unat_u8_less)
      then show ?thesis by (simp add: word_unat_eq_iff unsigned_ucast_eq take_bit_eq_mod)
    qed
    ultimately show ?thesis using two Raw(3) by (simp add: byte_at_def)
  qed
qed

text \<open>Decoding a byte at a time, up to the bytes asked for.\<close>

lemma byte_codes_nonempty [simp]: "byte_codes a b \<noteq> []"
  by (simp add: byte_codes_def Let_def)

lemma covers_Cons: "covers a (b # s) \<longleftrightarrow> covers a [b] \<and> covers a s"
  by (auto simp: covers_def)

lemma decode_loop_holds:
  assumes wf: "alphabet_wf a" and cov: "covers a s" and h: "holds c (pre @ codes_of a s)"
    and room: "room_has room want bs" and le: "length bs \<le> want"
  shows "\<exists>room'. decode_loop a c want (length pre) (length bs) room = Gives (room', length bs + min (length s) (want - length bs))
    \<and> room_has room' want (bs @ take (want - length bs) s)"
  using cov h room le
proof (induction s arbitrary: pre bs room)
  case Nil
  then have "c_len c = length pre" by (simp add: holds_def)
  with Nil show ?case by (simp add: decode_loop.simps)
next
  case (Cons b s)
  show ?case
  proof (cases "length bs < want")
    case False
    with Cons.prems show ?thesis by (simp add: decode_loop.simps)
  next
    case True
    have more: "length pre < c_len c" using Cons.prems(2) by (simp add: holds_def)
    have cb: "covers a [b]" "covers a s" using Cons.prems(1) covers_Cons by blast+
    have "byte_at a c (length pre) = Some (b, length (byte_codes a b))"
      using byte_at_holds [OF wf cb(1)] Cons.prems(2) by simp
    moreover obtain room1 where r1: "room_byte room (length bs) b = Gives room1" "room_has room1 want (bs @ [b])"
      by (rule room_byte_has [OF Cons.prems(3) True])
    moreover have h1: "holds c ((pre @ byte_codes a b) @ codes_of a s)" using Cons.prems(2) by simp
    ultimately show ?thesis
      using Cons.IH [OF cb(2) h1 r1(2)] True more
      by (subst decode_loop.simps) (simp add: Suc_diff_Suc [symmetric] take_Cons')
  qed
qed

lemma decode_bytewise_holds:
  assumes "alphabet_wf a" "covers a s" "holds c (codes_of a s)"
  shows "decode_bytewise a c want out = Gives (out @ take want s)"
proof -
  obtain room' where r: "decode_loop a c want 0 0 (room_of want) = Gives (room', min (length s) want)"
    "room_has room' want (take want s)"
    using decode_loop_holds [of a s c "[]" "room_of want" want "[]"] assms by auto
  then show ?thesis using commit_has [OF r(2)] by (simp add: decode_bytewise_def min.commute)
qed

subsection \<open>A word of codes at a time\<close>

lemma word_room:
  "(s::nat) < 8 \<Longrightarrow> 1 \<le> x \<Longrightarrow> x \<le> (if n \<ge> 8 then 64 - s else n * 8 - s) \<Longrightarrow> s + x \<le> 64 \<and> s + x \<le> 8 * n"
  by (auto split: if_splits)

text \<open>Every code whose bits lie in the word is the one \<^verbatim>\<open>at\<close> reads, and a word without a whole
  code in it is the end of the stream. Nothing here assumes who wrote the stream.\<close>

lemma word_at_code_codes:
  assumes "word_at_code c w done = Some (word, have')" "w = c_width c" "1 \<le> w" "w \<le> 8"
    and "j * w + w \<le> have'" "done + j < c_len c"
  shows "codes_at c (done + j) = Some (unat (drop_bit (j * w) word AND of_nat (top w)))"
proof -
  let ?p = "c_start c + done * w" and ?bs = "c_bytes c"
  let ?s = "?p mod 8" and ?b = "?p div 8"
  have p: "8 * ?b + ?s = ?p" by simp
  have b: "?b \<le> length ?bs" and word: "word = drop_bit ?s (load8 ?bs ?b)"
    and have': "have' = (if length ?bs - ?b \<ge> 8 then 64 - ?s else (length ?bs - ?b) * 8 - ?s)"
    using assms(1) by (auto simp: word_at_code_def Let_def get_from_def load8_def split: if_splits)
  have "c_start c + (done + j) * w = ?p + j * w" by (simp add: algebra_simps)
  then have pe: "c_start c + (done + j) * w = 8 * ?b + (?s + j * w)" using p by linarith
  have "?s + (j * w + w) \<le> 64 \<and> ?s + (j * w + w) \<le> 8 * (length ?bs - ?b)"
    using word_room [of ?s "j * w + w" "length ?bs - ?b"] assms(3,5) have' by simp
  then have s64: "?s + j * w + w \<le> 64" and fit: "8 * ?b + (?s + j * w) + w \<le> 8 * length ?bs"
    using b by linarith+
  have "codes_at c (done + j) = Some (field_at (le_nat ?bs) (8 * ?b + (?s + j * w)) w)"
    using codes_at_field [of "done + j" c, folded assms(2)] assms(4,6) fit unfolding pe by simp
  also have "field_at (le_nat ?bs) (8 * ?b + (?s + j * w)) w = unat (drop_bit (?s + j * w) (load8 ?bs ?b) AND low_ones w)"
    using load_field [of "?s + j * w" w ?bs ?b] s64 by simp
  also have "drop_bit (?s + j * w) (load8 ?bs ?b) = drop_bit (j * w) word"
    by (simp add: word drop_bit_drop_bit add.commute)
  also have "low_ones w = of_nat (top w)"
    by (simp add: low_ones_def top_def push_bit_eq_mult of_nat_diff)
  finally show ?thesis .
qed

lemma word_at_code_short:
  assumes "word_at_code c w done = Some (word, have')" "w = c_width c" "w \<le> 8" "have' < w"
  shows "codes_at c done = None"
proof -
  let ?p = "c_start c + done * w" and ?bs = "c_bytes c"
  let ?s = "?p mod 8" and ?b = "?p div 8"
  have s: "?s < 8" by simp
  have p: "8 * ?b + ?s = ?p" by simp
  have b: "?b \<le> length ?bs"
    and have': "have' = (if length ?bs - ?b \<ge> 8 then 64 - ?s else (length ?bs - ?b) * 8 - ?s)"
    using assms(1) by (auto simp: word_at_code_def Let_def get_from_def load8_def split: if_splits)
  have n: "\<not> length ?bs - ?b \<ge> 8"
  proof
    assume "length ?bs - ?b \<ge> 8"
    then have "have' = 64 - ?s" using have' by simp
    then show False using assms(3,4) s by linarith
  qed
  then have "have' = (length ?bs - ?b) * 8 - ?s" using have' by simp
  then have "?p + w > length ?bs * 8" using assms(4) p b by linarith
  then show ?thesis using n b assms(2) by (simp add: codes_at_def get_from_def)
qed

lemma word_at_code_None:
  "word_at_code c w done = None \<Longrightarrow> w = c_width c \<Longrightarrow> codes_at c done = None"
  by (auto simp: word_at_code_def codes_at_def get_from_def Let_def split: if_splits)

lemma byte_at_single:
  "a_two a = [] \<Longrightarrow> byte_at a c at =
    (case codes_at c at of None \<Rightarrow> None | Some x \<Rightarrow> map_option (\<lambda>b. (b, 1)) (get_at (a_one a) x))"
  by (simp add: byte_at_def split: option.split)

lemma spread_slots_loop:
  assumes "a_two a = []" "done + n \<le> want" "want \<le> c_len c"
    and "\<And>j. j < n \<Longrightarrow> codes_at c (done + j) =
      Some (unat (drop_bit (j * a_width a) word AND of_nat (top (a_width a))))"
  shows "decode_loop a c want done done room =
    bind_outcome (spread_slots a n done word room) (decode_loop a c want (done + n) (done + n))"
  using assms(2,4)
proof (induction n arbitrary: "done" word room)
  case (Suc n)
  have x: "codes_at c done = Some (unat (word AND of_nat (top (a_width a))))"
    using Suc.prems(2) [of 0] by simp
  have next_codes: "codes_at c (Suc done + j) =
      Some (unat (drop_bit (j * a_width a) (drop_bit (a_width a) word) AND of_nat (top (a_width a))))"
    if "j < n" for j
    using Suc.prems(2) [of "Suc j"] that by (simp add: drop_bit_drop_bit add.commute)
  have "decode_loop a c want (Suc done) (Suc done) =
      (\<lambda>r. bind_outcome (spread_slots a n (Suc done) (drop_bit (a_width a) word) r)
        (decode_loop a c want (Suc done + n) (Suc done + n)))"
    using Suc.IH [of "Suc done" "drop_bit (a_width a) word"] Suc.prems(1) next_codes
    by (intro ext) simp
  moreover have "done < c_len c" "done < want" using Suc.prems(1) assms(3) by simp_all
  ultimately show ?case
    by (subst decode_loop.simps)
      (simp add: byte_at_single [OF assms(1)] x bind_outcome_assoc split: option.split)
qed simp

lemma spread_loop_bytewise:
  assumes "a_two a = []" "c_width c = a_width a" "1 \<le> a_width a" "a_width a \<le> 8" "want \<le> c_len c"
    and "done \<le> want"
  shows "bind_outcome (spread_loop a c want done room) (\<lambda>r. Gives (r, want)) = decode_loop a c want done done room"
  using assms
proof (induction a c want "done" room rule: spread_loop.induct)
  case (1 a c want "done" room)
  note two = 1(2) and cw = 1(3) and w = 1(4,5) and len = 1(6)
  show ?case
  proof (cases "done < want")
    case False
    then show ?thesis using 1(7) by (simp add: spread_loop.simps decode_loop.simps)
  next
    case True
    have stop: "decode_loop a c want done done room = Refuses" if "codes_at c done = None"
      using True len that by (subst decode_loop.simps) (simp add: byte_at_single [OF two])
    show ?thesis
    proof (cases "word_at_code c (a_width a) done")
      case None
      then have "codes_at c done = None" using word_at_code_None cw by metis
      then show ?thesis using None True stop by (subst spread_loop.simps) simp
    next
      case (Some wh)
      obtain word have' where wh: "wh = (word, have')" by (cases wh)
      note wc = Some [unfolded wh]
      let ?n = "min (have' div a_width a) (want - done)"
      show ?thesis
      proof (cases "?n = 0")
        case True
        then have "have' div a_width a = 0" using \<open>done < want\<close> by (auto simp: min_def split: if_splits)
        then have "have' < a_width a" using w by (auto simp: div_eq_0_iff)
        then have "codes_at c done = None" using word_at_code_short [OF wc] cw w by simp
        then show ?thesis using wc True \<open>done < want\<close> stop by (subst spread_loop.simps) simp
      next
        case False
        have codes: "codes_at c (done + j) =
            Some (unat (drop_bit (j * a_width a) word AND of_nat (top (a_width a))))" if "j < ?n" for j
        proof (rule word_at_code_codes [OF wc])
          have "Suc j \<le> have' div a_width a" using that by simp
          then have "Suc j * a_width a \<le> have' div a_width a * a_width a" by (rule mult_le_mono1)
          also have "\<dots> \<le> have'" by (rule div_times_less_eq_dividend)
          finally show "j * a_width a + a_width a \<le> have'" by simp
          show "done + j < c_len c" using that len by linarith
        qed (use cw w in simp_all)
        have ih: "bind_outcome (spread_loop a c want (done + ?n) r) (\<lambda>r. Gives (r, want)) =
            decode_loop a c want (done + ?n) (done + ?n) r"
          if "spread_slots a ?n done word room = Gives r" for r
          using 1(1) [OF True wc refl refl False that] two cw w len True by simp
        have "spread_loop a c want done room =
            bind_outcome (spread_slots a ?n done word room) (spread_loop a c want (done + ?n))"
          using wc True by (subst spread_loop.simps) (simp add: Let_def False)
        moreover have "decode_loop a c want done done room =
            bind_outcome (spread_slots a ?n done word room) (decode_loop a c want (done + ?n) (done + ?n))"
          using True by (intro spread_slots_loop [OF two _ len codes]) simp_all
        ultimately show ?thesis
          using ih by (cases "spread_slots a ?n done word room") simp_all
      qed
    qed
  qed
qed

lemma spread_bytewise:
  assumes "a_two a = []" "c_width c = a_width a" "1 \<le> a_width a" "a_width a \<le> 8" "want \<le> c_len c"
  shows "spread a c want out = decode_bytewise a c want out"
  using spread_loop_bytewise [OF assms, of 0 "room_of want"]
  by (cases "spread_loop a c want 0 (room_of want)")
    (auto simp: spread_def decode_bytewise_def dest: sym)

text \<open>The same for the comparison: the word-at-a-time walk and the one that reads a byte's codes at
  a time agree on any stream.\<close>

lemma spread_cmp_word_loop:
  assumes "a_two a = []" "c + n \<le> length rest" "c + n \<le> c_len cs"
    and "\<And>j. j < n \<Longrightarrow> codes_at cs (c + j) =
      Some (unat (drop_bit (j * a_width a) word AND of_nat (top (a_width a))))"
  shows "compare_loop a cs rest c c =
      (case spread_cmp_word a rest n word c of Inl r \<Rightarrow> r | Inr (c', w') \<Rightarrow> compare_loop a cs rest c' c')"
    and "spread_cmp_word a rest n word c = Inr (c', w') \<Longrightarrow> w' = drop_bit (n * a_width a) word"
proof -
  show "compare_loop a cs rest c c =
      (case spread_cmp_word a rest n word c of Inl r \<Rightarrow> r | Inr (c', w') \<Rightarrow> compare_loop a cs rest c' c')"
    using assms(2-4)
  proof (induction n arbitrary: c word)
    case (Suc n)
    have x: "codes_at cs c = Some (unat (word AND of_nat (top (a_width a))))"
      using Suc.prems(3) [of 0] by simp
    have next_codes: "codes_at cs (Suc c + j) =
        Some (unat (drop_bit (j * a_width a) (drop_bit (a_width a) word) AND of_nat (top (a_width a))))"
      if "j < n" for j
      using Suc.prems(3) [of "Suc j"] that by (simp add: drop_bit_drop_bit add.commute)
    have "compare_loop a cs rest (Suc c) (Suc c) =
        (case spread_cmp_word a rest n (drop_bit (a_width a) word) (Suc c) of
           Inl r \<Rightarrow> r | Inr (c', w') \<Rightarrow> compare_loop a cs rest c' c')"
      using Suc.IH [of "Suc c" "drop_bit (a_width a) word"] Suc.prems(1,2) next_codes by simp
    moreover have "c < c_len cs" "get_at rest c = Some (rest ! c)"
      using Suc.prems(1,2) by (simp_all add: get_at_def)
    ultimately show ?case
      by (subst compare_loop.simps)
        (simp add: byte_at_single [OF assms(1)] x split: option.split)
  qed simp
  show "w' = drop_bit (n * a_width a) word" if "spread_cmp_word a rest n word c = Inr (c', w')"
    using that
  proof (induction n arbitrary: c word)
    case (Suc n)
    then show ?case by (fastforce simp: drop_bit_drop_bit add.commute split: option.splits if_splits)
  qed simp
qed

lemma spread_cmp_bytewise:
  assumes "a_two a = []" "c_width cs = a_width a" "1 \<le> a_width a" "a_width a \<le> 8" "c \<le> length rest"
  shows "spread_cmp a cs rest c = compare_loop a cs rest c c"
  using assms
proof (induction a cs rest c rule: spread_cmp.induct)
  case (1 a cs rest c)
  note two = 1(2) and cw = 1(3) and w = 1(4,5) and cl = 1(6)
  show ?case
  proof (cases "c < c_len cs")
    case False
    then show ?thesis by (simp add: spread_cmp.simps compare_loop.simps)
  next
    case True
    have stop: "compare_loop a cs rest c c = ended_at c rest" if "codes_at cs c = None"
      using that by (subst compare_loop.simps) (simp add: byte_at_single [OF two])
    show ?thesis
    proof (cases "word_at_code cs (a_width a) c")
      case None
      then have "codes_at cs c = None" using word_at_code_None cw by metis
      then show ?thesis using None True stop by (subst spread_cmp.simps) simp
    next
      case (Some wh)
      obtain word have' where wh: "wh = (word, have')" by (cases wh)
      note wc = Some [unfolded wh]
      let ?k = "min (have' div a_width a) (c_len cs - c)"
      show ?thesis
      proof (cases "?k = 0")
        case True
        then have "have' div a_width a = 0" using \<open>c < c_len cs\<close> by (auto simp: min_def split: if_splits)
        then have "have' < a_width a" using w by (auto simp: div_eq_0_iff)
        then have "codes_at cs c = None" using word_at_code_short [OF wc] cw w by simp
        then show ?thesis using wc True \<open>c < c_len cs\<close> stop by (subst spread_cmp.simps) simp
      next
        case False
        let ?n = "min ?k (length rest - c)"
        have codes: "codes_at cs (c + j) =
            Some (unat (drop_bit (j * a_width a) word AND of_nat (top (a_width a))))" if "j < ?k" for j
        proof (rule word_at_code_codes [OF wc])
          have "Suc j \<le> have' div a_width a" using that by simp
          then have "Suc j * a_width a \<le> have' div a_width a * a_width a" by (rule mult_le_mono1)
          also have "\<dots> \<le> have'" by (rule div_times_less_eq_dividend)
          finally show "j * a_width a + a_width a \<le> have'" by simp
          show "c + j < c_len cs" using that by linarith
        qed (use cw w in simp_all)
        have n: "c + ?n \<le> length rest" "c + ?n \<le> c_len cs" using cl True by auto
        have codes_n: "\<And>j. j < ?n \<Longrightarrow> codes_at cs (c + j) =
            Some (unat (drop_bit (j * a_width a) word AND of_nat (top (a_width a))))"
          using codes by simp
        note walk = spread_cmp_word_loop [OF two n codes_n]
        show ?thesis
        proof (cases "spread_cmp_word a rest ?n word c")
          case (Inl r)
          then show ?thesis using walk(1) wc True
            by (subst spread_cmp.simps) (simp add: Let_def False)
        next
          case (Inr cw')
          obtain c' w' where c': "cw' = (c', w')" by (cases cw')
          have count: "c' = c + ?n" using spread_cmp_word_count Inr c' by metis
          have w': "w' = drop_bit (?n * a_width a) word" using walk(2) Inr c' by simp
          have e: "spread_cmp a cs rest c = (if ?n < ?k
              then (if get_at (a_one a) (unat (w' AND of_nat (top (a_width a)))) = None
                    then ended_at c' rest else (c', CGreater))
              else spread_cmp a cs rest c')"
            using wc True Inr c' by (subst spread_cmp.simps) (simp add: Let_def False)
          have loop: "compare_loop a cs rest c c = compare_loop a cs rest c' c'"
            using walk(1) Inr c' by simp
          show ?thesis
          proof (cases "?n < ?k")
            case True
            then have "?n = length rest - c" by linarith
            then have "c' = length rest" using count cl by linarith
            moreover have "codes_at cs c' = Some (unat (w' AND of_nat (top (a_width a))))"
              using codes [OF True] by (simp only: count w')
            moreover have "c' < c_len cs" using True count by linarith
            ultimately have "compare_loop a cs rest c' c' =
                (if get_at (a_one a) (unat (w' AND of_nat (top (a_width a)))) = None
                 then ended_at c' rest else (c', CGreater))"
              by (subst compare_loop.simps)
                (simp add: byte_at_single [OF two] get_at_def)
            then show ?thesis using e loop True by simp
          next
            case False
            have "spread_cmp a cs rest c' = compare_loop a cs rest c' c'"
            proof (rule 1(1) [OF \<open>c < c_len cs\<close> wc refl refl \<open>?k \<noteq> 0\<close> refl Inr])
              show "(c', w') = cw'" using c' by simp
              show "c' \<le> length rest" using count n by simp
            qed (use False two cw w in simp_all)
            then show ?thesis using e loop False by simp
          qed
        qed
      qed
    qed
  qed
qed

end
