(* ===== verification/Packed_Facts.thy ===== *)
theory Packed_Facts
  imports Packed
begin

text \<open>
  What the packed code of \<^verbatim>\<open>src/packed.rs\<close> promises: a run decodes to what was encoded wherever it
  starts in the stream, the comparison is the lexicographic one, the two word-at-a-time routines
  are the byte-at-a-time ones on every input, a serialised alphabet is read back and nothing else
  is accepted, and the alphabet \<^verbatim>\<open>of\<close> chooses costs what it says and never more than another width.
\<close>

subsection \<open>Runs\<close>

text \<open>The codes of one entry inside a run: \<open>before\<close> was encoded first and \<open>after\<close> later, and the
  stream may be followed by other bytes.\<close>

definition run_codes :: "alphabet \<Rightarrow> bytes \<Rightarrow> bytes \<Rightarrow> bytes \<Rightarrow> bytes \<Rightarrow> codes" where
  "run_codes a before s after beyond =
    (let b0 = fst (encode_into a before bits_new); b1 = fst (encode_into a s b0);
         b2 = fst (encode_into a after b1)
     in \<lparr>c_bytes = fst (bits_drain b2 []) @ beyond, c_start = a_width a * b_len b0,
         c_width = a_width a, c_len = snd (encode_into a s b0)\<rparr>)"

lemma run_codes_holds:
  assumes "alphabet_wf a"
  shows "holds (run_codes a before s after beyond) (codes_of a s)"
    and "c_width (run_codes a before s after beyond) = a_width a"
    and "c_len (run_codes a before s after beyond) = codes_for a s"
proof -
  let ?w = "a_width a"
  let ?b0 = "push_all ?w (codes_of a before) bits_new"
  have t: "tables_ok ?w (a_one a) (a_two a)" using assms by (simp add: alphabet_wf_def)
  note w = tables_sizes(1,2) [OF t]
  then have w56: "?w \<le> 56" by simp
  note less = codes_of_less [OF assms]
  note v0 = push_all_value [OF bits_new_ok(1) less [of before] w56]
  note v1 = push_all_value [OF v0(3) less [of s] w56]
  have start: "?w * b_len ?b0 = bits_total ?b0" by (simp add: v0(2,4))
  have len: "b_len (push_all ?w (codes_of a s) ?b0) - b_len ?b0 = length (codes_of a s)"
    by (simp add: v1(4))
  have r: "run_codes a before s after beyond =
    \<lparr>c_bytes = fst (bits_drain (push_all ?w (codes_of a after) (push_all ?w (codes_of a s) ?b0)) []) @ beyond,
     c_start = bits_total ?b0, c_width = ?w, c_len = length (codes_of a s)\<rparr>"
    by (simp add: run_codes_def encode_into_def encode_codes Let_def start len)
  show "holds (run_codes a before s after beyond) (codes_of a s)"
    unfolding r by (rule holds_pushed [OF v0(3) w less less refl])
  show "c_width (run_codes a before s after beyond) = a_width a"
    "c_len (run_codes a before s after beyond) = codes_for a s"
    by (simp_all add: r length_codes_of)
qed

lemma codes_for_ge: "length s \<le> codes_for a s"
proof (induction s)
  case (Cons b s)
  have "1 \<le> length (byte_codes a b)" by (simp add: Suc_le_eq)
  moreover have "codes_for a (b # s) = length (byte_codes a b) + codes_for a s"
    by (simp flip: length_codes_of)
  ultimately show ?case using Cons by simp
qed simp

lemma decode_holds:
  assumes "alphabet_wf a" "covers a s" "holds c (codes_of a s)" "c_width c = a_width a"
  shows "decode_into a c out cap = Gives (out @ take cap s)"
proof -
  have t: "tables_ok (a_width a) (a_one a) (a_two a)" using assms(1) by (simp add: alphabet_wf_def)
  have "decode_into a c out cap = decode_bytewise a c (min (c_len c) cap) out"
    using spread_bytewise [of a c] tables_sizes(1,2) [OF t] assms(4) by (simp add: decode_into_def Let_def)
  also have "\<dots> = Gives (out @ take (min (c_len c) cap) s)"
    by (rule decode_bytewise_holds [OF assms(1-3)])
  also have "take (min (c_len c) cap) s = take cap s"
    using codes_for_ge [of s a] assms(3) by (simp add: holds_def length_codes_of min_def)
  finally show ?thesis .
qed

text \<open>C11. An entry's suffix decodes to what was encoded, wherever it starts in its run's bit stream and
  whatever follows it, cut at the cap; no store of the decoder leaves its room and the unsafe commit
  finds every slot written.\<close>

theorem packed_decode_encode:
  assumes "alphabet_wf a" "covers a s"
  shows "decode_into a (run_codes a before s after beyond) out cap = Gives (out @ take cap s)"
  using decode_holds [OF assms run_codes_holds(1,2) [OF assms(1)]] .

definition demo_alphabet :: alphabet where
  "demo_alphabet = \<lparr>a_width = 1, a_one = [97], a_two = [98],
    a_code = put_codes two_tag 0 [98] (put_codes 0 0 [97] (replicate 256 NO_CODE))\<rparr>"

theorem packed_decode_encode_witness:
  "decode_into demo_alphabet (run_codes demo_alphabet [99] [97, 98, 200] [97] [7]) [1] 3
    = Gives ([1] @ take 3 [97, 98, 200])"
  by (rule packed_decode_encode)
    (simp_all add: alphabet_wf_def tables_ok_def demo_alphabet_def covers_def WIDTHS_def top_def)

lemma decode_loop_safe:
  assumes "room_has room want bs"
  shows "decode_loop a c want at (length bs) room = Refuses \<or>
    (\<exists>room' bs'. decode_loop a c want at (length bs) room = Gives (room', length bs') \<and> room_has room' want bs')"
  using assms
proof (induction "want - length bs" arbitrary: at bs room rule: less_induct)
  case less
  show ?case
  proof (cases "at < c_len c \<and> length bs < want")
    case False
    then show ?thesis using less.prems by (subst (1 2) decode_loop.simps) auto
  next
    case True
    show ?thesis
    proof (cases "byte_at a c at")
      case None
      then show ?thesis using True by (subst decode_loop.simps) simp
    next
      case (Some bt)
      obtain b took where bt: "bt = (b, took)" by (cases bt)
      obtain room1 where r: "room_byte room (length bs) b = Gives room1" "room_has room1 want (bs @ [b])"
        using room_byte_has [OF less.prems] True by blast
      have "decode_loop a c want at (length bs) room
          = decode_loop a c want (at + took) (length (bs @ [b])) room1"
        using True Some bt r(1) by (subst decode_loop.simps) simp
      moreover have "length (bs @ [b]) = Suc (length bs)" by simp
      then have "want - length (bs @ [b]) < want - length bs" using True by linarith
      ultimately show ?thesis using less.hyps [OF _ r(2), of "at + took"] by simp
    qed
  qed
qed

lemma decode_bytewise_safe: "decode_bytewise a c want out \<noteq> Panics"
proof -
  consider "decode_loop a c want 0 0 (room_of want) = Refuses"
    | room' bs' where "decode_loop a c want 0 0 (room_of want) = Gives (room', length bs')"
        "room_has room' want bs'"
    using decode_loop_safe [of "room_of want" want "[]" a c 0] by auto
  then show ?thesis
    by cases (simp_all add: decode_bytewise_def commit_has)
qed

text \<open>C12. On any stream of codes, written by this crate or not, \<^verbatim>\<open>decode_into\<close> gives what the loop that
  reads a byte's codes at a time gives, refusals included, and it never panics: the word-at-a-time
  routine is an optimisation only, and the unsafe commit's contract holds on every input.\<close>

theorem packed_decode_any:
  assumes "c_width c = a_width a" "a_width a \<in> set WIDTHS"
  shows "decode_into a c out cap = decode_bytewise a c (min (c_len c) cap) out \<and>
    decode_into a c out cap \<noteq> Panics"
  using assms spread_bytewise [of a c "min (c_len c) cap" out] decode_bytewise_safe
  by (auto simp: decode_into_def WIDTHS_def Let_def)

theorem packed_decode_any_witness:
  "decode_into demo_alphabet \<lparr>c_bytes = [0xFF], c_start = 3, c_width = 1, c_len = 9\<rparr> [] 4
     = decode_bytewise demo_alphabet \<lparr>c_bytes = [0xFF], c_start = 3, c_width = 1, c_len = 9\<rparr>
         (min (c_len \<lparr>c_bytes = [0xFF], c_start = 3, c_width = 1, c_len = 9\<rparr>) 4) [] \<and>
   decode_into demo_alphabet \<lparr>c_bytes = [0xFF], c_start = 3, c_width = 1, c_len = 9\<rparr> [] 4 \<noteq> Panics"
  by (rule packed_decode_any) (simp_all add: demo_alphabet_def WIDTHS_def)

subsection \<open>Comparing\<close>

lemma compare_loop_holds:
  assumes wf: "alphabet_wf a" and cov: "covers a s" and h: "holds c (pre @ codes_of a s)"
    and k: "k \<le> length rest"
  shows "compare_loop a c rest (length pre) k = (k + lcp s (drop k rest), cmp_of s (drop k rest))"
  using cov h k
proof (induction s arbitrary: pre k)
  case Nil
  then have "c_len c = length pre" by (simp add: holds_def)
  with Nil.prems(3) show ?case by (simp add: compare_loop.simps ended_at_def)
next
  case (Cons b s)
  have more: "length pre < c_len c" using Cons.prems(2) by (simp add: holds_def)
  have cb: "covers a [b]" "covers a s" using Cons.prems(1) covers_Cons by blast+
  have b: "byte_at a c (length pre) = Some (b, length (byte_codes a b))"
    using byte_at_holds [OF wf cb(1)] Cons.prems(2) by simp
  show ?case
  proof (cases "k < length rest")
    case False
    then show ?thesis using more b Cons.prems(3)
      by (subst compare_loop.simps) (simp add: get_at_def)
  next
    case True
    then have d: "drop k rest = rest ! k # drop (Suc k) rest" by (simp add: Cons_nth_drop_Suc)
    have h1: "holds c ((pre @ byte_codes a b) @ codes_of a s)" using Cons.prems(2) by simp
    have "compare_loop a c rest (length pre + length (byte_codes a b)) (Suc k)
        = (Suc k + lcp s (drop (Suc k) rest), cmp_of s (drop (Suc k) rest))"
      using Cons.IH [OF cb(2) h1, of "Suc k"] True by simp
    then show ?thesis using more b True d
      by (subst compare_loop.simps) (auto simp: get_at_def)
  qed
qed

text \<open>C13. \<^verbatim>\<open>compare\<close> against an entry's codes gives the length of the shared prefix and the
  lexicographic order of the entry's suffix, without decoding it.\<close>

theorem packed_compare_lexicographic:
  assumes "alphabet_wf a" "covers a s"
  shows "compare a (run_codes a before s after beyond) rest = (lcp s rest, cmp_of s rest)"
proof -
  let ?c = "run_codes a before s after beyond"
  note h = run_codes_holds [OF assms(1), of before s after beyond]
  have t: "tables_ok (a_width a) (a_one a) (a_two a)" using assms(1) by (simp add: alphabet_wf_def)
  have "compare a ?c rest = compare_loop a ?c rest 0 0"
    using spread_cmp_bytewise [of a ?c 0 rest] tables_sizes(1,2) [OF t] h(2) by (simp add: compare_def)
  then show ?thesis
    using compare_loop_holds [OF assms, of ?c "[]" 0 rest] h(1) by simp
qed

theorem packed_compare_lexicographic_witness:
  "compare demo_alphabet (run_codes demo_alphabet [98] [97, 200] [] []) [97, 99]
    = (lcp [97, 200 :: u8] [97, 99], cmp_of [97, 200 :: u8] [97, 99])"
  by (rule packed_compare_lexicographic)
    (simp_all add: alphabet_wf_def tables_ok_def demo_alphabet_def covers_def WIDTHS_def top_def)

subsection \<open>The alphabet in a blob\<close>

lemma read_codes_put:
  assumes "distinct bs" "\<forall>b \<in> set bs. code ! unat b = NO_CODE" "length code = 256"
  shows "read_codes tag i bs code = Some (put_codes tag i bs code)"
  using assms
proof (induction tag i bs code rule: read_codes.induct)
  case (2 tag i b bs code)
  have "\<forall>x \<in> set bs. code[unat b := tag OR of_nat i] ! unat x = NO_CODE"
    using 2(2,3) by (metis distinct.simps(2) list.set_intros(2) nth_list_update_neq unat_u8_inj)
  then show ?case using 2 by simp
qed simp

lemma read_codes_Some:
  assumes "read_codes tag i bs code = Some code'" "length code = 256"
    and "\<And>k. k < length bs \<Longrightarrow> tag OR of_nat (i + k) \<noteq> NO_CODE"
  shows "distinct bs \<and> (\<forall>b \<in> set bs. code ! unat b = NO_CODE) \<and> code' = put_codes tag i bs code"
  using assms
proof (induction tag i bs code arbitrary: code' rule: read_codes.induct)
  case (2 tag i b bs code)
  let ?code = "code[unat b := tag OR of_nat i]"
  have free: "code ! unat b = NO_CODE" using 2(2) by (auto split: if_splits)
  have step: "tag OR of_nat (Suc i + k) \<noteq> NO_CODE" if "k < length bs" for k
    using 2(4) [of "Suc k"] that by simp
  have "distinct bs \<and> (\<forall>x \<in> set bs. ?code ! unat x = NO_CODE) \<and> code' = put_codes tag (Suc i) bs ?code"
    using 2(1) [OF _ _ _ step, of code'] free 2(2,3) by simp
  moreover have "?code ! unat b \<noteq> NO_CODE" using 2(3) 2(4) [of 0] by simp
  ultimately show ?case using free 2(3) by (auto simp: nth_list_update split: if_splits)
qed simp

lemma put_codes_occupied:
  assumes "distinct one" "length one \<le> 256"
  shows "put_codes 0 0 one (replicate 256 NO_CODE) ! unat b = NO_CODE \<longleftrightarrow> b \<notin> set one"
proof (cases "b \<in> set one")
  case True
  then obtain j where j: "j < length one" "b = one ! j" by (metis in_set_conv_nth)
  then have "j < 256" using assms(2) by simp
  then show ?thesis
    using put_codes_nth [OF assms(1), of "replicate 256 NO_CODE" j 0 0] j plain_entry(1) by simp
qed (simp add: put_codes_other)

lemma tables_codes:
  assumes "tables_ok w one two"
  shows "read_codes 0 0 one (replicate 256 NO_CODE) = Some (put_codes 0 0 one (replicate 256 NO_CODE))"
    and "read_codes two_tag 0 two (put_codes 0 0 one (replicate 256 NO_CODE))
      = Some (put_codes two_tag 0 two (put_codes 0 0 one (replicate 256 NO_CODE)))"
proof -
  have d: "distinct one" "distinct two" "set one \<inter> set two = {}"
    using assms by (simp_all add: tables_ok_def)
  show "read_codes 0 0 one (replicate 256 NO_CODE) = Some (put_codes 0 0 one (replicate 256 NO_CODE))"
    using d by (intro read_codes_put) simp_all
  have "put_codes 0 0 one (replicate 256 NO_CODE) ! unat b = NO_CODE" if "b \<in> set two" for b
    using d that by (subst put_codes_occupied [OF d(1) tables_sizes(3) [OF assms]]) blast
  then show "read_codes two_tag 0 two (put_codes 0 0 one (replicate 256 NO_CODE))
      = Some (put_codes two_tag 0 two (put_codes 0 0 one (replicate 256 NO_CODE)))"
    using d by (intro read_codes_put) simp_all
qed

lemma alphabet_read_write:
  assumes "alphabet_wf a"
  shows "alphabet_read (alphabet_write a []) = Some a"
proof -
  have t: "tables_ok (a_width a) (a_one a) (a_two a)" using assms by (simp add: alphabet_wf_def)
  note sizes = tables_sizes [OF t]
  have l: "length (a_one a) - Suc 0 < 256" using sizes(3) by simp
  have u: "unat (of_nat (a_width a) :: u8) = a_width a"
    "Suc (unat (of_nat (length (a_one a) - Suc 0) :: u8)) = length (a_one a)"
    "unat (of_nat (length (a_two a)) :: u8) = length (a_two a)"
    using sizes t l by (simp_all add: unat_of_nat_u8 tables_ok_def)
  have "a_code a = put_codes two_tag 0 (a_two a) (put_codes 0 0 (a_one a) (replicate 256 NO_CODE))"
    using assms by (simp add: alphabet_wf_def)
  then show ?thesis
    using t by (simp add: alphabet_read_def alphabet_write_def u Let_def tables_codes [OF t])
      (auto simp: tables_ok_def)
qed

lemma alphabet_read_Some:
  assumes "alphabet_read bs = Some a"
  shows "alphabet_wf a \<and> bs = alphabet_write a []"
proof -
  obtain w o' t rest where bs: "bs = w # o' # t # rest"
    using assms by (auto simp: alphabet_read_def split: list.splits)
  define one where "one = take (unat o' + 1) rest"
  define two where "two = drop (unat o' + 1) rest"
  have eq: "alphabet_read bs =
    (if unat w \<notin> set WIDTHS \<or> length rest \<noteq> unat o' + 1 + unat t then None
     else if length one > 2 ^ unat w \<or> length two > top (unat w) then None
     else if two \<noteq> [] \<and> length one \<noteq> top (unat w) then None
     else Option.bind (read_codes 0 0 one (replicate 256 NO_CODE)) (\<lambda>code.
       Option.bind (read_codes two_tag 0 two code) (\<lambda>code.
         Some \<lparr>a_width = unat w, a_one = one, a_two = two, a_code = code\<rparr>)))"
    by (simp only: bs alphabet_read_def list.case Let_def one_def two_def)
  have len: "unat w \<in> set WIDTHS" "length rest = unat o' + 1 + unat t"
    and fits: "length one \<le> 2 ^ unat w" "length two \<le> top (unat w)" "two \<noteq> [] \<longrightarrow> length one = top (unat w)"
    using assms unfolding eq by (auto split: if_splits)
  obtain code code' where code: "read_codes 0 0 one (replicate 256 NO_CODE) = Some code"
      "read_codes two_tag 0 two code = Some code'"
    and a: "a = \<lparr>a_width = unat w, a_one = one, a_two = two, a_code = code'\<rparr>"
    using assms unfolding eq by (auto simp: bind_eq_Some_conv split: if_splits)
  have "(2::nat) ^ unat w \<le> 2 ^ 8" using len(1) by (intro power_increasing) (simp_all add: WIDTHS_def)
  then have small: "length one \<le> 256" "length two < 256" using fits(1,2) by (simp_all add: top_def)
  have 1: "distinct one" "code = put_codes 0 0 one (replicate 256 NO_CODE)"
    using read_codes_Some [OF code(1)] small plain_entry(1) by simp_all
  have two255: "length two \<le> 255" using small by simp
  have 2: "distinct two" "\<forall>b \<in> set two. code ! unat b = NO_CODE" "code' = put_codes two_tag 0 two code"
    using read_codes_Some [OF code(2)] 1 tagged_entry(1) two255 by simp_all
  have "set one \<inter> set two = {}"
    using 2(2) put_codes_occupied [OF 1(1) small(1)] 1(2) by blast
  moreover have l: "length one = unat o' + 1" "length two = unat t"
    using len(2) by (simp_all add: one_def two_def)
  ultimately have "alphabet_wf a"
    using 1 2 fits len(1) by (auto simp: alphabet_wf_def tables_ok_def a)
  moreover have "one @ two = rest" by (simp add: one_def two_def)
  ultimately show ?thesis using l by (simp add: bs alphabet_write_def a)
qed

text \<open>C14. \<^verbatim>\<open>read\<close> accepts exactly the bytes \<^verbatim>\<open>write_to\<close> writes for a well-formed alphabet, and gives
  that alphabet back, code table included: a blob's table either names every code once or is refused.\<close>

theorem alphabet_read_exact:
  "alphabet_read bs = Some a \<longleftrightarrow> alphabet_wf a \<and> bs = alphabet_write a []"
  using alphabet_read_Some alphabet_read_write by blast

lemma alphabet_write_len: "length (alphabet_write a out) = length out + alphabet_len a"
  by (simp add: alphabet_write_def alphabet_len_def)

subsection \<open>The alphabet a shard chooses\<close>

text \<open>The frequencies of a byte string.\<close>

definition byte_freq :: "bytes \<Rightarrow> nat list" where
  "byte_freq s = map (\<lambda>b. count_list s (of_nat b)) [0..<256]"

lemma of_nat_u8_inj: "inj_on (of_nat :: nat \<Rightarrow> u8) {0..<256}"
  by (rule inj_onI) (metis atLeastLessThan_iff mod_less unat_of_nat_u8)

lemma u8_of_nat_unat: "(of_nat (unat b) :: u8) = b"
  by simp

lemma ranked_of_set:
  assumes "length freq = 256"
  shows "(f, b) \<in> set (ranked_of freq) \<longleftrightarrow> f = freq ! unat b \<and> 0 < f"
proof
  assume "(f, b) \<in> set (ranked_of freq)"
  then obtain n where n: "n < 256" "0 < freq ! n" "f = freq ! n" "b = of_nat n"
    by (auto simp: ranked_of_def)
  then have "unat b = n" by (simp only: n(4) unat_of_nat_u8) simp
  then show "f = freq ! unat b \<and> 0 < f" using n by simp
next
  assume "f = freq ! unat b \<and> 0 < f"
  moreover have "unat b \<in> {0..<256}" by simp
  ultimately show "(f, b) \<in> set (ranked_of freq)"
    by (auto simp: ranked_of_def intro!: image_eqI [of _ _ "unat b"])
qed

lemma ranked_of_distinct: "distinct (map snd (ranked_of freq))"
proof -
  let ?xs = "map (\<lambda>b. (freq ! b, of_nat b :: u8)) (filter (\<lambda>b. 0 < freq ! b) [0..<256])"
  have "inj_on (of_nat :: nat \<Rightarrow> u8) (set (filter (\<lambda>b. 0 < freq ! b) [0..<256]))"
    by (rule inj_on_subset [OF of_nat_u8_inj]) auto
  then have "distinct (map snd ?xs)" by (simp add: distinct_map comp_def)
  then have "distinct ?xs" "inj_on snd (set ?xs)" by (simp_all only: distinct_map)
  then show ?thesis
    by (simp add: ranked_of_def distinct_map del: set_map)
qed

text \<open>The tables a width splits the ranking into, and what is left for the escape.\<close>

lemma split_alphabet_parts:
  assumes "ranked \<noteq> []" "distinct (map snd ranked)" "w \<in> set WIDTHS"
    and "split_alphabet ranked w = (one, two)"
  obtains r1 r2 r3 where "ranked = r1 @ r2 @ r3" "one = map snd r1" "two = map snd r2"
    "alphabet_bits ranked w = (freq_sum r1 + 2 * freq_sum r2 + freq_sum r3 * raw_codes w) * w"
    "two = [] \<longrightarrow> r3 = []" "tables_ok w one two"
proof (cases "length ranked \<le> 2 ^ w")
  case True
  then have "one = map snd ranked" "two = []" using assms(4) by (simp_all add: split_alphabet_def)
  then show thesis
    using True assms that [of ranked "[]" "[]"]
    by (simp add: alphabet_bits_def tables_ok_def freq_sum_def)
next
  case False
  let ?k = "top w"
  let ?r2 = "drop ?k (take (min (2 * ?k) (length ranked)) ranked)"
  have w: "1 \<le> w" using assms(3) by (simp add: WIDTHS_def)
  have k: "1 \<le> ?k" "?k + 1 < length ranked" "?k + 1 = 2 ^ w"
  proof -
    have "(2::nat) ^ 1 \<le> 2 ^ w" using w by (rule power_increasing) simp
    then show "1 \<le> ?k" "?k + 1 = 2 ^ w" by (simp_all add: top_def)
    then show "?k + 1 < length ranked" using False by simp
  qed
  have one: "one = map snd (take ?k ranked)" and two: "two = map snd ?r2"
    using assms(4) False by (simp_all add: split_alphabet_def Let_def take_map drop_map)
  have "take (min (2 * ?k) (length ranked)) ranked = take (2 * ?k) ranked" by (simp add: min_def)
  then have r2: "?r2 = take ?k (drop ?k ranked)" by (simp add: take_drop mult_2)
  have parts: "ranked = take ?k ranked @ ?r2 @ drop (2 * ?k) ranked"
    unfolding r2 by (metis append_take_drop_id drop_drop mult_2)
  have get: "(case get_from ranked (2 * ?k) of None \<Rightarrow> [] | Some r \<Rightarrow> r) = drop (2 * ?k) ranked"
    by (simp add: get_from_def)
  have bits: "alphabet_bits ranked w =
      (freq_sum (take ?k ranked) + 2 * freq_sum ?r2 + freq_sum (drop (2 * ?k) ranked) * raw_codes w) * w"
    using False by (simp add: alphabet_bits_def Let_def get)
  have len2: "length two \<le> ?k" "two \<noteq> []" using k by (auto simp: two r2)
  have "distinct (one @ two)"
  proof -
    have "map snd ranked = (one @ two) @ map snd (drop (2 * ?k) ranked)"
      by (subst parts) (simp add: one two)
    then show ?thesis using assms(2) by (metis distinct_append)
  qed
  moreover have "length one = ?k" using k by (simp add: one)
  ultimately have "tables_ok w one two"
    using k len2 assms(3) by (auto simp: tables_ok_def)
  then show thesis using that [OF parts one two bits] len2 by simp
qed

lemma length_byte_codes:
  assumes "alphabet_wf a"
  shows "length (byte_codes a b) =
    (if b \<in> set (a_one a) then 1 else if b \<in> set (a_two a) then 2 else raw_codes (a_width a))"
proof -
  have d: "set (a_one a) \<inter> set (a_two a) = {}" using assms by (simp add: alphabet_wf_def tables_ok_def)
  show ?thesis
    using assms
  proof (cases rule: byte_codes_cases [of a b])
    case (One j)
    then show ?thesis by simp
  next
    case (Two j)
    then have "b \<in> set (a_two a)" by simp
    then have "b \<notin> set (a_one a)" using d by blast
    then show ?thesis using Two(3) \<open>b \<in> set (a_two a)\<close> by simp
  next
    case Raw
    then show ?thesis by (simp add: raw_codes_def)
  qed
qed

lemma codes_for_counts:
  assumes "length freq = 256" "freq = byte_freq s"
  shows "codes_for a s = sum_list (map (\<lambda>(f, b). f * length (byte_codes a b)) (ranked_of freq))"
proof -
  let ?n = "\<lambda>b. length (byte_codes a b)" and ?r = "ranked_of freq"
  have f: "freq ! unat b = count_list s b" for b by (simp add: assms(2) byte_freq_def)
  have "codes_for a s = sum_list (map ?n s)"
    by (induction s) (simp_all flip: length_codes_of)
  also have "\<dots> = (\<Sum>b \<in> set s. count_list s b * ?n b)" by (rule sum_list_map_eq_sum_count)
  also have "set s = set (map snd ?r)"
  proof -
    have "b \<in> set (map snd ?r) \<longleftrightarrow> (\<exists>f. (f, b) \<in> set ?r)" for b by force
    then have "b \<in> set (map snd ?r) \<longleftrightarrow> count_list s b \<noteq> 0" for b
      by (simp only: ranked_of_set [OF assms(1)] f) simp
    then show ?thesis by (simp only: count_list_0_iff set_eq_iff) simp
  qed
  also have "(\<Sum>b \<in> set (map snd ?r). count_list s b * ?n b) = sum_list (map (\<lambda>b. count_list s b * ?n b) (map snd ?r))"
    by (rule sum_list_distinct_conv_sum_set [OF ranked_of_distinct, symmetric])
  also have "map (\<lambda>b. count_list s b * ?n b) (map snd ?r) = map (\<lambda>(f, b). f * ?n b) ?r"
    unfolding map_map by (rule map_cong [OF refl]) (clarsimp simp: ranked_of_set [OF assms(1)] f)
  finally show ?thesis .
qed

lemma ranked_of_empty: "ranked_of (byte_freq s) = [] \<longleftrightarrow> s = []"
proof -
  have f: "byte_freq s ! unat b = count_list s b" for b by (simp add: byte_freq_def)
  have len: "length (byte_freq s) = 256" by (simp add: byte_freq_def)
  have "ranked_of (byte_freq s) = [] \<longleftrightarrow> (\<forall>f b. (f, b) \<notin> set (ranked_of (byte_freq s)))"
    by (cases "ranked_of (byte_freq s)") auto
  also have "\<dots> \<longleftrightarrow> (\<forall>b. count_list s b = 0)" by (simp only: ranked_of_set [OF len] f) auto
  also have "\<dots> \<longleftrightarrow> s = []" by (simp only: count_list_0_iff) (cases s, auto)
  finally show ?thesis .
qed

lemma cheapest_width:
  assumes "wb = arg_min_list (\<lambda>(w, bits). (bits, w)) (map (\<lambda>w. (w, g w)) WIDTHS)"
  shows "fst wb \<in> set WIDTHS" "snd wb = g (fst wb)" "\<forall>w \<in> set WIDTHS. snd wb \<le> (g w :: nat)"
proof -
  let ?key = "\<lambda>(w :: nat, bits :: nat). (bits, w)" and ?xs = "map (\<lambda>w. (w, g w)) WIDTHS"
  have ne: "?xs \<noteq> []" by (simp add: WIDTHS_def)
  have "wb \<in> set ?xs" using arg_min_list_in [OF ne] assms by simp
  then show "fst wb \<in> set WIDTHS" "snd wb = g (fst wb)" by auto
  have "?key wb = Min (?key ` set ?xs)" using f_arg_min_list_f [OF ne] assms by simp
  moreover have "Min (?key ` set ?xs) \<le> ?key (w, g w)" if "w \<in> set WIDTHS" for w
    using that by (intro Min_le imageI) auto
  ultimately have "?key wb \<le> ?key (w, g w)" if "w \<in> set WIDTHS" for w
    using that by simp
  then show "\<forall>w \<in> set WIDTHS. snd wb \<le> g w"
    by (cases wb) (force simp: less_eq_prod_def)
qed

lemma alphabet_bits_codes:
  assumes "s \<noteq> []" "w \<in> set WIDTHS" "split_alphabet (ranked_of (byte_freq s)) w = (one, two)"
    and a: "a = \<lparr>a_width = w, a_one = one, a_two = two,
      a_code = put_codes two_tag 0 two (put_codes 0 0 one (replicate 256 NO_CODE))\<rparr>"
  shows "alphabet_wf a \<and> covers a s \<and> alphabet_bits (ranked_of (byte_freq s)) w = w * codes_for a s"
proof -
  let ?r = "ranked_of (byte_freq s)"
  have len: "length (byte_freq s) = 256" by (simp add: byte_freq_def)
  have ne: "?r \<noteq> []" using assms(1) by (simp add: ranked_of_empty)
  obtain r1 r2 r3 where r: "?r = r1 @ r2 @ r3" and ot: "one = map snd r1" "two = map snd r2"
    and bits: "alphabet_bits ?r w = (freq_sum r1 + 2 * freq_sum r2 + freq_sum r3 * raw_codes w) * w"
    and fit: "two = [] \<longrightarrow> r3 = []" and t: "tables_ok w one two"
    by (rule split_alphabet_parts [OF ne ranked_of_distinct assms(2,3)])
  have wf: "alphabet_wf a" using t by (simp add: a alphabet_wf_def)
  have d: "distinct (map snd (r1 @ r2 @ r3))" using ranked_of_distinct [of "byte_freq s"] r by simp
  have cov: "covers a s"
    unfolding covers_def
  proof (intro impI subsetI)
    fix b assume "a_two a = []" and b: "b \<in> set s"
    then have "?r = r1" using fit r ot(2) by (simp add: a)
    moreover have "byte_freq s ! unat b = count_list s b" by (simp add: byte_freq_def)
    then have "(count_list s b, b) \<in> set ?r"
      using ranked_of_set [OF len, of "count_list s b" b] b count_list_0_iff [of s b] by simp
    ultimately show "b \<in> set (a_one a)" by (force simp: a ot)
  qed
  have n: "length (byte_codes a b) =
      (if b \<in> set (map snd r1) then 1 else if b \<in> set (map snd r2) then 2 else raw_codes w)" for b
    using length_byte_codes [OF wf] by (simp add: a ot del: set_map)
  have sum: "sum_list (map (\<lambda>(f, b). f * length (byte_codes a b)) q) = freq_sum q * m"
    if "\<And>b. b \<in> set (map snd q) \<Longrightarrow> length (byte_codes a b) = m" for q m
    using that by (induction q) (auto simp: freq_sum_def algebra_simps)
  have "codes_for a s = sum_list (map (\<lambda>(f, b). f * length (byte_codes a b)) (r1 @ r2 @ r3))"
    using codes_for_counts [OF len refl, of a] r by simp
  also have "\<dots> = freq_sum r1 * 1 + (freq_sum r2 * 2 + freq_sum r3 * raw_codes w)"
  proof -
    have "b \<notin> set (map snd r1)" if "b \<in> set (map snd r2)" for b using d that by auto
    moreover have "b \<notin> set (map snd r1) \<and> b \<notin> set (map snd r2)" if "b \<in> set (map snd r3)" for b
      using d that by auto
    ultimately show ?thesis
      unfolding map_append sum_list.append
      by (intro arg_cong2 [where f = "(+)"] sum) (simp_all only: n if_True if_False)
  qed
  finally show ?thesis using wf cov bits by simp
qed

lemma alphabet_of_covers:
  "(alphabet_of (byte_freq s) = None \<longleftrightarrow> s = []) \<and>
    (\<forall>a bits. alphabet_of (byte_freq s) = Some (a, bits) \<longrightarrow>
      alphabet_wf a \<and> covers a s \<and> bits = a_width a * codes_for a s \<and>
      (\<forall>w \<in> set WIDTHS. bits \<le> alphabet_bits (ranked_of (byte_freq s)) w))"
proof (intro conjI allI impI)
  show "alphabet_of (byte_freq s) = None \<longleftrightarrow> s = []"
    by (simp add: alphabet_of_def Let_def ranked_of_empty)
  fix a bits assume some: "alphabet_of (byte_freq s) = Some (a, bits)"
  let ?r = "ranked_of (byte_freq s)"
  define wb where "wb = arg_min_list (\<lambda>(w, bits). (bits, w)) (map (\<lambda>w. (w, alphabet_bits ?r w)) WIDTHS)"
  obtain one two where ot: "split_alphabet ?r (fst wb) = (one, two)" by (cases "split_alphabet ?r (fst wb)")
  have s: "s \<noteq> []" using some by (auto simp: alphabet_of_def ranked_of_empty)
  then have a: "a = \<lparr>a_width = fst wb, a_one = one, a_two = two,
      a_code = put_codes two_tag 0 two (put_codes 0 0 one (replicate 256 NO_CODE))\<rparr>"
    and bits: "bits = snd wb"
    using some ot ranked_of_empty [of s]
    by (simp_all add: alphabet_of_def Let_def flip: wb_def)
  note w = cheapest_width [OF wb_def]
  show "alphabet_wf a" "covers a s" "bits = a_width a * codes_for a s"
    using alphabet_bits_codes [OF s w(1) ot a] w(2) bits a by simp_all
  show "\<forall>w \<in> set WIDTHS. bits \<le> alphabet_bits ?r w" using w(3) bits by simp
qed

text \<open>C15. Over the frequencies of a shard's suffix bytes, \<^verbatim>\<open>of\<close> gives nothing exactly when there are
  none; otherwise it gives a well-formed alphabet that can write them, the bits it reports are the
  bits the encoder takes, and no other width's tables would take fewer.\<close>

theorem alphabet_of_cheapest:
  "(alphabet_of (byte_freq s) = None \<longleftrightarrow> s = []) \<and>
    (\<forall>a bits. alphabet_of (byte_freq s) = Some (a, bits) \<longrightarrow>
      alphabet_wf a \<and> covers a s \<and> bits = a_width a * codes_for a s \<and>
      (\<forall>w \<in> set WIDTHS. bits \<le> alphabet_bits (ranked_of (byte_freq s)) w))"
  by (rule alphabet_of_covers)

theorem alphabet_of_cheapest_witness:
  "\<exists>a bits. alphabet_of (byte_freq [97, 98, 97]) = Some (a, bits) \<and>
      alphabet_wf a \<and> covers a [97, 98, 97] \<and> bits = a_width a * codes_for a [97, 98, 97]"
  using alphabet_of_cheapest [of "[97, 98, 97]"]
  by (cases "alphabet_of (byte_freq [97, 98, 97])") auto

end
