(* ===== verification/Blob_Hash.thy ===== *)
theory Blob_Hash
  imports Le_Bytes
begin

text \<open>
  The checksums and the byte views of \<^verbatim>\<open>src/blob.rs\<close>: the header check \<^verbatim>\<open>hash_bytes\<close>, the streaming
  payload hash \<^verbatim>\<open>BlockHasher\<close>, and \<^verbatim>\<open>SharedBytes\<close> as a range of a source. The payload hash is shown
  to depend on the bytes and not on how they were cut into writes, and to change with any damage
  that stays inside one aligned eight-byte word.
\<close>

subsection \<open>The header check\<close>

definition mix1 :: u64 where "mix1 = 0xbf58476d1ce4e5b9"
definition mix2 :: u64 where "mix2 = 0x94d049bb133111eb"

text \<open>The splitmix64 finalizer both hashes end with.\<close>

definition finalize :: "u64 \<Rightarrow> u64" where
  "finalize h0 =
    (let h1 = (h0 XOR drop_bit 30 h0) * mix1; h2 = (h1 XOR drop_bit 27 h1) * mix2
     in h2 XOR drop_bit 31 h2)"

definition hash_bytes :: "bytes \<Rightarrow> u64" where
  "hash_bytes bs =
    finalize (foldl (\<lambda>h b. (h XOR ucast b) * 0x00000100000001b3) 0xcbf29ce484222325 bs)"

subsection \<open>The payload hash\<close>

record block_hasher =
  bh_h :: u64
  bh_buf :: bytes
  bh_len :: nat
  bh_total :: u64

definition bh_new :: block_hasher where
  "bh_new = \<lparr>bh_h = 0x9e3779b97f4a7c15, bh_buf = replicate 8 0, bh_len = 0, bh_total = 0\<rparr>"

definition bh_word :: "u64 \<Rightarrow> u64 \<Rightarrow> u64" where
  "bh_word h w = (let x = (h XOR w) * mix1 in x XOR drop_bit 29 x)"

text \<open>\<^verbatim>\<open>chunks_exact(8)\<close>: the whole words, and the remainder.\<close>

fun bh_words :: "u64 \<Rightarrow> bytes \<Rightarrow> u64 \<times> bytes" where
  "bh_words h bs = (if 8 \<le> length bs then bh_words (bh_word h (u64_of (take 8 bs))) (drop 8 bs) else (h, bs))"

declare bh_words.simps [simp del]

definition bh_tail :: "u64 \<times> bytes \<Rightarrow> block_hasher \<Rightarrow> block_hasher" where
  "bh_tail ht s = s\<lparr>bh_h := fst ht, bh_buf := snd ht @ drop (length (snd ht)) (bh_buf s),
    bh_len := length (snd ht)\<rparr>"

definition bh_update :: "bytes \<Rightarrow> block_hasher \<Rightarrow> block_hasher" where
  "bh_update bs s0 = (let s = s0\<lparr>bh_total := bh_total s0 + of_nat (length bs)\<rparr> in
    if bh_len s > 0 then
      (let n = min (length bs) (8 - bh_len s);
           buf = take (bh_len s) (bh_buf s) @ take n bs @ drop (bh_len s + n) (bh_buf s)
       in if bh_len s + n < 8 then s\<lparr>bh_buf := buf, bh_len := bh_len s + n\<rparr>
          else bh_tail (bh_words (bh_word (bh_h s) (u64_of buf)) (drop n bs)) (s\<lparr>bh_buf := buf\<rparr>))
    else bh_tail (bh_words (bh_h s) bs) s)"

definition bh_finish :: "block_hasher \<Rightarrow> u64" where
  "bh_finish s =
    (let h = (if bh_len s > 0
       then bh_word (bh_h s) (u64_of (take (bh_len s) (bh_buf s) @ replicate (8 - bh_len s) 0))
       else bh_h s)
     in finalize (h XOR bh_total s))"

definition hash_block :: "bytes \<Rightarrow> u64" where
  "hash_block bs = bh_finish (bh_update bs bh_new)"

subsection \<open>Chunks do not matter\<close>

text \<open>What a hasher fed the bytes \<open>s\<close> holds.\<close>

definition absorbed :: "block_hasher \<Rightarrow> bytes \<Rightarrow> bool" where
  "absorbed st s \<longleftrightarrow> (case bh_words (bh_h bh_new) s of (h, r) \<Rightarrow>
      bh_h st = h \<and> bh_len st = length r \<and> take (length r) (bh_buf st) = r \<and> length (bh_buf st) = 8 \<and>
      bh_total st = of_nat (length s))"

lemma bh_words_rest: "bh_words h s = (h', r) \<Longrightarrow> length r < 8"
proof (induction h s rule: bh_words.induct)
  case (1 h bs)
  then show ?case by (subst (asm) (2) bh_words.simps) (auto split: if_splits)
qed

lemma bh_words_append: "bh_words h s = (h', r) \<Longrightarrow> bh_words h (s @ t) = bh_words h' (r @ t)"
proof (induction h s rule: bh_words.induct)
  case (1 h bs)
  show ?case
  proof (cases "8 \<le> length bs")
    case True
    then have "bh_words (bh_word h (u64_of (take 8 bs))) (drop 8 bs) = (h', r)"
      using 1(2) by (subst (asm) bh_words.simps) simp
    then show ?thesis
      using 1(1) True by (subst bh_words.simps) simp
  next
    case False
    then show ?thesis using 1(2) by (subst (asm) bh_words.simps) simp
  qed
qed

lemma absorbed_new: "absorbed bh_new []"
  by (simp add: absorbed_def bh_new_def bh_words.simps)

lemma absorbed_update:
  assumes "absorbed st s"
  shows "absorbed (bh_update bs st) (s @ bs)"
proof -
  obtain h r where w: "bh_words (bh_h bh_new) s = (h, r)" by (cases "bh_words (bh_h bh_new) s")
  note r8 = bh_words_rest [OF w]
  have st: "bh_h st = h" "bh_len st = length r" "take (length r) (bh_buf st) = r"
    "length (bh_buf st) = 8" "bh_total st = of_nat (length s)"
    using assms w by (simp_all add: absorbed_def)
  have app: "bh_words (bh_h bh_new) (s @ bs) = bh_words h (r @ bs)" by (rule bh_words_append [OF w])
  obtain h2 r2 where w2: "bh_words h (r @ bs) = (h2, r2)" by (cases "bh_words h (r @ bs)")
  note r28 = bh_words_rest [OF w2]
  consider (empty) "r = []" | (fill) "r \<noteq> []" "8 \<le> length r + length bs"
    | (short) "r \<noteq> []" "length r + length bs < 8" by linarith
  then show ?thesis
  proof cases
    case empty
    then show ?thesis
      using st w2 app r28 by (simp add: absorbed_def bh_update_def bh_tail_def Let_def)
  next
    case fill
    let ?n = "8 - length r"
    have n: "min (length bs) ?n = ?n" using fill r8 by simp
    have buf: "take (length r) (bh_buf st) @ take ?n bs @ drop (length r + ?n) (bh_buf st) = r @ take ?n bs"
      using st r8 by simp
    have "bh_words h (r @ bs) = bh_words (bh_word h (u64_of (r @ take ?n bs))) (drop ?n bs)"
      using fill r8 by (subst bh_words.simps) simp
    then have "bh_update bs st = bh_tail (h2, r2) (st\<lparr>bh_total := bh_total st + of_nat (length bs), bh_buf := r @ take ?n bs\<rparr>)"
      using fill st n buf r8 w2 by (simp add: bh_update_def Let_def)
    then show ?thesis
      using w2 app r28 r8 st fill by (simp add: absorbed_def bh_tail_def)
  next
    case short
    have e: "bh_words h (r @ bs) = (h, r @ bs)" using short by (subst bh_words.simps) simp
    have m: "min (length bs) (8 - length r) = length bs" using short by simp
    show ?thesis
      using st short app e
      by (simp add: absorbed_def bh_update_def Let_def m)
  qed
qed

lemma absorbed_fold: "absorbed st s \<Longrightarrow> absorbed (fold bh_update parts st) (s @ concat parts)"
proof (induction parts arbitrary: st s)
  case (Cons c cs)
  show ?case using Cons.IH [OF absorbed_update [OF Cons.prems, of c]] by simp
qed simp

lemma absorbed_finish:
  assumes "absorbed st s" "absorbed st' s"
  shows "bh_finish st = bh_finish st'"
  using assms by (auto simp: absorbed_def bh_finish_def split: prod.splits)

lemma block_hasher_concat:
  "bh_finish (fold bh_update parts bh_new) = hash_block (concat parts)"
  unfolding hash_block_def
proof (rule absorbed_finish)
  show "absorbed (fold bh_update parts bh_new) (concat parts)"
    using absorbed_fold [OF absorbed_new, of parts] by simp
  show "absorbed (bh_update (concat parts) bh_new) (concat parts)"
    using absorbed_update [OF absorbed_new, of "concat parts"] by simp
qed

text \<open>C26. However a payload is cut into writes, the hash of the stream is \<^verbatim>\<open>hash_block\<close> of its bytes: a
  section boundary or a short write never changes what the header records.\<close>

theorem block_hasher_chunks:
  "bh_finish (fold bh_update parts bh_new) = hash_block (concat parts)"
  by (rule block_hasher_concat)

subsection \<open>Damage inside one word\<close>

text \<open>Every step of the hash is injective: an exclusive or with its own high part, and a product with
  an odd constant, whose inverse is written out.\<close>

lemma xor_right_inj: "(a::'a::len word) XOR c = b XOR c \<longleftrightarrow> a = b"
proof
  assume "a XOR c = b XOR c"
  then have "(a XOR c) XOR c = (b XOR c) XOR c" by simp
  then show "a = b" by (simp add: xor.assoc)
qed simp

lemma xor_left_inj: "c XOR (a::'a::len word) = c XOR b \<longleftrightarrow> a = b"
  by (simp add: xor.commute [of c] xor_right_inj)

lemma xor_zero_iff: "(a::'a::len word) XOR b = 0 \<longleftrightarrow> a = b"
  using xor_right_inj [of a b b] by simp

lemma xorshift_inj:
  fixes x y :: "'a::len word"
  assumes "0 < k" "x XOR drop_bit k x = y XOR drop_bit k y"
  shows "x = y"
proof -
  let ?z = "x XOR y"
  have "?z XOR drop_bit k ?z = (x XOR drop_bit k x) XOR (y XOR drop_bit k y)"
    by (simp add: drop_bit_xor xor.assoc xor.left_commute)
  also have "\<dots> = 0" using assms(2) by (simp only: xor_zero_iff)
  finally have "?z = drop_bit k ?z" by (simp only: xor_zero_iff)
  then have "unat ?z = unat (drop_bit k ?z)" by (rule arg_cong)
  then have "unat ?z = unat ?z div 2 ^ k" by (simp only: unat_drop_bit)
  moreover have "1 < (2::nat) ^ k" using assms(1) by (intro one_less_power) simp_all
  ultimately have "unat ?z = 0" using div_less_dividend [of "2 ^ k" "unat ?z"] by linarith
  then have "?z = 0" by (simp only: unat_eq_0)
  then show "x = y" by (simp only: xor_zero_iff)
qed

lemma mult_unit_inj:
  fixes a b c d :: "'a::len word"
  assumes "c * d = 1" "a * c = b * c"
  shows "a = b"
  by (metis assms mult.assoc mult.right_neutral)

lemma mix1_unit: "mix1 * 0x96de1b173f119089 = 1"
  by (simp add: mix1_def)

lemma mix2_unit: "mix2 * 0x319642b2d24d8ec3 = 1"
  by (simp add: mix2_def)

lemma bh_word_inj: "bh_word h w = bh_word h' w' \<Longrightarrow> h XOR w = h' XOR w'"
  unfolding bh_word_def Let_def
  by (drule xorshift_inj [rotated]) (simp, rule mult_unit_inj [OF mix1_unit])

lemma finalize_inj:
  assumes "finalize a = finalize b"
  shows "a = b"
proof -
  have "(let h1 = (a XOR drop_bit 30 a) * mix1 in (h1 XOR drop_bit 27 h1) * mix2)
      = (let h1 = (b XOR drop_bit 30 b) * mix1 in (h1 XOR drop_bit 27 h1) * mix2)"
    using assms unfolding finalize_def Let_def by (rule xorshift_inj [rotated]) simp
  then have "(let h1 = (a XOR drop_bit 30 a) * mix1 in h1 XOR drop_bit 27 h1)
      = (let h1 = (b XOR drop_bit 30 b) * mix1 in h1 XOR drop_bit 27 h1)"
    unfolding Let_def by (rule mult_unit_inj [OF mix2_unit])
  then have "(a XOR drop_bit 30 a) * mix1 = (b XOR drop_bit 30 b) * mix1"
    unfolding Let_def by (rule xorshift_inj [rotated]) simp
  then have "a XOR drop_bit 30 a = b XOR drop_bit 30 b" by (rule mult_unit_inj [OF mix1_unit])
  then show "a = b" by (rule xorshift_inj [rotated]) simp
qed

text \<open>The state after a whole stream, its tail padded with zeros.\<close>

fun bh_absorb :: "u64 \<Rightarrow> bytes \<Rightarrow> u64" where
  "bh_absorb h bs = (if 8 \<le> length bs then bh_absorb (bh_word h (u64_of (take 8 bs))) (drop 8 bs)
    else if bs = [] then h else bh_word h (u64_of (bs @ replicate (8 - length bs) 0)))"

declare bh_absorb.simps [simp del]

lemma bh_absorb_words:
  "bh_absorb h bs = (case bh_words h bs of (h', r) \<Rightarrow>
    if r = [] then h' else bh_word h' (u64_of (r @ replicate (8 - length r) 0)))"
proof (induction h bs rule: bh_absorb.induct)
  case (1 h bs)
  then show ?case
    by (subst bh_absorb.simps, subst bh_words.simps) (cases "8 \<le> length bs", simp_all)
qed

lemma hash_block_absorb: "hash_block s = finalize (bh_absorb (bh_h bh_new) s XOR of_nat (length s))"
proof -
  obtain h r where w: "bh_words (bh_h bh_new) s = (h, r)" by (cases "bh_words (bh_h bh_new) s")
  have "absorbed (bh_update s bh_new) s" using absorbed_update [OF absorbed_new, of s] by simp
  then show ?thesis
    using w by (auto simp: hash_block_def absorbed_def bh_finish_def bh_absorb_words)
qed

lemma u64_of_inj: "length xs = 8 \<Longrightarrow> length ys = 8 \<Longrightarrow> u64_of xs = u64_of ys \<Longrightarrow> xs = ys"
  by (metis u64_bytes_of)

lemma bh_absorb_inj: "bh_absorb h bs = bh_absorb h' bs \<Longrightarrow> h = h'"
proof (induction h bs arbitrary: h' rule: bh_absorb.induct)
  case (1 h bs)
  show ?case
  proof (cases "8 \<le> length bs")
    case True
    have "bh_word h (u64_of (take 8 bs)) = bh_word h' (u64_of (take 8 bs))"
    proof (rule 1(1) [OF True])
      show "bh_absorb (bh_word h (u64_of (take 8 bs))) (drop 8 bs) =
          bh_absorb (bh_word h' (u64_of (take 8 bs))) (drop 8 bs)"
        using 1(2) True bh_absorb.simps [of h bs] bh_absorb.simps [of h' bs] by simp
    qed
    then show ?thesis using bh_word_inj xor_right_inj by blast
  next
    case False
    then have "bs = [] \<and> h = h' \<or> bh_word h (u64_of (bs @ replicate (8 - length bs) 0)) =
        bh_word h' (u64_of (bs @ replicate (8 - length bs) 0))"
      using 1(2) bh_absorb.simps [of h bs] bh_absorb.simps [of h' bs] by (simp split: if_splits)
    then show ?thesis using bh_word_inj xor_right_inj by blast
  qed
qed

lemma bh_absorb_one_word:
  assumes "length s = length t" "take (8 * k) s = take (8 * k) t" "drop (8 * k + 8) s = drop (8 * k + 8) t"
    and "s \<noteq> t"
  shows "bh_absorb h s \<noteq> bh_absorb h t"
  using assms
proof (induction k arbitrary: s t h)
  case 0
  have "drop 8 s = drop 8 t" using 0(3) by simp
  moreover from this have "take 8 s \<noteq> take 8 t" using 0(4) by (metis append_take_drop_id)
  ultimately have d: "take 8 s \<noteq> take 8 t" "drop 8 s = drop 8 t" by simp_all
  show ?case
  proof (cases "8 \<le> length s")
    case True
    have "bh_word h (u64_of (take 8 s)) \<noteq> bh_word h (u64_of (take 8 t))"
    proof
      assume "bh_word h (u64_of (take 8 s)) = bh_word h (u64_of (take 8 t))"
      then have "u64_of (take 8 s) = u64_of (take 8 t)" using bh_word_inj xor_left_inj by blast
      then show False using u64_of_inj [of "take 8 s" "take 8 t"] True 0(1) d(1) by simp
    qed
    then show ?thesis
      using True 0(1) d(2) bh_absorb_inj by (subst (1 2) bh_absorb.simps) auto
  next
    case False
    let ?z = "replicate (8 - length s) (0 :: u8)"
    have ne: "s \<noteq> []" "t \<noteq> []" using 0 by auto
    have "bh_word h (u64_of (s @ ?z)) \<noteq> bh_word h (u64_of (t @ ?z))"
    proof
      assume "bh_word h (u64_of (s @ ?z)) = bh_word h (u64_of (t @ ?z))"
      then have "u64_of (s @ ?z) = u64_of (t @ ?z)" using bh_word_inj xor_left_inj by blast
      then show False using u64_of_inj [of "s @ ?z" "t @ ?z"] False 0(1,4) by simp
    qed
    then show ?thesis using False ne 0(1) by (subst (1 2) bh_absorb.simps) simp
  qed
next
  case (Suc k)
  have l: "8 \<le> length s"
  proof (rule ccontr)
    assume "\<not> 8 \<le> length s"
    then show False using Suc.prems by simp
  qed
  have head: "take 8 s = take 8 t"
    using arg_cong [OF Suc.prems(2), of "take 8"] by simp
  have "take (8 * k) (drop 8 s) = take (8 * k) (drop 8 t)"
    using arg_cong [OF Suc.prems(2), of "drop 8"] by (simp add: drop_take)
  moreover have "drop (8 * k + 8) (drop 8 s) = drop (8 * k + 8) (drop 8 t)"
    using Suc.prems(3) by (simp add: add.commute)
  moreover have "drop 8 s \<noteq> drop 8 t" using Suc.prems(4) head by (metis append_take_drop_id)
  ultimately have "bh_absorb (bh_word h (u64_of (take 8 s))) (drop 8 s)
      \<noteq> bh_absorb (bh_word h (u64_of (take 8 s))) (drop 8 t)"
    using Suc.IH [of "drop 8 s" "drop 8 t"] Suc.prems(1) by simp
  then show ?case using l Suc.prems(1) head by (subst (1 2) bh_absorb.simps) simp
qed

lemma hash_block_word:
  assumes "length s = length t" "take (8 * k) s = take (8 * k) t"
    and "drop (8 * k + 8) s = drop (8 * k + 8) t" "s \<noteq> t"
  shows "hash_block s \<noteq> hash_block t"
proof
  assume "hash_block s = hash_block t"
  then have "bh_absorb (bh_h bh_new) s = bh_absorb (bh_h bh_new) t"
    unfolding hash_block_absorb assms(1) using finalize_inj xor_right_inj by blast
  then show False using bh_absorb_one_word [OF assms] by simp
qed

text \<open>C25. Damage confined to one aligned eight-byte word of a payload, a flipped bit above all, always
  changes \<^verbatim>\<open>hash_block\<close>: it is not merely unlikely to be missed.\<close>

theorem hash_block_detects_word:
  assumes "length s = length t" "take (8 * k) s = take (8 * k) t"
    and "drop (8 * k + 8) s = drop (8 * k + 8) t" "s \<noteq> t"
  shows "hash_block s \<noteq> hash_block t"
  by (rule hash_block_word [OF assms])

theorem hash_block_detects_word_witness:
  "hash_block [1, 2, 3, 4, 5, 6, 7, 8, 9, 10] \<noteq> hash_block [1, 2, 3, 4, 5, 6, 7, 8, 9, 11]"
  by (rule hash_block_detects_word [where k = 1]) simp_all

subsection \<open>Shared views\<close>

text \<open>A view is a range of its source; the pointer of the code is the start of the range.\<close>

record shared =
  sh_src :: bytes
  sh_start :: nat
  sh_len :: nat

definition shared_wf :: "shared \<Rightarrow> bool" where
  "shared_wf v \<longleftrightarrow> sh_start v + sh_len v \<le> length (sh_src v)"

definition shared_whole :: "bytes \<Rightarrow> shared" where
  "shared_whole src = \<lparr>sh_src = src, sh_start = 0, sh_len = length src\<rparr>"

definition shared_bytes :: "shared \<Rightarrow> bytes" where
  "shared_bytes v = take (sh_len v) (drop (sh_start v) (sh_src v))"

definition subslice :: "shared \<Rightarrow> nat \<Rightarrow> nat \<Rightarrow> shared option" where
  "subslice v start end' = (if start > end' \<or> end' > sh_len v then None
    else Some \<lparr>sh_src = sh_src v, sh_start = sh_start v + start, sh_len = end' - start\<rparr>)"

definition run_on :: "shared \<Rightarrow> nat \<Rightarrow> shared option" where
  "run_on v extra = Option.bind (checked_add_usize (sh_len v) extra) (\<lambda>len.
    Option.bind (checked_add_usize (sh_start v) len) (\<lambda>end'.
      if end' \<le> length (sh_src v) then Some (v\<lparr>sh_len := len\<rparr>) else None))"

text \<open>C27. Views stay inside their source: a sub-view is the slice of the view's bytes, one run on past
  its end has the view's bytes first and the source's next bytes after, and either is given exactly
  when the source holds it.\<close>

theorem shared_views_in_range:
  assumes "shared_wf v" "length (sh_src v) < usize_bound"
  shows "(subslice v a b \<noteq> None \<longleftrightarrow> a \<le> b \<and> b \<le> length (shared_bytes v)) \<and>
    (\<forall>u. subslice v a b = Some u \<longrightarrow> shared_wf u \<and> shared_bytes u = take (b - a) (drop a (shared_bytes v))) \<and>
    (run_on v n \<noteq> None \<longleftrightarrow> sh_start v + sh_len v + n \<le> length (sh_src v)) \<and>
    (\<forall>u. run_on v n = Some u \<longrightarrow> shared_wf u \<and>
      shared_bytes u = shared_bytes v @ take n (drop (sh_start v + sh_len v) (sh_src v)))"
proof (intro conjI allI impI)
  show "subslice v a b \<noteq> None \<longleftrightarrow> a \<le> b \<and> b \<le> length (shared_bytes v)"
    using assms(1) by (auto simp: subslice_def shared_wf_def shared_bytes_def)
  show "run_on v n \<noteq> None \<longleftrightarrow> sh_start v + sh_len v + n \<le> length (sh_src v)"
    using assms by (auto simp: run_on_def checked_add_usize_def bind_eq_Some_conv split: if_splits)
  fix u
  show "shared_wf u" "shared_bytes u = take (b - a) (drop a (shared_bytes v))" if "subslice v a b = Some u"
    using that assms(1)
    by (auto simp: subslice_def shared_wf_def shared_bytes_def drop_take min_def add.commute split: if_splits)
  show "shared_wf u" "shared_bytes u = shared_bytes v @ take n (drop (sh_start v + sh_len v) (sh_src v))"
    if "run_on v n = Some u"
    using that assms(1)
    by (auto simp: run_on_def checked_add_usize_def shared_wf_def shared_bytes_def bind_eq_Some_conv
        take_add add.commute [of "sh_start v"] split: if_splits)
qed

theorem shared_views_in_range_witness:
  "shared_bytes (the (subslice (shared_whole [1, 2, 3, 4]) 1 3)) = [2, 3]"
proof -
  have "shared_wf (shared_whole [1, 2, 3, 4])" "length (sh_src (shared_whole [1, 2, 3, 4])) < usize_bound"
    by (simp_all add: shared_wf_def shared_whole_def usize_bound_def)
  note t = shared_views_in_range [OF this, of 1 3]
  have b: "shared_bytes (shared_whole [1, 2, 3, 4]) = [1, 2, 3, 4]"
    by (simp add: shared_bytes_def shared_whole_def)
  from t have t1: "subslice (shared_whole [1, 2, 3, 4]) 1 3 \<noteq> None"
    "\<forall>u. subslice (shared_whole [1, 2, 3, 4]) 1 3 = Some u \<longrightarrow> shared_bytes u = [2, 3]"
    unfolding b by simp_all
  then show ?thesis by (cases "subslice (shared_whole [1, 2, 3, 4]) 1 3") simp_all
qed

end
