(* ===== verification/Utf8.thy ===== *)
theory Utf8
  imports Prelude
begin

text \<open>
  What the crate relies on of Rust's strings: \<^verbatim>\<open>std::str::from_utf8\<close> accepts exactly the well-formed
  byte sequences of the Unicode standard (table 3-7), and a \<^verbatim>\<open>&str\<close> is such a sequence.
\<close>

definition cont_byte :: "u8 \<Rightarrow> bool" where
  "cont_byte b \<longleftrightarrow> 0x80 \<le> b \<and> b \<le> 0xBF"

text \<open>The range of the second byte by the first one, and the continuation bytes after it.\<close>

definition second_ok :: "u8 \<Rightarrow> u8 \<Rightarrow> bool" where
  "second_ok a b \<longleftrightarrow> (if a = 0xE0 then 0xA0 \<le> b \<and> b \<le> 0xBF else if a = 0xED then 0x80 \<le> b \<and> b \<le> 0x9F
    else if a = 0xF0 then 0x90 \<le> b \<and> b \<le> 0xBF else if a = 0xF4 then 0x80 \<le> b \<and> b \<le> 0x8F
    else cont_byte b)"

definition more_bytes :: "u8 \<Rightarrow> nat" where
  "more_bytes a = (if 0xC2 \<le> a \<and> a \<le> 0xDF then 1 else if 0xE0 \<le> a \<and> a \<le> 0xEF then 2
    else if 0xF0 \<le> a \<and> a \<le> 0xF4 then 3 else 0)"

text \<open>The length of the character a byte string opens with, or 0 where it opens with none.\<close>

definition char_len :: "bytes \<Rightarrow> nat" where
  "char_len s = (case s of [] \<Rightarrow> 0 | a # r \<Rightarrow>
    if a < 0x80 then 1
    else let n = more_bytes a in
      if n > 0 \<and> n \<le> length r \<and> second_ok a (hd r) \<and> list_all cont_byte (take n r) then n + 1 else 0)"

function utf8_ok :: "bytes \<Rightarrow> bool" where
  "utf8_ok s = (if s = [] then True else if char_len s = 0 then False else utf8_ok (drop (char_len s) s))"
  by pat_completeness auto
termination by (relation "measure length") auto

declare utf8_ok.simps [simp del]

lemma utf8_ok_Nil [simp]: "utf8_ok []"
  by (simp add: utf8_ok.simps)

end
