(* ===== verification/Overlay.thy ===== *)
theory Overlay
  imports Blob_Hash Utf8
begin

text \<open>
  \<^verbatim>\<open>src/overlay.rs\<close>: additions and removals on top of an immutable index. The index underneath is
  whatever implements the traits \<^verbatim>\<open>OverlayBase\<close> and \<^verbatim>\<open>OverlayKeys\<close>; the model takes the trait's
  methods as a record, as Rust passes a dictionary of them.
\<close>

subsection \<open>The traits\<close>

text \<open>\<open>bt_rebuild\<close> is \<^verbatim>\<open>rebuild_like\<close>; ids are \<^verbatim>\<open>u64\<close> counters no memory can overflow.\<close>

record 'b base_trait =
  bt_len :: "'b \<Rightarrow> nat"
  bt_id :: "'b \<Rightarrow> bytes \<Rightarrow> nat option"
  bt_to_bytes :: "'b \<Rightarrow> bytes option"
  bt_key :: "'b \<Rightarrow> nat \<Rightarrow> bytes option"
  bt_rebuild :: "'b \<Rightarrow> bytes list \<Rightarrow> 'b option"
  bt_tag :: u8
  bt_exact :: bool

subsection \<open>The state\<close>

record 'b overlay =
  ov_base :: 'b
  ov_data :: bytes
  ov_starts :: "u32 list"
  ov_lookup :: "u64 \<rightharpoonup> u32 \<times> u32"
  ov_collisions :: "(u64 \<times> u32 \<times> u32) list"
  ov_dead :: "u64 list"
  ov_live :: nat

definition ov_new :: "'b base_trait \<Rightarrow> 'b \<Rightarrow> 'b overlay" where
  "ov_new T b = \<lparr>ov_base = b, ov_data = [], ov_starts = [], ov_lookup = Map.empty, ov_collisions = [],
    ov_dead = [], ov_live = bt_len T b\<rparr>"

definition ov_len :: "'b overlay \<Rightarrow> nat" where
  "ov_len ov = ov_live ov"

definition ov_is_empty :: "'b overlay \<Rightarrow> bool" where
  "ov_is_empty ov \<longleftrightarrow> ov_live ov = 0"

definition id_space :: "'b base_trait \<Rightarrow> 'b overlay \<Rightarrow> nat" where
  "id_space T ov = bt_len T (ov_base ov) + length (ov_starts ov)"

subsection \<open>The arena of additions\<close>

definition slice :: "bytes \<Rightarrow> nat \<Rightarrow> nat \<Rightarrow> bytes outcome" where
  "slice bs a b = (if a \<le> b \<and> b \<le> length bs then Gives (take (b - a) (drop a bs)) else Panics)"

definition read_u32 :: "bytes \<Rightarrow> nat \<Rightarrow> u32 outcome" where
  "read_u32 bs at = bind_outcome (slice bs at (at + 4)) (\<lambda>w. Gives (u32_of w))"

definition record_at :: "'b overlay \<Rightarrow> u32 \<Rightarrow> bytes outcome" where
  "record_at ov start = (let at = unat start in
    bind_outcome (read_u32 (ov_data ov) at) (\<lambda>len. slice (ov_data ov) (at + 4) (at + 4 + unat len)))"

definition added_key :: "'b overlay \<Rightarrow> nat \<Rightarrow> bytes outcome" where
  "added_key ov i = (if i < length (ov_starts ov) then
      bind_outcome (record_at ov (ov_starts ov ! i)) (\<lambda>k. if utf8_ok k then Gives k else Panics)
    else Panics)"

text \<open>The collision list is searched in order, and an entry's bytes are read only where its hash
  matches.\<close>

fun find_collision :: "'b overlay \<Rightarrow> u64 \<Rightarrow> bytes \<Rightarrow> (u64 \<times> u32 \<times> u32) list \<Rightarrow> nat option outcome" where
  "find_collision ov h key [] = Gives None"
| "find_collision ov h key ((hh, i, at) # cs) =
    (if hh = h then bind_outcome (record_at ov at) (\<lambda>r.
        if r = key then Gives (Some (unat i)) else find_collision ov h key cs)
     else find_collision ov h key cs)"

definition added_index :: "'b overlay \<Rightarrow> bytes \<Rightarrow> nat option outcome" where
  "added_index ov key = (let h = hash_block key in
    case ov_lookup ov h of
      None \<Rightarrow> Gives None
    | Some (first, start) \<Rightarrow> bind_outcome (record_at ov start) (\<lambda>r.
        if r = key then Gives (Some (unat first)) else find_collision ov h key (ov_collisions ov)))"

definition u32_try :: "nat \<Rightarrow> u32 outcome" where
  "u32_try n = (if n < 2 ^ 32 then Gives (of_nat n) else Panics)"

definition push_added :: "bytes \<Rightarrow> 'b overlay \<Rightarrow> ('b overlay \<times> nat) outcome" where
  "push_added key ov = (let i = length (ov_starts ov) in
    bind_outcome (u32_try i) (\<lambda>index.
    bind_outcome (u32_try (length (ov_data ov))) (\<lambda>start.
    bind_outcome (u32_try (length key)) (\<lambda>len.
      let h = hash_block key;
        ov1 = ov\<lparr>ov_starts := ov_starts ov @ [start], ov_data := ov_data ov @ u32_bytes len @ key\<rparr>
      in Gives (case ov_lookup ov h of
          None \<Rightarrow> ov1\<lparr>ov_lookup := (ov_lookup ov)(h \<mapsto> (index, start))\<rparr>
        | Some _ \<Rightarrow> ov1\<lparr>ov_collisions := ov_collisions ov @ [(h, index, start)]\<rparr>, i)))))"

subsection \<open>Tombstones\<close>

definition dead_bit :: "u64 list \<Rightarrow> nat \<Rightarrow> bool" where
  "dead_bit dead ident = (case get_at dead (ident div 64) of
    None \<Rightarrow> False | Some w \<Rightarrow> drop_bit (ident mod 64) w AND 1 = 1)"

definition is_dead :: "'b overlay \<Rightarrow> nat \<Rightarrow> bool" where
  "is_dead ov ident = dead_bit (ov_dead ov) ident"

definition set_dead :: "nat \<Rightarrow> bool \<Rightarrow> 'b overlay \<Rightarrow> 'b overlay" where
  "set_dead ident d ov = (let w = ident div 64; b = ident mod 64 in
    if w \<ge> length (ov_dead ov) \<and> \<not> d then ov
    else let dead = ov_dead ov @ replicate (w + 1 - length (ov_dead ov)) 0 in
      ov\<lparr>ov_dead := dead[w := if d then dead ! w OR push_bit b 1 else dead ! w AND NOT (push_bit b 1)]\<rparr>)"

subsection \<open>Operations\<close>

definition ov_id :: "'b base_trait \<Rightarrow> 'b overlay \<Rightarrow> bytes \<Rightarrow> nat option outcome" where
  "ov_id T ov key = (case bt_id T (ov_base ov) key of
      Some ident \<Rightarrow> Gives (if is_dead ov ident then None else Some ident)
    | None \<Rightarrow> bind_outcome (added_index ov key) (\<lambda>r. case r of
          None \<Rightarrow> Gives None
        | Some i \<Rightarrow> let ident = bt_len T (ov_base ov) + i in Gives (if is_dead ov ident then None else Some ident)))"

definition ov_contains :: "'b base_trait \<Rightarrow> 'b overlay \<Rightarrow> bytes \<Rightarrow> bool outcome" where
  "ov_contains T ov key = bind_outcome (ov_id T ov key) (\<lambda>r. Gives (r \<noteq> None))"

definition revive :: "nat \<Rightarrow> 'b overlay \<Rightarrow> 'b overlay" where
  "revive ident ov = (if is_dead ov ident
    then let ov1 = set_dead ident False ov in ov1\<lparr>ov_live := ov_live ov1 + 1\<rparr> else ov)"

definition ov_add :: "'b base_trait \<Rightarrow> bytes \<Rightarrow> 'b overlay \<Rightarrow> ('b overlay \<times> nat) outcome" where
  "ov_add T key ov = (case bt_id T (ov_base ov) key of
      Some ident \<Rightarrow> Gives (revive ident ov, ident)
    | None \<Rightarrow> bind_outcome (added_index ov key) (\<lambda>r. case r of
          Some i \<Rightarrow> let ident = bt_len T (ov_base ov) + i in Gives (revive ident ov, ident)
        | None \<Rightarrow> let ident = id_space T ov in
            bind_outcome (push_added key ov) (\<lambda>(ov1, _). Gives (ov1\<lparr>ov_live := ov_live ov1 + 1\<rparr>, ident))))"

definition retire_id :: "'b base_trait \<Rightarrow> nat \<Rightarrow> 'b overlay \<Rightarrow> 'b overlay \<times> bool" where
  "retire_id T ident ov = (if ident \<ge> id_space T ov \<or> is_dead ov ident then (ov, False)
    else let ov1 = set_dead ident True ov in (ov1\<lparr>ov_live := ov_live ov1 - 1\<rparr>, True))"

definition ov_remove :: "'b base_trait \<Rightarrow> bytes \<Rightarrow> 'b overlay \<Rightarrow> ('b overlay \<times> bool) outcome" where
  "ov_remove T key ov = bind_outcome (ov_id T ov key) (\<lambda>r. case r of
      Some ident \<Rightarrow> Gives (retire_id T ident ov) | None \<Rightarrow> Gives (ov, False))"

definition ov_key :: "'b base_trait \<Rightarrow> 'b overlay \<Rightarrow> nat \<Rightarrow> bytes option outcome" where
  "ov_key T ov ident = (if is_dead ov ident then Gives None
    else let n = bt_len T (ov_base ov) in
      if ident < n then Gives (bt_key T (ov_base ov) ident)
      else if ident - n < length (ov_starts ov)
        then bind_outcome (added_key ov (ident - n)) (\<lambda>k. Gives (Some k)) else Gives None)"

fun collect_keys :: "'b base_trait \<Rightarrow> 'b overlay \<Rightarrow> nat list \<Rightarrow> bytes list outcome" where
  "collect_keys T ov [] = Gives []"
| "collect_keys T ov (ident # ids) = bind_outcome (ov_key T ov ident) (\<lambda>k.
    bind_outcome (collect_keys T ov ids) (\<lambda>ks. Gives (case k of None \<Rightarrow> ks | Some k \<Rightarrow> k # ks)))"

definition ov_keys :: "'b base_trait \<Rightarrow> 'b overlay \<Rightarrow> bytes list outcome" where
  "ov_keys T ov = collect_keys T ov [0..<id_space T ov]"

definition ov_compact :: "'b base_trait \<Rightarrow> 'b overlay \<Rightarrow> 'b overlay outcome" where
  "ov_compact T ov = bind_outcome (ov_keys T ov) (\<lambda>ks.
    case bt_rebuild T (ov_base ov) ks of None \<Rightarrow> Refuses | Some b \<Rightarrow> Gives (ov_new T b))"

text \<open>The renumbering of a compaction: \<open>None\<close> where the code stores \<^verbatim>\<open>u64::MAX\<close>.\<close>

fun remap_ids :: "'b base_trait \<Rightarrow> 'b overlay \<Rightarrow> 'b overlay \<Rightarrow> nat list \<Rightarrow> nat option list outcome" where
  "remap_ids T ov fresh [] = Gives []"
| "remap_ids T ov fresh (ident # ids) = bind_outcome (ov_key T ov ident) (\<lambda>k.
    bind_outcome (case k of
        Some key \<Rightarrow> bind_outcome (ov_id T fresh key) (\<lambda>r. case r of Some j \<Rightarrow> Gives (Some j) | None \<Rightarrow> Panics)
      | None \<Rightarrow> Gives None)
    (\<lambda>j. bind_outcome (remap_ids T ov fresh ids) (\<lambda>js. Gives (j # js))))"

definition ov_compact_with_remap ::
    "'b base_trait \<Rightarrow> 'b overlay \<Rightarrow> ('b overlay \<times> nat option list) outcome" where
  "ov_compact_with_remap T ov = bind_outcome (ov_compact T ov) (\<lambda>fresh.
    bind_outcome (remap_ids T ov fresh [0..<id_space T ov]) (\<lambda>m. Gives (fresh, m)))"

end
