(* ===== verification/Overlay_Facts.thy ===== *)
theory Overlay_Facts
  imports Overlay
begin

text \<open>
  The overlay of \<^verbatim>\<open>src/overlay.rs\<close> refines a list of added keys and a set of retired ids: every
  operation of the model computes what the same operation on that abstract state computes, and
  panics only at the capacity the code documents.
\<close>

subsection \<open>Positions\<close>

fun pos :: "'a list \<Rightarrow> 'a \<Rightarrow> nat option" where
  "pos [] x = None"
| "pos (y # ys) x = (if x = y then Some 0 else map_option Suc (pos ys x))"

lemma pos_None_iff: "pos xs x = None \<longleftrightarrow> x \<notin> set xs"
  by (induction xs) simp_all

lemma pos_Some: "pos xs x = Some i \<Longrightarrow> i < length xs \<and> xs ! i = x"
  by (induction xs arbitrary: i) (auto split: if_splits)

lemma pos_nth: "distinct xs \<Longrightarrow> i < length xs \<Longrightarrow> pos xs (xs ! i) = Some i"
proof (induction xs arbitrary: i)
  case (Cons y ys)
  then show ?case by (cases i) auto
qed simp

lemma pos_snoc: "pos (xs @ [y]) x = (if x \<in> set xs then pos xs x else if x = y then Some (length xs) else None)"
  by (induction xs) auto

subsection \<open>The abstract overlay\<close>

record 'b aov =
  a_base :: 'b
  a_adds :: "bytes list"
  a_dead :: "nat set"

definition a_space :: "'b base_trait \<Rightarrow> 'b aov \<Rightarrow> nat" where
  "a_space T s = bt_len T (a_base s) + length (a_adds s)"

text \<open>The id a key was issued, retired or not.\<close>

definition a_find :: "'b base_trait \<Rightarrow> 'b aov \<Rightarrow> bytes \<Rightarrow> nat option" where
  "a_find T s key = (case bt_id T (a_base s) key of Some i \<Rightarrow> Some i
    | None \<Rightarrow> map_option ((+) (bt_len T (a_base s))) (pos (a_adds s) key))"

definition a_id :: "'b base_trait \<Rightarrow> 'b aov \<Rightarrow> bytes \<Rightarrow> nat option" where
  "a_id T s key = (case a_find T s key of Some i \<Rightarrow> if i \<in> a_dead s then None else Some i | None \<Rightarrow> None)"

definition a_add :: "'b base_trait \<Rightarrow> bytes \<Rightarrow> 'b aov \<Rightarrow> 'b aov \<times> nat" where
  "a_add T key s = (case a_find T s key of
      Some i \<Rightarrow> (s\<lparr>a_dead := a_dead s - {i}\<rparr>, i)
    | None \<Rightarrow> (s\<lparr>a_adds := a_adds s @ [key]\<rparr>, a_space T s))"

definition a_retire :: "'b base_trait \<Rightarrow> nat \<Rightarrow> 'b aov \<Rightarrow> 'b aov \<times> bool" where
  "a_retire T i s = (if i < a_space T s \<and> i \<notin> a_dead s then (s\<lparr>a_dead := insert i (a_dead s)\<rparr>, True)
    else (s, False))"

definition a_remove :: "'b base_trait \<Rightarrow> bytes \<Rightarrow> 'b aov \<Rightarrow> 'b aov \<times> bool" where
  "a_remove T key s = (case a_id T s key of Some i \<Rightarrow> a_retire T i s | None \<Rightarrow> (s, False))"

definition a_key :: "'b base_trait \<Rightarrow> 'b aov \<Rightarrow> nat \<Rightarrow> bytes option" where
  "a_key T s i = (if i \<in> a_dead s then None
    else if i < bt_len T (a_base s) then bt_key T (a_base s) i
    else if i < a_space T s then Some (a_adds s ! (i - bt_len T (a_base s))) else None)"

subsection \<open>The arena\<close>

definition rec_bytes :: "bytes \<Rightarrow> bytes" where
  "rec_bytes k = u32_bytes (of_nat (length k)) @ k"

definition arena_of :: "bytes list \<Rightarrow> bytes" where
  "arena_of ks = concat (map rec_bytes ks)"

definition start_of :: "bytes list \<Rightarrow> nat \<Rightarrow> nat" where
  "start_of ks i = length (arena_of (take i ks))"

text \<open>An entry of the lookup or of the collision list names an addition by its hash, its index and
  the start of its record.\<close>

definition entry_ok :: "bytes list \<Rightarrow> u64 \<Rightarrow> u32 \<Rightarrow> u32 \<Rightarrow> bool" where
  "entry_ok ks h i st \<longleftrightarrow> unat i < length ks \<and> hash_block (ks ! unat i) = h \<and> unat st = start_of ks (unat i)"

definition index_ok :: "'b overlay \<Rightarrow> bytes list \<Rightarrow> bool" where
  "index_ok ov ks \<longleftrightarrow>
    (\<forall>h i st. ov_lookup ov h = Some (i, st) \<longrightarrow> entry_ok ks h i st) \<and>
    (\<forall>h i st. (h, i, st) \<in> set (ov_collisions ov) \<longrightarrow> entry_ok ks h i st) \<and>
    (\<forall>j < length ks. \<exists>i st. unat i = j \<and> (ov_lookup ov (hash_block (ks ! j)) = Some (i, st) \<or>
      ov_lookup ov (hash_block (ks ! j)) \<noteq> None \<and> (hash_block (ks ! j), i, st) \<in> set (ov_collisions ov)))"

definition arena_ok :: "'b overlay \<Rightarrow> bytes list \<Rightarrow> bool" where
  "arena_ok ov ks \<longleftrightarrow> ov_data ov = arena_of ks \<and>
    ov_starts ov = map (\<lambda>i. of_nat (start_of ks i)) [0..<length ks] \<and>
    (\<forall>i < length ks. start_of ks i < 2 ^ 32) \<and> (\<forall>k \<in> set ks. length k < 2 ^ 32 \<and> utf8_ok k) \<and>
    distinct ks \<and> index_ok ov ks"

lemma arena_of_simps [simp]:
  "arena_of [] = []" "arena_of (k # ks) = rec_bytes k @ arena_of ks"
  "arena_of (ks @ ls) = arena_of ks @ arena_of ls"
  by (simp_all add: arena_of_def)

lemma length_rec_bytes [simp]: "length (rec_bytes k) = 4 + length k"
  by (simp add: rec_bytes_def)

lemma start_of_append: "i \<le> length ks \<Longrightarrow> start_of (ks @ ls) i = start_of ks i"
  by (simp add: start_of_def)

lemma unat_start: "start_of ks i < 2 ^ 32 \<Longrightarrow> unat (of_nat (start_of ks i) :: u32) = start_of ks i"
  by (simp add: unat_of_nat)

lemma find_SomeD: "find P xs = Some x \<Longrightarrow> x \<in> set xs" "find P xs = Some x \<Longrightarrow> P x"
  by (induction xs) (auto split: if_splits)

text \<open>A record is read back from anywhere in the arena.\<close>

lemma read_record:
  assumes "d = pre @ rec_bytes k @ post" "length k < 2 ^ 32" "at = length pre"
  shows "bind_outcome (read_u32 d at) (\<lambda>len. slice d (at + 4) (at + 4 + unat len)) = Gives k"
proof -
  have "u32_of (u32_bytes (of_nat (length k))) = of_nat (length k)" by simp
  moreover have "unat (of_nat (length k) :: u32) = length k" using assms(2) by (simp add: unat_of_nat)
  ultimately show ?thesis
    by (simp add: read_u32_def slice_def rec_bytes_def assms)
qed

lemma record_at_start:
  assumes "arena_ok ov ks" "i < length ks" "unat st = start_of ks i"
  shows "record_at ov st = Gives (ks ! i)"
proof -
  have "ks = take i ks @ ks ! i # drop (Suc i) ks" using assms(2) by (simp add: id_take_nth_drop)
  then have "arena_of ks = arena_of (take i ks @ ks ! i # drop (Suc i) ks)" by simp
  then have d: "ov_data ov = arena_of (take i ks) @ rec_bytes (ks ! i) @ arena_of (drop (Suc i) ks)"
    using assms(1) by (simp add: arena_ok_def)
  have "length (ks ! i) < 2 ^ 32" using assms(1,2) by (simp add: arena_ok_def)
  from read_record [OF d this] show ?thesis
    by (simp add: record_at_def assms(3) start_of_def)
qed

lemma find_collision_ok:
  assumes "arena_ok ov ks" "\<forall>h i st. (h, i, st) \<in> set cs \<longrightarrow> entry_ok ks h i st"
  shows "find_collision ov h key cs =
    Gives (map_option (\<lambda>(h, i, st). unat i) (find (\<lambda>(hh, i, st). hh = h \<and> ks ! unat i = key) cs))"
  using assms(2)
proof (induction cs)
  case (Cons c cs)
  obtain hh i st where c: "c = (hh, i, st)" by (cases c) auto
  then have "entry_ok ks hh i st" using Cons.prems by simp
  then have "record_at ov st = Gives (ks ! unat i)"
    using record_at_start [OF assms(1)] by (simp add: entry_ok_def)
  then show ?case using Cons by (simp add: c)
qed simp

lemma index_ok_entry:
  assumes "index_ok ov ks" "j < length ks"
  obtains i st where "unat i = j" "ov_lookup ov (hash_block (ks ! j)) = Some (i, st) \<or>
    ov_lookup ov (hash_block (ks ! j)) \<noteq> None \<and> (hash_block (ks ! j), i, st) \<in> set (ov_collisions ov)"
  using assms unfolding index_ok_def by blast

lemma added_index_pos:
  assumes "arena_ok ov ks"
  shows "added_index ov key = Gives (pos ks key)"
proof -
  let ?h = "hash_block key"
  have ix: "index_ok ov ks" and d: "distinct ks" using assms by (simp_all add: arena_ok_def)
  have at: "pos ks key = Some j" if "j < length ks" "ks ! j = key" for j
    using pos_nth [OF d that(1)] that(2) by simp
  show ?thesis
  proof (cases "ov_lookup ov ?h")
    case None
    have "key \<notin> set ks"
    proof
      assume "key \<in> set ks"
      then obtain j where "j < length ks" "ks ! j = key" by (auto simp: in_set_conv_nth)
      then show False using ix None by (auto simp: index_ok_def)
    qed
    then have p: "pos ks key = None" by (simp add: pos_None_iff)
    show ?thesis using None by (simp add: added_index_def p)
  next
    case (Some e)
    obtain i st where e: "e = (i, st)" by (cases e)
    then have eo: "entry_ok ks ?h i st" using ix Some by (simp add: index_ok_def)
    then have r: "record_at ov st = Gives (ks ! unat i)"
      using record_at_start [OF assms] by (simp add: entry_ok_def)
    show ?thesis
    proof (cases "ks ! unat i = key")
      case True
      then show ?thesis using at [of "unat i"] eo Some e r by (simp add: added_index_def entry_ok_def)
    next
      case False
      let ?P = "\<lambda>(hh, i, st). hh = ?h \<and> ks ! unat i = key"
      have ce: "\<forall>h i st. (h, i, st) \<in> set (ov_collisions ov) \<longrightarrow> entry_ok ks h i st"
        using ix by (simp add: index_ok_def)
      have "added_index ov key = Gives (map_option (\<lambda>(h, i, st). unat i) (find ?P (ov_collisions ov)))"
        using Some e r False find_collision_ok [OF assms ce] by (simp add: added_index_def)
      moreover have "map_option (\<lambda>(h, i, st). unat i) (find ?P (ov_collisions ov)) = pos ks key"
      proof (cases "find ?P (ov_collisions ov)")
        case None
        then have none: "(?h, i', st') \<notin> set (ov_collisions ov) \<or> ks ! unat i' \<noteq> key" for i' st'
          by (auto simp: find_None_iff)
        have "key \<notin> set ks"
        proof
          assume "key \<in> set ks"
          then obtain j where j: "j < length ks" "ks ! j = key" by (auto simp: in_set_conv_nth)
          then obtain i' st' where i': "unat i' = j" "ov_lookup ov ?h = Some (i', st') \<or> (?h, i', st') \<in> set (ov_collisions ov)"
            using index_ok_entry [OF ix j(1)] unfolding j(2) by blast
          then show False using Some e False j none by auto
        qed
        then have p: "pos ks key = None" by (simp add: pos_None_iff)
        show ?thesis using None by (simp add: p)
      next
        case (Some c)
        obtain hh i' st' where c: "c = (hh, i', st')" by (cases c) auto
        have "c \<in> set (ov_collisions ov)" "?P c" using find_SomeD [OF Some] by simp_all
        then have "unat i' < length ks" "ks ! unat i' = key" using ce c by (auto simp: entry_ok_def)
        then show ?thesis using Some c at by simp
      qed
      ultimately show ?thesis by simp
    qed
  qed
qed

text \<open>A push of a new key keeps the arena, where the three narrowings succeed; otherwise it panics.\<close>

definition fits :: "bytes list \<Rightarrow> bytes \<Rightarrow> bool" where
  "fits ks key \<longleftrightarrow> length ks < 2 ^ 32 \<and> length (arena_of ks) < 2 ^ 32 \<and> length key < 2 ^ 32"

lemma start_of_snoc: "i < length ks \<Longrightarrow> start_of (ks @ [k]) i = start_of ks i"
  "start_of (ks @ [k]) (length ks) = length (arena_of ks)"
  by (simp_all add: start_of_def)

lemma entry_ok_snoc: "entry_ok ks h i st \<Longrightarrow> entry_ok (ks @ [k]) h i st"
  by (auto simp: entry_ok_def nth_append start_of_snoc)

lemma push_added_ok:
  assumes a: "arena_ok ov ks" and k: "key \<notin> set ks" "utf8_ok key" and f: "fits ks key"
  obtains ov' where "push_added key ov = Gives (ov', length ks)" "arena_ok ov' (ks @ [key])"
    "ov_base ov' = ov_base ov" "ov_dead ov' = ov_dead ov" "ov_live ov' = ov_live ov"
proof -
  let ?h = "hash_block key" and ?i = "of_nat (length ks) :: u32" and ?st = "of_nat (length (arena_of ks)) :: u32"
  let ?ov1 = "ov\<lparr>ov_starts := ov_starts ov @ [?st], ov_data := ov_data ov @ u32_bytes (of_nat (length key)) @ key\<rparr>"
  let ?ov' = "case ov_lookup ov ?h of
      None \<Rightarrow> ?ov1\<lparr>ov_lookup := (ov_lookup ov)(?h \<mapsto> (?i, ?st))\<rparr>
    | Some _ \<Rightarrow> ?ov1\<lparr>ov_collisions := ov_collisions ov @ [(?h, ?i, ?st)]\<rparr>"
  have data: "ov_data ov = arena_of ks" and len: "length (ov_starts ov) = length ks" and ix: "index_ok ov ks"
    using a by (simp_all add: arena_ok_def)
  have u: "unat ?i = length ks" "unat ?st = length (arena_of ks)"
    using f by (simp_all add: fits_def unat_of_nat)
  have new: "entry_ok (ks @ [key]) ?h ?i ?st" by (simp add: entry_ok_def u start_of_snoc)
  have push: "push_added key ov = Gives (?ov', length ks)"
    using f by (cases "ov_lookup ov ?h") (simp_all add: push_added_def u32_try_def len data fits_def Let_def)
  have cases': "?ov' = (if ov_lookup ov ?h = None then ?ov1\<lparr>ov_lookup := (ov_lookup ov)(?h \<mapsto> (?i, ?st))\<rparr>
      else ?ov1\<lparr>ov_collisions := ov_collisions ov @ [(?h, ?i, ?st)]\<rparr>)"
    by (simp split: option.split)
  have proj: "ov_data ?ov' = arena_of (ks @ [key])" "ov_starts ?ov' = ov_starts ov @ [?st]"
    "ov_base ?ov' = ov_base ov" "ov_dead ?ov' = ov_dead ov" "ov_live ?ov' = ov_live ov"
    unfolding cases' by (simp_all add: data rec_bytes_def)
  have starts: "ov_starts ?ov' = map (\<lambda>i. of_nat (start_of (ks @ [key]) i)) [0..<length (ks @ [key])]"
    using a by (simp add: proj(2) arena_ok_def start_of_snoc)
  have L: "ov_lookup ?ov' = (if ov_lookup ov ?h = None then (ov_lookup ov)(?h \<mapsto> (?i, ?st)) else ov_lookup ov)"
    and C: "ov_collisions ?ov' = (if ov_lookup ov ?h = None then ov_collisions ov else ov_collisions ov @ [(?h, ?i, ?st)])"
    unfolding cases' by simp_all
  have ixL: "ov_lookup ov h = Some (i, st) \<Longrightarrow> entry_ok ks h i st"
    and ixC: "(h, i, st) \<in> set (ov_collisions ov) \<Longrightarrow> entry_ok ks h i st" for h i st
    using ix by (auto simp: index_ok_def)
  have "index_ok ?ov' (ks @ [key])"
    unfolding index_ok_def
  proof (intro conjI allI impI)
    fix h i st
    show "entry_ok (ks @ [key]) h i st" if "ov_lookup ?ov' h = Some (i, st)"
      using that ixL new entry_ok_snoc unfolding L by (auto split: if_splits)
    show "entry_ok (ks @ [key]) h i st" if "(h, i, st) \<in> set (ov_collisions ?ov')"
      using that ixC new entry_ok_snoc unfolding C by (auto split: if_splits)
  next
    fix j assume j: "j < length (ks @ [key])"
    show "\<exists>i st. unat i = j \<and> (ov_lookup ?ov' (hash_block ((ks @ [key]) ! j)) = Some (i, st) \<or>
      ov_lookup ?ov' (hash_block ((ks @ [key]) ! j)) \<noteq> None \<and>
      (hash_block ((ks @ [key]) ! j), i, st) \<in> set (ov_collisions ?ov'))"
    proof (cases "j = length ks")
      case True
      then show ?thesis
        unfolding L C using u(1) by (intro exI [of _ ?i] exI [of _ ?st]) auto
    next
      case False
      then have j': "j < length ks" using j by simp
      then obtain i st where i: "unat i = j" "ov_lookup ov (hash_block (ks ! j)) = Some (i, st) \<or>
          ov_lookup ov (hash_block (ks ! j)) \<noteq> None \<and> (hash_block (ks ! j), i, st) \<in> set (ov_collisions ov)"
        using index_ok_entry [OF ix j'] by blast
      then show ?thesis
        unfolding L C using j' by (intro exI [of _ i] exI [of _ st]) (auto simp: nth_append)
    qed
  qed
  moreover have "\<forall>i < length (ks @ [key]). start_of (ks @ [key]) i < 2 ^ 32"
    using a f by (auto simp: arena_ok_def fits_def start_of_snoc less_Suc_eq)
  ultimately have "arena_ok ?ov' (ks @ [key])"
    using a k f proj(1) starts by (simp add: arena_ok_def fits_def)
  then show thesis using that push proj by blast
qed

lemma push_added_full:
  assumes "arena_ok ov ks" "\<not> fits ks key"
  shows "push_added key ov = Panics"
  using assms by (auto simp: push_added_def u32_try_def arena_ok_def fits_def Let_def)

subsection \<open>Tombstones\<close>

lemma dead_bit_iff: "dead_bit dead i \<longleftrightarrow> i div 64 < length dead \<and> bit (dead ! (i div 64)) (i mod 64)"
  by (auto simp: dead_bit_def get_at_def and_one_eq bit_iff_odd_drop_bit odd_iff_mod_2_eq_one)

lemma set_dead_bit:
  "is_dead (set_dead i d ov) j = (if j = i then d else is_dead ov j)"
proof (cases "i div 64 \<ge> length (ov_dead ov) \<and> \<not> d")
  case True
  then show ?thesis by (auto simp: set_dead_def is_dead_def dead_bit_iff)
next
  case False
  let ?w = "i div 64" and ?b = "i mod 64"
  let ?dead = "ov_dead ov @ replicate (?w + 1 - length (ov_dead ov)) 0"
  let ?new = "?dead[?w := if d then ?dead ! ?w OR push_bit ?b 1 else ?dead ! ?w AND NOT (push_bit ?b 1)]"
  have e: "ov_dead (set_dead i d ov) = ?new"
    using False by (auto simp: set_dead_def Let_def)
  have grown: "dead_bit ?dead j = dead_bit (ov_dead ov) j" for j
    by (auto simp: dead_bit_iff nth_append)
  have w: "?w < length ?dead" by simp
  show ?thesis
  proof (cases "j div 64 = ?w")
    case False
    then have "dead_bit ?new j = dead_bit ?dead j" "j \<noteq> i" by (auto simp: dead_bit_iff)
    then show ?thesis unfolding is_dead_def e grown by simp
  next
    case True
    then have ji: "j = i \<longleftrightarrow> j mod 64 = ?b" by (metis div_mult_mod_eq)
    have m: "j mod 64 < 64" by simp
    have "dead_bit ?new j \<longleftrightarrow> bit (if d then ?dead ! ?w OR push_bit ?b 1 else ?dead ! ?w AND NOT (push_bit ?b 1)) (j mod 64)"
      using True w by (simp only: dead_bit_iff length_list_update nth_list_update_eq) simp
    also have "\<dots> \<longleftrightarrow> (if j = i then d else bit (?dead ! ?w) (j mod 64))"
      using m ji by (auto simp: bit_simps)
    also have "\<dots> \<longleftrightarrow> (if j = i then d else dead_bit ?dead j)"
      using True w by (simp only: dead_bit_iff simp_thms)
    finally show ?thesis unfolding is_dead_def e grown by simp
  qed
qed

subsection \<open>The refinement\<close>

definition rep :: "'b base_trait \<Rightarrow> 'b overlay \<Rightarrow> 'b aov \<Rightarrow> bool" where
  "rep T ov s \<longleftrightarrow> ov_base ov = a_base s \<and> arena_ok ov (a_adds s) \<and> {i. is_dead ov i} = a_dead s \<and>
    a_dead s \<subseteq> {..<a_space T s} \<and> ov_live ov + card (a_dead s) = a_space T s"

text \<open>What the trait's documentation promises of an id: it is one of the base's.\<close>

definition base_lawful :: "'b base_trait \<Rightarrow> 'b \<Rightarrow> bool" where
  "base_lawful T b \<longleftrightarrow> (\<forall>k i. bt_id T b k = Some i \<longrightarrow> i < bt_len T b)"

text \<open>Nothing the abstract overlay has added is a key of the base.\<close>

definition adds_ok :: "'b base_trait \<Rightarrow> 'b aov \<Rightarrow> bool" where
  "adds_ok T s \<longleftrightarrow> (\<forall>k \<in> set (a_adds s). bt_id T (a_base s) k = None)"

lemma rep_simps:
  assumes "rep T ov s"
  shows "ov_base ov = a_base s" "added_index ov key = Gives (pos (a_adds s) key)"
    "is_dead ov i \<longleftrightarrow> i \<in> a_dead s" "id_space T ov = a_space T s"
    "length (ov_starts ov) = length (a_adds s)" "finite (a_dead s)"
proof -
  show b: "ov_base ov = a_base s" using assms by (simp add: rep_def)
  show "added_index ov key = Gives (pos (a_adds s) key)"
    using assms by (simp add: rep_def added_index_pos)
  show "is_dead ov i \<longleftrightarrow> i \<in> a_dead s" using assms by (auto simp: rep_def)
  show l: "length (ov_starts ov) = length (a_adds s)" using assms by (simp add: rep_def arena_ok_def)
  show "id_space T ov = a_space T s" by (simp add: id_space_def a_space_def b l)
  show "finite (a_dead s)" using assms by (auto simp: rep_def intro: finite_subset)
qed

lemma rep_new: "rep T (ov_new T b) \<lparr>a_base = b, a_adds = [], a_dead = {}\<rparr>"
  by (simp add: rep_def ov_new_def arena_ok_def index_ok_def is_dead_def dead_bit_def get_at_def a_space_def)

lemma set_dead_rest [simp]:
  "ov_base (set_dead i d ov) = ov_base ov" "ov_data (set_dead i d ov) = ov_data ov"
  "ov_starts (set_dead i d ov) = ov_starts ov" "ov_lookup (set_dead i d ov) = ov_lookup ov"
  "ov_collisions (set_dead i d ov) = ov_collisions ov" "ov_live (set_dead i d ov) = ov_live ov"
  by (simp_all add: set_dead_def Let_def)

lemma arena_ok_cong:
  "ov_data ov' = ov_data ov \<Longrightarrow> ov_starts ov' = ov_starts ov \<Longrightarrow> ov_lookup ov' = ov_lookup ov \<Longrightarrow>
    ov_collisions ov' = ov_collisions ov \<Longrightarrow> arena_ok ov' ks = arena_ok ov ks"
  by (simp add: arena_ok_def index_ok_def)

lemma a_find_space:
  assumes "base_lawful T (a_base s)" "a_find T s key = Some i"
  shows "i < a_space T s"
  using assms pos_Some [of "a_adds s" key]
  by (fastforce simp: a_find_def a_space_def base_lawful_def split: option.splits)

lemma ov_id_refines: "rep T ov s \<Longrightarrow> ov_id T ov key = Gives (a_id T s key)"
  by (auto simp: ov_id_def a_id_def a_find_def rep_simps split: option.splits)

lemma revive_refines:
  assumes "rep T ov s" "i < a_space T s"
  shows "rep T (revive i ov) (s\<lparr>a_dead := a_dead s - {i}\<rparr>)"
proof (cases "i \<in> a_dead s")
  case True
  let ?ov' = "(set_dead i False ov)\<lparr>ov_live := ov_live (set_dead i False ov) + 1\<rparr>"
  have r: "revive i ov = ?ov'" using True rep_simps(3) [OF assms(1)] by (simp add: revive_def Let_def)
  have dead: "{j. is_dead ?ov' j} = a_dead s - {i}"
  proof -
    have "is_dead ?ov' j = is_dead (set_dead i False ov) j" for j by (simp add: is_dead_def)
    then show ?thesis by (auto simp: set_dead_bit rep_simps(3) [OF assms(1)])
  qed
  have "card (a_dead s) = Suc (card (a_dead s - {i}))"
    by (rule card.remove [OF rep_simps(6) [OF assms(1)] True])
  moreover have "arena_ok ?ov' (a_adds s)"
    using assms(1) by (subst arena_ok_cong [of _ ov]) (simp_all add: rep_def)
  ultimately show ?thesis
    unfolding r using assms(1) dead by (auto simp: rep_def a_space_def)
next
  case False
  then show ?thesis using assms(1) rep_simps(3) [OF assms(1)] by (simp add: revive_def)
qed

lemma retire_refines:
  assumes "rep T ov s"
  shows "rep T (fst (retire_id T i ov)) (fst (a_retire T i s)) \<and> snd (retire_id T i ov) = snd (a_retire T i s)"
proof (cases "i < a_space T s \<and> i \<notin> a_dead s")
  case True
  let ?ov' = "(set_dead i True ov)\<lparr>ov_live := ov_live (set_dead i True ov) - 1\<rparr>"
  have r: "retire_id T i ov = (?ov', True)"
    using True rep_simps [OF assms] by (simp add: retire_id_def Let_def)
  have dead: "{j. is_dead ?ov' j} = insert i (a_dead s)"
  proof -
    have "is_dead ?ov' j = is_dead (set_dead i True ov) j" for j by (simp add: is_dead_def)
    then show ?thesis by (auto simp: set_dead_bit rep_simps(3) [OF assms])
  qed
  have sub: "insert i (a_dead s) \<subseteq> {..<a_space T s}" using True assms by (auto simp: rep_def)
  have "card (insert i (a_dead s)) = card (a_dead s) + 1" using True rep_simps(6) [OF assms] by simp
  moreover have "card (insert i (a_dead s)) \<le> a_space T s"
    using card_mono [OF _ sub] by simp
  ultimately have "ov_live ov - 1 + card (insert i (a_dead s)) = a_space T s"
    using assms by (simp add: rep_def)
  moreover have "arena_ok ?ov' (a_adds s)"
    using assms by (subst arena_ok_cong [of _ ov]) (simp_all add: rep_def)
  ultimately show ?thesis
    unfolding r using True assms dead sub by (auto simp: rep_def a_retire_def a_space_def)
next
  case False
  then show ?thesis using assms rep_simps [OF assms] by (auto simp: retire_id_def a_retire_def)
qed

lemma add_refines:
  assumes "rep T ov s" "base_lawful T (a_base s)" "utf8_ok key"
    and "a_find T s key = None \<Longrightarrow> fits (a_adds s) key"
  shows "\<exists>ov'. ov_add T key ov = Gives (ov', snd (a_add T key s)) \<and> rep T ov' (fst (a_add T key s))"
proof (cases "a_find T s key")
  case (Some i)
  have "rep T (revive i ov) (s\<lparr>a_dead := a_dead s - {i}\<rparr>)"
    using revive_refines [OF assms(1) a_find_space [OF assms(2) Some]] .
  moreover have "ov_add T key ov = Gives (revive i ov, i)"
    using Some by (auto simp: ov_add_def a_find_def rep_simps [OF assms(1)] Let_def split: option.splits)
  ultimately show ?thesis using Some by (simp add: a_add_def)
next
  case None
  then have b: "bt_id T (a_base s) key = None" and k: "key \<notin> set (a_adds s)"
    by (auto simp: a_find_def pos_None_iff split: option.splits)
  have ar: "arena_ok ov (a_adds s)" using assms(1) by (simp add: rep_def)
  obtain ov1 where p: "push_added key ov = Gives (ov1, length (a_adds s))" "arena_ok ov1 (a_adds s @ [key])"
    "ov_base ov1 = ov_base ov" "ov_dead ov1 = ov_dead ov" "ov_live ov1 = ov_live ov"
    by (rule push_added_ok [OF ar k assms(3,4)]) (rule None)
  let ?ov' = "ov1\<lparr>ov_live := ov_live ov1 + 1\<rparr>"
  have px: "pos (a_adds s) key = None" using k by (simp add: pos_None_iff)
  have "ov_add T key ov = Gives (?ov', a_space T s)"
    using p(1) by (simp add: ov_add_def b px rep_simps [OF assms(1)] Let_def)
  moreover have "arena_ok ?ov' (a_adds s @ [key])" using p(2) by (simp add: arena_ok_def index_ok_def)
  moreover have "is_dead ?ov' j \<longleftrightarrow> is_dead ov j" for j by (simp add: is_dead_def p(4))
  ultimately show ?thesis
    using None assms(1) p by (auto simp: a_add_def rep_def a_space_def)
qed

lemma add_full:
  assumes "rep T ov s" "a_find T s key = None" "\<not> fits (a_adds s) key"
  shows "ov_add T key ov = Panics"
proof -
  have b: "bt_id T (a_base s) key = None" and k: "pos (a_adds s) key = None"
    using assms(2) by (auto simp: a_find_def split: option.splits)
  have "push_added key ov = Panics"
    using push_added_full [of ov "a_adds s" key] assms by (simp add: rep_def)
  then show ?thesis by (simp add: ov_add_def rep_simps [OF assms(1)] b k Let_def)
qed

lemma remove_refines:
  assumes "rep T ov s"
  shows "\<exists>ov'. ov_remove T key ov = Gives (ov', snd (a_remove T key s)) \<and> rep T ov' (fst (a_remove T key s))"
proof (cases "a_id T s key")
  case None
  then show ?thesis using assms by (simp add: ov_remove_def a_remove_def ov_id_refines [OF assms])
next
  case (Some i)
  then have "ov_remove T key ov = Gives (retire_id T i ov)" "a_remove T key s = a_retire T i s"
    by (simp_all add: ov_remove_def a_remove_def ov_id_refines [OF assms])
  then show ?thesis using retire_refines [OF assms, of i]
    by (intro exI [of _ "fst (retire_id T i ov)"]) (simp add: prod_eq_iff)
qed

lemma key_refines:
  assumes "rep T ov s"
  shows "ov_key T ov i = Gives (a_key T s i)"
proof -
  have ar: "arena_ok ov (a_adds s)" using assms by (simp add: rep_def)
  have "added_key ov j = Gives (a_adds s ! j)" if "j < length (a_adds s)" for j
  proof -
    have "unat (ov_starts ov ! j) = start_of (a_adds s) j"
      using ar that by (simp add: arena_ok_def unat_start)
    moreover have "utf8_ok (a_adds s ! j)" using ar that by (simp add: arena_ok_def)
    ultimately show ?thesis
      using record_at_start [OF ar that] that rep_simps(5) [OF assms] by (simp add: added_key_def)
  qed
  then show ?thesis
    using assms by (auto simp: ov_key_def a_key_def rep_simps a_space_def Let_def)
qed

end
