(* ===== verification/Overlay_Theorems.thy ===== *)
theory Overlay_Theorems
  imports Overlay_Facts
begin

text \<open>
  What an overlay promises its caller, over every sequence of edits from a fresh one: an id names
  one key for ever, the live count is the number of keys it lists, and a compaction keeps exactly
  the live keys and reports where each id went.
\<close>

subsection \<open>Edits as steps\<close>

inductive ov_steps :: "'b base_trait \<Rightarrow> 'b overlay \<Rightarrow> 'b overlay \<Rightarrow> bool" for T where
  ov_refl: "ov_steps T ov ov"
| ov_add_step: "ov_steps T a b \<Longrightarrow> utf8_ok key \<Longrightarrow> ov_add T key b = Gives (c, i) \<Longrightarrow> ov_steps T a c"
| ov_retire_step: "ov_steps T a b \<Longrightarrow> ov_steps T a (fst (retire_id T i b))"
| ov_remove_step: "ov_steps T a b \<Longrightarrow> ov_remove T key b = Gives (c, r) \<Longrightarrow> ov_steps T a c"

inductive_cases ov_add_stepE: "ov_steps T a c"

text \<open>How one abstract state extends another: the same base, the additions a prefix.\<close>

definition extends :: "'b aov \<Rightarrow> 'b aov \<Rightarrow> bool" where
  "extends s s' \<longleftrightarrow> a_base s' = a_base s \<and> (\<exists>ks. a_adds s' = a_adds s @ ks)"

lemma extends_refl [simp]: "extends s s"
  by (simp add: extends_def)

lemma extends_trans: "extends s s' \<Longrightarrow> extends s' s'' \<Longrightarrow> extends s s''"
  by (auto simp: extends_def)

lemma a_add_extends: "extends s (fst (a_add T key s))"
  by (auto simp: extends_def a_add_def split: option.split)

lemma a_retire_extends: "extends s (fst (a_retire T i s))"
  by (auto simp: extends_def a_retire_def)

lemma a_remove_extends: "extends s (fst (a_remove T key s))"
  by (auto simp: a_remove_def a_retire_extends split: option.split)

lemma adds_ok_steps:
  "adds_ok T s \<Longrightarrow> adds_ok T (fst (a_add T key s))"
  "adds_ok T s \<Longrightarrow> adds_ok T (fst (a_retire T i s))"
  "adds_ok T s \<Longrightarrow> adds_ok T (fst (a_remove T key s))"
  by (auto simp: adds_ok_def a_add_def a_find_def a_retire_def a_remove_def split: option.splits)

lemma a_find_extends:
  assumes "extends s s'" "a_find T s key = Some i"
  shows "a_find T s' key = Some i"
proof (cases "bt_id T (a_base s) key")
  case (Some j)
  then show ?thesis using assms by (simp add: extends_def a_find_def)
next
  case None
  then obtain j where j: "pos (a_adds s) key = Some j" "i = bt_len T (a_base s) + j"
    using assms(2) by (auto simp: a_find_def)
  have "pos (xs @ ys) key = Some j" if "pos xs key = Some j" for xs ys
    using that by (induction xs arbitrary: j) (auto split: if_splits)
  then show ?thesis using assms(1) None j by (auto simp: extends_def a_find_def)
qed

lemma add_step_refines:
  assumes "rep T b s" "base_lawful T (a_base s)" "utf8_ok key" "ov_add T key b = Gives (c, i)"
  shows "rep T c (fst (a_add T key s)) \<and> i = snd (a_add T key s)"
proof -
  have "a_find T s key = None \<Longrightarrow> fits (a_adds s) key"
    using add_full [OF assms(1), of key] assms(4) by auto
  then show ?thesis using add_refines [OF assms(1-3)] assms(4) by auto
qed

lemma steps_rep:
  assumes "ov_steps T a c" "rep T a s" "base_lawful T (a_base s)" "adds_ok T s"
  shows "\<exists>s'. rep T c s' \<and> extends s s' \<and> adds_ok T s'"
  using assms
proof (induction)
  case (ov_refl ov)
  then show ?case by (intro exI [of _ s]) simp
next
  case (ov_add_step a b key c i)
  then obtain s1 where s1: "rep T b s1" "extends s s1" "adds_ok T s1" by blast
  have "base_lawful T (a_base s1)" using s1(2) ov_add_step.prems(2) by (simp add: extends_def)
  then have "rep T c (fst (a_add T key s1))"
    using add_step_refines [OF s1(1) _ ov_add_step.hyps(2,3)] by blast
  then show ?case using s1 extends_trans a_add_extends adds_ok_steps(1) by metis
next
  case (ov_retire_step a b i)
  then obtain s1 where s1: "rep T b s1" "extends s s1" "adds_ok T s1" by blast
  then show ?case using retire_refines extends_trans a_retire_extends adds_ok_steps(2) by metis
next
  case (ov_remove_step a b key c r)
  then obtain s1 where s1: "rep T b s1" "extends s s1" "adds_ok T s1" by blast
  have "rep T c (fst (a_remove T key s1))"
    using remove_refines [OF s1(1), of key] ov_remove_step.hyps(2) by auto
  then show ?case using s1 extends_trans a_remove_extends adds_ok_steps(3) by metis
qed

definition fresh_aov :: "'b \<Rightarrow> 'b aov" where
  "fresh_aov b = \<lparr>a_base = b, a_adds = [], a_dead = {}\<rparr>"

lemma reachable_rep:
  assumes "ov_steps T (ov_new T b) ov" "base_lawful T b"
  obtains s where "rep T ov s" "a_base s = b" "adds_ok T s"
  using steps_rep [OF assms(1) rep_new] assms(2) that by (auto simp: extends_def adds_ok_def)

lemma a_find_dead [simp]: "a_find T (s\<lparr>a_dead := d\<rparr>) key = a_find T s key"
  by (cases "bt_id T (a_base s) key") (simp_all add: a_find_def)

lemma a_id_Some_iff: "a_id T s key = Some i \<longleftrightarrow> a_find T s key = Some i \<and> i \<notin> a_dead s"
  by (auto simp: a_id_def split: option.splits)

text \<open>A base that tells its keys apart.\<close>

definition base_injective :: "'b base_trait \<Rightarrow> 'b \<Rightarrow> bool" where
  "base_injective T b \<longleftrightarrow> (\<forall>k k' i. bt_id T b k = Some i \<and> bt_id T b k' = Some i \<longrightarrow> k = k')"

lemma a_find_inj:
  assumes "base_lawful T (a_base s)" "base_injective T (a_base s) \<or> bt_len T (a_base s) \<le> i"
    and "a_find T s k = Some i" "a_find T s k' = Some i"
  shows "k = k'"
  using assms pos_Some [of "a_adds s" k] pos_Some [of "a_adds s" k']
  by (fastforce simp: a_find_def base_lawful_def base_injective_def split: option.splits)

subsection \<open>A base of its own\<close>

text \<open>The smallest base: a list of distinct keys, numbered by position.\<close>

definition list_trait :: "bytes list base_trait" where
  "list_trait = \<lparr>bt_len = length, bt_id = pos, bt_to_bytes = (\<lambda>ks. Some (concat (map rec_bytes ks))), bt_key = get_at,
    bt_rebuild = (\<lambda>_ ks. Some ks), bt_tag = 16, bt_exact = True\<rparr>"

lemma list_trait_lawful: "base_lawful list_trait ks" "base_injective list_trait ks"
  by (auto simp: base_lawful_def base_injective_def list_trait_def dest: pos_Some)

text \<open>C18. An id once issued for a key is that key's for ever, over any base that numbers below its
  length: after any edits the key is answered with the same id or as retired, and adding it again restores
  the same id. No other key is ever answered with it, provided that it is the id of an addition or that the
  base tells its keys apart (\<^verbatim>\<open>CompactHashIndex\<close> does not: its false positives answer for keys it does not
  hold, and there the last part is claimed of additions only).\<close>

theorem overlay_ids_stable:
  assumes "base_lawful T b" "ov_steps T (ov_new T b) ov" "ov_id T ov key = Gives (Some i)" "ov_steps T ov ov'"
  shows "(ov_id T ov' key = Gives (Some i) \<or> ov_id T ov' key = Gives None) \<and>
    (\<forall>ov'' j. utf8_ok key \<and> ov_add T key ov' = Gives (ov'', j) \<longrightarrow> j = i \<and> ov_id T ov'' key = Gives (Some i)) \<and>
    (base_injective T b \<or> bt_len T b \<le> i \<longrightarrow> (\<forall>k. ov_id T ov' k = Gives (Some i) \<longrightarrow> k = key))"
proof -
  obtain s where s: "rep T ov s" "a_base s = b" "adds_ok T s"
    by (rule reachable_rep [OF assms(2,1)])
  obtain s' where s': "rep T ov' s'" "extends s s'"
    using steps_rep [OF assms(4) s(1)] assms(1) s(2,3) by blast
  have b: "a_base s' = b" using s'(2) s(2) by (simp add: extends_def)
  have "a_find T s key = Some i"
    using assms(3) ov_id_refines [OF s(1), of key] by (simp add: a_id_Some_iff)
  then have f: "a_find T s' key = Some i" by (rule a_find_extends [OF s'(2)])
  have id': "ov_id T ov' k = Gives (a_id T s' k)" for k by (rule ov_id_refines [OF s'(1)])
  have "ov_id T ov' key = Gives (Some i) \<or> ov_id T ov' key = Gives None"
    using f by (simp add: id' a_id_def)
  moreover have "j = i \<and> ov_id T ov'' key = Gives (Some i)"
    if "utf8_ok key" "ov_add T key ov' = Gives (ov'', j)" for ov'' j
  proof -
    have "rep T ov'' (fst (a_add T key s')) \<and> j = snd (a_add T key s')"
      using add_step_refines [OF s'(1) _ that] assms(1) b by simp
    moreover have "a_add T key s' = (s'\<lparr>a_dead := a_dead s' - {i}\<rparr>, i)" using f by (simp add: a_add_def)
    ultimately have "rep T ov'' (s'\<lparr>a_dead := a_dead s' - {i}\<rparr>)" "j = i" by simp_all
    moreover have "a_id T (s'\<lparr>a_dead := a_dead s' - {i}\<rparr>) key = Some i"
      using f by (simp add: a_id_def)
    ultimately show ?thesis using ov_id_refines by metis
  qed
  moreover have "k = key" if "base_injective T b \<or> bt_len T b \<le> i" "ov_id T ov' k = Gives (Some i)" for k
  proof -
    have "a_find T s' k = Some i" using that(2) by (simp add: id' a_id_Some_iff)
    then show ?thesis using a_find_inj [of T s' i k key] f assms(1) that(1) b by simp
  qed
  ultimately show ?thesis by blast
qed

theorem overlay_ids_stable_witness:
  "(ov_id list_trait (fst (retire_id list_trait 0 (ov_new list_trait [[97]]))) [97] = Gives (Some 0) \<or>
    ov_id list_trait (fst (retire_id list_trait 0 (ov_new list_trait [[97]]))) [97] = Gives None) \<and>
   {k. ov_id list_trait (fst (retire_id list_trait 0 (ov_new list_trait [[97]]))) k = Gives (Some 0)} \<subseteq> {[97]}"
proof -
  have "ov_id list_trait (ov_new list_trait [[97]]) [97] = Gives (Some 0)"
    by (simp add: ov_id_def list_trait_def ov_new_def is_dead_def dead_bit_def get_at_def)
  moreover have "ov_steps list_trait (ov_new list_trait [[97]]) (fst (retire_id list_trait 0 (ov_new list_trait [[97]])))"
    by (intro ov_retire_step ov_refl)
  ultimately show ?thesis
    using overlay_ids_stable [OF list_trait_lawful(1) ov_refl] list_trait_lawful(2) [of "[[97]]"] by blast
qed

subsection \<open>Keys\<close>

text \<open>What \<^verbatim>\<open>OverlayKeys\<close> adds: every id of the base names a key, and it is the key the id came from.\<close>

definition keys_lawful :: "'b base_trait \<Rightarrow> 'b \<Rightarrow> bool" where
  "keys_lawful T b \<longleftrightarrow>
    (\<forall>i < bt_len T b. \<exists>k. bt_key T b i = Some k \<and> bt_id T b k = Some i) \<and>
    (\<forall>k i. bt_id T b k = Some i \<longrightarrow> i < bt_len T b \<and> bt_key T b i = Some k)"

lemma keys_lawful_base: "keys_lawful T b \<Longrightarrow> base_lawful T b" "keys_lawful T b \<Longrightarrow> base_injective T b"
  unfolding keys_lawful_def base_lawful_def base_injective_def by (blast, metis option.inject)

lemma collect_keys_refines:
  "rep T ov s \<Longrightarrow> collect_keys T ov ids = Gives (List.map_filter (a_key T s) ids)"
  by (induction ids) (simp_all add: key_refines List.map_filter_def split: option.split)

lemma a_key_id:
  assumes "keys_lawful T (a_base s)" "adds_ok T s" "distinct (a_adds s)"
  shows "a_key T s i = Some k \<longleftrightarrow> a_id T s k = Some i"
proof
  assume "a_key T s i = Some k"
  then consider "i \<notin> a_dead s" "i < bt_len T (a_base s)" "bt_key T (a_base s) i = Some k"
    | "i \<notin> a_dead s" "\<not> i < bt_len T (a_base s)" "i < a_space T s" "k = a_adds s ! (i - bt_len T (a_base s))"
    by (auto simp: a_key_def split: if_splits)
  then show "a_id T s k = Some i"
  proof cases
    case 1
    then obtain k' where "bt_key T (a_base s) i = Some k'" "bt_id T (a_base s) k' = Some i"
      using assms(1) by (auto simp: keys_lawful_def)
    then show ?thesis using 1 by (simp add: a_id_def a_find_def)
  next
    case 2
    then have j: "i - bt_len T (a_base s) < length (a_adds s)" by (simp add: a_space_def)
    then have "bt_id T (a_base s) k = None" using assms(2) 2(4) by (simp add: adds_ok_def)
    then show ?thesis using pos_nth [OF assms(3) j] 2 by (simp add: a_id_def a_find_def)
  qed
next
  assume "a_id T s k = Some i"
  then have f: "a_find T s k = Some i" and d: "i \<notin> a_dead s" by (simp_all add: a_id_Some_iff)
  show "a_key T s i = Some k"
  proof (cases "bt_id T (a_base s) k")
    case (Some j)
    then show ?thesis using f d assms(1) by (simp add: a_key_def a_find_def keys_lawful_def)
  next
    case None
    then obtain j where "pos (a_adds s) k = Some j" "i = bt_len T (a_base s) + j"
      using f by (auto simp: a_find_def)
    then show ?thesis using d pos_Some [of "a_adds s" k j] by (simp add: a_key_def a_space_def)
  qed
qed

lemma a_key_None:
  assumes "keys_lawful T (a_base s)" "i < a_space T s"
  shows "a_key T s i = None \<longleftrightarrow> i \<in> a_dead s"
proof (cases "i < bt_len T (a_base s)")
  case True
  then obtain k where "bt_key T (a_base s) i = Some k" using assms(1) unfolding keys_lawful_def by blast
  then show ?thesis using True by (simp add: a_key_def)
next
  case False
  then show ?thesis using assms(2) by (simp add: a_key_def)
qed

lemma map_filter_total:
  "(\<And>i. i \<in> set xs \<Longrightarrow> f i = None \<longleftrightarrow> \<not> P i) \<Longrightarrow> List.map_filter f xs = map (\<lambda>i. the (f i)) (filter P xs)"
proof -
  assume a: "\<And>i. i \<in> set xs \<Longrightarrow> f i = None \<longleftrightarrow> \<not> P i"
  have "filter (\<lambda>i. f i \<noteq> None) xs = filter P xs"
    using a by (intro filter_cong refl) metis
  then show ?thesis by (simp only: List.map_filter_def comp_def)
qed

text \<open>The ids a state answers with, in order.\<close>

definition live_ids :: "'b base_trait \<Rightarrow> 'b aov \<Rightarrow> nat list" where
  "live_ids T s = filter (\<lambda>i. i \<notin> a_dead s) [0..<a_space T s]"

lemma keys_are_live:
  assumes r: "rep T ov s" and kl: "keys_lawful T (a_base s)" and ao: "adds_ok T s"
  shows "ov_keys T ov = Gives (map (\<lambda>i. the (a_key T s i)) (live_ids T s))"
    and "map (a_id T s) (map (\<lambda>i. the (a_key T s i)) (live_ids T s)) = map Some (live_ids T s)"
    and "k \<in> set (map (\<lambda>i. the (a_key T s i)) (live_ids T s)) \<longleftrightarrow> a_id T s k \<noteq> None"
    and "length (live_ids T s) = ov_len ov"
proof -
  have d: "distinct (a_adds s)" using r by (simp add: rep_def arena_ok_def)
  have some: "a_key T s i = Some (the (a_key T s i))" if "i \<in> set (live_ids T s)" for i
    using that a_key_None [OF kl, of i] by (auto simp: live_ids_def)
  show "ov_keys T ov = Gives (map (\<lambda>i. the (a_key T s i)) (live_ids T s))"
    using map_filter_total [of "[0..<a_space T s]" "a_key T s" "\<lambda>i. i \<notin> a_dead s"] a_key_None [OF kl]
    by (simp add: ov_keys_def collect_keys_refines [OF r] rep_simps(4) [OF r] live_ids_def)
  show "map (a_id T s) (map (\<lambda>i. the (a_key T s i)) (live_ids T s)) = map Some (live_ids T s)"
    using some a_key_id [OF kl ao d] by simp
  show "k \<in> set (map (\<lambda>i. the (a_key T s i)) (live_ids T s)) \<longleftrightarrow> a_id T s k \<noteq> None"
  proof
    assume "k \<in> set (map (\<lambda>i. the (a_key T s i)) (live_ids T s))"
    then show "a_id T s k \<noteq> None" using some a_key_id [OF kl ao d] by auto
  next
    assume "a_id T s k \<noteq> None"
    then obtain i where i: "a_id T s k = Some i" by blast
    then have "i < a_space T s" "i \<notin> a_dead s"
      using a_find_space [OF keys_lawful_base(1) [OF kl]] by (auto simp: a_id_Some_iff)
    moreover have "a_key T s i = Some k" using i a_key_id [OF kl ao d] by blast
    ultimately show "k \<in> set (map (\<lambda>i. the (a_key T s i)) (live_ids T s))"
      by (auto simp: live_ids_def intro!: image_eqI [of _ _ i])
  qed
  have "set (live_ids T s) = {..<a_space T s} - a_dead s" by (auto simp: live_ids_def)
  moreover have "distinct (live_ids T s)" by (simp add: live_ids_def)
  ultimately have "length (live_ids T s) = card ({..<a_space T s} - a_dead s)"
    by (metis distinct_card)
  also have "\<dots> = a_space T s - card (a_dead s)"
    using r rep_simps(6) [OF r] by (simp add: rep_def card_Diff_subset)
  finally show "length (live_ids T s) = ov_len ov" using r unfolding rep_def ov_len_def by linarith
qed

text \<open>C19. After any edits, \<^verbatim>\<open>keys\<close> lists exactly the keys \<^verbatim>\<open>id\<close> answers for, once each and in the
  order of their ids, and \<^verbatim>\<open>len\<close> is how many there are.\<close>

theorem overlay_keys_exact:
  assumes "keys_lawful T b" "ov_steps T (ov_new T b) ov"
  shows "\<exists>ks ids. ov_keys T ov = Gives ks \<and> distinct ks \<and> sorted_wrt (<) ids \<and>
    map (ov_id T ov) ks = map (\<lambda>i. Gives (Some i)) ids \<and>
    (\<forall>k. k \<in> set ks \<longleftrightarrow> ov_id T ov k \<noteq> Gives None) \<and> length ks = ov_len ov"
proof -
  obtain s where s: "rep T ov s" "a_base s = b" "adds_ok T s"
    by (rule reachable_rep [OF assms(2) keys_lawful_base(1) [OF assms(1)]])
  have kl: "keys_lawful T (a_base s)" using assms(1) s(2) by simp
  let ?ks = "map (\<lambda>i. the (a_key T s i)) (live_ids T s)"
  note k = keys_are_live [OF s(1) kl s(3)]
  have id': "ov_id T ov = (\<lambda>k. Gives (a_id T s k))" using ov_id_refines [OF s(1)] by blast
  have "distinct (map Some (live_ids T s))" by (simp add: live_ids_def distinct_map)
  then have "distinct (map (a_id T s) ?ks)" by (simp only: k(2))
  then have "distinct ?ks" by (simp only: distinct_map)
  moreover have "map (ov_id T ov) ?ks = map Gives (map (a_id T s) ?ks)" by (simp add: id')
  then have "map (ov_id T ov) ?ks = map (\<lambda>i. Gives (Some i)) (live_ids T s)" unfolding k(2) by simp
  moreover have "sorted_wrt (<) (live_ids T s)"
    by (simp add: live_ids_def sorted_wrt_filter)
  ultimately show ?thesis
    using k(1,3,4) by (intro exI [of _ ?ks] exI [of _ "live_ids T s"]) (simp add: id')
qed

theorem overlay_keys_exact_witness:
  "\<exists>ks ids. ov_keys list_trait (ov_new list_trait [[97], [98]]) = Gives ks \<and> distinct ks \<and> sorted_wrt (<) ids \<and>
    map (ov_id list_trait (ov_new list_trait [[97], [98]])) ks = map (\<lambda>i. Gives (Some i)) ids \<and>
    (\<forall>k. k \<in> set ks \<longleftrightarrow> ov_id list_trait (ov_new list_trait [[97], [98]]) k \<noteq> Gives None) \<and>
    length ks = ov_len (ov_new list_trait [[97], [98]])"
  by (rule overlay_keys_exact [OF _ ov_refl])
    (auto simp: keys_lawful_def list_trait_def get_at_def less_Suc_eq numeral_2_eq_2)

subsection \<open>Compaction\<close>

text \<open>What a rebuild promises: a base over exactly the keys it was given.\<close>

definition rebuild_lawful :: "'b base_trait \<Rightarrow> 'b \<Rightarrow> bool" where
  "rebuild_lawful T b \<longleftrightarrow> (\<forall>ks b'. distinct ks \<and> bt_rebuild T b ks = Some b' \<longrightarrow>
    keys_lawful T b' \<and> (\<forall>k. bt_id T b' k \<noteq> None \<longleftrightarrow> k \<in> set ks))"

lemma a_id_fresh [simp]: "a_id T \<lparr>a_base = b, a_adds = [], a_dead = {}\<rparr> k = bt_id T b k"
  by (simp add: a_id_def a_find_def split: option.split)

lemma remap_ids_refines:
  assumes "rep T ov s" "\<And>i k. i \<in> set ids \<Longrightarrow> a_key T s i = Some k \<Longrightarrow> bt_id T b' k \<noteq> None"
  shows "remap_ids T ov (ov_new T b') ids =
    Gives (map (\<lambda>i. case a_key T s i of Some k \<Rightarrow> bt_id T b' k | None \<Rightarrow> None) ids)"
  using assms(2)
proof (induction ids)
  case (Cons i ids)
  have ih: "remap_ids T ov (ov_new T b') ids =
      Gives (map (\<lambda>i. case a_key T s i of Some k \<Rightarrow> bt_id T b' k | None \<Rightarrow> None) ids)"
    by (rule Cons.IH, rule Cons.prems [OF list.set_intros(2)])
  show ?case
  proof (cases "a_key T s i")
    case None
    then show ?thesis using ih by (simp add: key_refines [OF assms(1)])
  next
    case (Some k)
    then obtain j where "bt_id T b' k = Some j" using Cons.prems [of i k] by auto
    then show ?thesis using ih Some by (simp add: key_refines [OF assms(1)] ov_id_refines [OF rep_new])
  qed
qed simp

text \<open>C20. Compaction never panics over a lawful base, and where the rebuild succeeds the fresh overlay
  holds exactly the live keys, and the remap takes each live key's old id to its new one and each
  retired id to nothing.\<close>

theorem overlay_compact_remap:
  assumes "keys_lawful T b" "rebuild_lawful T b" "ov_steps T (ov_new T b) ov"
  shows "ov_compact_with_remap T ov \<noteq> Panics \<and>
    (\<forall>fresh m. ov_compact_with_remap T ov = Gives (fresh, m) \<longrightarrow>
      length m = id_space T ov \<and> ov_len fresh = ov_len ov \<and>
      (\<forall>k i. ov_id T ov k = Gives (Some i) \<longrightarrow> m ! i \<noteq> None \<and> ov_id T fresh k = Gives (m ! i)) \<and>
      (\<forall>k. ov_id T ov k = Gives None \<longrightarrow> ov_id T fresh k = Gives None) \<and>
      (\<forall>i < id_space T ov. is_dead ov i \<longrightarrow> m ! i = None))"
proof -
  obtain s where s: "rep T ov s" "a_base s = b" "adds_ok T s"
    by (rule reachable_rep [OF assms(3) keys_lawful_base(1) [OF assms(1)]])
  have kl: "keys_lawful T (a_base s)" using assms(1) s(2) by simp
  have d: "distinct (a_adds s)" using s(1) by (simp add: rep_def arena_ok_def)
  let ?ks = "map (\<lambda>i. the (a_key T s i)) (live_ids T s)"
  note k = keys_are_live [OF s(1) kl s(3)]
  note ak = a_key_id [OF kl s(3) d]
  have "distinct (map Some (live_ids T s))" by (simp add: live_ids_def distinct_map)
  then have "distinct (map (a_id T s) ?ks)" by (simp only: k(2))
  then have dk: "distinct ?ks" by (simp only: distinct_map)
  have id': "ov_id T ov x = Gives (a_id T s x)" for x by (rule ov_id_refines [OF s(1)])
  show ?thesis
  proof (cases "bt_rebuild T b ?ks")
    case None
    then show ?thesis using k(1) rep_simps(1) [OF s(1)] s(2)
      by (simp add: ov_compact_with_remap_def ov_compact_def)
  next
    case (Some b')
    have b': "keys_lawful T b'" "bt_id T b' x \<noteq> None \<longleftrightarrow> x \<in> set ?ks" for x
      using assms(2) Some dk unfolding rebuild_lawful_def by blast+
    have hold: "bt_id T b' x \<noteq> None" if "a_key T s i = Some x" for i x
      using that ak k(3) [of x] b'(2) [of x] by simp
    let ?m = "map (\<lambda>i. case a_key T s i of Some k \<Rightarrow> bt_id T b' k | None \<Rightarrow> None) [0..<a_space T s]"
    have c: "ov_compact_with_remap T ov = Gives (ov_new T b', ?m)"
      using k(1) rep_simps(1,4) [OF s(1)] s(2) Some remap_ids_refines [OF s(1) hold, of "[0..<a_space T s]"]
      by (simp add: ov_compact_with_remap_def ov_compact_def)
    have fresh: "ov_id T (ov_new T b') x = Gives (bt_id T b' x)" for x
      by (simp add: ov_id_refines [OF rep_new])
    have live: "m = ?m \<Longrightarrow> m ! i \<noteq> None \<and> bt_id T b' x = m ! i" if "a_id T s x = Some i" for m x i
    proof -
      assume m: "m = ?m"
      have "a_key T s i = Some x" using that ak by simp
      moreover have "i < a_space T s"
        using that a_find_space [OF keys_lawful_base(1) [OF kl], of x i] unfolding a_id_Some_iff by blast
      ultimately show ?thesis using hold [of i x] m by simp
    qed
    have gone: "bt_id T b' x = None" if "a_id T s x = None" for x
      using that k(3) [of x] b'(2) [of x] by auto
    have len: "ov_len (ov_new T b') = ov_len ov"
    proof -
      let ?s' = "\<lparr>a_base = b', a_adds = [], a_dead = {}\<rparr>"
      let ?ks' = "map (\<lambda>i. the (a_key T ?s' i)) (live_ids T ?s')"
      have k': "keys_lawful T (a_base ?s')" "adds_ok T ?s'" using b'(1) by (simp_all add: adds_ok_def)
      note k2 = keys_are_live [OF rep_new k']
      have "distinct (map Some (live_ids T ?s'))" by (simp add: live_ids_def distinct_map)
      then have "distinct (map (a_id T ?s') ?ks')" by (simp only: k2(2))
      then have "distinct ?ks'" by (simp only: distinct_map)
      moreover have "set ?ks' = set ?ks" using k2(3) b'(2) by auto
      ultimately have "length ?ks' = length ?ks" using dk by (metis distinct_card)
      then show ?thesis using k2(4) k(4) by simp
    qed
    have dead: "?m ! i = None" if "i < a_space T s" "is_dead ov i" for i
      using that rep_simps(3) [OF s(1)] by (simp add: a_key_def)
    show ?thesis
      using len live gone dead by (auto simp: c id' fresh rep_simps(4) [OF s(1)])
  qed
qed

lemma list_trait_keys: "distinct ks \<Longrightarrow> keys_lawful list_trait ks"
  using pos_nth pos_Some by (fastforce simp: keys_lawful_def list_trait_def get_at_def)

lemma list_trait_rebuild: "rebuild_lawful list_trait ks"
  unfolding rebuild_lawful_def
proof (intro allI impI conjI)
  fix xs b' k assume "distinct xs \<and> bt_rebuild list_trait ks xs = Some b'"
  then have "b' = xs" "distinct xs" by (auto simp: list_trait_def)
  then show "keys_lawful list_trait b'" "bt_id list_trait b' k \<noteq> None \<longleftrightarrow> k \<in> set xs"
    by (simp_all only: list_trait_keys) (simp add: list_trait_def pos_None_iff del: not_None_eq)
qed

theorem overlay_compact_remap_witness:
  "ov_compact_with_remap list_trait (fst (retire_id list_trait 0 (ov_new list_trait [[97], [98]]))) \<noteq> Panics"
proof -
  have "keys_lawful list_trait [[97], [98]]" by (rule list_trait_keys) simp
  then show ?thesis
    using overlay_compact_remap [OF _ list_trait_rebuild] ov_retire_step [OF ov_refl] by blast
qed

end
