(* ===== verification/Overlay_Blob.thy ===== *)
theory Overlay_Blob
  imports Overlay_Theorems
begin

text \<open>
  The blob of an overlay (\<^verbatim>\<open>src/overlay.rs\<close>): the header and its two checksums, the three sections,
  and the reader over untrusted bytes. An error of the code is \<open>Refuses\<close>; a slice out of range or a
  failed narrowing is \<open>Panics\<close>. The base loader is the caller's closure: it gives a base, refuses, or
  panics, and a panic of it is a panic of the reader.
\<close>

subsection \<open>Writing\<close>

definition OVERLAY_MAGIC :: bytes where "OVERLAY_MAGIC = [0x4F, 0x56, 0x4C, 0x32]"
definition OVERLAY_MAGIC_V1 :: bytes where "OVERLAY_MAGIC_V1 = [0x4F, 0x56, 0x4C, 0x31]"
definition OVERLAY_HEADER :: nat where "OVERLAY_HEADER = 4 + 1 + 8 + 8 + 8 + 8 + 8 + 4"
definition OVERLAY_CHECKED :: nat where "OVERLAY_CHECKED = OVERLAY_HEADER - 4"
definition OVERLAY_HEADER_V1 :: nat where "OVERLAY_HEADER_V1 = 4 + 1 + 8 + 8"

definition ov_header :: "u8 \<Rightarrow> nat \<Rightarrow> nat \<Rightarrow> nat \<Rightarrow> nat \<Rightarrow> u64 \<Rightarrow> bytes" where
  "ov_header tag base_len added_count added_bytes words payload =
    (let h = OVERLAY_MAGIC @ [tag] @ le_bytes 8 base_len @ le_bytes 8 added_count @ le_bytes 8 added_bytes
       @ le_bytes 8 words @ u64_bytes payload
     in h @ u32_bytes (ucast (hash_bytes h)))"

text \<open>What the hashing writer sees: the base, the arena, then one write a tombstone word. The base
  may come in pieces; \<open>block_hasher_concat\<close> is why that makes no difference.\<close>

definition write_sections :: "'b base_trait \<Rightarrow> 'b overlay \<Rightarrow> (bytes \<times> bytes) outcome" where
  "write_sections T ov = (case bt_to_bytes T (ov_base ov) of
      None \<Rightarrow> Refuses
    | Some base \<Rightarrow>
        let writes = [base, ov_data ov] @ map u64_bytes (ov_dead ov) in
        Gives (ov_header (bt_tag T) (length base) (length (ov_starts ov)) (length (ov_data ov))
            (length (ov_dead ov)) (bh_finish (fold bh_update writes bh_new)), concat writes))"

definition ov_to_bytes :: "'b base_trait \<Rightarrow> 'b overlay \<Rightarrow> bytes outcome" where
  "ov_to_bytes T ov = bind_outcome (write_sections T ov) (\<lambda>(header, body). Gives (header @ body))"

subsection \<open>Reading\<close>

definition read_u64 :: "bytes \<Rightarrow> nat \<Rightarrow> nat outcome" where
  "read_u64 bs at = bind_outcome (slice bs at (at + 8)) (\<lambda>w. Gives (unat (u64_of w)))"

text \<open>\<^verbatim>\<open>checked_add\<close> and the filter against the length that follows it everywhere here.\<close>

definition bounded_add :: "nat \<Rightarrow> nat \<Rightarrow> bytes \<Rightarrow> nat outcome" where
  "bounded_add a b bs = (case checked_add_usize a b of
      Some e \<Rightarrow> if e \<le> length bs then Gives e else Refuses | None \<Rightarrow> Refuses)"

definition read_addition :: "bytes \<Rightarrow> nat \<Rightarrow> (bytes \<times> nat) outcome" where
  "read_addition bs at =
    bind_outcome (bounded_add at 4 bs) (\<lambda>len_end.
    bind_outcome (read_u32 bs at) (\<lambda>len.
    bind_outcome (bounded_add len_end (unat len) bs) (\<lambda>end'.
    bind_outcome (slice bs len_end end') (\<lambda>key.
      if utf8_ok key then Gives (key, end') else Refuses))))"

record sections =
  s_base :: bytes
  s_count :: nat
  s_additions :: bytes
  s_tombstones :: bytes

definition v2_sections :: "bytes \<Rightarrow> nat \<Rightarrow> nat \<Rightarrow> sections outcome" where
  "v2_sections bs base_end added_count =
    bind_outcome (read_u64 bs 21) (\<lambda>added_bytes.
    bind_outcome (read_u64 bs 29) (\<lambda>words.
    bind_outcome (bounded_add base_end added_bytes bs) (\<lambda>added_end.
    case checked_mul_usize words 8 of None \<Rightarrow> Refuses | Some tombstone_bytes \<Rightarrow>
      if length bs - added_end \<noteq> tombstone_bytes then Refuses
      else bind_outcome (read_u64 bs 37) (\<lambda>stored.
      bind_outcome (slice bs OVERLAY_HEADER (length bs)) (\<lambda>payload.
        if stored \<noteq> unat (hash_block payload) then Refuses
        else bind_outcome (slice bs OVERLAY_HEADER base_end) (\<lambda>base.
        bind_outcome (slice bs base_end added_end) (\<lambda>additions.
          Gives \<lparr>s_base = base, s_count = added_count, s_additions = additions,
            s_tombstones = drop added_end bs\<rparr>)))))))"

fun skip_additions :: "bytes \<Rightarrow> nat \<Rightarrow> nat \<Rightarrow> nat outcome" where
  "skip_additions bs at 0 = Gives at"
| "skip_additions bs at (Suc n) = bind_outcome (read_addition bs at) (\<lambda>(_, at'). skip_additions bs at' n)"

definition v1_sections :: "bytes \<Rightarrow> nat \<Rightarrow> nat \<Rightarrow> sections outcome" where
  "v1_sections bs base_end added_count =
    bind_outcome (skip_additions bs base_end added_count) (\<lambda>added_end.
    bind_outcome (bounded_add added_end 8 bs) (\<lambda>count_end.
    bind_outcome (read_u64 bs added_end) (\<lambda>words.
    case checked_mul_usize words 8 of None \<Rightarrow> Refuses | Some tombstone_bytes \<Rightarrow>
      if length bs - count_end \<noteq> tombstone_bytes then Refuses
      else bind_outcome (slice bs OVERLAY_HEADER_V1 base_end) (\<lambda>base.
      bind_outcome (slice bs base_end added_end) (\<lambda>additions.
        Gives \<lparr>s_base = base, s_count = added_count, s_additions = additions,
          s_tombstones = drop count_end bs\<rparr>)))))"

definition mask_below :: "nat \<Rightarrow> u64" where
  "mask_below n = push_bit n 1 - 1"

definition count_ones :: "u64 \<Rightarrow> nat" where
  "count_ones w = length (filter (bit w) [0..<64])"

text \<open>\<^verbatim>\<open>chunks_exact(8)\<close> of the tombstone region.\<close>

function tombstone_words :: "bytes \<Rightarrow> u64 list" where
  "tombstone_words bs = (if length bs < 8 then [] else u64_of (take 8 bs) # tombstone_words (drop 8 bs))"
  by pat_completeness auto
termination by (relation "measure length") auto

declare tombstone_words.simps [simp del]

definition stray_tombstone :: "nat \<Rightarrow> u64 list \<Rightarrow> bool" where
  "stray_tombstone space dead = list_ex (\<lambda>(w, word).
      if w < space div 64 then False
      else if w = space div 64 then word AND NOT (mask_below (space mod 64)) \<noteq> 0
      else word \<noteq> 0) (enumerate 0 dead)"

fun read_additions :: "'b base_trait \<Rightarrow> bytes \<Rightarrow> nat \<Rightarrow> nat \<Rightarrow> 'b overlay \<Rightarrow> ('b overlay \<times> nat) outcome" where
  "read_additions T bs 0 at ov = Gives (ov, at)"
| "read_additions T bs (Suc n) at ov =
    bind_outcome (read_addition bs at) (\<lambda>(key, at').
      if bt_exact T \<and> bt_id T (ov_base ov) key \<noteq> None then Refuses
      else bind_outcome (added_index ov key) (\<lambda>r.
        if r \<noteq> None then Refuses
        else bind_outcome (push_added key ov) (\<lambda>(ov', _). read_additions T bs n at' ov')))"

definition assemble :: "'b base_trait \<Rightarrow> 'b \<Rightarrow> sections \<Rightarrow> 'b overlay outcome" where
  "assemble T base s =
    bind_outcome (read_additions T (s_additions s) (s_count s) 0 ((ov_new T base)\<lparr>ov_live := 0\<rparr>)) (\<lambda>(ov, at).
      if at \<noteq> length (s_additions s) then Refuses
      else let dead = tombstone_words (s_tombstones s); space = id_space T ov in
        if stray_tombstone space dead then Refuses
        else Gives (ov\<lparr>ov_dead := dead, ov_live := space - sum_list (map count_ones dead)\<rparr>))"

definition ov_from_bytes :: "'b base_trait \<Rightarrow> (bytes \<Rightarrow> 'b outcome) \<Rightarrow> bytes \<Rightarrow> 'b overlay outcome" where
  "ov_from_bytes T load bs = (let
      legacy = (4 \<le> length bs \<and> take 4 bs = OVERLAY_MAGIC_V1);
      header = (if legacy then OVERLAY_HEADER_V1 else OVERLAY_HEADER) in
    if length bs < header \<or> (\<not> legacy \<and> take 4 bs \<noteq> OVERLAY_MAGIC) then Refuses
    else if \<not> legacy \<and> u32_of (take 4 (drop OVERLAY_CHECKED bs)) \<noteq> ucast (hash_bytes (take OVERLAY_CHECKED bs))
    then Refuses
    else if bs ! 4 \<noteq> bt_tag T then Refuses
    else bind_outcome (read_u64 bs 5) (\<lambda>base_len.
      bind_outcome (read_u64 bs 13) (\<lambda>added_count.
      bind_outcome (bounded_add header base_len bs) (\<lambda>base_end.
      bind_outcome (if legacy then v1_sections bs base_end added_count else v2_sections bs base_end added_count)
        (\<lambda>s. bind_outcome (load (s_base s)) (\<lambda>base. assemble T base s))))))"

subsection \<open>Tombstone words\<close>

lemma tombstone_words_bytes: "tombstone_words (concat (map u64_bytes ws)) = ws"
  by (induction ws) (simp_all add: tombstone_words.simps)

lemma dead_bit_Cons: "dead_bit (w # ws) i = (if i < 64 then bit w i else dead_bit ws (i - 64))"
proof (cases "i < 64")
  case False
  then obtain j where i: "i = j + 64" by (metis add.commute le_Suc_ex not_less)
  have "(j + 64) div 64 = Suc (j div 64)" by (simp add: div_add_self2)
  then show ?thesis by (simp add: dead_bit_iff i)
qed (simp add: dead_bit_iff)

lemma dead_bit_Nil [simp]: "\<not> dead_bit [] i"
  by (simp add: dead_bit_iff)

lemma count_ones_card: "count_ones w = card {i. i < 64 \<and> bit w i}"
proof -
  have "set (filter (bit w) [0..<64]) = {i. i < 64 \<and> bit w i}" by auto
  moreover have "distinct (filter (bit w) [0..<64])" by simp
  ultimately show ?thesis unfolding count_ones_def by (metis distinct_card)
qed

lemma dead_count:
  "finite {i. dead_bit ws i} \<and> sum_list (map count_ones ws) = card {i. dead_bit ws i}"
proof (induction ws)
  case (Cons w ws)
  let ?A = "{i. i < 64 \<and> bit w i}" and ?B = "(+) 64 ` {i. dead_bit ws i}"
  have "{i. dead_bit (w # ws) i} = ?A \<union> ?B"
  proof (rule set_eqI)
    fix i
    show "i \<in> {i. dead_bit (w # ws) i} \<longleftrightarrow> i \<in> ?A \<union> ?B"
      by (cases "i < 64") (auto simp: dead_bit_Cons image_iff intro!: exI [of _ "i - 64"])
  qed
  moreover have "?A \<inter> ?B = {}" by auto
  moreover have "card ?B = card {i. dead_bit ws i}" by (rule card_image) simp
  ultimately show ?case using Cons by (simp add: card_Un_disjoint count_ones_card)
qed simp

lemma bit_and_not_mask:
  "(w::u64) AND NOT (mask_below r) \<noteq> 0 \<longleftrightarrow> (\<exists>b. r \<le> b \<and> b < 64 \<and> bit w b)" if "r < 64"
proof -
  have m: "mask_below r = mask r" by (simp add: mask_below_def mask_eq_exp_minus_1 push_bit_eq_mult)
  have "w AND NOT (mask r) \<noteq> 0 \<longleftrightarrow> (\<exists>b < 64. bit w b \<and> \<not> b < r)"
    by (auto simp: bit_eq_iff bit_simps)
  then show ?thesis unfolding m by (auto simp: not_less)
qed

lemma stray_tombstone_nth:
  "stray_tombstone space dead \<longleftrightarrow> (\<exists>w < length dead. \<not> w < space div 64 \<and>
    (if w = space div 64 then dead ! w AND NOT (mask_below (space mod 64)) \<noteq> 0 else dead ! w \<noteq> 0))"
  unfolding stray_tombstone_def list_ex_iff
proof (intro iffI; elim bexE exE conjE)
  fix p assume p: "p \<in> set (enumerate 0 dead)"
    and c: "case p of (w, word) \<Rightarrow> if w < space div 64 then False
      else if w = space div 64 then word AND NOT (mask_below (space mod 64)) \<noteq> 0 else word \<noteq> 0"
  obtain w word where wd: "p = (w, word)" by (cases p)
  then have "w < length dead" "word = dead ! w" using p by (simp_all add: in_set_enumerate_eq)
  then show "\<exists>w < length dead. \<not> w < space div 64 \<and>
    (if w = space div 64 then dead ! w AND NOT (mask_below (space mod 64)) \<noteq> 0 else dead ! w \<noteq> 0)"
    using c wd by (intro exI [of _ w]) (auto split: if_splits)
next
  fix w assume "w < length dead" "\<not> w < space div 64"
    and c: "if w = space div 64 then dead ! w AND NOT (mask_below (space mod 64)) \<noteq> 0 else dead ! w \<noteq> 0"
  then show "\<exists>p \<in> set (enumerate 0 dead). case p of (w, word) \<Rightarrow> if w < space div 64 then False
      else if w = space div 64 then word AND NOT (mask_below (space mod 64)) \<noteq> 0 else word \<noteq> 0"
    by (intro bexI [of _ "(w, dead ! w)"]) (simp_all add: in_set_enumerate_eq)
qed

lemma stray_iff: "stray_tombstone space dead \<longleftrightarrow> (\<exists>i. dead_bit dead i \<and> space \<le> i)"
proof
  let ?q = "space div 64" and ?r = "space mod 64"
  have r: "?r < 64" and sp: "space = ?q * 64 + ?r" by simp_all
  show "\<exists>i. dead_bit dead i \<and> space \<le> i" if "stray_tombstone space dead"
  proof -
    from that obtain w where wc: "w < length dead \<and> \<not> w < ?q \<and>
        (if w = ?q then dead ! w AND NOT (mask_below ?r) \<noteq> 0 else dead ! w \<noteq> 0)"
      unfolding stray_tombstone_nth ..
    then have w: "w < length dead" "\<not> w < ?q"
      and cond: "if w = ?q then dead ! w AND NOT (mask_below ?r) \<noteq> 0 else dead ! w \<noteq> 0"
      by blast+
    obtain b where b: "b < 64" "bit (dead ! w) b" "w = ?q \<longrightarrow> ?r \<le> b"
    proof (cases "w = ?q")
      case True
      then show thesis using cond bit_and_not_mask [OF r] that by auto
    next
      case False
      then obtain b where "bit (dead ! w) b" using cond by (metis bit_eq_iff bit_0_eq bot_apply bot_bool_def)
      then show thesis using False that bit_imp_le_length [of "dead ! w" b] by simp
    qed
    have "dead_bit dead (w * 64 + b)" using w b by (simp add: dead_bit_iff)
    moreover have "space \<le> w * 64 + b"
    proof (cases "w = ?q")
      case False
      then have "Suc ?q \<le> w" using w by simp
      then have "Suc ?q * 64 \<le> w * 64" by (rule mult_le_mono1)
      then have "?q * 64 + 64 \<le> w * 64" by simp
      then show ?thesis using r sp by linarith
    qed (use b sp in linarith)
    ultimately show ?thesis by blast
  qed
  show "stray_tombstone space dead" if "\<exists>i. dead_bit dead i \<and> space \<le> i"
  proof -
    from that obtain i where i: "dead_bit dead i" "space \<le> i" by blast
    let ?w = "i div 64" and ?b = "i mod 64"
    have w: "?w < length dead" "bit (dead ! ?w) ?b" using i(1) by (simp_all add: dead_bit_iff)
    have "?q \<le> ?w" using i(2) by (rule div_le_mono)
    moreover have r1: "?w = ?q \<longrightarrow> ?r \<le> ?b" using i(2) sp by (metis div_mult_mod_eq nat_add_left_cancel_le)
    moreover have "?w = ?q \<longrightarrow> dead ! ?w AND NOT (mask_below ?r) \<noteq> 0"
      using r1 w(2) bit_and_not_mask [OF r, of "dead ! ?w"] by auto
    moreover have "dead ! ?w \<noteq> 0" using w(2) by auto
    ultimately show ?thesis
      unfolding stray_tombstone_nth using w(1) by (intro exI [of _ ?w]) auto
  qed
qed

subsection \<open>Reading the additions\<close>

lemma read_addition_record:
  assumes "bs = pre @ rec_bytes k @ post" "length k < 2 ^ 32" "utf8_ok k" "length bs < usize_bound"
  shows "read_addition bs (length pre) = Gives (k, length (pre @ rec_bytes k))"
proof -
  have "unat (of_nat (length k) :: u32) = length k" using assms(2) by (simp add: unat_of_nat)
  then show ?thesis
    using assms by (simp add: read_addition_def bounded_add_def checked_add_usize_def read_u32_def slice_def
        rec_bytes_def usize_bound_def)
qed

lemma read_additions_arena:
  assumes "arena_ok ov done" "distinct (done @ ks)" "\<forall>k \<in> set ks. utf8_ok k \<and> length k < 2 ^ 32"
    and "bt_exact T \<Longrightarrow> \<forall>k \<in> set ks. bt_id T (ov_base ov) k = None"
    and "bs = arena_of (done @ ks)" "length bs < usize_bound"
    and "\<forall>j < length ks. fits (done @ take j ks) (ks ! j)"
  shows "\<exists>ov'. read_additions T bs (length ks) (length (arena_of done)) ov = Gives (ov', length bs) \<and>
    arena_ok ov' (done @ ks) \<and> ov_base ov' = ov_base ov \<and> ov_dead ov' = ov_dead ov \<and> ov_live ov' = ov_live ov"
  using assms
proof (induction ks arbitrary: ov "done")
  case (Cons k ks)
  have k: "k \<notin> set done" "utf8_ok k" "length k < 2 ^ 32" using Cons.prems(2,3) by simp_all
  have f: "fits done k" using Cons.prems(7) by force
  obtain ov1 where p: "push_added k ov = Gives (ov1, length done)" "arena_ok ov1 (done @ [k])"
    "ov_base ov1 = ov_base ov" "ov_dead ov1 = ov_dead ov" "ov_live ov1 = ov_live ov"
    by (rule push_added_ok [OF Cons.prems(1) k(1,2) f])
  have pk: "pos done k = None" using k(1) by (simp add: pos_None_iff)
  have bs: "bs = arena_of done @ rec_bytes k @ arena_of ks" using Cons.prems(5) by simp
  have r: "read_addition bs (length (arena_of done)) = Gives (k, length (arena_of (done @ [k])))"
    using read_addition_record [OF bs k(3,2) Cons.prems(6)] by simp
  have b: "\<not> (bt_exact T \<and> bt_id T (ov_base ov) k \<noteq> None)" using Cons.prems(4) by auto
  have room: "\<forall>j < length ks. fits ((done @ [k]) @ take j ks) (ks ! j)"
    using Cons.prems(7) by (metis Suc_less_eq append.assoc append_Cons append_Nil length_Cons nth_Cons_Suc take_Suc_Cons)
  have "\<exists>ov'. read_additions T bs (length ks) (length (arena_of (done @ [k]))) ov1 = Gives (ov', length bs) \<and>
    arena_ok ov' ((done @ [k]) @ ks) \<and> ov_base ov' = ov_base ov1 \<and> ov_dead ov' = ov_dead ov1 \<and> ov_live ov' = ov_live ov1"
    using Cons.prems p(3) room by (intro Cons.IH [OF p(2)]) auto
  then show ?case
    using r b p by (simp add: added_index_pos [OF Cons.prems(1)] pk)
qed simp

lemma arena_fits:
  assumes "arena_ok ov ks" "j < length ks"
  shows "fits (take j ks) (ks ! j)"
proof -
  have "length xs \<le> length (arena_of xs)" for xs by (induction xs) simp_all
  from this [of "take j ks"] have "j \<le> start_of ks j" using assms(2) by (simp add: start_of_def)
  moreover have "start_of ks j < 2 ^ 32" "length (ks ! j) < 2 ^ 32"
    using assms by (simp_all add: arena_ok_def)
  ultimately show ?thesis using assms(2) by (simp add: fits_def start_of_def)
qed

text \<open>The empty arena every read starts from.\<close>

lemma assemble_live:
  assumes "arena_ok ov (a_adds s)" "ov_base ov = a_base s" "{i. dead_bit dead i} = a_dead s"
    and "a_dead s \<subseteq> {..<a_space T s}"
  shows "rep T (ov\<lparr>ov_dead := dead, ov_live := id_space T ov - sum_list (map count_ones dead)\<rparr>) s"
proof -
  let ?ov = "ov\<lparr>ov_dead := dead, ov_live := id_space T ov - sum_list (map count_ones dead)\<rparr>"
  have "arena_ok ?ov (a_adds s)" using assms(1) by (simp add: arena_ok_def index_ok_def)
  moreover have "id_space T ov = a_space T s"
    using assms(1,2) by (simp add: id_space_def a_space_def arena_ok_def)
  moreover have "sum_list (map count_ones dead) = card (a_dead s)" using dead_count assms(3) by simp
  moreover have "card (a_dead s) \<le> a_space T s"
    using card_mono [OF finite_lessThan assms(4)] by simp
  moreover have "{i. is_dead ?ov i} = a_dead s" using assms(3) by (simp add: is_dead_def)
  ultimately show ?thesis using assms(2,4) by (simp add: rep_def)
qed

lemma slice_mid: "slice (pre @ f @ post) (length pre) (length pre + length f) = Gives f"
  by (simp add: slice_def)

lemma read_u64_mid:
  assumes "bs = pre @ le_bytes 8 n @ post" "n < 2 ^ 64" "at = length pre"
  shows "read_u64 bs at = Gives n"
proof -
  have "unat (u64_of (le_bytes 8 n)) = n" using assms(2) by (simp add: unat_u64_of le_nat_le_bytes)
  then show ?thesis
    using slice_mid [of pre "le_bytes 8 n" post] by (simp add: read_u64_def assms(1,3))
qed

lemma rep_assembled:
  assumes r: "rep T ov s" and ao: "adds_ok T s"
    and sec: "s_additions sec = ov_data ov" "s_count sec = length (ov_starts ov)"
      "s_tombstones sec = concat (map u64_bytes (ov_dead ov))"
    and small: "length (ov_data ov) < usize_bound"
  shows "\<exists>ov'. assemble T (a_base s) sec = Gives ov' \<and> rep T ov' s \<and> ov_dead ov' = ov_dead ov"
proof -
  have ar: "arena_ok ov (a_adds s)" using r by (simp add: rep_def)
  then have data: "ov_data ov = arena_of (a_adds s)" and d: "distinct (a_adds s)"
    and u: "\<forall>k \<in> set (a_adds s). utf8_ok k \<and> length k < 2 ^ 32" by (simp_all add: arena_ok_def)
  let ?ov0 = "(ov_new T (a_base s))\<lparr>ov_live := 0\<rparr>"
  have "\<exists>ov'. read_additions T (ov_data ov) (length (a_adds s)) (length (arena_of [])) ?ov0
        = Gives (ov', length (ov_data ov)) \<and> arena_ok ov' ([] @ a_adds s) \<and> ov_base ov' = ov_base ?ov0 \<and>
        ov_dead ov' = ov_dead ?ov0 \<and> ov_live ov' = ov_live ?ov0"
  proof (rule read_additions_arena)
    show "arena_ok ?ov0 []" by (simp add: arena_ok_def index_ok_def ov_new_def)
    show "bt_exact T \<Longrightarrow> \<forall>k\<in>set (a_adds s). bt_id T (ov_base ?ov0) k = None"
      using ao by (simp add: adds_ok_def ov_new_def)
    show "\<forall>j<length (a_adds s). fits ([] @ take j (a_adds s)) (a_adds s ! j)"
      using arena_fits [OF ar] by simp
  qed (use d u data small in simp_all)
  then obtain ov1 where o1: "read_additions T (ov_data ov) (length (a_adds s)) 0 ?ov0 = Gives (ov1, length (ov_data ov))"
    "arena_ok ov1 (a_adds s)" "ov_base ov1 = a_base s"
    by (auto simp: ov_new_def)
  have dead: "{i. dead_bit (ov_dead ov) i} = a_dead s" using r by (simp add: rep_def is_dead_def)
  have sub: "a_dead s \<subseteq> {..<a_space T s}" using r by (simp add: rep_def)
  have sp: "id_space T ov1 = a_space T s" using o1(2,3) by (simp add: id_space_def a_space_def arena_ok_def)
  have "\<not> stray_tombstone (id_space T ov1) (ov_dead ov)"
    using dead sub by (auto simp: stray_iff sp)
  then have "assemble T (a_base s) sec =
      Gives (ov1\<lparr>ov_dead := ov_dead ov, ov_live := id_space T ov1 - sum_list (map count_ones (ov_dead ov))\<rparr>)"
    using o1(1) rep_simps(5) [OF r] by (simp add: assemble_def sec tombstone_words_bytes Let_def)
  then show ?thesis using assemble_live [OF o1(2,3) dead sub] by simp
qed

lemma header_layout:
  "ov_header tag b c a w p = (OVERLAY_MAGIC @ [tag]) @ le_bytes 8 b @ le_bytes 8 c @ le_bytes 8 a @ le_bytes 8 w @
    u64_bytes p @ u32_bytes (ucast (hash_bytes (take OVERLAY_CHECKED (ov_header tag b c a w p))))"
  "length (ov_header tag b c a w p) = OVERLAY_HEADER"
  by (simp_all add: ov_header_def Let_def OVERLAY_MAGIC_def OVERLAY_CHECKED_def OVERLAY_HEADER_def)

lemma v2_read:
  assumes bs: "bs = ov_header tag (length base) c (length adds) w p @ body"
    and body: "body = base @ adds @ tomb" and tomb: "length tomb = w * 8"
    and small: "length bs < usize_bound" and c: "c < 2 ^ 64"
  shows "ov_from_bytes T load bs = (if tag \<noteq> bt_tag T \<or> p \<noteq> hash_block body then Refuses
    else bind_outcome (load base) (\<lambda>b. assemble T b \<lparr>s_base = base, s_count = c, s_additions = adds, s_tombstones = tomb\<rparr>))"
proof -
  let ?h = "ov_header tag (length base) c (length adds) w p"
  have hl: "length ?h = 49" using header_layout(2) by (simp add: OVERLAY_HEADER_def)
  have lens: "length base < 2 ^ 64" "length adds < 2 ^ 64" "w < 2 ^ 64" "w * 8 < 2 ^ 64"
    "49 + length base + length adds + w * 8 = length bs"
    using small hl by (simp_all add: bs body usize_bound_def tomb)
  let ?chk = "u32_bytes (ucast (hash_bytes (take OVERLAY_CHECKED ?h)))"
  have lay: "bs = (OVERLAY_MAGIC @ [tag]) @ le_bytes 8 (length base) @ le_bytes 8 c @ le_bytes 8 (length adds) @
      le_bytes 8 w @ u64_bytes p @ ?chk @ body"
    using header_layout(1) [of tag "length base" c "length adds" w p] by (simp add: bs)
  have m: "length OVERLAY_MAGIC = 4" by (simp add: OVERLAY_MAGIC_def)
  have r5: "read_u64 bs 5 = Gives (length base)"
    using lay lens(1) m by (intro read_u64_mid [of bs "OVERLAY_MAGIC @ [tag]"]) simp_all
  have r13: "read_u64 bs 13 = Gives c"
    using lay c m by (intro read_u64_mid [of bs "OVERLAY_MAGIC @ [tag] @ le_bytes 8 (length base)"]) simp_all
  have r21: "read_u64 bs 21 = Gives (length adds)"
    using lay lens(2) m
    by (intro read_u64_mid [of bs "OVERLAY_MAGIC @ [tag] @ le_bytes 8 (length base) @ le_bytes 8 c"]) simp_all
  have r29: "read_u64 bs 29 = Gives w"
    using lay lens(3) m
    by (intro read_u64_mid [of bs "OVERLAY_MAGIC @ [tag] @ le_bytes 8 (length base) @ le_bytes 8 c @ le_bytes 8 (length adds)"]) simp_all
  have r37: "read_u64 bs 37 = Gives (unat p)"
    using lay m unat_less_power [of p]
    by (intro read_u64_mid [of bs "OVERLAY_MAGIC @ [tag] @ le_bytes 8 (length base) @ le_bytes 8 c @ le_bytes 8 (length adds) @ le_bytes 8 w"])
      (simp_all add: u64_bytes_def)
  have magic: "take 4 bs = OVERLAY_MAGIC" "bs ! 4 = tag" using m by (simp_all add: lay nth_append)
  have nl: "OVERLAY_MAGIC \<noteq> OVERLAY_MAGIC_V1" by (simp add: OVERLAY_MAGIC_def OVERLAY_MAGIC_V1_def)
  have chk: "u32_of (take 4 (drop OVERLAY_CHECKED bs)) = ucast (hash_bytes (take OVERLAY_CHECKED bs))"
  proof -
    have "take OVERLAY_CHECKED bs = take OVERLAY_CHECKED ?h"
      using hl by (simp add: bs OVERLAY_CHECKED_def OVERLAY_HEADER_def)
    moreover have "take 4 (drop OVERLAY_CHECKED bs) = ?chk"
      using m by (subst lay) (simp add: OVERLAY_CHECKED_def OVERLAY_HEADER_def)
    ultimately show ?thesis by simp
  qed
  have "v2_sections bs (49 + length base) c = (if p \<noteq> hash_block body then Refuses
    else Gives \<lparr>s_base = base, s_count = c, s_additions = adds, s_tombstones = tomb\<rparr>)"
  proof -
    have s1: "slice bs 49 (length bs) = Gives body" using hl by (simp add: slice_def bs)
    have s2: "slice bs 49 (49 + length base) = Gives base" using hl by (simp add: slice_def bs body)
    have s3: "slice bs (49 + length base) (49 + length base + length adds) = Gives adds"
      using hl by (simp add: slice_def bs body)
    have "drop (49 + length base + length adds) bs = tomb" using hl by (simp add: bs body)
    moreover have "bounded_add (49 + length base) (length adds) bs = Gives (49 + length base + length adds)"
      using lens(5) small by (simp add: bounded_add_def checked_add_usize_def)
    moreover have "length bs - (49 + length base + length adds) = w * 8" using lens(5) by linarith
    ultimately show ?thesis
      using r21 r29 r37 s1 s2 s3 lens(4)
      by (simp add: v2_sections_def checked_mul_usize_def usize_bound_def OVERLAY_HEADER_def word_unat_eq_iff)
  qed
  moreover have "bounded_add 49 (length base) bs = Gives (49 + length base)"
    using lens(5) small by (simp add: bounded_add_def checked_add_usize_def)
  moreover have "49 \<le> length bs" using lens(5) by linarith
  ultimately show ?thesis
    using magic nl chk r5 r13
    by (simp add: ov_from_bytes_def Let_def OVERLAY_HEADER_def cong: if_cong)
qed

subsection \<open>Round trip\<close>

lemma to_bytes_layout:
  assumes "bt_to_bytes T (ov_base ov) = Some blob"
  shows "ov_to_bytes T ov = Gives
    (ov_header (bt_tag T) (length blob) (length (ov_starts ov)) (length (ov_data ov)) (length (ov_dead ov))
       (hash_block (blob @ ov_data ov @ concat (map u64_bytes (ov_dead ov)))) @
     blob @ ov_data ov @ concat (map u64_bytes (ov_dead ov)))"
  using assms block_hasher_concat [of "[blob, ov_data ov] @ map u64_bytes (ov_dead ov)"]
  by (simp add: ov_to_bytes_def write_sections_def Let_def)

text \<open>C21. A saved overlay is read back over the same base as the same overlay: every key has its id,
  every id its key or its tombstone, the counts agree, and writing it again gives the same bytes.\<close>

theorem overlay_blob_roundtrip:
  assumes "base_lawful T b" "ov_steps T (ov_new T b) ov"
    and "bt_to_bytes T b = Some blob" "load blob = Gives b"
    and "ov_to_bytes T ov = Gives bs" "length bs < usize_bound"
  shows "\<exists>ov'. ov_from_bytes T load bs = Gives ov' \<and> ov_len ov' = ov_len ov \<and> id_space T ov' = id_space T ov \<and>
    (\<forall>k. ov_id T ov' k = ov_id T ov k) \<and> (\<forall>i. ov_key T ov' i = ov_key T ov i) \<and> ov_to_bytes T ov' = Gives bs"
proof -
  obtain s where s: "rep T ov s" "a_base s = b" "adds_ok T s"
    by (rule reachable_rep [OF assms(2,1)])
  have ob: "bt_to_bytes T (ov_base ov) = Some blob" using assms(3) s(2) rep_simps(1) [OF s(1)] by simp
  let ?tomb = "concat (map u64_bytes (ov_dead ov))"
  let ?body = "blob @ ov_data ov @ ?tomb"
  have bs: "bs = ov_header (bt_tag T) (length blob) (length (ov_starts ov)) (length (ov_data ov)) (length (ov_dead ov))
      (hash_block ?body) @ ?body"
    using to_bytes_layout [OF ob] assms(5) by simp
  have data: "ov_data ov = arena_of (a_adds s)" using s(1) by (simp add: rep_def arena_ok_def)
  have small: "length (ov_data ov) < usize_bound" using assms(6) by (simp add: bs)
  have "length xs \<le> length (arena_of xs)" for xs by (induction xs) simp_all
  from this [of "a_adds s"] have c: "length (ov_starts ov) < 2 ^ 64"
    using small by (simp add: rep_simps(5) [OF s(1)] data usize_bound_def)
  let ?sec = "\<lparr>s_base = blob, s_count = length (ov_starts ov), s_additions = ov_data ov, s_tombstones = ?tomb\<rparr>"
  have r: "ov_from_bytes T load bs = assemble T b ?sec"
    using v2_read [OF bs refl _ assms(6) c, of T load] assms(4) by simp
  obtain ov' where o': "assemble T (a_base s) ?sec = Gives ov'" "rep T ov' s" "ov_dead ov' = ov_dead ov"
    using rep_assembled [OF s(1,3), of ?sec] small by auto
  have "ov_data ov' = ov_data ov" "length (ov_starts ov') = length (ov_starts ov)"
    using o'(2) data rep_simps(5) [OF s(1)] rep_simps(5) [OF o'(2)] by (simp_all add: rep_def arena_ok_def)
  moreover have "bt_to_bytes T (ov_base ov') = Some blob"
    using assms(3) s(2) rep_simps(1) [OF o'(2)] by simp
  ultimately have "ov_to_bytes T ov' = Gives bs"
    using to_bytes_layout [of T ov' blob] o'(3) bs by simp
  moreover have "ov_len ov' = ov_len ov"
    using s(1) o'(2) by (simp add: rep_def ov_len_def)
  ultimately show ?thesis
    using r o' s rep_simps(4) [OF s(1)] rep_simps(4) [OF o'(2)]
    by (intro exI [of _ ov']) (simp add: ov_id_refines [OF s(1)] ov_id_refines [OF o'(2)]
        key_refines [OF s(1)] key_refines [OF o'(2)])
qed

theorem overlay_blob_roundtrip_witness:
  "\<exists>bs ov'. ov_to_bytes list_trait (fst (retire_id list_trait 0 (ov_new list_trait [[97]]))) = Gives bs \<and>
    ov_from_bytes list_trait (\<lambda>_. Gives [[97]]) bs = Gives ov' \<and> ov_len ov' = 0"
proof -
  let ?ov = "fst (retire_id list_trait 0 (ov_new list_trait [[97]]))"
  have blob: "bt_to_bytes list_trait [[97]] = Some (rec_bytes [97])" by (simp add: list_trait_def)
  have ov: "ov_base ?ov = [[97]]" "ov_data ?ov = []" "length (ov_dead ?ov) = 1" "ov_len ?ov = 0"
    by (simp_all add: retire_id_def ov_new_def set_dead_def id_space_def list_trait_def is_dead_def
        dead_bit_def get_at_def ov_len_def Let_def)
  obtain bs where bs: "ov_to_bytes list_trait ?ov = Gives bs"
    using to_bytes_layout [of list_trait ?ov "rec_bytes [97]"] blob ov(1) by simp
  have "length bs < usize_bound"
    using to_bytes_layout [of list_trait ?ov "rec_bytes [97]"] blob bs ov
    by (auto simp: header_layout(2) OVERLAY_HEADER_def usize_bound_def)
  from overlay_blob_roundtrip [OF list_trait_lawful(1) ov_retire_step [OF ov_refl] blob _ bs this,
      of "\<lambda>_. Gives [[97]]"]
  show ?thesis using bs ov(4) by auto
qed

subsection \<open>Damage\<close>

text \<open>C23. A saved overlay damaged inside one aligned word of its payload, in the base, an addition or a
  tombstone, is refused, whatever the damage: nothing of the contents is believed.\<close>

theorem overlay_damage_refused:
  assumes "ov_to_bytes T ov = Gives bs" "length bs < usize_bound" "length (ov_starts ov) < 2 ^ 64"
    and "length bs' = length bs" "take (OVERLAY_HEADER + 8 * k) bs' = take (OVERLAY_HEADER + 8 * k) bs"
    and "drop (OVERLAY_HEADER + 8 * k + 8) bs' = drop (OVERLAY_HEADER + 8 * k + 8) bs" "bs' \<noteq> bs"
  shows "ov_from_bytes T load bs' = Refuses"
proof -
  obtain blob where blob: "bt_to_bytes T (ov_base ov) = Some blob"
    using assms(1) by (auto simp: ov_to_bytes_def write_sections_def split: option.splits)
  let ?tomb = "concat (map u64_bytes (ov_dead ov))"
  let ?body = "blob @ ov_data ov @ ?tomb"
  let ?h = "ov_header (bt_tag T) (length blob) (length (ov_starts ov)) (length (ov_data ov)) (length (ov_dead ov))
      (hash_block ?body)"
  let ?H = OVERLAY_HEADER and ?body' = "drop OVERLAY_HEADER bs'"
  have bs: "bs = ?h @ ?body" using to_bytes_layout [OF blob] assms(1) by simp
  have hl: "length ?h = ?H" by (rule header_layout(2))
  have "take ?H (take (?H + 8 * k) bs') = take ?H (take (?H + 8 * k) bs)" using assms(5) by simp
  then have th: "take ?H bs' = ?h" using hl by (simp add: bs)
  then have bs': "bs' = ?h @ ?body'" by (metis append_take_drop_id)
  have lb: "length ?body' = length ?body" using assms(4) hl by (simp add: bs)
  have ne: "hash_block ?body' \<noteq> hash_block ?body"
  proof (rule hash_block_word [OF lb])
    show "take (8 * k) ?body' = take (8 * k) ?body"
      using arg_cong [OF assms(5), of "drop ?H"] hl by (simp add: bs drop_take)
    show "drop (8 * k + 8) ?body' = drop (8 * k + 8) ?body"
      using assms(6) hl by (simp add: bs add.commute add.left_commute)
    show "?body' \<noteq> ?body" using assms(7) bs bs' by metis
  qed
  have "\<exists>base adds tomb. ?body' = base @ adds @ tomb \<and> length base = length blob \<and>
      length adds = length (ov_data ov) \<and> length tomb = length (ov_dead ov) * 8"
    using lb by (intro exI [of _ "take (length blob) ?body'"]
        exI [of _ "take (length (ov_data ov)) (drop (length blob) ?body')"]
        exI [of _ "drop (length (ov_data ov)) (drop (length blob) ?body')"])
      (simp del: drop_drop)
  then obtain base adds tomb where parts: "?body' = base @ adds @ tomb" "length base = length blob"
      "length adds = length (ov_data ov)" "length tomb = length (ov_dead ov) * 8" by blast
  have small: "length bs' < usize_bound" using assms(2,4) by simp
  let ?w = "length (ov_dead ov)" and ?c = "length (ov_starts ov)"
  have "bs' = ov_header (bt_tag T) (length base) ?c (length adds) ?w (hash_block ?body) @ (base @ adds @ tomb)"
    using bs' parts by simp
  from v2_read [OF this refl parts(4) small assms(3), of T load] show ?thesis
    using ne parts(1) by simp
qed

lemma rec_bytes_one: "rec_bytes [c] = [1, 0, 0, 0, c]"
proof -
  have "(4::nat) = Suc (Suc (Suc (Suc 0)))" by simp
  then have "le_bytes 4 1 = [1, 0, 0, 0]" by (simp only: le_bytes.simps) simp
  then show ?thesis by (simp add: rec_bytes_def u32_bytes_def)
qed

theorem overlay_damage_refused_witness:
  "\<exists>h. ov_to_bytes list_trait (ov_new list_trait [[97]]) = Gives (h @ [1, 0, 0, 0, 97]) \<and>
    ov_from_bytes list_trait (\<lambda>_. Gives [[97]]) (h @ [1, 0, 0, 0, 98]) = Refuses"
proof -
  let ?ov = "ov_new list_trait [[97]]"
  have blob: "bt_to_bytes list_trait (ov_base ?ov) = Some [1, 0, 0, 0, 97]"
    by (simp add: list_trait_def ov_new_def rec_bytes_one)
  obtain h where h: "ov_to_bytes list_trait ?ov = Gives (h @ [1, 0, 0, 0, 97])" "length h = OVERLAY_HEADER"
    using to_bytes_layout [OF blob] by (simp add: ov_new_def header_layout(2))
  moreover have "ov_from_bytes list_trait (\<lambda>_. Gives [[97]]) (h @ [1, 0, 0, 0, 98]) = Refuses"
    by (rule overlay_damage_refused [OF h(1), where k = 0])
      (simp_all add: h(2) OVERLAY_HEADER_def usize_bound_def ov_new_def)
  ultimately show ?thesis by blast
qed

subsection \<open>Untrusted bytes\<close>










lemma utf8_ok_ascii: "\<forall>b \<in> set s. b < 0x80 \<Longrightarrow> utf8_ok s"
proof (induction s)
  case (Cons b s)
  then have "char_len (b # s) = 1" by (simp add: char_len_def)
  then show ?case using Cons by (subst utf8_ok.simps) simp
qed simp





subsection \<open>Past four gibibytes\<close>

lemma read_additions_step:
  assumes "arena_ok ov done" "bs = arena_of done @ rec_bytes k @ post" "length k < 2 ^ 32" "utf8_ok k"
    and "length bs < usize_bound" "bt_id T (ov_base ov) k = None" "k \<notin> set done"
  shows "read_additions T bs (Suc n) (length (arena_of done)) ov =
    bind_outcome (push_added k ov) (\<lambda>(ov', _). read_additions T bs n (length (arena_of done) + 4 + length k) ov')"
  using read_addition_record [OF assms(2-5)] assms(6,7) pos_None_iff [of "done" k]
  by (simp add: added_index_pos [OF assms(1)] add.assoc)

definition huge_key :: bytes where
  "huge_key = replicate (2 ^ 32 - 4) 97"

lemma huge_key_facts: "length (rec_bytes huge_key) = 2 ^ 32" "length huge_key < 2 ^ 32" "utf8_ok huge_key"
  by (simp_all add: huge_key_def utf8_ok_ascii)

text \<open>C24. Past four gibibytes of additions the reader does not refuse: a blob whose checksums and
  lengths are all in order, with one addition of four gibibytes less four and one after it, panics in
  the narrowing of \<^verbatim>\<open>push_added\<close>, although the reader's own account is that it is safe on any bytes.\<close>

theorem overlay_from_bytes_huge_panics:
  "\<exists>bs. length bs = 49 + 2 ^ 32 + 5 \<and> ov_from_bytes list_trait (\<lambda>_. Gives []) bs = Panics"
proof -
  let ?adds = "rec_bytes huge_key @ rec_bytes [98]"
  let ?bs = "ov_header 16 (length ([] :: bytes)) 2 (length ?adds) 0 (hash_block ?adds) @ ?adds"
  let ?ov0 = "(ov_new list_trait [])\<lparr>ov_live := 0\<rparr>"
  have la: "length ?adds = 2 ^ 32 + 5" using huge_key_facts(1) by simp
  have len: "length ?bs = 49 + 2 ^ 32 + 5"
    using la header_layout(2) by (simp add: OVERLAY_HEADER_def)
  have small: "length ?bs < usize_bound" unfolding len by (simp add: usize_bound_def)
  have asm: "ov_from_bytes list_trait (\<lambda>_. Gives []) ?bs =
      assemble list_trait [] \<lparr>s_base = [], s_count = 2, s_additions = ?adds, s_tombstones = []\<rparr>"
  proof -
    have tag: "bt_tag list_trait = 16" by (simp add: list_trait_def)
    have "?adds = [] @ ?adds @ []" by simp
    from v2_read [OF refl this _ small, of list_trait "\<lambda>_. Gives []"] show ?thesis by (simp add: tag)
  qed
  have none: "bt_id list_trait [] k = None" for k by (simp add: list_trait_def)
  have a0: "arena_ok ?ov0 []" by (simp add: arena_ok_def index_ok_def ov_new_def)
  have f0: "fits [] huge_key" using huge_key_facts by (simp add: fits_def)
  have ne: "huge_key \<noteq> [98]"
  proof
    assume "huge_key = [98]"
    then have "length (rec_bytes huge_key) = length (rec_bytes [98])" by (rule arg_cong)
    then show False unfolding huge_key_facts(1) by simp
  qed
  obtain ov1 where p: "push_added huge_key ?ov0 = Gives (ov1, 0)" "arena_ok ov1 [huge_key]" "ov_base ov1 = []"
    using push_added_ok [OF a0 _ huge_key_facts(3) f0] by (auto simp: ov_new_def)
  have sm: "length ?adds < usize_bound" unfolding la by (simp add: usize_bound_def)
  have "read_additions list_trait ?adds (Suc (Suc 0)) (length (arena_of [])) ?ov0 =
      bind_outcome (push_added huge_key ?ov0) (\<lambda>(ov', _).
        read_additions list_trait ?adds (Suc 0) (length (arena_of []) + 4 + length huge_key) ov')"
    by (rule read_additions_step [OF a0 _ huge_key_facts(2,3) sm, of "rec_bytes [98]"])
      (simp_all add: none ov_new_def)
  then have s1: "read_additions list_trait ?adds (Suc (Suc 0)) (length (arena_of [])) ?ov0 =
      read_additions list_trait ?adds (Suc 0) (length (arena_of [huge_key])) ov1"
    unfolding p(1) by (simp only: bind_outcome.simps prod.case arena_of_simps list.size length_append
        length_rec_bytes add_0 add_0_right)
  have "read_additions list_trait ?adds (Suc 0) (length (arena_of [huge_key])) ov1 =
      bind_outcome (push_added [98] ov1) (\<lambda>(ov', _).
        read_additions list_trait ?adds 0 (length (arena_of [huge_key]) + 4 + length [98 :: u8]) ov')"
    by (rule read_additions_step [OF p(2) _ _ _ sm, of "[98]" "[]"])
      (use none ne p(3) in \<open>simp_all add: utf8_ok_ascii\<close>)
  moreover have "push_added [98] ov1 = Panics"
    using huge_key_facts(1) by (intro push_added_full [OF p(2)]) (simp add: fits_def)
  ultimately have "read_additions list_trait ?adds (Suc 0) (length (arena_of [huge_key])) ov1 = Panics"
    by (simp only: bind_outcome.simps)
  then have "read_additions list_trait ?adds 2 0 ?ov0 = Panics"
    using s1 by (simp only: numeral_2_eq_2 arena_of_simps list.size)
  then have "assemble list_trait [] \<lparr>s_base = [], s_count = 2, s_additions = ?adds, s_tombstones = []\<rparr> = Panics"
    by (simp add: assemble_def)
  then show ?thesis using asm len by metis
qed

end
