(* ===== verification/Fsst.thy ===== *)
theory Fsst
  imports Le_Bytes Room
begin

text \<open>
  \<^verbatim>\<open>src/fsst.rs\<close>: the static symbol table a shard's suffixes are coded with. A code below the escape
  names a symbol of one to eight bytes; the escape is followed by the byte itself. The encoder is a
  greedy parse through two tables of short symbols and a small hash of longer ones.
\<close>

subsection \<open>Tables\<close>

definition ESCAPE :: u8 where "ESCAPE = 255"
definition MAX_SYMBOLS :: nat where "MAX_SYMBOLS = 255"
definition MAX_LEN :: nat where "MAX_LEN = 8"
definition ROUNDS :: nat where "ROUNDS = 4"
definition SLOTS :: nat where "SLOTS = 1024"
definition WAYS :: nat where "WAYS = 2"

definition earned :: "u32 \<Rightarrow> nat \<Rightarrow> u64" where
  "earned uses len = ucast uses * (of_nat len + 1)"

record fsst_table =
  t_words :: "u64 list"
  t_lens :: "u8 list"

definition word_of :: "bytes \<Rightarrow> u64" where
  "word_of bs = u64_of (bs @ replicate (8 - length bs) 0)"

text \<open>\<^verbatim>\<open>word_at\<close> as the code has it: a whole load, the last eight bytes shifted down, or a gather.\<close>

definition word_at :: "bytes \<Rightarrow> nat \<Rightarrow> u64" where
  "word_at s i =
    (if i + 8 \<le> length s then u64_of (take 8 (drop i s))
     else if 8 \<le> length s \<and> i < length s
     then drop_bit (8 * (i + 8 - length s)) (u64_of (drop (length s - 8) s))
     else fold (\<lambda>(k, b) w. w OR push_bit (8 * k) (ucast b))
       (enumerate 0 (case get_from s i of None \<Rightarrow> [] | Some r \<Rightarrow> r)) 0)"

definition LOW_MASK :: "u64 list" where
  "LOW_MASK = [0, 0xff, 0xffff, 0x00ffffff, 0xffffffff, 0x00ffffffffff, 0xffffffffffff,
    0x00ffffffffffffff, 0xffffffffffffffff]"

definition low_mask :: "nat \<Rightarrow> u64" where
  "low_mask len = LOW_MASK ! min len 8"

definition slot_of :: "u64 \<Rightarrow> nat" where
  "slot_of word = unat (drop_bit 54 ((word AND 0xFFFFFF) * 0x9E3779B97F4A7C15))"

subsection \<open>The encoder\<close>

record slot =
  sl_word :: u64
  sl_mask :: u64
  sl_code :: u8
  sl_len :: u8

definition empty_slot :: slot where
  "empty_slot = \<lparr>sl_word = 0, sl_mask = 0, sl_code = 0, sl_len = 0\<rparr>"

record encoder =
  e_short :: "u16 list"
  e_single :: "u16 list"
  e_slots :: "slot list list"

definition esc_entry :: u16 where
  "esc_entry = ucast ESCAPE OR push_bit 8 1"

definition entry_of :: "nat \<Rightarrow> u8 \<Rightarrow> u16" where
  "entry_of code len = of_nat code OR push_bit 8 (ucast len)"

definition claim_short :: "nat \<Rightarrow> u16 \<Rightarrow> u16 list \<Rightarrow> u16 list" where
  "claim_short b entry short = fold (\<lambda>second short. let at = b OR push_bit 8 second in
    if short ! at = esc_entry then short[at := entry] else short) [0..<256] short"

fun insert_slot :: "slot \<Rightarrow> slot list \<Rightarrow> slot list" where
  "insert_slot new [] = []"
| "insert_slot new (x # xs) =
    (if sl_len x < sl_len new then new # insert_slot x xs else x # insert_slot new xs)"

definition add_symbol :: "nat \<Rightarrow> u64 \<Rightarrow> u8 \<Rightarrow> encoder \<Rightarrow> encoder" where
  "add_symbol code word len e = (let entry = entry_of code len in
    if len = 1 then (let b = unat (word AND 0xFF) in
      e\<lparr>e_single := (e_single e)[b := entry], e_short := claim_short b entry (e_short e)\<rparr>)
    else if len = 2 then e\<lparr>e_short := (e_short e)[unat (word AND 0xFFFF) := entry]\<rparr>
    else let new = \<lparr>sl_word = word, sl_mask = low_mask (unat len), sl_code = of_nat code, sl_len = len\<rparr>
      in e\<lparr>e_slots := (e_slots e)[slot_of word := insert_slot new (e_slots e ! slot_of word)]\<rparr>)"

fun add_symbols :: "nat \<Rightarrow> (u64 \<times> u8) list \<Rightarrow> encoder \<Rightarrow> encoder" where
  "add_symbols code [] e = e"
| "add_symbols code ((word, len) # syms) e = add_symbols (Suc code) syms (add_symbol code word len e)"

definition empty_encoder :: encoder where
  "empty_encoder = \<lparr>e_short = replicate (2 ^ 16) esc_entry, e_single = replicate 256 esc_entry,
    e_slots = replicate SLOTS (replicate WAYS empty_slot)\<rparr>"

definition encoder_of :: "fsst_table \<Rightarrow> encoder" where
  "encoder_of t = add_symbols 0 (zip (t_words t) (t_lens t)) empty_encoder"

definition slot_matches :: "u64 \<Rightarrow> nat \<Rightarrow> slot \<Rightarrow> bool" where
  "slot_matches word rem e \<longleftrightarrow> sl_len e \<noteq> 0 \<and> unat (sl_len e) \<le> rem \<and> word AND sl_mask e = sl_word e"

definition fsst_step :: "encoder \<Rightarrow> u64 \<Rightarrow> nat \<Rightarrow> u8 \<times> nat" where
  "fsst_step enc word rem = (case find (slot_matches word rem) (e_slots enc ! slot_of word) of
      Some e \<Rightarrow> (sl_code e, unat (sl_len e))
    | None \<Rightarrow> (let sc = (if rem \<ge> 2 then e_short enc ! unat (word AND 0xFFFF)
          else e_single enc ! unat (word AND 0xFF))
        in (ucast sc, unat (drop_bit 8 sc))))"

text \<open>The encoder's loop; a step that covered nothing would not end.\<close>

partial_function (option) encode_from :: "encoder \<Rightarrow> bytes \<Rightarrow> nat \<Rightarrow> bytes \<Rightarrow> bytes option" where
  "encode_from enc s i out =
    (if i < length s then
       (case fsst_step enc (word_at s i) (length s - i) of (code, len) \<Rightarrow>
          encode_from enc s (i + len) (out @ (if code = ESCAPE then [ESCAPE, s ! i] else [code])))
     else Some out)"

definition fsst_encode_into :: "encoder \<Rightarrow> bytes \<Rightarrow> bytes \<Rightarrow> bytes option" where
  "fsst_encode_into enc s out = encode_from enc s 0 out"

subsection \<open>Decoding\<close>

function fsst_loop :: "fsst_table \<Rightarrow> bytes \<Rightarrow> nat \<Rightarrow> nat \<Rightarrow> nat \<Rightarrow> slots \<Rightarrow> (slots \<times> nat) outcome" where
  "fsst_loop t packed cap i o' room =
    (if i < length packed \<and> o' < cap then
       (let code = packed ! i in
        if code = ESCAPE then
          (case get_at packed (i + 1) of
             None \<Rightarrow> Refuses
           | Some b \<Rightarrow> bind_outcome (room_byte room o' b) (fsst_loop t packed cap (i + 2) (o' + 1)))
        else
          (case get_at (take (min (length (t_words t)) (length (t_lens t))) (t_words t)) (unat code) of
             None \<Rightarrow> Refuses
           | Some word \<Rightarrow> bind_outcome (room_put room o' (u64_bytes word))
               (fsst_loop t packed cap (i + 1) (o' + unat (t_lens t ! unat code)))))
     else Gives (room, o'))"
  by pat_completeness auto
termination by (relation "measure (\<lambda>(t, packed, cap, i, o', room). length packed - i)") auto

declare fsst_loop.simps [simp del]

definition fsst_decode_into :: "fsst_table \<Rightarrow> bytes \<Rightarrow> bytes \<Rightarrow> nat \<Rightarrow> bytes outcome" where
  "fsst_decode_into t packed out cap =
    bind_outcome (fsst_loop t packed cap 0 0 (room_of (min (length packed * 8) (cap + 7))))
      (\<lambda>(room, o'). commit out o' room)"

subsection \<open>The table in a blob\<close>

definition fsst_len :: "fsst_table \<Rightarrow> nat" where
  "fsst_len t = 1 + length (t_lens t) + sum_list (map unat (t_lens t))"

definition fsst_write :: "fsst_table \<Rightarrow> bytes \<Rightarrow> bytes" where
  "fsst_write t out = out @ [of_nat (length (t_lens t))] @ t_lens t @
    concat (map (\<lambda>(w, l). take (unat l) (u64_bytes w)) (zip (t_words t) (t_lens t)))"

fun read_symbols :: "u8 list \<Rightarrow> bytes \<Rightarrow> u64 list option" where
  "read_symbols [] rest = (if rest = [] then Some [] else None)"
| "read_symbols (l # ls) rest =
    (if \<not> (1 \<le> l \<and> l \<le> 8) then None
     else if length rest < unat l then None
     else map_option ((#) (word_of (take (unat l) rest))) (read_symbols ls (drop (unat l) rest)))"

definition fsst_from_bytes :: "bytes \<Rightarrow> fsst_table option" where
  "fsst_from_bytes bs = (case bs of [] \<Rightarrow> None | count # rest \<Rightarrow>
    if length rest < unat count then None
    else let lens = take (unat count) rest in
      map_option (\<lambda>ws. \<lparr>t_words = ws, t_lens = lens\<rparr>) (read_symbols lens (drop (unat count) rest)))"

definition fsst_head :: "nat \<Rightarrow> fsst_table \<Rightarrow> fsst_table" where
  "fsst_head k t = \<lparr>t_words = take k (t_words t), t_lens = take k (t_lens t)\<rparr>"

subsection \<open>Choosing symbols\<close>

definition from_symbols :: "bytes list \<Rightarrow> fsst_table" where
  "from_symbols syms = \<lparr>t_words = map word_of syms, t_lens = map (\<lambda>s. of_nat (length s)) syms\<rparr>"

text \<open>The ranked candidates the encoder can reach, in order; \<open>taken\<close> counts what each slot holds.\<close>

fun reach :: "nat \<Rightarrow> nat list \<Rightarrow> bytes list \<Rightarrow> (u64 \<times> nat) list \<Rightarrow> bytes list" where
  "reach max' taken syms [] = syms"
| "reach max' taken syms ((word, len) # ranked) =
    (if length syms = max' then syms
     else if len \<ge> 3 then
       (if taken ! slot_of word = WAYS then reach max' taken syms ranked
        else reach max' (taken[slot_of word := taken ! slot_of word + 1])
          (syms @ [take len (u64_bytes word)]) ranked)
     else reach max' taken (syms @ [take len (u64_bytes word)]) ranked)"

definition reachable :: "(u64 \<times> nat) list \<Rightarrow> nat \<Rightarrow> fsst_table" where
  "reachable ranked max' = from_symbols (reach (min max' MAX_SYMBOLS) (replicate SLOTS 0) [] ranked)"

subsection \<open>Training\<close>

text \<open>
  A round of \<^verbatim>\<open>train_to\<close>: every string of the sample is parsed by the current table's encoder, codes and
  adjacent pairs of codes are counted in flat arrays, and the candidates are ranked by what they earn.
  A code is a symbol of the table or, past those, a single byte. \<open>prev\<close> is \<open>None\<close> for the code's
  \<^verbatim>\<open>usize::MAX\<close>; the hash map of gains is an association list, whose order the final sort hides.
\<close>

definition piece_of :: "fsst_table \<Rightarrow> nat \<Rightarrow> u64 \<times> nat" where
  "piece_of t code = (if code < length (t_words t) then (t_words t ! code, unat (t_lens t ! code))
    else (ucast (of_nat (code - length (t_words t)) :: u8), 1))"

record counts =
  count1 :: "u32 list"
  count2 :: "u32 list"

definition bump :: "u32 list \<Rightarrow> nat \<Rightarrow> u32 list" where
  "bump xs k = xs[k := xs ! k + 1]"

partial_function (option) count_from ::
  "encoder \<Rightarrow> nat \<Rightarrow> nat \<Rightarrow> bytes \<Rightarrow> nat \<Rightarrow> nat option \<Rightarrow> counts \<Rightarrow> counts option" where
  "count_from enc codes space s i prev c =
    (if i < length s then
       (case fsst_step enc (word_at s i) (length s - i) of (code8, len) \<Rightarrow>
         let code = (if code8 = ESCAPE then codes + unat (s ! i) else unat code8);
           c1 = bump (count1 c) code;
           c1 = (if len > 1 then fold (\<lambda>b c1. bump c1 (codes + unat b)) (take len (drop i s)) c1 else c1);
           c2 = (case prev of None \<Rightarrow> count2 c | Some p \<Rightarrow> bump (count2 c) (p * space + code))
         in count_from enc codes space s (i + len) (Some code) \<lparr>count1 = c1, count2 = c2\<rparr>)
     else Some c)"

fun count_sample :: "encoder \<Rightarrow> nat \<Rightarrow> nat \<Rightarrow> bytes list \<Rightarrow> counts \<Rightarrow> counts option" where
  "count_sample enc codes space [] c = Some c"
| "count_sample enc codes space (s # ss) c =
    Option.bind (count_from enc codes space s 0 None c) (count_sample enc codes space ss)"

type_synonym gains = "((u64 \<times> u8) \<times> u64) list"

fun gain_add :: "u64 \<times> u8 \<Rightarrow> u64 \<Rightarrow> gains \<Rightarrow> gains" where
  "gain_add key v [] = [(key, v)]"
| "gain_add key v ((k, g) # gains) = (if k = key then (k, g + v) # gains else (k, g) # gain_add key v gains)"

definition single_gains :: "fsst_table \<Rightarrow> u32 list \<Rightarrow> gains" where
  "single_gains t c1 = fold (\<lambda>(c, (word, len)) gain.
      if c > 0 then gain_add (word, of_nat len) (earned c len) gain else gain)
    (zip c1 (map (piece_of t) [0..<length c1])) []"

definition pair_cell :: "fsst_table \<Rightarrow> nat \<Rightarrow> u32 list \<Rightarrow> nat \<Rightarrow> nat \<Rightarrow> gains \<Rightarrow> gains" where
  "pair_cell t space c2 a b gain = (case (piece_of t a, piece_of t b) of ((wa, la), (wb, lb)) \<Rightarrow>
    let c = c2 ! (a * space + b)
    in if c = 0 \<or> la + lb > MAX_LEN then gain
       else gain_add (wa OR push_bit (8 * la) wb, of_nat (la + lb)) (earned c (la + lb)) gain)"

definition pair_gains :: "fsst_table \<Rightarrow> nat \<Rightarrow> counts \<Rightarrow> gains \<Rightarrow> gains" where
  "pair_gains t space c gain =
    (let live = filter (\<lambda>code. count1 c ! code > 0) [0..<space]
     in fold (\<lambda>a gain. if snd (piece_of t a) = MAX_LEN then gain
          else fold (pair_cell t space (count2 c) a) live gain) live gain)"

definition swap_bytes :: "u64 \<Rightarrow> u64" where
  "swap_bytes w = u64_of (rev (u64_bytes w))"

definition rank :: "gains \<Rightarrow> (u64 \<times> nat) list" where
  "rank gain = map (\<lambda>(_, be, len). (swap_bytes be, unat len))
    (sort (map (\<lambda>((word, len), g). (NOT g, swap_bytes word, len)) gain))"

definition train_round :: "bytes list \<Rightarrow> nat \<Rightarrow> fsst_table \<Rightarrow> fsst_table option" where
  "train_round sample max' t =
    (let codes = length (t_words t); space = codes + 256
     in map_option (\<lambda>c. reachable (rank (pair_gains t space c (single_gains t (count1 c)))) max')
       (count_sample (encoder_of t) codes space sample
         \<lparr>count1 = replicate space 0, count2 = replicate (space * space) 0\<rparr>))"

fun train_rounds :: "nat \<Rightarrow> bytes list \<Rightarrow> nat \<Rightarrow> fsst_table \<Rightarrow> fsst_table option" where
  "train_rounds 0 sample max' t = Some t"
| "train_rounds (Suc n) sample max' t = Option.bind (train_round sample max' t)
    (\<lambda>next. if next = t then Some t else train_rounds n sample max' next)"

definition empty_table :: fsst_table where
  "empty_table = \<lparr>t_words = [], t_lens = []\<rparr>"

definition train_to :: "bytes list \<Rightarrow> nat \<Rightarrow> fsst_table option" where
  "train_to sample max' = train_rounds ROUNDS sample max' empty_table"

definition train :: "bytes list \<Rightarrow> fsst_table option" where
  "train sample = train_to sample MAX_SYMBOLS"

end
