(* ===== verification/Fsst_Facts.thy ===== *)
theory Fsst_Facts
  imports Fsst
begin

text \<open>
  Facts on \<^verbatim>\<open>src/fsst.rs\<close>: the decoder is the concatenation of what its codes name, and never leaves
  its room; the table survives the blob; the encoder's tables name only the table's own symbols, so
  what it writes decodes to what it read.
\<close>

subsection \<open>Well-formed tables\<close>

text \<open>What a table read or trained always is: at most 255 symbols of one to eight bytes, each the
  word of exactly its bytes.\<close>

definition symbol_wf :: "u64 \<Rightarrow> u8 \<Rightarrow> bool" where
  "symbol_wf w l \<longleftrightarrow> 1 \<le> unat l \<and> unat l \<le> 8 \<and> unat w < 256 ^ unat l"

definition table_wf :: "fsst_table \<Rightarrow> bool" where
  "table_wf t \<longleftrightarrow> length (t_words t) = length (t_lens t) \<and> length (t_lens t) \<le> 255 \<and>
    list_all2 symbol_wf (t_words t) (t_lens t)"

definition symbol :: "fsst_table \<Rightarrow> nat \<Rightarrow> bytes" where
  "symbol t c = take (unat (t_lens t ! c)) (u64_bytes (t_words t ! c))"

lemma table_wf_nth:
  assumes "table_wf t" "c < length (t_lens t)"
  shows "1 \<le> unat (t_lens t ! c)" "unat (t_lens t ! c) \<le> 8"
    "unat (t_words t ! c) < 256 ^ unat (t_lens t ! c)"
  using assms by (auto simp: table_wf_def symbol_wf_def list_all2_conv_all_nth)

lemma length_symbol: "table_wf t \<Longrightarrow> c < length (t_lens t) \<Longrightarrow> length (symbol t c) = unat (t_lens t ! c)"
  using table_wf_nth(2) [of t c] by (simp add: symbol_def min_def)

subsection \<open>Decoding\<close>

text \<open>What a stream of codes denotes, up to the code that reaches the cap.\<close>

fun fsst_ref :: "fsst_table \<Rightarrow> nat \<Rightarrow> bytes \<Rightarrow> bytes option" where
  "fsst_ref t cap [] = Some []"
| "fsst_ref t cap (code # rest) =
    (if cap = 0 then Some []
     else if code = ESCAPE then
       (case rest of [] \<Rightarrow> None | b # rest' \<Rightarrow> map_option ((#) b) (fsst_ref t (cap - 1) rest'))
     else if unat code < length (t_words t) then
       map_option ((@) (symbol t (unat code))) (fsst_ref t (cap - length (symbol t (unat code))) rest)
     else None)"

lemma fsst_loop_ref:
  assumes wf: "table_wf t"
  shows "i \<le> length packed \<Longrightarrow> n = min (length packed * 8) (cap + 7) \<Longrightarrow>
    room_has room n bs \<Longrightarrow> length bs \<le> 8 * i \<Longrightarrow> o' = length bs \<Longrightarrow>
    (case fsst_ref t (cap - length bs) (drop i packed) of
       None \<Rightarrow> fsst_loop t packed cap i o' room = Refuses
     | Some dec \<Rightarrow> \<exists>room'. room_has room' n (bs @ dec) \<and>
         fsst_loop t packed cap i o' room = Gives (room', length (bs @ dec)))"
proof (induction "length packed - i" arbitrary: i room bs o' rule: less_induct)
  case less
  note has = less.prems(3) and n = less.prems(2) and len = less.prems(4) and o' = less.prems(5)
  show ?case
  proof (cases "i < length packed \<and> o' < cap")
    case False
    then have "fsst_ref t (cap - length bs) (drop i packed) = Some []"
      using o' by (cases "drop i packed") auto
    with False has o' show ?thesis by (auto simp: fsst_loop.simps [of t packed cap i])
  next
    case True
    then have d: "drop i packed = packed ! i # drop (Suc i) packed" by (simp add: Cons_nth_drop_Suc)
    have cap: "cap - length bs \<noteq> 0" using True o' by simp
    have room8: "length bs + 8 \<le> n" using True o' len n by auto
    show ?thesis
    proof (cases "packed ! i = ESCAPE")
      case esc: True
      show ?thesis
      proof (cases "Suc i < length packed")
        case False
        then have "get_at packed (i + 1) = None" "drop (Suc i) packed = []" by (simp_all add: get_at_None_iff)
        with True esc cap show ?thesis by (simp add: fsst_loop.simps [of t packed cap i] d)
      next
        case si: True
        then have d2: "drop (Suc i) packed = packed ! Suc i # drop (i + 2) packed"
          by (simp add: Cons_nth_drop_Suc)
        obtain room' where r: "room_byte room (length bs) (packed ! Suc i) = Gives room'"
            "room_has room' n (bs @ [packed ! Suc i])"
          using room_byte_has [OF has, of "packed ! Suc i"] room8 by auto
        have "fsst_loop t packed cap i o' room = fsst_loop t packed cap (i + 2) (o' + 1) room'"
          using True esc si r(1) o' by (subst fsst_loop.simps) (simp add: get_at_def)
        moreover have "cap - length (bs @ [packed ! Suc i]) = cap - length bs - 1" by simp
        moreover have "fsst_ref t (cap - length bs) (drop i packed) =
            map_option ((#) (packed ! Suc i)) (fsst_ref t (cap - length bs - 1) (drop (i + 2) packed))"
          using cap esc by (simp only: d d2 fsst_ref.simps) simp
        moreover have "case fsst_ref t (cap - length (bs @ [packed ! Suc i])) (drop (i + 2) packed) of
            None \<Rightarrow> fsst_loop t packed cap (i + 2) (o' + 1) room' = Refuses
          | Some dec \<Rightarrow> \<exists>room''. room_has room'' n ((bs @ [packed ! Suc i]) @ dec) \<and>
              fsst_loop t packed cap (i + 2) (o' + 1) room' = Gives (room'', length ((bs @ [packed ! Suc i]) @ dec))"
          by (rule less.hyps) (use si n r(2) len o' True in simp_all)
        ultimately show ?thesis
          by (cases "fsst_ref t (cap - length bs - 1) (drop (i + 2) packed)") simp_all
      qed
    next
      case ne: False
      show ?thesis
      proof (cases "unat (packed ! i) < length (t_words t)")
        case False
        with True ne cap wf show ?thesis
          by (simp add: fsst_loop.simps [of t packed cap i] d get_at_def table_wf_def)
      next
        case k: True
        define c where "c = unat (packed ! i)"
        have ck: "c < length (t_lens t)" using k wf by (simp add: c_def table_wf_def)
        obtain room' where r: "room_put room (length bs) (u64_bytes (t_words t ! c)) = Gives room'"
            "room_has room' n (bs @ u64_bytes (t_words t ! c))"
          using room_put_has [OF has, of "u64_bytes (t_words t ! c)"] room8 by auto
        have "take (length bs + unat (t_lens t ! c)) (bs @ u64_bytes (t_words t ! c)) = bs @ symbol t c"
          by (simp add: symbol_def)
        then have r2: "room_has room' n (bs @ symbol t c)"
          using room_has_take [OF r(2), of "length bs + unat (t_lens t ! c)"] by simp
        have step: "fsst_loop t packed cap i o' room = fsst_loop t packed cap (i + 1) (o' + unat (t_lens t ! c)) room'"
          using True ne k r(1) o' wf by (subst fsst_loop.simps) (simp add: get_at_def c_def table_wf_def)
        have sl: "length (symbol t c) = unat (t_lens t ! c)" by (rule length_symbol [OF wf ck])
        have l8: "unat (t_lens t ! c) \<le> 8" by (rule table_wf_nth(2) [OF wf ck])
        have ref: "fsst_ref t (cap - length bs) (drop i packed) =
            map_option ((@) (symbol t c)) (fsst_ref t (cap - length bs - length (symbol t c)) (drop (i + 1) packed))"
          using cap ne k by (simp only: d fsst_ref.simps c_def [symmetric]) simp
        have "case fsst_ref t (cap - length (bs @ symbol t c)) (drop (i + 1) packed) of
            None \<Rightarrow> fsst_loop t packed cap (i + 1) (o' + unat (t_lens t ! c)) room' = Refuses
          | Some dec \<Rightarrow> \<exists>room''. room_has room'' n ((bs @ symbol t c) @ dec) \<and>
              fsst_loop t packed cap (i + 1) (o' + unat (t_lens t ! c)) room' = Gives (room'', length ((bs @ symbol t c) @ dec))"
          by (rule less.hyps) (use True n r2 len o' sl l8 in auto)
        then show ?thesis
          using step ref
          by (cases "fsst_ref t (cap - length bs - length (symbol t c)) (drop (i + 1) packed)") (simp_all add: diff_diff_left)
      qed
    qed
  qed
qed

lemma fsst_decode_ref:
  assumes "table_wf t"
  shows "fsst_decode_into t packed out cap =
    (case fsst_ref t cap packed of None \<Rightarrow> Refuses | Some bs \<Rightarrow> Gives (out @ bs))"
proof -
  define n where "n = min (length packed * 8) (cap + 7)"
  have "case fsst_ref t cap packed of
       None \<Rightarrow> fsst_loop t packed cap 0 0 (room_of n) = Refuses
     | Some dec \<Rightarrow> \<exists>room'. room_has room' n dec \<and>
         fsst_loop t packed cap 0 0 (room_of n) = Gives (room', length dec)"
    using fsst_loop_ref [OF assms, of 0 packed n cap "room_of n" "[]" 0]
    by (simp add: n_def cong del: option.case_cong_weak)
  then show ?thesis
    by (auto simp: fsst_decode_into_def n_def [symmetric] commit_has split: option.splits)
qed

lemma fsst_ref_append:
  assumes "fsst_ref t (length bs + cap) xs = Some bs" "cap > 0"
  shows "fsst_ref t (length bs + cap) (xs @ ys) = map_option ((@) bs) (fsst_ref t cap ys)"
  using assms
proof (induction t "length bs + cap" xs arbitrary: bs rule: fsst_ref.induct)
  case (1 t)
  then show ?case by (cases "fsst_ref t cap ys") auto
next
  case (2 t code rest)
  show ?case
  proof (cases "code = ESCAPE")
    case True
    with 2 obtain b rest' bs' where "rest = b # rest'" "bs = b # bs'" "fsst_ref t (length bs' + cap) rest' = Some bs'"
      by (auto split: list.splits)
    with True 2(1) [of b rest' bs'] 2(4) show ?thesis by (cases "fsst_ref t cap ys") simp_all
  next
    case False
    with 2 obtain bs' where k: "unat code < length (t_words t)" "bs = symbol t (unat code) @ bs'"
        "fsst_ref t (length bs' + cap) rest = Some bs'"
      by (auto split: if_splits)
    then have "fsst_ref t (length bs' + cap) (rest @ ys) = map_option ((@) bs') (fsst_ref t cap ys)"
      using 2(2) [of bs'] 2(4) False by simp
    with False k 2(4) show ?thesis by (cases "fsst_ref t cap ys") simp_all
  qed
qed

subsection \<open>The table in a blob\<close>

lemma unat_word_of: "length bs \<le> 8 \<Longrightarrow> unat (word_of bs) = le_nat bs"
  by (simp add: word_of_def unat_u64_of le_nat_append)

lemma symbol_wf_word_of: "1 \<le> unat l \<Longrightarrow> unat l \<le> 8 \<Longrightarrow> length bs = unat l \<Longrightarrow> symbol_wf (word_of bs) l"
  using le_nat_less [of bs] by (simp add: symbol_wf_def unat_word_of)

lemma take_word_of: "length bs \<le> 8 \<Longrightarrow> take (length bs) (u64_bytes (word_of bs)) = bs"
  by (simp add: word_of_def u64_bytes_of)

lemma word_of_take:
  assumes "symbol_wf w l"
  shows "word_of (take (unat l) (u64_bytes w)) = w"
  using assms by (simp add: word_unat_eq_iff unat_word_of symbol_wf_def le_nat_take)

lemma word_le_8_iff: "(1 \<le> l \<and> l \<le> (8::u8)) \<longleftrightarrow> (1 \<le> unat l \<and> unat l \<le> 8)"
  by (simp add: word_le_nat_alt)

lemma read_symbols_wf:
  "read_symbols ls rest = Some ws \<Longrightarrow>
    list_all2 symbol_wf ws ls \<and> rest = concat (map2 (\<lambda>w l. take (unat l) (u64_bytes w)) ws ls)"
proof (induction ls arbitrary: rest ws)
  case Nil
  then show ?case by (simp split: if_splits)
next
  case (Cons l ls)
  from Cons.prems have l: "1 \<le> unat l" "unat l \<le> 8" "unat l \<le> length rest"
    using word_le_8_iff [of l] by (simp_all only: read_symbols.simps split: if_splits) simp_all
  with Cons.prems obtain ws' where ws: "ws = word_of (take (unat l) rest) # ws'" "read_symbols ls (drop (unat l) rest) = Some ws'"
    by (auto split: if_splits)
  define s where "s = take (unat l) rest"
  have "length s = unat l" using l by (simp add: s_def)
  then have "symbol_wf (word_of s) l" "take (unat l) (u64_bytes (word_of s)) = s"
    using symbol_wf_word_of [OF l(1,2), of s] take_word_of [of s] l(2) by simp_all
  moreover have "ws = word_of s # ws'" using ws(1) by (simp only: s_def)
  moreover have "rest = s @ concat (map2 (\<lambda>w l. take (unat l) (u64_bytes w)) ws' ls)"
    using Cons.IH [OF ws(2)] by (metis append_take_drop_id s_def)
  ultimately show ?case using Cons.IH [OF ws(2)] by simp
qed

lemma read_symbols_concat:
  "list_all2 symbol_wf ws ls \<Longrightarrow> read_symbols ls (concat (map2 (\<lambda>w l. take (unat l) (u64_bytes w)) ws ls)) = Some ws"
proof (induction rule: list_all2_induct)
  case (Cons w ws l ls)
  then have "1 \<le> unat l" "unat l \<le> 8" by (simp_all add: symbol_wf_def)
  then show ?case using Cons word_of_take [OF Cons(1)] word_le_8_iff [of l] by simp
qed simp

lemma fsst_from_bytes_iff: "fsst_from_bytes bs = Some t \<longleftrightarrow> table_wf t \<and> bs = fsst_write t []"
proof
  assume a: "fsst_from_bytes bs = Some t"
  then obtain count rest where bs: "bs = count # rest" "unat count \<le> length rest"
      and t: "t_lens t = take (unat count) rest"
        "read_symbols (take (unat count) rest) (drop (unat count) rest) = Some (t_words t)"
    by (auto simp: fsst_from_bytes_def Let_def split: list.splits if_splits)
  from t(2) have s: "list_all2 symbol_wf (t_words t) (t_lens t)"
      "drop (unat count) rest = concat (map2 (\<lambda>w l. take (unat l) (u64_bytes w)) (t_words t) (t_lens t))"
    using t(1) read_symbols_wf by fastforce+
  have len: "length (t_lens t) = unat count" using t(1) bs(2) by simp
  moreover have "unat count \<le> 255" using unat_u8_less [of count] by linarith
  ultimately have "table_wf t" using s(1) by (simp add: table_wf_def list_all2_lengthD)
  moreover have "bs = fsst_write t []"
    unfolding fsst_write_def s(2) [symmetric] using len bs(1) t(1) by simp
  ultimately show "table_wf t \<and> bs = fsst_write t []" by simp
next
  assume a: "table_wf t \<and> bs = fsst_write t []"
  then have "unat (of_nat (length (t_lens t)) :: u8) = length (t_lens t)"
    by (simp add: table_wf_def unat_of_nat_u8)
  moreover have "read_symbols (t_lens t)
      (concat (map (\<lambda>(w, l). take (unat l) (u64_bytes w)) (zip (t_words t) (t_lens t)))) = Some (t_words t)"
    using a by (simp add: read_symbols_concat table_wf_def)
  ultimately show "fsst_from_bytes bs = Some t"
    using a by (simp add: fsst_from_bytes_def fsst_write_def)
qed

lemma length_fsst_write: "table_wf t \<Longrightarrow> length (fsst_write t out) = length out + fsst_len t"
proof -
  assume wf: "table_wf t"
  have "length (concat (map (\<lambda>(w, l). take (unat l) (u64_bytes w)) (zip ws ls))) = sum_list (map unat ls)"
    if "list_all2 symbol_wf ws ls" for ws ls
    using that by (induction rule: list_all2_induct) (simp_all add: symbol_wf_def)
  from this [of "t_words t" "t_lens t"] wf show ?thesis
    by (simp add: fsst_write_def fsst_len_def table_wf_def)
qed

subsection \<open>Words of a string\<close>

lemma unat_or_push_byte:
  fixes w :: u64 and b :: u8
  assumes "unat w < 256 ^ k" "k < 8"
  shows "unat (w OR push_bit (8 * k) (ucast b)) = unat w + 256 ^ k * unat b"
proof -
  have "unat (ucast b :: u64) = unat b"
    using unat_u8_less [of b] by (simp add: unsigned_ucast_eq take_bit_nat_eq_self del: unat_u8_less)
  moreover have "unat (ucast b :: u64) < 2 ^ 8" using calculation unat_u8_less [of b] by simp
  ultimately show ?thesis
    using unat_or_push_bit [of w "8 * k" "ucast b" 8] assms by (simp add: power_256)
qed

lemma gather_bytes:
  assumes "length r + k \<le> 8" "unat w < 256 ^ k"
  shows "unat (fold (\<lambda>(k, b) w. w OR push_bit (8 * k) (ucast b)) (enumerate k r) (w :: u64))
    = unat w + 256 ^ k * le_nat r"
  using assms
proof (induction r arbitrary: k w)
  case (Cons b r)
  have e: "unat (w OR push_bit (8 * k) (ucast b)) = unat w + 256 ^ k * unat b"
    using Cons.prems by (intro unat_or_push_byte) simp_all
  have "256 ^ k * (unat b + 1) \<le> 256 ^ k * 256" using unat_u8_less [of b] by (intro mult_le_mono2) linarith
  then have "256 ^ k * unat b + 256 ^ k \<le> 256 ^ Suc k" by (simp only: distrib_left mult_1_right power_Suc2)
  then have "unat (w OR push_bit (8 * k) (ucast b)) < 256 ^ Suc k" using Cons.prems(2) e by linarith
  then show ?case
    using Cons.IH [of "Suc k" "w OR push_bit (8 * k) (ucast b)"] Cons.prems e by (simp add: algebra_simps)
qed simp

lemma word_at_load8: "word_at s i = load8 s i"
proof -
  consider "i + 8 \<le> length s" | "\<not> i + 8 \<le> length s" "8 \<le> length s" "i < length s"
    | "\<not> i + 8 \<le> length s" "\<not> (8 \<le> length s \<and> i < length s)" by blast
  then show ?thesis
  proof cases
    case 1
    then show ?thesis by (simp add: word_at_def load8_def)
  next
    case 2
    define k where "k = i + 8 - length s"
    have d: "drop i s = drop k (drop (length s - 8) s)" using 2 by (simp add: k_def)
    have "unat (drop_bit (8 * k) (u64_of (drop (length s - 8) s))) = unat (load8 s i)"
      unfolding load8_def d using 2 by (simp add: unat_drop_bit unat_u64_of le_nat_drop [of k] power_256 del: drop_drop)
    with 2 show ?thesis by (auto simp: word_at_def k_def word_unat_eq_iff)
  next
    case 3
    define r where "r = (case get_from s i of None \<Rightarrow> [] | Some r \<Rightarrow> r)"
    have r: "r = drop i s" "length r \<le> 8" using 3 by (auto simp: r_def get_from_def)
    have "word_at s i = fold (\<lambda>(k, b) w. w OR push_bit (8 * k) (ucast b)) (enumerate 0 r) 0"
      using 3 unfolding word_at_def r_def by presburger
    moreover have "unat \<dots> = le_nat r" using gather_bytes [of r 0 0] r(2) by simp
    ultimately have "unat (word_at s i) = unat (load8 s i)" using r by (simp add: load8_def unat_u64_of)
    then show ?thesis by (simp add: word_unat_eq_iff)
  qed
qed

end
