(* ===== verification/Fsst_Encode.thy ===== *)
theory Fsst_Encode
  imports Fsst_Facts "HOL-Library.Multiset" "HOL-Library.Sublist"
begin

text \<open>
  The encoder of \<^verbatim>\<open>src/fsst.rs\<close> against its table: every entry of its three tables names a symbol
  of the table it was built from (\<open>enc_ok\<close>), a parse therefore always advances and its codes decode
  to the string parsed, and in a table \<^verbatim>\<open>reachable\<close> chose every symbol is one the parse can emit.
\<close>

subsection \<open>Soundness of the encoder's tables\<close>

definition slot_for :: "fsst_table \<Rightarrow> nat \<Rightarrow> slot" where
  "slot_for t c = \<lparr>sl_word = t_words t ! c, sl_mask = low_mask (unat (t_lens t ! c)),
    sl_code = of_nat c, sl_len = t_lens t ! c\<rparr>"

definition single_ok :: "fsst_table \<Rightarrow> nat \<Rightarrow> nat \<Rightarrow> u16 \<Rightarrow> bool" where
  "single_ok t n b x \<longleftrightarrow> x = esc_entry \<or>
    (\<exists>c<n. x = entry_of c 1 \<and> t_lens t ! c = 1 \<and> unat (t_words t ! c) = b)"

definition short_ok :: "fsst_table \<Rightarrow> nat \<Rightarrow> nat \<Rightarrow> u16 \<Rightarrow> bool" where
  "short_ok t n p x \<longleftrightarrow> single_ok t n (p mod 256) x \<or>
    (\<exists>c<n. x = entry_of c 2 \<and> t_lens t ! c = 2 \<and> unat (t_words t ! c) = p)"

definition slot_ok :: "fsst_table \<Rightarrow> nat \<Rightarrow> slot \<Rightarrow> bool" where
  "slot_ok t n x \<longleftrightarrow> sl_len x = 0 \<or> (\<exists>c<n. x = slot_for t c \<and> 3 \<le> unat (t_lens t ! c))"

definition enc_ok :: "fsst_table \<Rightarrow> nat \<Rightarrow> encoder \<Rightarrow> bool" where
  "enc_ok t n e \<longleftrightarrow> length (e_short e) = 2 ^ 16 \<and> length (e_single e) = 256 \<and> length (e_slots e) = SLOTS \<and>
    (\<forall>p<2 ^ 16. short_ok t n p (e_short e ! p)) \<and> (\<forall>b<256. single_ok t n b (e_single e ! b)) \<and>
    (\<forall>k<SLOTS. length (e_slots e ! k) = WAYS \<and> (\<forall>x\<in>set (e_slots e ! k). slot_ok t n x))"

lemma ok_mono:
  "n \<le> m \<Longrightarrow> single_ok t n b x \<Longrightarrow> single_ok t m b x"
  "n \<le> m \<Longrightarrow> short_ok t n p x \<Longrightarrow> short_ok t m p x"
  "n \<le> m \<Longrightarrow> slot_ok t n s \<Longrightarrow> slot_ok t m s"
  by (auto simp: single_ok_def short_ok_def slot_ok_def dest: order.strict_trans2)

lemma slot_of_less [simp]: "slot_of w < SLOTS"
proof -
  have "unat ((w AND 0xFFFFFF) * 0x9E3779B97F4A7C15) < 2 ^ 54 * 2 ^ 10"
    using unat_less_power [of "(w AND 0xFFFFFF) * 0x9E3779B97F4A7C15"] by simp
  then show ?thesis by (simp add: slot_of_def SLOTS_def unat_drop_bit less_mult_imp_div_less)
qed

lemma length_insert_slot [simp]: "length (insert_slot x xs) = length xs"
  by (induction x xs rule: insert_slot.induct) simp_all

lemma set_insert_slot: "set (insert_slot x xs) \<subseteq> insert x (set xs)"
  by (induction x xs rule: insert_slot.induct) auto

lemma length_claim [simp]:
  "length (fold (\<lambda>second short. let at = b OR push_bit 8 second in
    if short ! at = esc_entry then short[at := entry] else short) xs short) = length short"
  by (induction xs arbitrary: short) (simp_all add: Let_def)

lemma or_push_8_mod: "b < 256 \<Longrightarrow> (b OR push_bit 8 (s::nat)) mod 256 = b"
proof -
  assume b: "b < 256"
  have "take_bit 8 (b OR push_bit 8 s) = take_bit 8 b"
    by (simp add: take_bit_push_bit)
  also have "take_bit 8 b = b" using b by (simp add: take_bit_nat_eq_self)
  finally show ?thesis by (simp add: take_bit_eq_mod)
qed

lemma claim_fold:
  assumes "b < 256" "p < length short"
  shows "fold (\<lambda>second short. let at = b OR push_bit 8 second in
      if short ! at = esc_entry then short[at := entry] else short) xs short ! p = short ! p \<or>
    short ! p = esc_entry \<and> p mod 256 = b \<and>
    fold (\<lambda>second short. let at = b OR push_bit 8 second in
      if short ! at = esc_entry then short[at := entry] else short) xs short ! p = entry"
  using assms(2)
proof (induction xs arbitrary: short)
  case (Cons x xs)
  let ?at = "b OR push_bit 8 x"
  let ?s = "if short ! ?at = esc_entry then short[?at := entry] else short"
  have "?s ! p = short ! p \<or> short ! p = esc_entry \<and> p mod 256 = b \<and> ?s ! p = entry"
    using Cons.prems or_push_8_mod [OF assms(1)] by (cases "?at = p") auto
  moreover have "p < length ?s" using Cons.prems by simp
  ultimately show ?case using Cons.IH [of ?s] by (auto simp: Let_def)
qed simp

lemma claim_short_nth:
  assumes "b < 256" "p < length short"
  shows "claim_short b entry short ! p = short ! p \<or>
    short ! p = esc_entry \<and> p mod 256 = b \<and> claim_short b entry short ! p = entry"
  unfolding claim_short_def by (rule claim_fold [OF assms])

lemma length_claim_short [simp]: "length (claim_short b entry short) = length short"
  by (simp add: claim_short_def)

lemma symbol_low_bytes:
  assumes "symbol_wf w l"
  shows "l = 1 \<Longrightarrow> unat (w AND 0xFF) = unat w \<and> unat w < 256"
    and "l = 2 \<Longrightarrow> unat (w AND 0xFFFF) = unat w \<and> unat w < 2 ^ 16"
proof -
  have m: "(0xFF :: u64) = mask 8" "(0xFFFF :: u64) = mask 16" by (simp_all add: mask_eq_decr_exp)
  show "l = 1 \<Longrightarrow> unat (w AND 0xFF) = unat w \<and> unat w < 256"
    and "l = 2 \<Longrightarrow> unat (w AND 0xFFFF) = unat w \<and> unat w < 2 ^ 16"
    using assms by (simp_all only: m unat_and_mask) (simp_all add: symbol_wf_def)
qed

lemma symbol_cases:
  assumes "symbol_wf w l"
  obtains "l = 1" | "l = 2" | "l \<noteq> 1" "l \<noteq> 2" "3 \<le> unat l"
proof -
  have "l = 1 \<longleftrightarrow> unat l = 1" "l = 2 \<longleftrightarrow> unat l = 2" by (simp_all add: word_unat_eq_iff)
  then show ?thesis using that assms by (auto simp: symbol_wf_def)
qed

lemma add_symbol_ok:
  assumes wf: "symbol_wf (t_words t ! n) (t_lens t ! n)" and ok: "enc_ok t n e"
  shows "enc_ok t (Suc n) (add_symbol n (t_words t ! n) (t_lens t ! n) e)"
  using wf
proof (cases rule: symbol_cases)
  case 1
  define b where "b = unat (t_words t ! n)"
  have b: "unat (t_words t ! n AND 0xFF) = b" "b < 256"
    using symbol_low_bytes(1) [OF wf 1] by (simp_all add: b_def)
  have new: "single_ok t (Suc n) b (entry_of n 1)" using 1 by (auto simp: single_ok_def b_def)
  have "short_ok t (Suc n) p (claim_short b (entry_of n 1) (e_short e) ! p)" if "p < 2 ^ 16" for p
  proof -
    from ok that have "short_ok t (Suc n) p (e_short e ! p)" "p < length (e_short e)"
      by (auto simp: enc_ok_def intro: ok_mono(2) [of n])
    with claim_short_nth [OF b(2), of p "e_short e" "entry_of n 1"] new show ?thesis
      by (auto simp: short_ok_def)
  qed
  moreover have "single_ok t (Suc n) k ((e_single e)[b := entry_of n 1] ! k)" if "k < 256" for k
    using that ok new by (cases "k = b") (auto simp: enc_ok_def intro: ok_mono(1) [of n])
  ultimately show ?thesis
    using 1 b ok by (auto simp: add_symbol_def enc_ok_def Let_def intro: ok_mono(3) [of n])
next
  case 2
  define p where "p = unat (t_words t ! n)"
  have p: "unat (t_words t ! n AND 0xFFFF) = p" "p < 2 ^ 16"
    using symbol_low_bytes(2) [OF wf 2] by (simp_all add: p_def)
  have "short_ok t (Suc n) q ((e_short e)[p := entry_of n 2] ! q)" if "q < 2 ^ 16" for q
  proof (cases "q = p")
    case True
    then show ?thesis using that ok 2 by (auto simp: enc_ok_def short_ok_def p_def)
  next
    case False
    then show ?thesis using that ok by (auto simp: enc_ok_def intro: ok_mono(2) [of n])
  qed
  then show ?thesis
    using 2 p ok by (auto simp: add_symbol_def enc_ok_def Let_def intro: ok_mono(1,3) [of n])
next
  case 3
  have "slot_ok t (Suc n) (slot_for t n)" using 3 by (auto simp: slot_ok_def)
  moreover have "add_symbol n (t_words t ! n) (t_lens t ! n) e = e\<lparr>e_slots := (e_slots e)
      [slot_of (t_words t ! n) := insert_slot (slot_for t n) (e_slots e ! slot_of (t_words t ! n))]\<rparr>"
    using 3 by (simp add: add_symbol_def slot_for_def)
  moreover have "slot_ok t n x" if "x \<in> set (e_slots e ! k)" "k < SLOTS" for x k
    using ok that unfolding enc_ok_def by blast
  then have "slot_ok t (Suc n) x" if "x \<in> set (e_slots e ! k)" "k < SLOTS" for x k
    using that ok_mono(3) [of n "Suc n"] by simp
  ultimately show ?thesis
    using ok set_insert_slot [of "slot_for t n" "e_slots e ! slot_of (t_words t ! n)"]
    by (auto simp: enc_ok_def nth_list_update intro: ok_mono(1,2) [of n])
qed

lemma add_symbols_ok:
  assumes "list_all2 symbol_wf (t_words t) (t_lens t)" "enc_ok t n e" "n \<le> length (t_words t)"
  shows "enc_ok t (length (t_words t)) (add_symbols n (drop n (zip (t_words t) (t_lens t))) e)"
  using assms(2,3)
proof (induction "length (t_words t) - n" arbitrary: n e)
  case (Suc k)
  then have n: "n < length (t_words t)" "n < length (zip (t_words t) (t_lens t))"
    using assms(1) by (auto dest: list_all2_lengthD)
  then have d: "drop n (zip (t_words t) (t_lens t)) = (t_words t ! n, t_lens t ! n) # drop (Suc n) (zip (t_words t) (t_lens t))"
    by (simp add: Cons_nth_drop_Suc [symmetric])
  have "symbol_wf (t_words t ! n) (t_lens t ! n)" using assms(1) n by (simp add: list_all2_nthD)
  from add_symbol_ok [OF this Suc.prems(1)] show ?case using Suc.hyps n by (simp add: d)
qed (use assms in \<open>auto dest: list_all2_lengthD\<close>)

lemma encoder_of_ok:
  assumes "list_all2 symbol_wf (t_words t) (t_lens t)"
  shows "enc_ok t (length (t_words t)) (encoder_of t)"
proof -
  have "enc_ok t 0 empty_encoder"
    by (simp add: enc_ok_def empty_encoder_def short_ok_def single_ok_def slot_ok_def empty_slot_def)
  from add_symbols_ok [OF assms this] show ?thesis by (simp add: encoder_of_def)
qed

subsection \<open>A step\<close>

lemma unat_entry_of:
  assumes "code < 256"
  shows "unat (entry_of code len) = code + 256 * unat len"
proof -
  have u: "unat (ucast len :: u16) = unat len" "unat len < 256" "unat (of_nat code :: u16) = code"
    using unat_u8_less [of len] assms
    by (simp_all add: unsigned_ucast_eq take_bit_nat_eq_self unat_of_nat del: unat_u8_less)
  then show ?thesis using assms unat_or_push_bit [of "of_nat code :: u16" 8 "ucast len" 8] by (simp add: entry_of_def)
qed

lemma unat_esc_entry: "unat esc_entry = 511"
  using unat_or_push_bit [of "ucast ESCAPE :: u16" 8 1 8] by (simp add: esc_entry_def ESCAPE_def)

lemma entry_parts:
  assumes "code < 256"
  shows "ucast (entry_of code len) = (of_nat code :: u8)" "unat (drop_bit 8 (entry_of code len)) = unat len"
  using assms by (simp_all add: word_unat_eq_iff unat_entry_of unat_drop_bit unsigned_ucast_eq take_bit_eq_mod
      unat_of_nat)

lemma esc_parts: "ucast esc_entry = ESCAPE" "unat (drop_bit 8 esc_entry) = 1"
  by (simp_all add: unat_drop_bit unat_esc_entry word_unat_eq_iff unsigned_ucast_eq take_bit_eq_mod ESCAPE_def)

lemma LOW_MASK_mask: "l \<le> 8 \<Longrightarrow> low_mask l = mask (8 * l)"
proof -
  assume "l \<le> 8"
  then have "l \<in> {0, 1, 2, 3, 4, 5, 6, 7, 8}" by auto
  then show ?thesis by (elim insertE) (simp_all add: low_mask_def LOW_MASK_def mask_eq_decr_exp)
qed

lemma slot_matches_for:
  assumes "symbol_wf (t_words t ! c) (t_lens t ! c)"
  shows "slot_matches w rem (slot_for t c) \<longleftrightarrow>
    unat (t_lens t ! c) \<le> rem \<and> unat w mod 256 ^ unat (t_lens t ! c) = unat (t_words t ! c)"
  using assms by (auto simp: slot_matches_def slot_for_def symbol_wf_def LOW_MASK_mask word_unat_eq_iff
      unat_and_mask power_256)

text \<open>What a step does: it escapes one byte, or emits a code whose symbol is there in full.\<close>

lemma fsst_step_sound:
  assumes wf: "list_all2 symbol_wf (t_words t) (t_lens t)" "length (t_words t) \<le> 255"
    and ok: "enc_ok t (length (t_words t)) e" and rem: "0 < rem"
    and step: "fsst_step e w rem = (code, len)"
  shows "code = ESCAPE \<and> len = 1 \<or>
    code \<noteq> ESCAPE \<and> unat code < length (t_words t) \<and> len = unat (t_lens t ! unat code) \<and> len \<le> rem \<and>
    unat w mod 256 ^ len = unat (t_words t ! unat code)"
proof -
  have sym: "symbol_wf (t_words t ! c) (t_lens t ! c)" if "c < length (t_words t)" for c
    using wf(1) that by (simp add: list_all2_nthD)
  have code: "unat (of_nat c :: u8) = c" "(of_nat c :: u8) \<noteq> ESCAPE" "c < 256" if "c < length (t_words t)" for c
  proof -
    show "unat (of_nat c :: u8) = c" using that wf(2) by (simp add: unat_of_nat)
    moreover have "unat ESCAPE = 255" by (simp add: ESCAPE_def)
    ultimately show "(of_nat c :: u8) \<noteq> ESCAPE" "c < 256" using that wf(2) by auto
  qed
  have slots: "slot_ok t (length (t_words t)) x" if "k < SLOTS" "x \<in> set (e_slots e ! k)" for k x
    using ok that unfolding enc_ok_def by blast
  show ?thesis
  proof (cases "find (slot_matches w rem) (e_slots e ! slot_of w)")
    case (Some x)
    then have x: "x \<in> set (e_slots e ! slot_of w)" "slot_matches w rem x" "(code, len) = (sl_code x, unat (sl_len x))"
      using step by (simp_all add: fsst_step_def) (auto simp: find_Some_iff)
    then have "sl_len x \<noteq> 0" by (simp add: slot_matches_def)
    then obtain c where c: "c < length (t_words t)" "x = slot_for t c"
      using slots [OF slot_of_less x(1)] unfolding slot_ok_def by blast
    then show ?thesis
      using x(2,3) slot_matches_for [OF sym [OF c(1)], of w rem] code [OF c(1)]
      by (simp add: slot_for_def)
  next
    case None
    have m: "(0xFF :: u64) = mask 8" "(0xFFFF :: u64) = mask 16" by (simp_all add: mask_eq_decr_exp)
    define p where "p = unat (w AND 0xFFFF)"
    define b where "b = unat (w AND 0xFF)"
    have pb: "p = unat w mod 2 ^ 16" "b = unat w mod 256" "b < 256" "p < 2 ^ 16"
      unfolding p_def b_def m unat_and_mask by simp_all
    then have "p mod 256 = b" by (simp add: mod_mod_cancel)
    define sc where "sc = (if rem \<ge> 2 then e_short e ! p else e_single e ! b)"
    have "(code, len) = (ucast sc, unat (drop_bit 8 sc))"
      unfolding step [symmetric] fsst_step_def None sc_def p_def b_def by (simp add: Let_def)
    then have out: "code = ucast sc" "len = unat (drop_bit 8 sc)" by simp_all
    have sh: "short_ok t (length (t_words t)) p (e_short e ! p)" "single_ok t (length (t_words t)) b (e_single e ! b)"
      using ok pb(3,4) unfolding enc_ok_def by blast+
    have "single_ok t (length (t_words t)) b sc \<or> rem \<ge> 2 \<and>
        (\<exists>c<length (t_words t). sc = entry_of c 2 \<and> t_lens t ! c = 2 \<and> unat (t_words t ! c) = p)"
      using sh \<open>p mod 256 = b\<close> unfolding sc_def short_ok_def by (cases "rem \<ge> 2") auto
    then consider "sc = esc_entry"
      | c where "c < length (t_words t)" "sc = entry_of c 1" "t_lens t ! c = 1" "unat (t_words t ! c) = b"
      | c where "c < length (t_words t)" "sc = entry_of c 2" "t_lens t ! c = 2" "unat (t_words t ! c) = p" "rem \<ge> 2"
      by (auto simp: single_ok_def)
    then show ?thesis
    proof cases
      case 1
      then show ?thesis using out by (simp add: esc_parts)
    next
      case (2 c)
      then show ?thesis using out rem code [of c] pb by (simp add: entry_parts)
    next
      case (3 c)
      then show ?thesis using out code [of c] pb by (simp add: entry_parts)
    qed
  qed
qed

subsection \<open>A parse decodes to the string\<close>

lemma encode_from_ok:
  assumes wf: "table_wf t"
  shows "i \<le> length s \<Longrightarrow> \<exists>cs. encode_from (encoder_of t) s i out = Some (out @ cs) \<and> length cs \<le> 2 * (length s - i) \<and>
    (\<forall>cap. \<exists>k. min cap (length s - i) \<le> k \<and> k < cap + 8 \<and> fsst_ref t cap cs = Some (take k (drop i s)))"
proof (induction "length s - i" arbitrary: i out rule: less_induct)
  case less
  show ?case
  proof (cases "i < length s")
    case False
    then show ?thesis using less.prems
      by (intro exI [of _ "[]"]) (auto simp: encode_from.simps intro: exI [of _ 0])
  next
    case True
    obtain code len where st: "fsst_step (encoder_of t) (word_at s i) (length s - i) = (code, len)" by fastforce
    have w: "list_all2 symbol_wf (t_words t) (t_lens t)" "length (t_words t) \<le> 255" "length (t_words t) = length (t_lens t)"
      using wf by (simp_all add: table_wf_def)
    define emit where "emit = (if code = ESCAPE then [ESCAPE, s ! i] else [code])"
    have sound: "code = ESCAPE \<and> len = 1 \<or>
        code \<noteq> ESCAPE \<and> unat code < length (t_words t) \<and> len = unat (t_lens t ! unat code) \<and> len \<le> length s - i \<and>
        unat (word_at s i) mod 256 ^ len = unat (t_words t ! unat code)"
      by (rule fsst_step_sound [OF w(1,2) encoder_of_ok [OF w(1)] _ st]) (use True in simp)
    then have len: "1 \<le> len" "len \<le> 8" "i + len \<le> length s" 
      using True w(3) table_wf_nth(1,2) [OF wf] by auto
    have "\<exists>cs. encode_from (encoder_of t) s (i + len) (out @ emit) = Some ((out @ emit) @ cs) \<and>
        length cs \<le> 2 * (length s - (i + len)) \<and>
        (\<forall>cap. \<exists>k. min cap (length s - (i + len)) \<le> k \<and> k < cap + 8 \<and> fsst_ref t cap cs = Some (take k (drop (i + len) s)))"
      by (rule less.hyps) (use True len in auto)
    then obtain cs where cs: "encode_from (encoder_of t) s (i + len) (out @ emit) = Some ((out @ emit) @ cs)"
        "length cs \<le> 2 * (length s - (i + len))"
        "\<And>cap. \<exists>k. min cap (length s - (i + len)) \<le> k \<and> k < cap + 8 \<and> fsst_ref t cap cs = Some (take k (drop (i + len) s))"
      by blast
    have enc: "encode_from (encoder_of t) s i out = Some (out @ (emit @ cs))"
      using True st cs(1) by (subst encode_from.simps) (simp add: emit_def)
    have "length (emit @ cs) \<le> 2 * (length s - i)" using cs(2) len by (auto simp: emit_def)
    moreover have "\<exists>k. min cap (length s - i) \<le> k \<and> k < cap + 8 \<and> fsst_ref t cap (emit @ cs) = Some (take k (drop i s))" for cap
    proof (cases "cap = 0")
      case True
      then show ?thesis by (intro exI [of _ 0]) (simp add: emit_def)
    next
      case False
      define chunk where "chunk = take len (drop i s)"
      have lc: "length chunk = len" using len by (simp add: chunk_def)
      have ref: "fsst_ref t cap (emit @ cs) = map_option ((@) chunk) (fsst_ref t (cap - len) cs)"
      proof (cases "code = ESCAPE")
        case True
        then have "len = 1" using sound by simp
        then have "chunk = [s ! i]" using \<open>i < length s\<close> by (simp add: chunk_def take_Suc_conv_app_nth hd_drop_conv_nth take_Suc)
        with True False \<open>len = 1\<close> show ?thesis
          by (cases "fsst_ref t (cap - 1) cs") (simp_all add: emit_def)
      next
        case ne: False
        with sound have snd: "unat code < length (t_words t)" "len = unat (t_lens t ! unat code)"
            "unat (word_at s i) mod 256 ^ len = unat (t_words t ! unat code)" by auto
        have "unat (word_at s i) mod 256 ^ len = le_nat chunk"
          using len by (simp add: word_at_load8 load8_def unat_u64_of chunk_def flip: le_nat_take)
        then have "le_nat (symbol t (unat code)) = le_nat chunk"
          using snd table_wf_nth(3) [OF wf, of "unat code"] w(3) by (simp add: symbol_def le_nat_take)
        then have "symbol t (unat code) = chunk"
          using lc snd w(3) by (subst (asm) le_nat_inj) (simp_all add: length_symbol [OF wf])
        with False ne snd lc show ?thesis by (simp add: emit_def)
      qed
      from cs(3) [of "cap - len"] obtain k where k: "min (cap - len) (length s - (i + len)) \<le> k" "k < cap - len + 8"
          "fsst_ref t (cap - len) cs = Some (take k (drop (i + len) s))" by blast
      have d: "drop i s = chunk @ drop (i + len) s" by (metis append_take_drop_id chunk_def drop_drop add.commute)
      have r: "fsst_ref t cap (emit @ cs) = Some (take (len + k) (drop i s))"
        using ref k(3) lc by (simp add: d)
      show ?thesis
      proof (cases "len \<le> cap")
        case True
        with r k show ?thesis by (intro exI [of _ "len + k"]) auto
      next
        case False
        then have "fsst_ref t (cap - len) cs = Some []" by (cases cs) auto
        then have "fsst_ref t cap (emit @ cs) = Some (take len (drop i s))" using ref lc by (simp add: d)
        with False len \<open>cap \<noteq> 0\<close> show ?thesis by (intro exI [of _ len]) auto
      qed
    qed
    ultimately show ?thesis using enc by blast
  qed
qed

lemma fsst_encode_ok:
  assumes "table_wf t"
  obtains cs where "fsst_encode_into (encoder_of t) s out = Some (out @ cs)" "length cs \<le> 2 * length s"
    "\<And>cap. \<exists>k. min cap (length s) \<le> k \<and> k < cap + 8 \<and> fsst_ref t cap cs = Some (take k s)"
  using encode_from_ok [OF assms, of 0 s out] by (auto simp: fsst_encode_into_def)

subsection \<open>Completeness: a reachable table\<close>

text \<open>The symbols of three bytes or more among the first \<open>n\<close> that slot \<open>k\<close> is to hold.\<close>

definition held :: "fsst_table \<Rightarrow> nat \<Rightarrow> nat \<Rightarrow> nat list" where
  "held t n k = filter (\<lambda>c. 3 \<le> unat (t_lens t ! c) \<and> slot_of (t_words t ! c) = k) [0..<n]"

definition sorted_slot :: "slot list \<Rightarrow> bool" where
  "sorted_slot xs \<longleftrightarrow> sorted_wrt (\<lambda>x y. sl_len y \<le> sl_len x) xs"

lemma sorted_insert_slot: "sorted_slot xs \<Longrightarrow> sorted_slot (insert_slot x xs)"
proof (induction x xs rule: insert_slot.induct)
  case (2 new x xs)
  then show ?case using set_insert_slot [of x xs] set_insert_slot [of new xs]
    by (force simp: sorted_slot_def)
qed (simp add: sorted_slot_def)

lemma insert_slot_0: "sl_len x = 0 \<Longrightarrow> insert_slot x xs = xs"
  by (induction x xs rule: insert_slot.induct) simp_all

lemma mset_insert_slot:
  assumes "\<exists>z\<in>set xs. sl_len z = 0" "sl_len x \<noteq> 0"
  shows "filter_mset (\<lambda>z. sl_len z \<noteq> 0) (mset (insert_slot x xs))
    = add_mset x (filter_mset (\<lambda>z. sl_len z \<noteq> 0) (mset xs))"
  using assms
proof (induction x xs rule: insert_slot.induct)
  case (2 new x xs)
  show ?case
  proof (cases "sl_len x < sl_len new")
    case True
    then show ?thesis using 2 by (cases "sl_len x = 0") (simp_all add: insert_slot_0)
  next
    case False
    then have "sl_len x \<noteq> 0" using 2(4) by (auto simp: word_less_nat_alt word_unat_eq_iff)
    with False 2 show ?thesis by auto
  qed
qed simp

definition enc_full :: "fsst_table \<Rightarrow> nat \<Rightarrow> encoder \<Rightarrow> bool" where
  "enc_full t n e \<longleftrightarrow>
    (\<forall>c<n. t_lens t ! c = 1 \<longrightarrow> e_single e ! unat (t_words t ! c) = entry_of c 1) \<and>
    (\<forall>c<n. t_lens t ! c = 2 \<longrightarrow> e_short e ! unat (t_words t ! c) = entry_of c 2) \<and>
    (\<forall>k<SLOTS. sorted_slot (e_slots e ! k) \<and>
      filter_mset (\<lambda>z. sl_len z \<noteq> 0) (mset (e_slots e ! k)) = mset (map (slot_for t) (held t n k)))"

lemma held_Suc: "held t (Suc n) k = held t n k @
    (if 3 \<le> unat (t_lens t ! n) \<and> slot_of (t_words t ! n) = k then [n] else [])"
  by (simp add: held_def)

lemma add_symbol_full:
  assumes wf: "table_wf t" and n: "n < length (t_lens t)" and ok: "enc_ok t n e" and full: "enc_full t n e"
    and dist: "distinct (zip (t_words t) (t_lens t))" and room: "\<forall>k<SLOTS. length (held t (Suc n) k) \<le> WAYS"
  shows "enc_full t (Suc n) (add_symbol n (t_words t ! n) (t_lens t ! n) e)"
proof -
  have l: "length (t_words t) = length (t_lens t)" "length (t_lens t) \<le> 255" using wf by (simp_all add: table_wf_def)
  have sym: "symbol_wf (t_words t ! c) (t_lens t ! c)" if "c < length (t_lens t)" for c
    using wf that by (simp add: table_wf_def list_all2_nthD)
  have neq: "t_words t ! c \<noteq> t_words t ! n \<or> t_lens t ! c \<noteq> t_lens t ! n" if "c < n" for c
    using dist that n l by (auto simp: distinct_conv_nth)
  from sym [OF n] show ?thesis
  proof (cases rule: symbol_cases)
    case 1
    define b where "b = unat (t_words t ! n)"
    have b: "unat (t_words t ! n AND 0xFF) = b" "b < 256"
      using symbol_low_bytes(1) [OF sym [OF n] 1] by (simp_all add: b_def)
    have "claim_short b (entry_of n 1) (e_short e) ! unat (t_words t ! c) = entry_of c 2"
      if c: "c < n" "t_lens t ! c = 2" for c
    proof -
      have "e_short e ! unat (t_words t ! c) = entry_of c 2" using full c by (simp add: enc_full_def)
      moreover have "unat (entry_of c 2) = c + 512" using c n l by (subst unat_entry_of) simp_all
      then have "entry_of c 2 \<noteq> esc_entry" using unat_esc_entry by auto
      moreover have "unat (t_words t ! c) < length (e_short e)"
        using symbol_low_bytes(2) [OF sym c(2)] c n ok by (simp add: enc_ok_def)
      ultimately show ?thesis using claim_short_nth [OF b(2), of "unat (t_words t ! c)" "e_short e"] by metis
    qed
    moreover have "(e_single e)[b := entry_of n 1] ! unat (t_words t ! c) = entry_of c 1"
      if "c < Suc n" "t_lens t ! c = 1" for c
      using that full neq [of c] 1 b ok by (cases "c = n")
        (auto simp: enc_full_def enc_ok_def b_def word_unat_eq_iff)
    ultimately show ?thesis
      using 1 b full by (auto simp: add_symbol_def enc_full_def Let_def held_Suc less_Suc_eq)
  next
    case 2
    define p where "p = unat (t_words t ! n)"
    have p: "unat (t_words t ! n AND 0xFFFF) = p" "p < 2 ^ 16"
      using symbol_low_bytes(2) [OF sym [OF n] 2] by (simp_all add: p_def)
    have "(e_short e)[p := entry_of n 2] ! unat (t_words t ! c) = entry_of c 2"
      if "c < Suc n" "t_lens t ! c = 2" for c
      using that full neq [of c] 2 p ok by (cases "c = n")
        (auto simp: enc_full_def enc_ok_def p_def word_unat_eq_iff)
    then show ?thesis
      using 2 p full by (auto simp: add_symbol_def enc_full_def Let_def held_Suc less_Suc_eq)
  next
    case 3
    define k where "k = slot_of (t_words t ! n)"
    have e: "add_symbol n (t_words t ! n) (t_lens t ! n) e = e\<lparr>e_slots := (e_slots e)
        [k := insert_slot (slot_for t n) (e_slots e ! k)]\<rparr>"
      using 3 by (simp add: add_symbol_def slot_for_def k_def)
    have k: "k < SLOTS" by (simp add: k_def)
    have fm: "filter_mset (\<lambda>z. sl_len z \<noteq> 0) (mset (e_slots e ! k)) = mset (map (slot_for t) (held t n k))"
      using full k by (simp add: enc_full_def)
    have "length (held t n k) < WAYS" using room [rule_format, OF k] 3 by (simp add: held_Suc k_def)
    moreover have "length (e_slots e ! k) = WAYS" using ok k by (simp add: enc_ok_def)
    moreover have "length (held t n k) = length (filter (\<lambda>z. sl_len z \<noteq> 0) (e_slots e ! k))"
      using arg_cong [OF fm, of size] by (simp flip: mset_filter)
    ultimately have "filter (\<lambda>z. sl_len z \<noteq> 0) (e_slots e ! k) \<noteq> e_slots e ! k" by auto
    then have "\<exists>z\<in>set (e_slots e ! k). sl_len z = 0" by (auto simp: filter_id_conv)
    moreover have "sl_len (slot_for t n) \<noteq> 0" using 3 by (auto simp: slot_for_def)
    ultimately have "filter_mset (\<lambda>z. sl_len z \<noteq> 0) (mset (insert_slot (slot_for t n) (e_slots e ! k)))
        = mset (map (slot_for t) (held t (Suc n) k))"
      using fm 3 by (simp add: mset_insert_slot held_Suc k_def)
    moreover have "held t (Suc n) j = held t n j" if "j \<noteq> k" for j using that by (simp add: held_Suc k_def)
    ultimately show ?thesis
      using full 3 k ok sorted_insert_slot [of "e_slots e ! k"] unfolding e
      by (auto simp: enc_full_def enc_ok_def nth_list_update less_Suc_eq)
  qed
qed

lemma held_mono: "n \<le> m \<Longrightarrow> length (held t n k) \<le> length (held t m k)"
  by (induction m) (auto simp: held_Suc le_Suc_eq)

lemma add_symbols_full:
  assumes wf: "table_wf t" and dist: "distinct (zip (t_words t) (t_lens t))"
    and room: "\<forall>k<SLOTS. length (held t (length (t_lens t)) k) \<le> WAYS"
    and "enc_ok t n e" "enc_full t n e" "n \<le> length (t_lens t)"
  shows "enc_full t (length (t_lens t)) (add_symbols n (drop n (zip (t_words t) (t_lens t))) e)"
  using assms(4-)
proof (induction "length (t_lens t) - n" arbitrary: n e)
  case 0
  then show ?case using wf by (simp add: table_wf_def)
next
  case (Suc k)
  have l: "length (t_words t) = length (t_lens t)" using wf by (simp add: table_wf_def)
  from Suc have n: "n < length (t_lens t)" by simp
  then have d: "drop n (zip (t_words t) (t_lens t)) = (t_words t ! n, t_lens t ! n) # drop (Suc n) (zip (t_words t) (t_lens t))"
    using l by (simp add: Cons_nth_drop_Suc [symmetric])
  have "symbol_wf (t_words t ! n) (t_lens t ! n)" using wf n by (simp add: table_wf_def list_all2_nthD)
  note ok = add_symbol_ok [OF this Suc.prems(1)]
  have "\<forall>k<SLOTS. length (held t (Suc n) k) \<le> WAYS"
    using room held_mono [of "Suc n" "length (t_lens t)" t] n by (meson Suc_leI le_trans)
  from add_symbol_full [OF wf n Suc.prems(1,2) dist this] ok show ?case using Suc.hyps n by (simp add: d)
qed

lemma encoder_of_full:
  assumes wf: "table_wf t" and dist: "distinct (zip (t_words t) (t_lens t))"
    and room: "\<forall>k<SLOTS. length (held t (length (t_lens t)) k) \<le> WAYS"
  shows "enc_full t (length (t_lens t)) (encoder_of t)"
proof -
  have "enc_ok t 0 empty_encoder"
    by (simp add: enc_ok_def empty_encoder_def short_ok_def single_ok_def slot_ok_def empty_slot_def)
  moreover have "enc_full t 0 empty_encoder"
    by (simp add: enc_full_def empty_encoder_def held_def empty_slot_def sorted_slot_def sorted_wrt_iff_nth_less)
  ultimately show ?thesis using add_symbols_full [OF assms, of 0 empty_encoder] by (simp add: encoder_of_def)
qed

lemma find_sorted_slot:
  assumes "sorted_slot xs" "x \<in> set xs" "P x" "\<And>y. y \<in> set xs \<Longrightarrow> P y \<Longrightarrow> sl_len y \<le> sl_len x"
    "\<And>y. y \<in> set xs \<Longrightarrow> P y \<Longrightarrow> sl_len y = sl_len x \<Longrightarrow> y = x"
  shows "find P xs = Some x"
  using assms
proof (induction xs)
  case (Cons y xs)
  show ?case
  proof (cases "P y")
    case True
    then have "sl_len y \<le> sl_len x" "x = y \<or> sl_len x \<le> sl_len y"
      using Cons.prems by (auto simp: sorted_slot_def)
    then have "y = x" using Cons.prems(5) [of y] True by auto
    then show ?thesis using True by simp
  next
    case False
    then show ?thesis using Cons by (auto simp: sorted_slot_def)
  qed
qed simp

text \<open>Asked at a symbol with just its length left, the encoder emits its code.\<close>

lemma full_step:
  assumes wf: "table_wf t" and dist: "distinct (zip (t_words t) (t_lens t))"
    and room: "\<forall>k<SLOTS. length (held t (length (t_lens t)) k) \<le> WAYS" and c: "c < length (t_lens t)"
  shows "fsst_step (encoder_of t) (t_words t ! c) (unat (t_lens t ! c)) = (of_nat c, unat (t_lens t ! c))"
proof -
  define e w where "e = encoder_of t" and "w = t_words t ! c"
  have full: "enc_full t (length (t_lens t)) e" unfolding e_def by (rule encoder_of_full [OF wf dist room])
  have l: "length (t_words t) = length (t_lens t)" "length (t_lens t) \<le> 255" using wf by (simp_all add: table_wf_def)
  have sym: "symbol_wf (t_words t ! c) (t_lens t ! c)" if "c < length (t_lens t)" for c
    using wf that by (simp add: table_wf_def list_all2_nthD)
  have inj: "d = c" if "d < length (t_lens t)" "t_words t ! d = t_words t ! c" "t_lens t ! d = t_lens t ! c" for d
    using dist that c l by (auto simp: distinct_conv_nth)
  have slots: "sorted_slot (e_slots e ! slot_of w)"
    "filter_mset (\<lambda>z. sl_len z \<noteq> 0) (mset (e_slots e ! slot_of w)) = mset (map (slot_for t) (held t (length (t_lens t)) (slot_of w)))"
    using full slot_of_less [of w] by (auto simp: enc_full_def)
  have mem: "x \<in> set (e_slots e ! slot_of w) \<and> sl_len x \<noteq> 0 \<longleftrightarrow>
      (\<exists>d<length (t_lens t). x = slot_for t d \<and> 3 \<le> unat (t_lens t ! d) \<and> slot_of (t_words t ! d) = slot_of w)" for x
    using arg_cong [OF slots(2), of set_mset] by (auto simp: held_def set_eq_iff)
  show ?thesis
  proof (cases "3 \<le> unat (t_lens t ! c)")
    case True
    have "find (slot_matches w (unat (t_lens t ! c))) (e_slots e ! slot_of w) = Some (slot_for t c)"
    proof (rule find_sorted_slot [OF slots(1)])
      show "slot_for t c \<in> set (e_slots e ! slot_of w)" using mem [of "slot_for t c"] True c by (auto simp: w_def)
      show "slot_matches w (unat (t_lens t ! c)) (slot_for t c)"
        using slot_matches_for [OF sym [OF c], of w] sym [OF c] by (simp add: w_def symbol_wf_def)
    next
      fix y assume y: "y \<in> set (e_slots e ! slot_of w)" "slot_matches w (unat (t_lens t ! c)) y"
      then have "sl_len y \<noteq> 0" by (simp add: slot_matches_def)
      then obtain d where d: "d < length (t_lens t)" "y = slot_for t d" using y(1) mem [of y] by auto
      then have m: "unat (t_lens t ! d) \<le> unat (t_lens t ! c)"
          "unat w mod 256 ^ unat (t_lens t ! d) = unat (t_words t ! d)"
        using y(2) slot_matches_for [OF sym [OF d(1)], of w] by simp_all
      then show "sl_len y \<le> sl_len (slot_for t c)" by (simp add: d(2) slot_for_def word_le_nat_alt)
      show "y = slot_for t c" if "sl_len y = sl_len (slot_for t c)"
      proof -
        from that have ld: "t_lens t ! d = t_lens t ! c" by (simp add: d(2) slot_for_def)
        then have "t_words t ! d = t_words t ! c"
          using m(2) sym [OF c] by (simp add: w_def symbol_wf_def word_unat_eq_iff)
        from inj [OF d(1) this ld] show ?thesis by (simp add: d(2))
      qed
    qed
    then show ?thesis by (simp add: fsst_step_def slot_for_def flip: e_def w_def)
  next
    case False
    have none: "find (slot_matches w (unat (t_lens t ! c))) (e_slots e ! slot_of w) = None"
      unfolding find_None_iff
    proof (rule notI, elim exE conjE)
      fix x assume x: "x \<in> set (e_slots e ! slot_of w)" "slot_matches w (unat (t_lens t ! c)) x"
      then have "sl_len x \<noteq> 0" "unat (sl_len x) \<le> unat (t_lens t ! c)" by (simp_all add: slot_matches_def)
      with x(1) mem [of x] False show False by (auto simp: slot_for_def)
    qed
    have c256: "c < 256" using c l by simp
    from sym [OF c] show ?thesis
    proof (cases rule: symbol_cases)
      case 1
      then have "unat (w AND 0xFF) = unat w" "e_single e ! unat w = entry_of c 1"
        using symbol_low_bytes(1) [OF sym [OF c]] full c by (simp_all add: w_def enc_full_def)
      then show ?thesis using 1 none c256 by (simp add: fsst_step_def entry_parts flip: e_def w_def)
    next
      case 2
      then have "unat (w AND 0xFFFF) = unat w" "e_short e ! unat w = entry_of c 2"
        using symbol_low_bytes(2) [OF sym [OF c]] full c by (simp_all add: w_def enc_full_def)
      then show ?thesis using 2 none c256 by (simp add: fsst_step_def entry_parts flip: e_def w_def)
    qed (use False in simp)
  qed
qed

subsection \<open>What \<^verbatim>\<open>reachable\<close> keeps\<close>

definition ranked_ok :: "(u64 \<times> nat) list \<Rightarrow> bool" where
  "ranked_ok ranked \<longleftrightarrow> (\<forall>(w, l)\<in>set ranked. 1 \<le> l \<and> l \<le> 8 \<and> unat w < 256 ^ l)"

definition symbol_bytes :: "u64 \<times> nat \<Rightarrow> bytes" where
  "symbol_bytes p = take (snd p) (u64_bytes (fst p))"

definition slot_count :: "(u64 \<times> nat) list \<Rightarrow> nat \<Rightarrow> nat" where
  "slot_count ps k = length (filter (\<lambda>(w, l). 3 \<le> l \<and> slot_of w = k) ps)"

lemma reach_keeps:
  assumes "ranked_ok ranked" "length taken = SLOTS" "\<forall>k<SLOTS. taken ! k = slot_count ps k"
    "\<forall>k<SLOTS. slot_count ps k \<le> WAYS" "length ps \<le> max'"
  obtains qs where "subseq qs ranked" "reach max' taken (map symbol_bytes ps) ranked = map symbol_bytes (ps @ qs)"
    "length (ps @ qs) \<le> max'" "\<forall>k<SLOTS. slot_count (ps @ qs) k \<le> WAYS"
  using assms
proof (induction ranked arbitrary: taken ps thesis)
  case Nil
  then show ?case using Nil.prems(1) [of "[]"] by simp
next
  case (Cons p ranked)
  obtain w l where p: "p = (w, l)" by fastforce
  have ok: "ranked_ok ranked" using Cons.prems(2) by (simp add: ranked_ok_def)
  show ?case
  proof (cases "length ps = max'")
    case True
    then show ?thesis using Cons.prems(1) [of "[]"] Cons.prems(5) p by simp
  next
    case False
    then have len: "length (ps @ [p]) \<le> max'" using Cons.prems(6) by simp
    have sb: "map symbol_bytes ps @ [take l (u64_bytes w)] = map symbol_bytes (ps @ [p])"
      by (simp add: symbol_bytes_def p)
    show ?thesis
    proof (cases "3 \<le> l")
      case short: False
      then have "\<forall>k<SLOTS. taken ! k = slot_count (ps @ [p]) k" "\<forall>k<SLOTS. slot_count (ps @ [p]) k \<le> WAYS"
        using Cons.prems(4,5) by (simp_all add: slot_count_def p)
      from Cons.IH [OF _ ok Cons.prems(3) this len] obtain qs where
        "subseq qs ranked" "reach max' taken (map symbol_bytes (ps @ [p])) ranked = map symbol_bytes ((ps @ [p]) @ qs)"
        "length ((ps @ [p]) @ qs) \<le> max'" "\<forall>k<SLOTS. slot_count ((ps @ [p]) @ qs) k \<le> WAYS" by blast
      then show ?thesis using Cons.prems(1) [of "p # qs"] short False sb p by simp
    next
      case long: True
      show ?thesis
      proof (cases "taken ! slot_of w = WAYS")
        case True
        from Cons.IH [OF _ ok Cons.prems(3,4,5,6)] obtain qs where
          "subseq qs ranked" "reach max' taken (map symbol_bytes ps) ranked = map symbol_bytes (ps @ qs)"
          "length (ps @ qs) \<le> max'" "\<forall>k<SLOTS. slot_count (ps @ qs) k \<le> WAYS" by blast
        moreover from this have "subseq qs (p # ranked)" by (simp add: list_emb_Cons)
        ultimately show ?thesis using Cons.prems(1) [of qs] long False True p by simp
      next
        case room: False
        define taken' where "taken' = taken[slot_of w := taken ! slot_of w + 1]"
        have one: "slot_count (ps @ [p]) k = slot_count ps k + (if slot_of w = k then 1 else 0)" for k
          using long by (simp add: slot_count_def p)
        have "slot_count ps (slot_of w) < WAYS"
          using Cons.prems(4,5) room slot_of_less [of w] by (metis le_neq_implies_less)
        then have "\<forall>k<SLOTS. slot_count (ps @ [p]) k \<le> WAYS" using Cons.prems(5) by (auto simp: one)
        moreover have "\<forall>k<SLOTS. taken' ! k = slot_count (ps @ [p]) k" "length taken' = SLOTS"
          using Cons.prems(3,4) by (auto simp: one taken'_def nth_list_update)
        ultimately have taken': "length taken' = SLOTS" "\<forall>k<SLOTS. taken' ! k = slot_count (ps @ [p]) k"
          "\<forall>k<SLOTS. slot_count (ps @ [p]) k \<le> WAYS" by blast+
        from Cons.IH [OF _ ok taken' len] obtain qs where
          "subseq qs ranked" "reach max' taken' (map symbol_bytes (ps @ [p])) ranked = map symbol_bytes ((ps @ [p]) @ qs)"
          "length ((ps @ [p]) @ qs) \<le> max'" "\<forall>k<SLOTS. slot_count ((ps @ [p]) @ qs) k \<le> WAYS" by blast
        then show ?thesis using Cons.prems(1) [of "p # qs"] long room False sb p by (simp add: taken'_def)
      qed
    qed
  qed
qed

lemma subseq_set: "subseq xs ys \<Longrightarrow> set xs \<subseteq> set ys"
  by (induction rule: list_emb.induct) auto

lemma subseq_distinct: "subseq xs ys \<Longrightarrow> distinct ys \<Longrightarrow> distinct xs"
  by (induction rule: list_emb.induct) (auto dest: subseq_set)

lemma from_symbols_ranked:
  assumes "ranked_ok ps"
  shows "t_words (from_symbols (map symbol_bytes ps)) = map fst ps"
    "t_lens (from_symbols (map symbol_bytes ps)) = map (of_nat \<circ> snd) ps"
proof -
  have w: "1 \<le> l \<and> l \<le> 8 \<and> unat w < 256 ^ l" if "(w, l) \<in> set ps" for w l
    using assms that by (auto simp: ranked_ok_def)
  show "t_words (from_symbols (map symbol_bytes ps)) = map fst ps"
    "t_lens (from_symbols (map symbol_bytes ps)) = map (of_nat \<circ> snd) ps"
    by (auto simp: from_symbols_def symbol_bytes_def word_unat_eq_iff unat_word_of le_nat_take dest!: w)
qed

lemma ranked_table_wf:
  assumes ok: "ranked_ok ps" and len: "length ps \<le> 255"
  shows "table_wf (from_symbols (map symbol_bytes ps))"
proof -
  have "symbol_wf w (of_nat l)" if "(w, l) \<in> set ps" for w l
    using ok that by (auto simp: ranked_ok_def symbol_wf_def unat_of_nat)
  then have "list_all2 symbol_wf (map fst ps) (map (of_nat \<circ> snd) ps)"
    by (auto simp: list_all2_conv_all_nth)
  then show ?thesis using len by (simp add: table_wf_def from_symbols_ranked [OF ok])
qed

lemma length_held_slot_count:
  assumes "ranked_ok ps"
  shows "length (held (from_symbols (map symbol_bytes ps)) (length ps) k) = slot_count ps k"
proof -
  let ?t = "from_symbols (map symbol_bytes ps)"
  have u: "unat (of_nat l :: u8) = l" if "(w, l) \<in> set ps" for w l
    using assms that by (auto simp: ranked_ok_def unat_of_nat)
  have "length (held ?t n k) = slot_count (take n ps) k" if "n \<le> length ps" for n
    using that
  proof (induction n)
    case (Suc n)
    obtain w l where p: "ps ! n = (w, l)" by fastforce
    then have "unat (of_nat l :: u8) = l" using u [of w l] Suc.prems by (metis Suc_le_lessD nth_mem)
    with Suc p show ?case
      by (simp add: held_Suc from_symbols_ranked [OF assms] slot_count_def take_Suc_conv_app_nth)
  qed (simp add: held_def slot_count_def)
  from this [of "length ps"] show ?thesis by simp
qed

text \<open>Every symbol of a table is one its encoder emits.\<close>

definition all_reached :: "fsst_table \<Rightarrow> bool" where
  "all_reached t \<longleftrightarrow> (\<forall>c<length (t_lens t).
    fsst_step (encoder_of t) (t_words t ! c) (unat (t_lens t ! c)) = (of_nat c, unat (t_lens t ! c)))"

lemma reachable_ok:
  assumes ok: "ranked_ok ranked" and dist: "distinct ranked"
  shows "table_wf (reachable ranked max') \<and> length (t_words (reachable ranked max')) \<le> min max' 255 \<and>
    all_reached (reachable ranked max')"
proof -
  have zero: "\<forall>k<SLOTS. replicate SLOTS 0 ! k = slot_count [] k" "\<forall>k<SLOTS. slot_count [] k \<le> WAYS"
    by (simp_all add: slot_count_def)
  obtain qs where qs: "subseq qs ranked" "length qs \<le> min max' MAX_SYMBOLS" "\<forall>k<SLOTS. slot_count qs k \<le> WAYS"
      "reach (min max' MAX_SYMBOLS) (replicate SLOTS 0) [] ranked = map symbol_bytes qs"
    using reach_keeps [OF ok _ zero, of "min max' MAX_SYMBOLS"] by auto
  define t where "t = reachable ranked max'"
  have t: "t = from_symbols (map symbol_bytes qs)" by (simp add: t_def reachable_def qs(4))
  have ok': "ranked_ok qs" using ok subseq_set [OF qs(1)] by (auto simp: ranked_ok_def)
  have len: "length qs \<le> 255" using qs(2) by (simp add: MAX_SYMBOLS_def)
  note parts = from_symbols_ranked [OF ok', folded t]
  have wf: "table_wf t" unfolding t by (rule ranked_table_wf [OF ok' len])
  have "distinct qs" by (rule subseq_distinct [OF qs(1) dist])
  moreover have "inj_on (\<lambda>p. (fst p, of_nat (snd p) :: u8)) (set qs)"
  proof (rule inj_onI)
    fix p q assume pq: "p \<in> set qs" "q \<in> set qs" "(fst p, of_nat (snd p) :: u8) = (fst q, of_nat (snd q))"
    then have "snd p \<le> 8" "snd q \<le> 8" using ok' by (auto simp: ranked_ok_def)
    with pq(3) show "p = q" by (simp add: prod_eq_iff word_unat_eq_iff [where 'a = 8] unat_of_nat)
  qed
  moreover have "zip (t_words t) (t_lens t) = map (\<lambda>p. (fst p, of_nat (snd p))) qs"
    by (simp add: parts zip_map_map zip_same_conv_map)
  ultimately have "distinct (zip (t_words t) (t_lens t))" by (simp add: distinct_map)
  moreover have "\<forall>k<SLOTS. length (held t (length (t_lens t)) k) \<le> WAYS"
    using qs(3) length_held_slot_count [OF ok', folded t] by (simp add: parts)
  ultimately have "all_reached t" using full_step [OF wf] by (simp add: all_reached_def)
  then show ?thesis using wf qs(2) unfolding t_def [symmetric] by (simp add: parts MAX_SYMBOLS_def)
qed

end
