(* ===== verification/Fsst_Theorems.thy ===== *)
theory Fsst_Theorems
  imports Fsst_Encode
begin

text \<open>
  What the symbol table of \<^verbatim>\<open>src/fsst.rs\<close> promises the dictionary: a round trip through any table,
  a decoder that is total on any stream, a table that survives its bytes and no others, and a
  trainer that ends with a table of which the encoder can emit every symbol.
\<close>

subsection \<open>Training ends, in a table the encoder reaches\<close>

lemma count_from_total:
  assumes wf: "table_wf t"
  shows "i \<le> length s \<Longrightarrow> \<exists>c'. count_from (encoder_of t) codes space s i prev c = Some c'"
proof (induction "length s - i" arbitrary: i prev c rule: less_induct)
  case less
  show ?case
  proof (cases "i < length s")
    case False
    then show ?thesis by (simp add: count_from.simps)
  next
    case True
    obtain code8 len where st: "fsst_step (encoder_of t) (word_at s i) (length s - i) = (code8, len)" by fastforce
    have w: "list_all2 symbol_wf (t_words t) (t_lens t)" "length (t_words t) \<le> 255" "length (t_words t) = length (t_lens t)"
      using wf by (simp_all add: table_wf_def)
    have "code8 = ESCAPE \<and> len = 1 \<or>
        code8 \<noteq> ESCAPE \<and> unat code8 < length (t_words t) \<and> len = unat (t_lens t ! unat code8) \<and> len \<le> length s - i \<and>
        unat (word_at s i) mod 256 ^ len = unat (t_words t ! unat code8)"
      by (rule fsst_step_sound [OF w(1,2) encoder_of_ok [OF w(1)] _ st]) (use True in simp)
    then have len: "1 \<le> len" "i + len \<le> length s"
      using True w(3) table_wf_nth(1) [OF wf] by auto
    have "\<exists>c'. count_from (encoder_of t) codes space s (i + len) prev' c'' = Some c'" for prev' c''
      by (rule less.hyps) (use True len in auto)
    then show ?thesis using True st by (subst count_from.simps) (simp add: Let_def)
  qed
qed

lemma count_sample_total: "table_wf t \<Longrightarrow> \<exists>c'. count_sample (encoder_of t) codes space ss c = Some c'"
proof (induction ss arbitrary: c)
  case (Cons s ss)
  from count_from_total [OF Cons.prems, of 0 s codes space None c] obtain c' where
    "count_from (encoder_of t) codes space s 0 None c = Some c'" by auto
  with Cons show ?case by simp
qed simp

text \<open>Candidates are words of one to eight bytes, each once.\<close>

definition gains_ok :: "gains \<Rightarrow> bool" where
  "gains_ok g \<longleftrightarrow> distinct (map fst g) \<and> (\<forall>k\<in>set (map fst g). symbol_wf (fst k) (snd k))"

lemma keys_gain_add: "set (map fst (gain_add k v g)) = insert k (set (map fst g))"
  by (induction k v g rule: gain_add.induct) auto

lemma gains_ok_add: "gains_ok g \<Longrightarrow> symbol_wf (fst k) (snd k) \<Longrightarrow> gains_ok (gain_add k v g)"
proof -
  have "distinct (map fst g) \<Longrightarrow> distinct (map fst (gain_add k v g))"
    by (induction k v g rule: gain_add.induct) (use keys_gain_add in auto)
  then show "gains_ok g \<Longrightarrow> symbol_wf (fst k) (snd k) \<Longrightarrow> gains_ok (gain_add k v g)"
    using keys_gain_add [of k v g] by (auto simp: gains_ok_def)
qed

lemma fold_keeps: "P x \<Longrightarrow> (\<And>a x. a \<in> set as \<Longrightarrow> P x \<Longrightarrow> P (f a x)) \<Longrightarrow> P (fold f as x)"
  by (induction as arbitrary: x) simp_all

lemma piece_ok:
  assumes "table_wf t" "piece_of t code = (w, l)"
  shows "1 \<le> l \<and> l \<le> 8 \<and> unat w < 256 ^ l"
proof (cases "code < length (t_words t)")
  case True
  then show ?thesis using assms table_wf_nth [OF assms(1), of code] by (auto simp: piece_of_def table_wf_def)
next
  case False
  have "unat (ucast b :: u64) < 256" for b :: u8
    using unat_u8_less [of b] by (simp add: unsigned_ucast_eq take_bit_nat_eq_self del: unat_u8_less)
  then show ?thesis using False assms(2) by (auto simp: piece_of_def)
qed

lemma symbol_wf_of_nat: "1 \<le> l \<Longrightarrow> l \<le> 8 \<Longrightarrow> unat w < 256 ^ l \<Longrightarrow> symbol_wf w (of_nat l)"
  by (simp add: symbol_wf_def unat_of_nat)

lemma pair_symbol_wf:
  assumes "1 \<le> la" "unat wa < 256 ^ la" "1 \<le> lb" "unat wb < 256 ^ lb" "la + lb \<le> 8"
  shows "symbol_wf (wa OR push_bit (8 * la) wb) (of_nat (la + lb))"
proof -
  have "unat (wa OR push_bit (8 * la) wb) = unat wa + 2 ^ (8 * la) * unat wb"
    using assms by (intro unat_or_push_bit [where w = "8 * lb"]) (simp_all add: power_256)
  moreover have "256 ^ la * (unat wb + 1) \<le> (256 :: nat) ^ la * 256 ^ lb"
    using assms(4) by (intro mult_le_mono2) simp
  ultimately have "unat (wa OR push_bit (8 * la) wb) < 256 ^ (la + lb)"
    using assms(2) by (simp add: power_256 power_add)
  then show ?thesis using assms by (intro symbol_wf_of_nat) simp_all
qed

lemma single_gains_ok:
  assumes "table_wf t"
  shows "gains_ok (single_gains t c1)"
  unfolding single_gains_def
proof (rule fold_keeps [where P = gains_ok])
  fix a and g :: gains assume a: "a \<in> set (zip c1 (map (piece_of t) [0..<length c1]))" and g: "gains_ok g"
  obtain c w l where p: "a = (c, w, l)" by (cases a) auto
  with a obtain code where "piece_of t code = (w, l)" by (fastforce dest: set_zip_rightD)
  then have "symbol_wf w (of_nat l)" using piece_ok [OF assms] symbol_wf_of_nat by blast
  then show "gains_ok ((\<lambda>(c, word, len) gain. if 0 < c then gain_add (word, of_nat len) (earned c len) gain else gain) a g)"
    using g by (simp add: p gains_ok_add)
qed (simp add: gains_ok_def)

lemma pair_cell_ok:
  assumes "table_wf t" "gains_ok g"
  shows "gains_ok (pair_cell t space c2 a b g)"
proof -
  obtain wa la where a: "piece_of t a = (wa, la)" by fastforce
  obtain wb lb where b: "piece_of t b = (wb, lb)" by fastforce
  have "symbol_wf (wa OR push_bit (8 * la) wb) (of_nat (la + lb))" if "la + lb \<le> 8"
    using piece_ok [OF assms(1) a] piece_ok [OF assms(1) b] that by (intro pair_symbol_wf) auto
  then show ?thesis
    using assms(2) gains_ok_add [of g "(wa OR push_bit (8 * la) wb, of_nat (la + lb))"]
    by (simp add: pair_cell_def a b Let_def MAX_LEN_def)
qed

lemma pair_gains_ok:
  assumes "table_wf t" "gains_ok g"
  shows "gains_ok (pair_gains t space c g)"
  unfolding pair_gains_def Let_def
  by (intro fold_keeps [where P = gains_ok] assms)
    (simp add: fold_keeps [where P = gains_ok] pair_cell_ok [OF assms(1)])

lemma swap_swap [simp]: "swap_bytes (swap_bytes w) = w"
  by (simp add: swap_bytes_def u64_bytes_of)

lemma rank_ok:
  assumes "gains_ok g"
  shows "ranked_ok (rank g)" "distinct (rank g)"
proof -
  define f where "f = (\<lambda>p :: (u64 \<times> u8) \<times> u64. (NOT (snd p), swap_bytes (fst (fst p)), snd (fst p)))"
  define h where "h = (\<lambda>q :: u64 \<times> u64 \<times> u8. (swap_bytes (fst (snd q)), unat (snd (snd q))))"
  have r: "rank g = map h (sort (map f g))" unfolding rank_def f_def h_def case_prod_unfold ..
  have hf: "h (f p) = (fst (fst p), unat (snd (fst p)))" for p by (simp add: h_def f_def)
  have "set (rank g) = (\<lambda>k. (fst k, unat (snd k))) ` set (map fst g)"
    by (simp add: r image_image hf)
  then show "ranked_ok (rank g)"
    using assms by (auto simp: ranked_ok_def gains_ok_def symbol_wf_def)
  have "distinct (map h (map f g))"
  proof -
    have e: "map h (map f g) = map (\<lambda>k. (fst k, unat (snd k))) (map fst g)" by (simp add: hf comp_def)
    have i: "inj_on (\<lambda>k :: u64 \<times> u8. (fst k, unat (snd k))) A" for A
      by (auto simp: inj_on_def word_unat_eq_iff)
    have "distinct (map fst g)" using assms by (simp add: gains_ok_def)
    then show ?thesis unfolding e by (subst distinct_map) (rule conjI [OF _ i])
  qed
  moreover have "mset (map h (sort (map f g))) = mset (map h (map f g))" by (simp only: mset_map mset_sort)
  ultimately show "distinct (rank g)" unfolding r by (rule mset_eq_imp_distinct_iff [THEN iffD2, rotated])
qed

definition trained :: "nat \<Rightarrow> fsst_table \<Rightarrow> bool" where
  "trained max' t \<longleftrightarrow> table_wf t \<and> length (t_words t) \<le> min max' 255 \<and> all_reached t"

lemma train_round_trained:
  assumes "table_wf t"
  obtains t' where "train_round sample max' t = Some t'" "trained max' t'"
proof -
  from count_sample_total [OF assms] obtain c where c: "count_sample (encoder_of t) (length (t_words t))
      (length (t_words t) + 256) sample \<lparr>count1 = replicate (length (t_words t) + 256) 0,
        count2 = replicate ((length (t_words t) + 256) * (length (t_words t) + 256)) 0\<rparr> = Some c" by blast
  define g where "g = pair_gains t (length (t_words t) + 256) c (single_gains t (count1 c))"
  have "gains_ok g" unfolding g_def by (intro pair_gains_ok single_gains_ok assms)
  then have "trained max' (reachable (rank g) max')"
    unfolding trained_def by (intro reachable_ok rank_ok)
  with that c show ?thesis by (simp add: train_round_def Let_def g_def)
qed

lemma train_rounds_trained: "trained max' t \<Longrightarrow> \<exists>t'. train_rounds n sample max' t = Some t' \<and> trained max' t'"
proof (induction n arbitrary: t)
  case (Suc n)
  then have "table_wf t" by (simp add: trained_def)
  from train_round_trained [OF this] obtain t' where "train_round sample max' t = Some t'" "trained max' t'" by blast
  with Suc show ?case by simp
qed simp

text \<open>C29. Training always ends: on every sample and for every budget of symbols, each round's parse
  advances at every step, and the table it gives has at most the budget's symbols (and never more than
  255), each of one to eight bytes, and every one of them is a symbol the encoder built from the table
  emits when it stands alone. No candidate the encoder's slots would lose is in the table.\<close>

theorem fsst_train_total:
  "\<exists>t. train_to sample max' = Some t \<and> table_wf t \<and> length (t_words t) \<le> min max' 255 \<and> all_reached t"
proof -
  have "trained max' empty_table"
    by (simp add: trained_def table_wf_def empty_table_def all_reached_def)
  from train_rounds_trained [OF this, of ROUNDS sample] show ?thesis by (simp add: train_to_def trained_def)
qed

subsection \<open>The round trip\<close>

text \<open>C28. What the encoder of any well-formed table writes for a string, the table decodes back to it:
  the encoder ends, writes at most two bytes for each byte, and decoding onto any vector with a cap of
  \<open>cap\<close> bytes appends a prefix of the string that reaches the cap or is whole, and goes less than
  eight bytes past it.\<close>

theorem fsst_roundtrip:
  assumes "table_wf t"
  shows "\<exists>cs. fsst_encode_into (encoder_of t) s pre = Some (pre @ cs) \<and> length cs \<le> 2 * length s \<and>
    fsst_decode_into t cs out (length s) = Gives (out @ s) \<and>
    (\<exists>k. min cap (length s) \<le> k \<and> k < cap + 8 \<and> fsst_decode_into t cs out cap = Gives (out @ take k s))"
proof -
  obtain cs where cs: "fsst_encode_into (encoder_of t) s pre = Some (pre @ cs)" "length cs \<le> 2 * length s"
    "\<And>cap. \<exists>k. min cap (length s) \<le> k \<and> k < cap + 8 \<and> fsst_ref t cap cs = Some (take k s)"
    using fsst_encode_ok [OF assms] by blast
  have "fsst_decode_into t cs out (length s) = Gives (out @ s)"
    using cs(3) [of "length s"] by (auto simp: fsst_decode_ref [OF assms])
  moreover have "\<exists>k. min cap (length s) \<le> k \<and> k < cap + 8 \<and> fsst_decode_into t cs out cap = Gives (out @ take k s)"
    using cs(3) [of cap] by (auto simp: fsst_decode_ref [OF assms])
  ultimately show ?thesis using cs(1,2) by blast
qed

definition the_table :: fsst_table where
  "the_table = from_symbols [[116, 104, 101], [32]]"

lemma the_table_wf: "table_wf the_table"
  by (simp add: the_table_def from_symbols_def table_wf_def symbol_wf_def word_of_def u64_of_def)

theorem fsst_roundtrip_witness:
  "\<exists>cs. fsst_encode_into (encoder_of the_table) [116, 104, 101, 33] [] = Some ([] @ cs) \<and> length cs \<le> 2 * length [116, 104, 101, 33 :: u8] \<and>
    fsst_decode_into the_table cs [] (length [116, 104, 101, 33 :: u8]) = Gives ([] @ [116, 104, 101, 33]) \<and>
    (\<exists>k. min 2 (length [116, 104, 101, 33 :: u8]) \<le> k \<and> k < 2 + 8 \<and>
      fsst_decode_into the_table cs [] 2 = Gives ([] @ take k [116, 104, 101, 33]))"
  by (rule fsst_roundtrip [OF the_table_wf])

subsection \<open>Decoding what no encoder wrote\<close>

text \<open>C30. Under a table read from bytes, decoding is total on every stream: it never panics (no store
  leaves the room taken for it, and nothing is committed that was not written), it appends exactly the
  symbols the stream names up to the cap, and it refuses exactly where the stream names none: a code
  past the table, or an escape at the end.\<close>

theorem fsst_decode_total:
  assumes "fsst_from_bytes bs = Some t"
  shows "fsst_decode_into t packed out cap =
    (case fsst_ref t cap packed of None \<Rightarrow> Refuses | Some dec \<Rightarrow> Gives (out @ dec))"
  by (rule fsst_decode_ref) (use assms fsst_from_bytes_iff in blast)

theorem fsst_decode_total_witness:
  "fsst_decode_into \<lparr>t_words = [0x6261], t_lens = [2]\<rparr> [0, 255] [120] 9 =
    (case fsst_ref \<lparr>t_words = [0x6261], t_lens = [2]\<rparr> 9 [0, 255] of None \<Rightarrow> Refuses | Some dec \<Rightarrow> Gives ([120] @ dec))"
  by (rule fsst_decode_total [of "[1, 2, 97, 98]"])
    (simp add: fsst_from_bytes_def word_of_def u64_of_def word_le_nat_alt)

subsection \<open>The table in the blob\<close>

text \<open>C31. A table is read from exactly the bytes it is written as: bytes are accepted if and only if
  they are what \<^verbatim>\<open>write_to\<close> appends for a well-formed table, which is then the table read. Trailing
  bytes, a length of zero or above eight and a short tail are all refused.\<close>

theorem fsst_table_bytes:
  "fsst_from_bytes bs = Some t \<longleftrightarrow> table_wf t \<and> bs = fsst_write t [] \<and> length bs = fsst_len t"
  using fsst_from_bytes_iff [of bs t] length_fsst_write [of t "[]"] by auto

end
