(* ===== verification/Varint.thy ===== *)
theory Varint
  imports Fsst_Facts
begin

text \<open>
  The small routines of \<^verbatim>\<open>src/dict_index.rs\<close> every codec shares: variable-length integers, seven bits a
  byte with the low ones first, and the length of the prefix two keys share, compared a word at a time.
\<close>

subsection \<open>Varints\<close>

function put_varint :: "bytes \<Rightarrow> nat \<Rightarrow> bytes" where
  "put_varint out v = (if v \<ge> 0x80 then put_varint (out @ [of_nat v OR 0x80]) (v div 2 ^ 7) else out @ [of_nat v])"
  by pat_completeness auto
termination by (relation "measure snd") auto

declare put_varint.simps [simp del]

text \<open>\<open>get_varint\<close>'s loop: a seven-bit part that does not survive its shift refuses.\<close>

fun varint_loop :: "u64 \<Rightarrow> nat \<Rightarrow> bytes \<Rightarrow> (u64 \<times> bytes) option" where
  "varint_loop v shift [] = None"
| "varint_loop v shift (b # rest) = (let part = ucast (b AND 0x7F) :: u64 in
    if shift \<ge> 64 \<or> drop_bit shift (push_bit shift part) \<noteq> part then None
    else let v = v OR push_bit shift part in
      if b < 0x80 then Some (v, rest) else varint_loop v (shift + 7) rest)"

definition get_varint :: "bytes \<Rightarrow> (nat \<times> bytes) option" where
  "get_varint bs = map_option (\<lambda>(v, rest). (unat v, rest)) (varint_loop 0 0 bs)"

text \<open>The value and the cursor past it.\<close>

definition varint_at :: "bytes \<Rightarrow> nat \<Rightarrow> (nat \<times> nat) option" where
  "varint_at bs at = (case get_at bs at of
      Some b \<Rightarrow> if b < 0x80 then Some (unat b, at + 1)
        else (case get_from bs at of None \<Rightarrow> None
          | Some tail \<Rightarrow> map_option (\<lambda>(v, rest). (v, length bs - length rest)) (get_varint tail))
    | None \<Rightarrow> (case get_from bs at of None \<Rightarrow> None
          | Some tail \<Rightarrow> map_option (\<lambda>(v, rest). (v, length bs - length rest)) (get_varint tail)))"

function varint_len :: "nat \<Rightarrow> nat" where
  "varint_len v = (if v \<ge> 0x80 then Suc (varint_len (v div 2 ^ 7)) else 1)"
  by pat_completeness auto
termination by (relation "measure (\<lambda>v. v)") auto

declare varint_len.simps [simp del]

abbreviation varint :: "nat \<Rightarrow> bytes" where
  "varint v \<equiv> put_varint [] v"

lemma put_varint_append: "put_varint (out @ pre) v = out @ put_varint pre v"
proof (induction pre v arbitrary: out rule: put_varint.induct)
  case (1 pre v)
  show ?case
    by (subst (1 2) put_varint.simps) (use 1 in simp)
qed

lemma put_varint_eq: "put_varint out v = out @ varint v"
  using put_varint_append [of out "[]" v] by simp

lemma varint_Cons: "v \<ge> 0x80 \<Longrightarrow> varint v = (of_nat v OR 0x80) # varint (v div 2 ^ 7)"
  by (subst put_varint.simps) (simp add: put_varint_eq [of "[of_nat v OR 0x80]"])

lemma varint_small: "v < 0x80 \<Longrightarrow> varint v = [of_nat v]"
  by (subst put_varint.simps) simp

lemma length_varint: "length (varint v) = varint_len v"
proof (induction v rule: varint_len.induct)
  case (1 v)
  show ?case
  proof (cases "v \<ge> 0x80")
    case True
    have "varint_len v = Suc (varint_len (v div 2 ^ 7))" using True by (subst varint_len.simps) simp
    then show ?thesis using 1 [OF True] varint_Cons [OF True] by simp
  next
    case False
    then have "varint_len v = 1" by (subst varint_len.simps) simp
    then show ?thesis using False by (simp add: varint_small)
  qed
qed

lemma varint_len_pos: "0 < varint_len v"
  by (subst varint_len.simps) simp

lemma continued_byte:
  fixes w :: u8
  shows "(w OR 0x80) AND 0x7F = w AND 0x7F" and "\<not> w OR 0x80 < 0x80"
proof -
  have m: "(0x7F :: u8) = mask 7" by (simp add: mask_eq_decr_exp)
  have "(0x80 :: u8) = 2 ^ 7" by simp
  then have top: "bit (0x80 :: u8) n \<longleftrightarrow> n = 7" for n by (simp only: bit_exp_iff) auto
  show "(w OR 0x80) AND 0x7F = w AND 0x7F"
    unfolding m by (rule bit_word_eqI) (auto simp: bit_and_iff bit_or_iff bit_mask_iff top simp del: bit_numeral_word_iff)
  have "\<not> unat (w OR 0x80) < 2 ^ 7"
  proof
    assume "unat (w OR 0x80) < 2 ^ 7"
    then have "(w OR 0x80) AND mask 7 = w OR 0x80" by (simp add: word_unat_eq_iff unat_and_mask)
    moreover have "bit (w OR 0x80) 7" "\<not> bit ((w OR 0x80) AND mask 7) 7"
      by (simp_all add: bit_and_iff bit_or_iff bit_mask_iff top del: bit_numeral_word_iff)
    ultimately show False by metis
  qed
  then show "\<not> w OR 0x80 < 0x80" by (simp add: word_less_nat_alt)
qed

lemma low_byte: "unat (ucast (of_nat v AND 0x7F :: u8) :: u64) = v mod 128"
proof -
  have m: "(0x7F :: u8) = mask 7" by (simp add: mask_eq_decr_exp)
  have u: "unat (of_nat v AND 0x7F :: u8) = v mod 128"
    unfolding m unat_and_mask by (simp add: unat_of_nat mod_mod_cancel)
  have "unat (ucast (of_nat v AND 0x7F :: u8) :: u64) = take_bit 64 (unat (of_nat v AND 0x7F :: u8))"
    by (simp add: unsigned_ucast_eq)
  also have "\<dots> = v mod 128" unfolding u by (rule take_bit_nat_eq_self) (rule less_trans [of _ 128], simp_all)
  finally show ?thesis .
qed

lemma varint_part:
  assumes "unat acc < 2 ^ s" "s < 64" "unat p * 2 ^ s < 2 ^ 64" "unat (p::u64) < 2 ^ k"
  shows "drop_bit s (push_bit s p) = p" "unat (acc OR push_bit s p) = unat acc + 2 ^ s * unat p"
proof -
  have "unat (push_bit s p) = 2 ^ s * unat p"
    using assms(3) by (simp add: unat_push_bit mult.commute)
  then show "drop_bit s (push_bit s p) = p" by (simp add: word_unat_eq_iff unat_drop_bit)
  have "acc OR push_bit s p = acc + push_bit s p" by (rule or_push_bit_add [OF assms(1)])
  moreover have "2 ^ s * unat p + 2 ^ s \<le> 2 ^ 64"
  proof -
    have e: "(2::nat) ^ 64 = 2 ^ s * 2 ^ (64 - s)" using assms(2) by (simp flip: power_add)
    then have "unat p < 2 ^ (64 - s)" using assms(3) by (metis mult.commute mult_less_cancel1)
    then have "2 ^ s * (unat p + 1) \<le> 2 ^ s * 2 ^ (64 - s)" by (intro mult_le_mono2) simp
    then show ?thesis using e by simp
  qed
  ultimately show "unat (acc OR push_bit s p) = unat acc + 2 ^ s * unat p"
    using \<open>unat (push_bit s p) = 2 ^ s * unat p\<close> assms(1) by (simp add: unat_word_ariths)
qed

lemma varint_loop_put:
  "unat acc < 2 ^ s \<Longrightarrow> s < 64 \<Longrightarrow> v * 2 ^ s < 2 ^ 64 \<Longrightarrow>
    \<exists>w. varint_loop acc s (varint v @ rest) = Some (w, rest) \<and> unat w = unat acc + 2 ^ s * v"
proof (induction v arbitrary: acc s rule: varint_len.induct)
  case (1 v)
  define p :: u64 where "p = ucast (of_nat v AND 0x7F :: u8)"
  have p: "unat p = v mod 128" unfolding p_def by (rule low_byte)
  have "v mod 128 * 2 ^ s \<le> v * 2 ^ s" by (intro mult_le_mono1) simp
  then have "unat p * 2 ^ s < 2 ^ 64" unfolding p using 1(4) by (rule order.strict_trans1)
  moreover have "unat p < 2 ^ 7" using p by simp
  ultimately have "unat p * 2 ^ s < 2 ^ 64" "unat p < 2 ^ 7" by simp_all
  note part = varint_part [OF 1(2,3) this]
  show ?case
  proof (cases "v \<ge> 0x80")
    case False
    then have "varint v = [of_nat v]" "(of_nat v :: u8) < 0x80"
      by (simp_all add: varint_small word_less_nat_alt unat_of_nat)
    then show ?thesis using part p False 1(3) by (simp add: Let_def p_def [symmetric])
  next
    case True
    have v: "v = v mod 128 + 128 * (v div 2 ^ 7)" by simp
    have "2 ^ s * unat p + 2 ^ s * 128 * (v div 2 ^ 7) = 2 ^ s * v"
      using p v by (metis distrib_left mult.assoc)
    then have big: "v div 2 ^ 7 * 2 ^ (s + 7) < 2 ^ 64" 
      using 1(4) by (simp add: power_add algebra_simps)
    have s7: "s + 7 < 64"
    proof (rule ccontr)
      assume "\<not> s + 7 < 64"
      then have "(2::nat) ^ 64 \<le> 2 ^ (s + 7)" by (intro power_increasing) simp_all
      moreover have "1 * 2 ^ (s + 7) \<le> v div 2 ^ 7 * 2 ^ (s + 7)" using True by (intro mult_le_mono1) simp
      ultimately show False using big by linarith
    qed
    have "2 ^ s * (unat p + 1) \<le> 2 ^ s * 2 ^ 7" using p by (intro mult_le_mono2) simp
    then have "2 ^ s * unat p + 2 ^ s \<le> 2 ^ (s + 7)" by (simp only: distrib_left mult_1_right power_add)
    then have "unat (acc OR push_bit s p) < 2 ^ (s + 7)" using part(2) 1(2) by linarith
    from 1(1) [OF True this s7 big] obtain w where w:
      "varint_loop (acc OR push_bit s p) (s + 7) (varint (v div 2 ^ 7) @ rest) = Some (w, rest)"
      "unat w = unat (acc OR push_bit s p) + 2 ^ (s + 7) * (v div 2 ^ 7)" by blast
    have "varint_loop acc s (varint v @ rest) = Some (w, rest)"
      using True part(1) 1(3) w(1) by (simp add: varint_Cons Let_def continued_byte p_def [symmetric])
    moreover have "unat w = unat acc + 2 ^ s * v"
      using w(2) part(2) \<open>2 ^ s * unat p + 2 ^ s * 128 * (v div 2 ^ 7) = 2 ^ s * v\<close>
      by (simp add: power_add algebra_simps)
    ultimately show ?thesis by blast
  qed
qed

lemma get_varint_put:
  assumes "v < 2 ^ 64"
  shows "get_varint (varint v @ rest) = Some (v, rest)"
  using varint_loop_put [of 0 0 v rest] assms by (auto simp: get_varint_def)

lemma varint_at_put:
  assumes "v < 2 ^ 64"
  shows "varint_at (pre @ varint v @ rest) (length pre) = Some (v, length pre + varint_len v)"
proof (cases "v < 0x80")
  case True
  then have "varint_len v = 1" by (subst varint_len.simps) simp
  with True show ?thesis
    by (simp add: varint_at_def get_at_def varint_small word_less_nat_alt unat_of_nat)
next
  case False
  then obtain b bs where b: "varint v = b # bs" "\<not> b < 0x80" by (auto simp: varint_Cons continued_byte)
  then have "get_at (pre @ varint v @ rest) (length pre) = Some b" by (simp add: get_at_def)
  moreover have "get_from (pre @ varint v @ rest) (length pre) = Some (varint v @ rest)"
    by (simp add: get_from_def)
  ultimately show ?thesis
    using b(2) by (simp add: varint_at_def get_varint_put [OF assms] length_varint)
qed

text \<open>What a varint read gives fits a \<^verbatim>\<open>usize\<close> and moves the cursor on, within the data.\<close>

lemma varint_loop_rest: "varint_loop v s bs = Some (w, rest) \<Longrightarrow> \<exists>pre. bs = pre @ rest \<and> pre \<noteq> []"
proof (induction bs arbitrary: v s)
  case (Cons b bs)
  then show ?case
    by (auto simp: Let_def split: if_splits) (metis append_Cons list.distinct(1))
qed simp

lemma varint_at_progress:
  assumes "varint_at bs at = Some (v, at')"
  shows "at < at' \<and> at' \<le> length bs \<and> v < 2 ^ 64"
proof -
  have tail: "at < length bs - length rest \<and> length bs - length rest \<le> length bs \<and> unat w < 2 ^ 64"
    if "get_from bs at = Some tail" "varint_loop 0 0 tail = Some (w, rest)" for tail w rest
  proof -
    from varint_loop_rest [OF that(2)] obtain pre where "tail = pre @ rest" "pre \<noteq> []" by blast
    moreover have "tail = drop at bs" "at \<le> length bs"
      using that(1) by (auto simp: get_from_def split: if_splits)
    ultimately have "length rest < length tail" "length tail = length bs - at" "at \<le> length bs"
      by (simp_all flip: length_drop)
    then show ?thesis using unat_less_power [of w] by auto
  qed
  have "unat b < 2 ^ 64" for b :: u8 using unat_u8_less [of b] by (rule less_trans) simp
  then show ?thesis
    using assms tail
    by (auto simp: varint_at_def get_varint_def get_at_def split: option.splits if_splits)
qed

end
