(* ===== verification/Paircode.thy ===== *)
theory Paircode
  imports Varint Packed
begin

text \<open>
  \<^verbatim>\<open>src/paircode.rs\<close>: the \<open>(lcp, len)\<close> pairs of a front-coded run at a fixed width, either as offsets
  in a frame fitted to the run or as indices of a table learned for the group. The all-ones code is
  the escape; the pair then follows as two varints in the entry's suffix.

  A \<^verbatim>\<open>usize\<close> sum the reader forms from a stored base wraps at 64 bits, as it does in a build without
  overflow checks; a subtraction the writer would underflow ends the model's writer in \<open>None\<close>.
\<close>

subsection \<open>The codes\<close>

definition FRAME_MAX :: nat where "FRAME_MAX = 15"
definition TABLE_MAX :: nat where "TABLE_MAX = 10"
definition TABLE_HEADER :: nat where "TABLE_HEADER = 4"
definition FIELD_MAX :: nat where "FIELD_MAX = 255"
definition PROLOGUE_MAX :: nat where "PROLOGUE_MAX = 56"
definition OFFSET_MAX :: nat where "OFFSET_MAX = 32"
definition GRID :: nat where "GRID = FRAME_MAX + 2"

type_synonym pairs = "(nat \<times> nat) list"

record frames =
  fr_bl :: nat
  fr_bn :: nat
  fr_wl :: nat
  fr_wn :: nat
  fr_m :: "u32 list"
  fr_sh :: "nat list"

datatype pair_code = Frame frames | Table nat "u16 list"

definition frames_none :: frames where
  "frames_none = \<lparr>fr_bl = 0, fr_bn = 0, fr_wl = 0, fr_wn = 0, fr_m = [0, 0, 0, 0], fr_sh = [0, 0, 0, 0, 0]\<rparr>"

definition usize_add :: "nat \<Rightarrow> nat \<Rightarrow> nat" where
  "usize_add a b = (a + b) mod usize_bound"

definition bits_of :: "nat \<Rightarrow> nat" where
  "bits_of d = bit_len d"

definition width_top :: "nat \<Rightarrow> nat" where
  "width_top w = 2 ^ w - 1"

definition escape_len :: "nat \<Rightarrow> nat \<Rightarrow> nat" where
  "escape_len l len = varint_len l + varint_len len"

definition bases :: "pairs \<Rightarrow> nat \<times> nat" where
  "bases ps = fold (\<lambda>p (l, n). (min l (fst p), min n (snd p))) ps (usize_bound - 1, usize_bound - 1)"

definition frame_fits :: "nat \<Rightarrow> nat \<Rightarrow> nat \<Rightarrow> nat \<Rightarrow> bool" where
  "frame_fits dl dn wl wn \<longleftrightarrow> dl \<le> width_top wl \<and> dn \<le> width_top wn \<and> (dl, dn) \<noteq> (width_top wl, width_top wn)"

definition is_power_of_two :: "nat \<Rightarrow> bool" where
  "is_power_of_two n \<longleftrightarrow> n = 2 ^ (bits_of n - 1)"

subsection \<open>The widths a run is cheapest under\<close>

text \<open>The three tables the search prices widths over are kept between runs, with whatever an earlier
  run left outside the rectangle this one clears.\<close>

type_synonym grid = "nat list list"

record widths =
  wd_esc :: grid
  wd_corner :: grid
  wd_fit :: grid

definition gget :: "grid \<Rightarrow> nat \<Rightarrow> nat \<Rightarrow> nat" where
  "gget g i j = g ! i ! j"

definition gset :: "grid \<Rightarrow> nat \<Rightarrow> nat \<Rightarrow> nat \<Rightarrow> grid" where
  "gset g i j v = g[i := (g ! i)[j := v]]"

definition clear_rect :: "nat \<Rightarrow> nat \<Rightarrow> grid \<Rightarrow> grid" where
  "clear_rect rows cols g =
    map (\<lambda>r. replicate (min (cols + 1) (length r)) 0 @ drop (cols + 1) r) (take (rows + 1) g) @ drop (rows + 1) g"

definition widths_default :: widths where
  "widths_default = (let g = replicate GRID (replicate GRID 0) in \<lparr>wd_esc = g, wd_corner = g, wd_fit = g\<rparr>)"

definition capped :: "nat \<Rightarrow> nat" where
  "capped d = min (bits_of d) (FRAME_MAX + 1)"

definition tally :: "nat \<Rightarrow> nat \<Rightarrow> nat \<times> nat \<Rightarrow> grid \<times> grid \<times> nat \<Rightarrow> grid \<times> grid \<times> nat" where
  "tally bl bn p st = (case (p, st) of ((l, len), (esc, corner, total_esc)) \<Rightarrow>
    let W = FRAME_MAX + 1; dl = l - bl; dn = len - bn; e = escape_len l len;
      hl = capped dl; hn = capped dn;
      esc = gset esc hl hn (gget esc hl hn + e);
      corner = (if hl < W \<and> hn < W \<and> is_power_of_two (dl + 1) \<and> is_power_of_two (dn + 1)
        then gset corner hl hn (gget corner hl hn + e) else corner)
    in (esc, corner, total_esc + e))"

definition fit_row :: "grid \<Rightarrow> nat \<Rightarrow> nat \<Rightarrow> nat \<times> grid \<Rightarrow> nat \<times> grid" where
  "fit_row esc wl wn st = (case st of (row, fit) \<Rightarrow>
    let row = row + gget esc wl wn
    in (row, gset fit wl wn (row + (if wl > 0 then gget fit (wl - 1) wn else 0))))"

definition fit_table :: "nat \<Rightarrow> nat \<Rightarrow> grid \<Rightarrow> grid \<Rightarrow> grid" where
  "fit_table lh nh esc fit =
    fold (\<lambda>wl fit. snd (fold (fit_row esc wl) [0..<nh + 1] (0, fit))) [0..<lh + 1] fit"

type_synonym best = "(nat \<times> nat \<times> nat) \<times> nat"

definition price :: "nat \<Rightarrow> grid \<Rightarrow> grid \<Rightarrow> nat \<Rightarrow> nat \<Rightarrow> nat \<Rightarrow> best \<Rightarrow> best" where
  "price n fit corner total_esc wl wn st = (case st of (best, cheapest) \<Rightarrow>
    let bits = n * (wl + wn); esc = (total_esc - gget fit wl wn) + gget corner wl wn;
      cost = div_ceil bits 8 + esc
    in if cost < cheapest then ((wl, wn, esc), cost) else (best, cheapest))"

definition search_widths :: "nat \<Rightarrow> nat \<Rightarrow> nat \<Rightarrow> grid \<Rightarrow> grid \<Rightarrow> nat \<Rightarrow> nat \<times> nat \<times> nat" where
  "search_widths n lh nh fit corner total_esc =
    fst (fold (\<lambda>wl st. fold (price n fit corner total_esc wl) [0..<nh + 1] st) [0..<lh + 1]
      ((0, 0, 0), usize_bound - 1))"

definition frame_widths :: "pairs \<Rightarrow> widths \<Rightarrow> (nat \<times> nat \<times> nat) \<times> widths" where
  "frame_widths ps w =
    (let bl = fst (bases ps); bn = snd (bases ps);
       hl_max = fold (\<lambda>p h. max h (capped (fst p - bl))) ps 0;
       hn_max = fold (\<lambda>p h. max h (capped (snd p - bn))) ps 0;
       lh = min (hl_max + 1) FRAME_MAX; nh = min (hn_max + 1) FRAME_MAX;
       rows = max lh hl_max; cols = max nh hn_max;
       (esc, corner, total_esc) =
         fold (tally bl bn) ps (clear_rect rows cols (wd_esc w), clear_rect rows cols (wd_corner w), 0);
       fit = fit_table lh nh esc (wd_fit w)
     in (search_widths (length ps) lh nh fit corner total_esc, \<lparr>wd_esc = esc, wd_corner = corner, wd_fit = fit\<rparr>))"

record fit =
  ft_bl :: nat
  ft_bn :: nat
  ft_wl :: nat
  ft_wn :: nat
  ft_esc :: nat
  ft_n :: nat

definition fit_run :: "pairs \<Rightarrow> widths \<Rightarrow> fit \<times> widths" where
  "fit_run ps w = (case frame_widths ps w of ((wl, wn, esc), w) \<Rightarrow>
    (\<lparr>ft_bl = fst (bases ps), ft_bn = snd (bases ps), ft_wl = wl, ft_wn = wn, ft_esc = esc, ft_n = length ps\<rparr>, w))"

subsection \<open>A group's layout\<close>

definition offset_mask :: "nat \<Rightarrow> u32" where
  "offset_mask w = ucast (push_bit w 1 - 1 :: u64)"

definition frames_new :: "nat \<Rightarrow> nat \<Rightarrow> nat \<Rightarrow> nat \<Rightarrow> nat \<Rightarrow> nat \<Rightarrow> nat \<Rightarrow> nat \<Rightarrow> frames option" where
  "frames_new bl bn wl wn p0 p1 p2 p3 =
    (if p0 + p1 + p2 + p3 > PROLOGUE_MAX \<or> p0 > OFFSET_MAX \<or> p1 > OFFSET_MAX then None
     else Some \<lparr>fr_bl = bl, fr_bn = bn, fr_wl = wl, fr_wn = wn,
       fr_m = [offset_mask p0, offset_mask p1, offset_mask p2, offset_mask p3],
       fr_sh = [0, p0, p0 + p1, p0 + p1 + p2, p0 + p1 + p2 + p3]\<rparr>)"

definition lo_hi :: "(fit \<Rightarrow> nat) \<Rightarrow> fit list \<Rightarrow> nat \<times> nat" where
  "lo_hi sel fits = fold (\<lambda>f (lo, hi). (min lo (sel f), max hi (sel f))) fits (sel (hd fits), sel (hd fits))"

definition frames_over :: "fit list \<Rightarrow> frames option" where
  "frames_over fits = (if fits = [] then None else
    (case (lo_hi ft_bl fits, lo_hi ft_bn fits, lo_hi ft_wl fits, lo_hi ft_wn fits) of
      ((l0, h0), (l1, h1), (l2, h2), (l3, h3)) \<Rightarrow>
        frames_new l0 l1 l2 l3 (bits_of (h0 - l0)) (bits_of (h1 - l1)) (bits_of (h2 - l2)) (bits_of (h3 - l3))))"

definition frames_bits :: "frames \<Rightarrow> nat" where
  "frames_bits f = fr_sh f ! 4"

definition frames_len :: "frames \<Rightarrow> nat" where
  "frames_len f = varint_len (fr_bl f) + varint_len (fr_bn f) + 4"

definition frames_cost :: "frames \<Rightarrow> fit list \<Rightarrow> nat" where
  "frames_cost f fits = frames_len f +
    sum_list (map (\<lambda>r. div_ceil (frames_bits f + ft_n r * (ft_wl r + ft_wn r)) 8 + ft_esc r) fits)"

definition mask_width :: "u32 \<Rightarrow> nat" where
  "mask_width w = length (filter (bit w) [0..<32])"

definition frames_write :: "frames \<Rightarrow> bytes \<Rightarrow> bytes" where
  "frames_write f out = (let p = map mask_width (fr_m f) in
    put_varint (put_varint out (fr_bl f)) (fr_bn f) @
      [push_bit 4 (of_nat (fr_wl f)) OR of_nat (fr_wn f), of_nat (p ! 0), of_nat (p ! 1),
       push_bit 4 (of_nat (p ! 2)) OR of_nat (p ! 3)])"

definition frames_read :: "bytes \<Rightarrow> (frames \<times> bytes) option" where
  "frames_read bs =
    (case varint_at bs 0 of None \<Rightarrow> None | Some (bl, at) \<Rightarrow>
     (case varint_at bs at of None \<Rightarrow> None | Some (bn, at) \<Rightarrow>
      (if at + 4 > length bs then None
       else let ws = bs ! at; p0 = bs ! (at + 1); p1 = bs ! (at + 2); pw = bs ! (at + 3)
         in map_option (\<lambda>f. (f, drop (at + 4) bs))
              (frames_new bl bn (unat (drop_bit 4 ws)) (unat (ws AND 0xF))
                (unat p0) (unat p1) (unat (drop_bit 4 pw)) (unat (pw AND 0xF))))))"

subsection \<open>Choosing a code\<close>

definition pair_key :: "nat \<times> nat \<Rightarrow> nat" where
  "pair_key p = push_bit 8 (fst p) OR snd p"

definition nameable :: "nat \<times> nat \<Rightarrow> bool" where
  "nameable p \<longleftrightarrow> fst p \<le> FIELD_MAX \<and> snd p \<le> FIELD_MAX"

definition pair_counts :: "pairs \<Rightarrow> nat list" where
  "pair_counts ps = fold (\<lambda>p counts. if nameable p
      then counts[pair_key p := counts ! pair_key p + 1] else counts) ps (replicate (2 ^ 16) 0)"

definition ranked_pairs :: "nat list \<Rightarrow> ((nat \<times> nat) \<times> nat) list" where
  "ranked_pairs counts = sort_key (\<lambda>(p, saved). (- int saved, p))
    (map (\<lambda>(key, n). let p = (key div 2 ^ 8, key mod 2 ^ 8) in (p, n * escape_len (fst p) (snd p)))
      (filter (\<lambda>(key, n). n > 0) (enumerate 0 counts)))"

definition table_of :: "nat \<Rightarrow> ((nat \<times> nat) \<times> nat) list \<Rightarrow> nat \<Rightarrow> nat \<Rightarrow> pair_code \<times> nat" where
  "table_of entries ranked loose w =
    (let slots = min (width_top w) (length ranked);
       escaped_all = sum_list (map snd ranked);
       named = sum_list (map snd (take slots ranked));
       table = TABLE_HEADER + 2 * slots
     in (Table w (map (\<lambda>(p, _). push_bit 8 (of_nat (fst p)) OR of_nat (snd p)) (take slots ranked)),
         div_ceil (entries * w) 8 + (escaped_all - named) + loose + table))"

definition best_table :: "pairs list \<Rightarrow> (pair_code \<times> nat) option" where
  "best_table runs = (let ps = concat runs; entries = length ps
    in if entries = 0 then None
       else let ranked = ranked_pairs (pair_counts ps);
           loose = sum_list (map (\<lambda>p. escape_len (fst p) (snd p)) (filter (\<lambda>p. \<not> nameable p) ps))
         in fold (\<lambda>w best. let (t, cost) = table_of entries ranked loose w in
              (case best of None \<Rightarrow> Some (t, cost) | Some (_, b) \<Rightarrow> if cost < b then Some (t, cost) else best))
            [1..<TABLE_MAX + 1] None)"

fun fit_runs :: "pairs list \<Rightarrow> widths \<Rightarrow> fit list \<times> widths" where
  "fit_runs [] w = ([], w)"
| "fit_runs (r # rs) w = (case fit_run r w of (f, w) \<Rightarrow> case fit_runs rs w of (fs, w) \<Rightarrow> (f # fs, w))"

definition choose_cost :: "pairs list \<Rightarrow> pair_code \<times> nat" where
  "choose_cost runs =
    (let fits = fst (fit_runs (filter (\<lambda>r. r \<noteq> []) runs) widths_default);
       frame = map_option (\<lambda>f. (f, frames_cost f fits)) (frames_over fits)
     in case (best_table runs, frame) of
          (Some (code, bytes), Some (f, cost)) \<Rightarrow> if bytes < cost then (code, bytes) else (Frame f, cost)
        | (Some (code, bytes), None) \<Rightarrow> (code, bytes)
        | (None, Some (f, cost)) \<Rightarrow> (Frame f, cost)
        | (None, None) \<Rightarrow> (Frame frames_none, 0))"

subsection \<open>The code in the blob\<close>

definition code_write :: "pair_code \<Rightarrow> bytes \<Rightarrow> bytes" where
  "code_write code out = (case code of
      Frame f \<Rightarrow> frames_write f (out @ [0])
    | Table w ps \<Rightarrow> out @ [1, of_nat w] @ u16_bytes (of_nat (length ps)) @ concat (map u16_bytes ps))"

definition code_read :: "bytes \<Rightarrow> (pair_code \<times> bytes) option" where
  "code_read bs = (case bs of [] \<Rightarrow> None | tag # rest \<Rightarrow>
    if tag = 0 then map_option (\<lambda>(f, rest). (Frame f, rest)) (frames_read rest)
    else if tag = 1 then (case rest of w # c0 # c1 # rest \<Rightarrow>
        let count = le_nat [c0, c1] in
        if w = 0 \<or> unat w > TABLE_MAX \<or> count > width_top (unat w) then None
        else if 2 * count > length rest then None
        else Some (Table (unat w) (map (\<lambda>c. of_nat (le_nat c)) (chunks 2 (take (2 * count) rest))), drop (2 * count) rest)
      | _ \<Rightarrow> None)
    else None)"

definition code_len :: "pair_code \<Rightarrow> nat" where
  "code_len code = (case code of Frame f \<Rightarrow> 1 + frames_len f | Table w ps \<Rightarrow> TABLE_HEADER + 2 * length ps)"

subsection \<open>Writing a run\<close>

definition inverse_of :: "pair_code \<Rightarrow> u16 list" where
  "inverse_of code = (case code of Frame _ \<Rightarrow> []
    | Table _ ps \<Rightarrow> fold (\<lambda>(i, p) slots. slots[unat p := of_nat i]) (enumerate 0 ps) (replicate (2 ^ 16) 65535))"

record writer =
  pw_bits :: u64
  pw_used :: nat
  pw_out :: bytes
  pw_width :: nat
  pw_frame :: "(nat \<times> nat \<times> nat \<times> nat) option"
  pw_slots :: "u16 list"

definition clamped :: "frames \<Rightarrow> fit \<Rightarrow> nat list" where
  "clamped f run = map2 (\<lambda>v m. min v (unat m))
    [ft_bl run - fr_bl f, ft_bn run - fr_bn f, ft_wl run - fr_wl f, ft_wn run - fr_wn f] (fr_m f)"

definition prologue :: "frames \<Rightarrow> nat list \<Rightarrow> u64" where
  "prologue f d = fold (\<lambda>(sh, v) acc. acc OR push_bit sh (of_nat v)) (zip (fr_sh f) d) 0"

definition writer_new :: "pair_code \<Rightarrow> pairs \<Rightarrow> widths \<Rightarrow> writer \<times> widths" where
  "writer_new code ps w = (case code of
      Frame f \<Rightarrow> (case fit_run ps w of (run, w) \<Rightarrow>
        let d = clamped f run;
          bl = fr_bl f + d ! 0; bn = fr_bn f + d ! 1; wl = fr_wl f + d ! 2; wn = fr_wn f + d ! 3
        in case flush_bytes [] (prologue f d) (frames_bits f) of (out, acc, used) \<Rightarrow>
          (\<lparr>pw_bits = acc, pw_used = used, pw_out = out, pw_width = wl + wn,
            pw_frame = Some (bl, wl, bn, wn), pw_slots = []\<rparr>, w))
    | Table tw _ \<Rightarrow> (\<lparr>pw_bits = 0, pw_used = 0, pw_out = [], pw_width = tw, pw_frame = None,
        pw_slots = inverse_of code\<rparr>, w))"

text \<open>The code of a pair, and what goes to the suffix.\<close>

definition pair_code_of :: "writer \<Rightarrow> nat \<Rightarrow> nat \<Rightarrow> bytes \<Rightarrow> (nat \<times> bytes) option" where
  "pair_code_of w l len sfx = (case pw_frame w of
      Some (bl, wl, bn, wn) \<Rightarrow>
        if l < bl \<or> len < bn then None
        else let dl = l - bl; dn = len - bn
          in if frame_fits dl dn wl wn then Some (push_bit wn dl OR dn, sfx)
             else Some (push_bit wn (width_top wl) OR width_top wn, put_varint (put_varint sfx l) len)
    | None \<Rightarrow>
        let slot = (if l \<le> FIELD_MAX \<and> len \<le> FIELD_MAX then pw_slots w ! pair_key (l, len) else 65535)
        in if slot = 65535 then Some (width_top (pw_width w), put_varint (put_varint sfx l) len)
           else Some (unat slot, sfx))"

definition pw_push :: "writer \<Rightarrow> nat \<Rightarrow> nat \<Rightarrow> bytes \<Rightarrow> (writer \<times> bytes) option" where
  "pw_push w l len sfx = map_option (\<lambda>(code, sfx).
      case flush_bytes (pw_out w) (pw_bits w OR push_bit (pw_used w) (of_nat code)) (pw_used w + pw_width w) of
        (out, bits, used) \<Rightarrow> (w\<lparr>pw_bits := bits, pw_used := used, pw_out := out\<rparr>, sfx))
    (pair_code_of w l len sfx)"

definition pw_finish :: "writer \<Rightarrow> bytes \<Rightarrow> bytes" where
  "pw_finish w out = out @ pw_out w @ (if pw_used w > 0 then [ucast (pw_bits w)] else [])"

subsection \<open>Reading a run\<close>

record run_frame =
  rf_bl :: nat
  rf_bn :: nat
  rf_wn :: nat
  rf_mask_n :: nat

record reader =
  rd_data :: bytes
  rd_hdr_end :: nat
  rd_bit :: nat
  rd_width :: nat
  rd_mask :: u64
  rd_frame :: run_frame
  rd_is_frame :: bool
  rd_table :: "u16 list"

definition run_frame_none :: run_frame where
  "run_frame_none = \<lparr>rf_bl = 0, rf_bn = 0, rf_wn = 0, rf_mask_n = 0\<rparr>"

definition reader_none :: reader where
  "reader_none = \<lparr>rd_data = [], rd_hdr_end = 0, rd_bit = 0, rd_width = 0, rd_mask = 0,
    rd_frame = run_frame_none, rd_is_frame = False, rd_table = []\<rparr>"

definition tail_word :: "bytes \<Rightarrow> nat \<Rightarrow> u64" where
  "tail_word data byte = (let rest = drop (min byte (length data)) data; n = min (length rest) 8
    in u64_of (take n rest @ replicate (8 - n) 0))"

definition load_word :: "bytes \<Rightarrow> nat \<Rightarrow> u64" where
  "load_word data byte = (if byte + 8 \<le> length data then u64_of (take 8 (drop byte data)) else tail_word data byte)"

definition offset_at :: "frames \<Rightarrow> u64 \<Rightarrow> nat \<Rightarrow> nat" where
  "offset_at f word k = unat (drop_bit (fr_sh f ! k) word AND ucast (fr_m f ! k))"

definition reader_frame :: "frames \<Rightarrow> bytes \<Rightarrow> (nat \<times> nat \<times> run_frame) option" where
  "reader_frame f data =
    (let bits = frames_bits f; word = load_word data 0;
       wl = fr_wl f + offset_at f word 2; wn = fr_wn f + offset_at f word 3
     in if length data * 8 < bits then None
        else if wl > FRAME_MAX \<or> wn > FRAME_MAX then None
        else Some (bits, wl + wn,
          \<lparr>rf_bl = usize_add (fr_bl f) (offset_at f word 0), rf_bn = usize_add (fr_bn f) (offset_at f word 1),
            rf_wn = wn, rf_mask_n = width_top wn\<rparr>))"

definition reader_at :: "bytes \<Rightarrow> nat \<Rightarrow> nat \<Rightarrow> nat \<Rightarrow> run_frame \<Rightarrow> bool \<Rightarrow> u16 list \<Rightarrow> (reader \<times> bytes) option" where
  "reader_at data count at width frame is_frame table =
    (let end = div_ceil (at + count * width) 8
     in map_option (\<lambda>sfx. (\<lparr>rd_data = data, rd_hdr_end = end, rd_bit = at, rd_width = width,
          rd_mask = low_ones width, rd_frame = frame, rd_is_frame = is_frame, rd_table = table\<rparr>, sfx))
        (get_from data end))"

definition reader_of :: "pair_code \<Rightarrow> bytes \<Rightarrow> nat \<Rightarrow> (reader \<times> bytes) option" where
  "reader_of code data count = (case code of
      Frame f \<Rightarrow> (case reader_frame f data of None \<Rightarrow> None
        | Some (at, width, frame) \<Rightarrow> reader_at data count at width frame True [])
    | Table w ps \<Rightarrow> reader_at data count 0 w run_frame_none False ps)"

definition next_code :: "reader \<Rightarrow> nat \<times> reader" where
  "next_code r = (unat (drop_bit (rd_bit r mod 8) (load_word (rd_data r) (rd_bit r div 8)) AND rd_mask r),
    r\<lparr>rd_bit := rd_bit r + rd_width r\<rparr>)"

definition pair_as :: "bool \<Rightarrow> reader \<Rightarrow> nat \<Rightarrow> (nat \<times> nat) option" where
  "pair_as frame r code =
    (if frame then
       (if code = unat (rd_mask r) then None
        else Some (usize_add (rf_bl (rd_frame r)) (drop_bit (rf_wn (rd_frame r)) code),
          usize_add (rf_bn (rd_frame r)) (code AND rf_mask_n (rd_frame r))))
     else map_option (\<lambda>p. (unat (drop_bit 8 p), unat (p AND 0xFF))) (get_at (rd_table r) code))"

definition header_bytes :: "reader \<Rightarrow> nat" where
  "header_bytes r = rd_hdr_end r"

end
