(* ===== verification/Paircode_Facts.thy ===== *)
theory Paircode_Facts
  imports Paircode
begin

text \<open>
  Facts on \<^verbatim>\<open>src/paircode.rs\<close>: the histogram search over frame widths finds what pricing every width
  would, and a run reads back the pairs it was written from, whichever code its group takes.
\<close>

subsection \<open>Widths, bases and what fits\<close>

lemma bits_of_le: "bits_of d \<le> w \<longleftrightarrow> d < 2 ^ w"
  by (simp add: bits_of_def bit_len_le_iff)

lemma le_width_top: "d \<le> width_top w \<longleftrightarrow> d < 2 ^ w"
  by (cases "(2::nat) ^ w") (auto simp: width_top_def)

lemma width_top_less [simp]: "width_top w < 2 ^ w"
  by (simp add: width_top_def)

lemma bits_of_top: "bits_of (width_top w) = w"
proof (rule antisym)
  show "bits_of (width_top w) \<le> w" by (simp add: bits_of_le)
  show "w \<le> bits_of (width_top w)"
  proof (cases w)
    case (Suc k)
    have "\<not> bits_of (width_top w) \<le> k" by (simp add: bits_of_le Suc width_top_def)
    then show ?thesis by (simp add: Suc)
  qed simp
qed

lemma bits_of_eq: "0 < d \<Longrightarrow> 2 ^ (bits_of d - 1) \<le> d \<and> d < 2 ^ bits_of d"
proof
  assume "0 < d"
  show "d < 2 ^ bits_of d" using bits_of_le [of d "bits_of d"] by simp
  have "bits_of d \<noteq> 0" using \<open>0 < d\<close> bits_of_le [of d 0] by auto
  then have "\<not> bits_of d \<le> bits_of d - 1" by simp
  then show "2 ^ (bits_of d - 1) \<le> d" by (simp add: bits_of_le)
qed

lemma is_power_of_two_iff: "is_power_of_two n \<longleftrightarrow> (\<exists>k. n = 2 ^ k)"
proof
  assume "\<exists>k. n = 2 ^ k"
  then obtain k where k: "n = 2 ^ k" by blast
  have "bits_of n = Suc k"
  proof (rule antisym)
    show "bits_of n \<le> Suc k" by (simp add: bits_of_le k)
    have "\<not> bits_of n \<le> k" by (simp add: bits_of_le k)
    then show "Suc k \<le> bits_of n" by simp
  qed
  then show "is_power_of_two n" by (simp add: is_power_of_two_def k)
qed (auto simp: is_power_of_two_def)

text \<open>The corner: an offset of exactly \<open>w\<close> bits one short of a power of two is the all-ones field.\<close>

lemma corner_iff: "bits_of d = w \<and> is_power_of_two (d + 1) \<longleftrightarrow> d = width_top w"
proof
  assume a: "bits_of d = w \<and> is_power_of_two (d + 1)"
  then obtain k where k: "d + 1 = 2 ^ k" by (auto simp: is_power_of_two_iff)
  then have "d = width_top k" by (simp add: width_top_def)
  then show "d = width_top w" using a by (simp add: bits_of_top)
next
  assume "d = width_top w"
  then show "bits_of d = w \<and> is_power_of_two (d + 1)"
    using bits_of_top [of w] by (auto simp: is_power_of_two_iff) (auto simp: width_top_def)
qed

lemma bases_le_init:
  fixes ps :: pairs
  shows "fst (fold (\<lambda>p (l, n). (min l (fst p), min n (snd p))) ps (a, b)) \<le> a \<and>
   snd (fold (\<lambda>p (l, n). (min l (fst p), min n (snd p))) ps (a, b)) \<le> b"
proof (induction ps arbitrary: a b)
  case (Cons p ps)
  from Cons [of "min a (fst p)" "min b (snd p)"] show ?case by (simp add: min.bounded_iff)
qed simp

lemma bases_le:
  fixes ps :: pairs
  shows "p \<in> set ps \<Longrightarrow> fst (fold (\<lambda>p (l, n). (min l (fst p), min n (snd p))) ps (a, b)) \<le> fst p \<and>
   snd (fold (\<lambda>p (l, n). (min l (fst p), min n (snd p))) ps (a, b)) \<le> snd p"
proof (induction ps arbitrary: a b)
  case (Cons q ps)
  show ?case
  proof (cases "p = q")
    case True
    then show ?thesis
      using bases_le_init [of ps "min a (fst q)" "min b (snd q)"] by (simp add: min.bounded_iff)
  next
    case False
    with Cons show ?thesis by simp
  qed
qed simp

lemma bases_lower: "p \<in> set ps \<Longrightarrow> fst (bases ps) \<le> fst p \<and> snd (bases ps) \<le> snd p"
  unfolding bases_def by (rule bases_le)

subsection \<open>Grids\<close>

definition square :: "grid \<Rightarrow> bool" where
  "square g \<longleftrightarrow> length g = GRID \<and> (\<forall>r\<in>set g. length r = GRID)"

lemma square_gset [simp]: "square g \<Longrightarrow> square (gset g i j v)"
  by (cases "i < length g")
    (auto simp: square_def gset_def list_update_beyond dest!: set_update_subset_insert [THEN subsetD])

lemma gget_gset:
  "square g \<Longrightarrow> i < GRID \<Longrightarrow> j < GRID \<Longrightarrow> gget (gset g i j v) i' j' = (if i = i' \<and> j = j' then v else gget g i' j')"
  by (auto simp: square_def gset_def gget_def nth_list_update)

lemma square_clear [simp]: "square g \<Longrightarrow> square (clear_rect rows cols g)"
  by (auto simp: square_def clear_rect_def dest!: in_set_takeD in_set_dropD)

lemma gget_clear:
  "square g \<Longrightarrow> i \<le> rows \<Longrightarrow> j \<le> cols \<Longrightarrow> i < GRID \<Longrightarrow> j < GRID \<Longrightarrow> gget (clear_rect rows cols g) i j = 0"
  by (simp add: square_def clear_rect_def gget_def nth_append)

definition widths_ok :: "widths \<Rightarrow> bool" where
  "widths_ok w \<longleftrightarrow> square (wd_esc w) \<and> square (wd_corner w) \<and> square (wd_fit w)"

lemma widths_default_ok [simp]: "widths_ok widths_default"
  by (simp add: widths_ok_def widths_default_def Let_def square_def)

subsection \<open>The histogram\<close>

lemma capped_less [simp]: "capped d < GRID"
  by (simp add: capped_def GRID_def)

definition weight :: "nat \<times> nat \<Rightarrow> nat" where
  "weight p = escape_len (fst p) (snd p)"

definition sum_where :: "(nat \<times> nat \<Rightarrow> bool) \<Rightarrow> pairs \<Rightarrow> nat" where
  "sum_where P ps = sum_list (map (\<lambda>p. if P p then weight p else 0) ps)"

lemma sum_where_simps [simp]:
  "sum_where P [] = 0" "sum_where P (p # ps) = (if P p then weight p else 0) + sum_where P ps"
  by (simp_all add: sum_where_def)

lemma sum_where_cong: "(\<And>p. p \<in> set ps \<Longrightarrow> P p = Q p) \<Longrightarrow> sum_where P ps = sum_where Q ps"
  by (induction ps) simp_all

lemma sum_where_le: "sum_where P ps \<le> sum_where (\<lambda>_. True) ps"
  by (induction ps) simp_all

definition in_cell :: "nat \<Rightarrow> nat \<Rightarrow> nat \<Rightarrow> nat \<Rightarrow> nat \<times> nat \<Rightarrow> bool" where
  "in_cell bl bn i j p \<longleftrightarrow> capped (fst p - bl) = i \<and> capped (snd p - bn) = j"

definition in_corner :: "nat \<Rightarrow> nat \<Rightarrow> nat \<Rightarrow> nat \<Rightarrow> nat \<times> nat \<Rightarrow> bool" where
  "in_corner bl bn i j p \<longleftrightarrow> in_cell bl bn i j p \<and> i \<le> FRAME_MAX \<and> j \<le> FRAME_MAX \<and>
    is_power_of_two (fst p - bl + 1) \<and> is_power_of_two (snd p - bn + 1)"

lemma tally_fold:
  assumes "square esc" "square corner" "fold (tally bl bn) ps (esc, corner, tot) = (esc', corner', tot')"
  shows "square esc' \<and> square corner' \<and> tot' = tot + sum_where (\<lambda>_. True) ps \<and>
    (\<forall>i j. gget esc' i j = gget esc i j + sum_where (in_cell bl bn i j) ps) \<and>
    (\<forall>i j. gget corner' i j = gget corner i j + sum_where (in_corner bl bn i j) ps)"
  using assms
proof (induction ps arbitrary: esc corner tot)
  case (Cons p ps)
  define hl hn where "hl = capped (fst p - bl)" and "hn = capped (snd p - bn)"
  define e where "e = weight p"
  define esc1 where "esc1 = gset esc hl hn (gget esc hl hn + e)"
  define corner1 where "corner1 = (if hl < FRAME_MAX + 1 \<and> hn < FRAME_MAX + 1 \<and> is_power_of_two (fst p - bl + 1) \<and>
    is_power_of_two (snd p - bn + 1) then gset corner hl hn (gget corner hl hn + e) else corner)"
  have t: "tally bl bn p (esc, corner, tot) = (esc1, corner1, tot + e)"
    by (simp add: tally_def case_prod_unfold Let_def esc1_def corner1_def hl_def hn_def e_def weight_def)
  have h: "hl < GRID" "hn < GRID" by (simp_all add: hl_def hn_def)
  have sq: "square esc1" "square corner1" using Cons.prems by (simp_all add: esc1_def corner1_def)
  have "fold (tally bl bn) ps (esc1, corner1, tot + e) = (esc', corner', tot')"
    using Cons.prems(3) t by simp
  note ih = Cons.IH [OF sq this]
  have "gget esc1 i j = gget esc i j + (if in_cell bl bn i j p then weight p else 0)" for i j
    using Cons.prems(1) h by (auto simp: esc1_def gget_gset in_cell_def hl_def hn_def e_def)
  moreover have "gget corner1 i j = gget corner i j + (if in_corner bl bn i j p then weight p else 0)" for i j
    using Cons.prems(2) h by (auto simp: corner1_def gget_gset in_cell_def in_corner_def hl_def hn_def e_def)
  ultimately show ?case using ih by (auto simp: e_def)
qed simp

subsection \<open>The prefix sums\<close>

lemma fit_row_fold:
  assumes "square fit" "wl < GRID"
  shows "n \<le> GRID \<Longrightarrow> (\<exists>fit'. fold (fit_row esc wl) [0..<n] (0, fit) = (\<Sum>j<n. gget esc wl j, fit') \<and> square fit' \<and>
    (\<forall>i j. gget fit' i j = (if i = wl \<and> j < n
       then (\<Sum>k\<le>j. gget esc wl k) + (if wl > 0 then gget fit (wl - 1) j else 0) else gget fit i j)))"
proof (induction n)
  case 0
  then show ?case using assms by simp
next
  case (Suc n)
  then obtain fit' where f: "fold (fit_row esc wl) [0..<n] (0, fit) = (\<Sum>j<n. gget esc wl j, fit')" "square fit'"
    "\<And>i j. gget fit' i j = (if i = wl \<and> j < n
       then (\<Sum>k\<le>j. gget esc wl k) + (if wl > 0 then gget fit (wl - 1) j else 0) else gget fit i j)" by auto
  define v where "v = (\<Sum>k\<le>n. gget esc wl k) + (if wl > 0 then gget fit (wl - 1) n else 0)"
  have s: "(\<Sum>j<n. gget esc wl j) + gget esc wl n = (\<Sum>k\<le>n. gget esc wl k)"
    by (simp add: lessThan_Suc_atMost [symmetric])
  have "fit_row esc wl n (\<Sum>j<n. gget esc wl j, fit') = (\<Sum>j<Suc n. gget esc wl j, gset fit' wl n v)"
    using s by (simp add: fit_row_def Let_def v_def f(3))
  then have "fold (fit_row esc wl) [0..<Suc n] (0, fit) = (\<Sum>j<Suc n. gget esc wl j, gset fit' wl n v)"
    using f(1) by simp
  moreover have "gget (gset fit' wl n v) i j = (if i = wl \<and> j < Suc n
       then (\<Sum>k\<le>j. gget esc wl k) + (if wl > 0 then gget fit (wl - 1) j else 0) else gget fit i j)" for i j
    using f(2,3) assms(2) Suc.prems by (auto simp: gget_gset v_def less_Suc_eq)
  ultimately show ?case using f(2) by auto
qed

lemma fit_table_sums:
  assumes "square fit" "nh < GRID"
  shows "m \<le> GRID \<Longrightarrow> square (fold (\<lambda>wl fit. snd (fold (fit_row esc wl) [0..<nh + 1] (0, fit))) [0..<m] fit) \<and>
    (\<forall>i<m. \<forall>j\<le>nh. gget (fold (\<lambda>wl fit. snd (fold (fit_row esc wl) [0..<nh + 1] (0, fit))) [0..<m] fit) i j
      = (\<Sum>a\<le>i. \<Sum>b\<le>j. gget esc a b))"
proof (induction m)
  case (Suc m)
  define g where "g = fold (\<lambda>wl fit. snd (fold (fit_row esc wl) [0..<nh + 1] (0, fit))) [0..<m] fit"
  have g: "square g" "\<And>i j. i < m \<Longrightarrow> j \<le> nh \<Longrightarrow> gget g i j = (\<Sum>a\<le>i. \<Sum>b\<le>j. gget esc a b)"
    using Suc unfolding g_def by auto
  obtain g' where g': "fold (fit_row esc m) [0..<nh + 1] (0, g) = (\<Sum>j<nh + 1. gget esc m j, g')" "square g'"
    "\<And>i j. gget g' i j = (if i = m \<and> j < nh + 1
       then (\<Sum>k\<le>j. gget esc m k) + (if m > 0 then gget g (m - 1) j else 0) else gget g i j)"
    using fit_row_fold [OF g(1), of m "nh + 1" esc] Suc.prems assms(2) by auto
  have e: "fold (\<lambda>wl fit. snd (fold (fit_row esc wl) [0..<nh + 1] (0, fit))) [0..<Suc m] fit = g'"
    using g'(1) by (simp add: g_def)
  have "gget g' i j = (\<Sum>a\<le>i. \<Sum>b\<le>j. gget esc a b)" if "i < Suc m" "j \<le> nh" for i j
  proof (cases "i = m")
    case True
    then show ?thesis using that g(2) [of "m - 1" j] by (cases m) (simp_all add: g'(3))
  next
    case False
    then show ?thesis using that g(2) [of i j] by (simp add: g'(3))
  qed
  then show ?case unfolding e using g'(2) by simp
qed (use assms in simp)

lemma sum_cells:
  "(\<Sum>a\<le>i. \<Sum>b\<le>j. sum_where (in_cell bl bn a b) ps) =
    sum_where (\<lambda>p. capped (fst p - bl) \<le> i \<and> capped (snd p - bn) \<le> j) ps"
proof (induction ps)
  case (Cons p ps)
  have "(\<Sum>a\<le>i. \<Sum>b\<le>j. if in_cell bl bn a b p then weight p else 0) =
      (\<Sum>a\<le>i. if a = capped (fst p - bl) then (\<Sum>b\<le>j. if b = capped (snd p - bn) then weight p else 0) else 0)"
    by (intro sum.cong refl) (auto simp: in_cell_def)
  also have "\<dots> = (if capped (fst p - bl) \<le> i \<and> capped (snd p - bn) \<le> j then weight p else 0)"
    by (simp add: sum.delta)
  finally show ?case using Cons by (simp add: sum.distrib)
qed simp

subsection \<open>The search\<close>

definition keep_cheaper :: "('a \<Rightarrow> nat) \<Rightarrow> 'a \<Rightarrow> 'a \<times> nat \<Rightarrow> 'a \<times> nat" where
  "keep_cheaper cost x st = (if cost x < snd st then (x, cost x) else st)"

lemma keep_cheaper_fold:
  assumes "\<And>x. x \<in> set xs \<Longrightarrow> cost x < lim" "xs \<noteq> []"
  shows "fst (fold (keep_cheaper cost) xs (init, lim)) \<in> set xs \<and>
    (\<forall>x\<in>set xs. cost (fst (fold (keep_cheaper cost) xs (init, lim))) \<le> cost x)"
proof -
  have gen: "snd st = c \<Longrightarrow> snd (fold (keep_cheaper cost) xs st) \<le> c \<and>
      (\<forall>x\<in>set xs. snd (fold (keep_cheaper cost) xs st) \<le> cost x) \<and>
      (fold (keep_cheaper cost) xs st = st \<or>
        fst (fold (keep_cheaper cost) xs st) \<in> set xs \<and>
        snd (fold (keep_cheaper cost) xs st) = cost (fst (fold (keep_cheaper cost) xs st)))" for st c xs
  proof (induction xs arbitrary: st c)
    case (Cons x xs)
    from Cons.IH [of "keep_cheaper cost x st"] Cons.prems show ?case
      by (auto simp: keep_cheaper_def split: if_splits)
  qed simp
  obtain x where x: "x \<in> set xs" using assms(2) by (cases xs) auto
  from gen [of "(init, lim)" lim xs] assms(1) [OF x] x show ?thesis by fastforce
qed

lemma fold_nested:
  "fold (\<lambda>a st. fold (g a) ys st) xs st = fold (\<lambda>(a, b). g a b) (List.product xs ys) st"
  by (induction xs arbitrary: st) (simp_all add: fold_map comp_def)

text \<open>What a run costs at two widths: its codes, and the escapes of the pairs that do not fit.\<close>

definition escaped :: "pairs \<Rightarrow> nat \<Rightarrow> nat \<Rightarrow> nat" where
  "escaped ps wl wn = sum_where (\<lambda>p. \<not> frame_fits (fst p - fst (bases ps)) (snd p - snd (bases ps)) wl wn) ps"

definition run_cost :: "pairs \<Rightarrow> nat \<Rightarrow> nat \<Rightarrow> nat" where
  "run_cost ps wl wn = div_ceil (length ps * (wl + wn)) 8 + escaped ps wl wn"

lemma capped_le: "w \<le> FRAME_MAX \<Longrightarrow> capped d \<le> w \<longleftrightarrow> d \<le> width_top w"
  by (auto simp: capped_def le_width_top bits_of_le [symmetric] min_le_iff_disj)

lemma sum_where_split:
  assumes "\<And>p. p \<in> set ps \<Longrightarrow> C p \<Longrightarrow> I p" "\<And>p. p \<in> set ps \<Longrightarrow> F p \<longleftrightarrow> I p \<and> \<not> C p"
  shows "sum_where (\<lambda>_. True) ps - sum_where I ps + sum_where C ps = sum_where (\<lambda>p. \<not> F p) ps"
proof -
  have "sum_where (\<lambda>_. True) ps = sum_where I ps + sum_where (\<lambda>p. \<not> I p) ps" by (induction ps) simp_all
  moreover have "sum_where (\<lambda>p. \<not> I p) ps + sum_where C ps = sum_where (\<lambda>p. \<not> F p) ps"
    using assms by (induction ps) auto
  ultimately show ?thesis by simp
qed

lemma price_escaped:
  assumes "wl \<le> FRAME_MAX" "wn \<le> FRAME_MAX"
  shows "sum_where (\<lambda>_. True) ps -
      sum_where (\<lambda>p. capped (fst p - fst (bases ps)) \<le> wl \<and> capped (snd p - snd (bases ps)) \<le> wn) ps +
      sum_where (in_corner (fst (bases ps)) (snd (bases ps)) wl wn) ps = escaped ps wl wn"
  unfolding escaped_def
proof (rule sum_where_split)
  have c: "in_corner bl bn wl wn p \<longleftrightarrow> fst p - bl = width_top wl \<and> snd p - bn = width_top wn" for bl bn p
  proof -
    have "capped (fst p - bl) = wl \<longleftrightarrow> bits_of (fst p - bl) = wl" "capped (snd p - bn) = wn \<longleftrightarrow> bits_of (snd p - bn) = wn"
      using assms by (auto simp: capped_def)
    then show ?thesis
      using corner_iff [of "fst p - bl" wl] corner_iff [of "snd p - bn" wn] assms
      by (auto simp: in_corner_def in_cell_def)
  qed
  fix p
  show "in_corner (fst (bases ps)) (snd (bases ps)) wl wn p \<Longrightarrow>
      capped (fst p - fst (bases ps)) \<le> wl \<and> capped (snd p - snd (bases ps)) \<le> wn"
    by (simp add: in_corner_def in_cell_def)
  show "frame_fits (fst p - fst (bases ps)) (snd p - snd (bases ps)) wl wn \<longleftrightarrow>
      (capped (fst p - fst (bases ps)) \<le> wl \<and> capped (snd p - snd (bases ps)) \<le> wn) \<and>
      \<not> in_corner (fst (bases ps)) (snd (bases ps)) wl wn p"
    using assms by (auto simp: frame_fits_def capped_le c)
qed

lemma fold_max_le: "h \<le> fold (\<lambda>p h. max h (f p)) ps h \<and> (\<forall>p\<in>set ps. f p \<le> fold (\<lambda>p h. max h (f p)) ps h)"
  for h :: nat
proof (induction ps arbitrary: h)
  case (Cons p ps)
  from Cons [of "max h (f p)"] show ?case by auto
qed simp

lemma fold_max_bound: "h \<le> b \<Longrightarrow> (\<And>p. f p \<le> b) \<Longrightarrow> fold (\<lambda>p h. max h (f p)) ps h \<le> b" for h :: nat
  by (induction ps arbitrary: h) simp_all

text \<open>A width past what every offset needs costs no fewer escapes than one bit past.\<close>

lemma frame_fits_wide:
  assumes "dl < width_top w" "w \<le> w'"
  shows "frame_fits dl dn w' wn \<longleftrightarrow> frame_fits dl dn w wn" "frame_fits dn dl wn w' \<longleftrightarrow> frame_fits dn dl wn w"
proof -
  have "width_top w \<le> width_top w'" using assms(2) by (simp add: width_top_def diff_le_mono)
  then show "frame_fits dl dn w' wn \<longleftrightarrow> frame_fits dl dn w wn" "frame_fits dn dl wn w' \<longleftrightarrow> frame_fits dn dl wn w"
    using assms(1) by (auto simp: frame_fits_def)
qed

lemma capped_less_top: "capped d \<le> h \<Longrightarrow> h < FRAME_MAX \<Longrightarrow> d < width_top (h + 1)"
proof -
  assume "capped d \<le> h" "h < FRAME_MAX"
  then have "d < 2 ^ h" by (simp add: capped_le le_width_top [symmetric])
  moreover have "(1::nat) \<le> 2 ^ h" by simp
  ultimately show ?thesis by (simp add: width_top_def)
qed

lemma div_ceil_mono: "0 < b \<Longrightarrow> a \<le> a' \<Longrightarrow> div_ceil a b \<le> div_ceil a' b"
  by (simp add: div_ceil_le_iff) (meson div_ceil_mult_ge order_trans)

text \<open>The first cheapest candidate, read off the pairs alone.\<close>

definition width_choice :: "pairs \<Rightarrow> nat \<times> nat \<times> nat" where
  "width_choice ps =
    (let hl = fold (\<lambda>p h. max h (capped (fst p - fst (bases ps)))) ps 0;
       hn = fold (\<lambda>p h. max h (capped (snd p - snd (bases ps)))) ps 0
     in fst (fold (keep_cheaper (\<lambda>(wl, wn, esc). div_ceil (length ps * (wl + wn)) 8 + esc))
       (map (\<lambda>(a, b). (a, b, escaped ps a b))
         (List.product [0..<min (hl + 1) FRAME_MAX + 1] [0..<min (hn + 1) FRAME_MAX + 1])) ((0, 0, 0), usize_bound - 1)))"

text \<open>What an earlier run left in the tables changes neither the choice nor that they are tables.\<close>

lemma frame_widths_choice:
  assumes w: "widths_ok w" and r: "frame_widths ps w = ((wl, wn, esc), w')"
  shows "widths_ok w'" "(wl, wn, esc) = width_choice ps"
proof -
  define bl bn where "bl = fst (bases ps)" and "bn = snd (bases ps)"
  define hl where "hl = fold (\<lambda>p h. max h (capped (fst p - bl))) ps 0"
  define hn where "hn = fold (\<lambda>p h. max h (capped (snd p - bn))) ps 0"
  define lh nh where "lh = min (hl + 1) FRAME_MAX" and "nh = min (hn + 1) FRAME_MAX"
  define rows cols where "rows = max lh hl" and "cols = max nh hn"
  obtain es co tot where t: "fold (tally bl bn) ps (clear_rect rows cols (wd_esc w), clear_rect rows cols (wd_corner w), 0) = (es, co, tot)"
    by (cases "fold (tally bl bn) ps (clear_rect rows cols (wd_esc w), clear_rect rows cols (wd_corner w), 0)") auto
  define ft where "ft = fit_table lh nh es (wd_fit w)"
  define cost where "cost = (\<lambda>(wl, wn, esc :: nat). div_ceil (length ps * (wl + wn)) 8 + esc)"
  define cand where "cand = map (\<lambda>(wl, wn). (wl, wn, (tot - gget ft wl wn) + gget co wl wn)) (List.product [0..<lh + 1] [0..<nh + 1])"
  have hh: "hl < GRID" "hn < GRID"
    using fold_max_bound [of 0 "GRID - 1" "\<lambda>p. capped (fst p - bl)" ps] fold_max_bound [of 0 "GRID - 1" "\<lambda>p. capped (snd p - bn)" ps]
    by (simp_all add: hl_def hn_def capped_def GRID_def)
  then have bounds: "lh < GRID" "nh < GRID" "rows < GRID" "cols < GRID" "lh \<le> FRAME_MAX" "nh \<le> FRAME_MAX"
    by (auto simp: lh_def nh_def rows_def cols_def GRID_def)
  have sq: "square (clear_rect rows cols (wd_esc w))" "square (clear_rect rows cols (wd_corner w))"
    using w by (simp_all add: widths_ok_def)
  note tf = tally_fold [OF sq t]
  have es: "gget es i j = sum_where (in_cell bl bn i j) ps" "gget co i j = sum_where (in_corner bl bn i j) ps"
    if "i \<le> lh" "j \<le> nh" for i j
    using tf that w bounds gget_clear [of "wd_esc w" i rows j cols] gget_clear [of "wd_corner w" i rows j cols]
    by (auto simp: widths_ok_def rows_def cols_def)
  have fs: "square ft" "\<And>i j. i \<le> lh \<Longrightarrow> j \<le> nh \<Longrightarrow> gget ft i j = (\<Sum>a\<le>i. \<Sum>b\<le>j. gget es a b)"
    using fit_table_sums [of "wd_fit w" nh "lh + 1" es] w bounds
    by (auto simp: widths_ok_def ft_def fit_table_def less_Suc_eq_le)
  have "gget ft i j = sum_where (\<lambda>p. capped (fst p - bl) \<le> i \<and> capped (snd p - bn) \<le> j) ps" if "i \<le> lh" "j \<le> nh" for i j
  proof -
    have "(\<Sum>a\<le>i. \<Sum>b\<le>j. gget es a b) = (\<Sum>a\<le>i. \<Sum>b\<le>j. sum_where (in_cell bl bn a b) ps)"
      using that by (intro sum.cong refl es(1)) auto
    then show ?thesis using fs(2) [OF that] by (simp add: sum_cells)
  qed
  then have escd: "(tot - gget ft i j) + gget co i j = escaped ps i j" if "i \<le> lh" "j \<le> nh" for i j
    using that bounds price_escaped [of i j ps] tf es(2) [OF that] by (simp add: bl_def bn_def)
  have p: "price (length ps) ft co tot a b = keep_cheaper cost (a, b, (tot - gget ft a b) + gget co a b)" for a b
    by (auto simp: fun_eq_iff price_def keep_cheaper_def cost_def Let_def)
  have "fold (\<lambda>wl st. fold (price (length ps) ft co tot wl) [0..<nh + 1] st) [0..<lh + 1] st
      = fold (keep_cheaper cost) cand st" for st
    unfolding fold_nested cand_def fold_map by (simp only: comp_def p case_prod_unfold)
  then have "search_widths (length ps) lh nh ft co tot = fst (fold (keep_cheaper cost) cand ((0, 0, 0), usize_bound - 1))"
    by (simp only: search_widths_def)
  moreover have "frame_widths ps w = (search_widths (length ps) lh nh ft co tot, \<lparr>wd_esc = es, wd_corner = co, wd_fit = ft\<rparr>)"
    unfolding frame_widths_def Let_def bl_def [symmetric] bn_def [symmetric] hl_def [symmetric] hn_def [symmetric]
      lh_def [symmetric] nh_def [symmetric] rows_def [symmetric] cols_def [symmetric] t prod.case ft_def [symmetric] ..
  ultimately have best: "fst (fold (keep_cheaper cost) cand ((0, 0, 0), usize_bound - 1)) = (wl, wn, esc)"
    and w': "w' = \<lparr>wd_esc = es, wd_corner = co, wd_fit = ft\<rparr>" using r by simp_all
  have cand_eq: "cand = map (\<lambda>(a, b). (a, b, escaped ps a b)) (List.product [0..<lh + 1] [0..<nh + 1])"
    unfolding cand_def by (rule map_cong [OF refl]) (auto simp: escd less_Suc_eq_le)
  show "(wl, wn, esc) = width_choice ps"
    unfolding width_choice_def Let_def bl_def [symmetric] bn_def [symmetric] hl_def [symmetric] hn_def [symmetric]
      lh_def [symmetric] nh_def [symmetric] cand_eq [symmetric] cost_def [symmetric] best ..
  show "widths_ok w'" using tf fs(1) by (simp add: w' widths_ok_def)
qed

lemma frame_widths_best:
  assumes w: "widths_ok w" and n: "length ps * 30 + sum_where (\<lambda>_. True) ps < usize_bound - 2"
    and r: "frame_widths ps w = ((wl, wn, esc), w')"
  shows "widths_ok w' \<and> wl \<le> FRAME_MAX \<and> wn \<le> FRAME_MAX \<and> esc = escaped ps wl wn \<and> (wl, wn, esc) = width_choice ps \<and>
    (\<forall>wl' wn'. wl' \<le> FRAME_MAX \<longrightarrow> wn' \<le> FRAME_MAX \<longrightarrow> run_cost ps wl wn \<le> run_cost ps wl' wn')"
proof -
  define bl bn where "bl = fst (bases ps)" and "bn = snd (bases ps)"
  define hl where "hl = fold (\<lambda>p h. max h (capped (fst p - bl))) ps 0"
  define hn where "hn = fold (\<lambda>p h. max h (capped (snd p - bn))) ps 0"
  define lh nh where "lh = min (hl + 1) FRAME_MAX" and "nh = min (hn + 1) FRAME_MAX"
  define cost where "cost = (\<lambda>(wl, wn, esc :: nat). div_ceil (length ps * (wl + wn)) 8 + esc)"
  define cand where "cand = map (\<lambda>(a, b). (a, b, escaped ps a b)) (List.product [0..<lh + 1] [0..<nh + 1])"
  have bounds: "lh \<le> FRAME_MAX" "nh \<le> FRAME_MAX" by (simp_all add: lh_def nh_def)
  note choice = frame_widths_choice [OF w r]
  have best: "fst (fold (keep_cheaper cost) cand ((0, 0, 0), usize_bound - 1)) = (wl, wn, esc)"
    unfolding choice(2) width_choice_def Let_def bl_def [symmetric] bn_def [symmetric] hl_def [symmetric] hn_def [symmetric]
      lh_def [symmetric] nh_def [symmetric] cand_def [symmetric] cost_def [symmetric] ..
  have cand: "set cand = (\<lambda>(a, b). (a, b, escaped ps a b)) ` ({0..<lh + 1} \<times> {0..<nh + 1})"
    by (simp only: cand_def set_map set_product set_upt)
  have small: "cost x < usize_bound - 1" if "x \<in> set cand" for x
  proof -
    from that obtain a b where x: "x = (a, b, escaped ps a b)" "a \<le> lh" "b \<le> nh" by (auto simp: cand)
    then have "length ps * (a + b) \<le> length ps * 30"
      using bounds by (intro mult_le_mono2) (simp add: FRAME_MAX_def)
    moreover have "div_ceil (length ps * (a + b)) 8 \<le> length ps * (a + b)" by (simp add: div_ceil_le_iff)
    moreover have "escaped ps a b \<le> sum_where (\<lambda>_. True) ps"
      unfolding escaped_def by (rule sum_where_le)
    ultimately show ?thesis using n unfolding cost_def x(1) prod.case by linarith
  qed
  have "(0, 0, escaped ps 0 0) \<in> set cand" by (force simp: cand)
  then have "cand \<noteq> []" by auto
  from keep_cheaper_fold [where cost = cost and init = "(0, 0, 0)", OF small this]
  have mem: "(wl, wn, esc) \<in> set cand" and min: "\<And>x. x \<in> set cand \<Longrightarrow> cost (wl, wn, esc) \<le> cost x"
    unfolding best by blast+
  then have wle: "wl \<le> lh" "wn \<le> nh" "esc = escaped ps wl wn" by (auto simp: cand)
  have cheapest: "run_cost ps wl wn \<le> run_cost ps a b" if "a \<le> lh" "b \<le> nh" for a b
    
  proof -
    have "(a, b, escaped ps a b) \<in> set cand" unfolding cand using that by force
    from min [OF this] show ?thesis by (simp add: run_cost_def cost_def wle)
  qed
  have run: "run_cost ps wl wn \<le> run_cost ps a b" if "a \<le> FRAME_MAX" "b \<le> FRAME_MAX" for a b
  proof -
    define a' b' where "a' = min a lh" and "b' = min b nh"
    have big: "(fst p - bl < width_top lh \<or> a' = a) \<and> (snd p - bn < width_top nh \<or> b' = b)" if p: "p \<in> set ps" for p
    proof -
      have "capped (fst p - bl) \<le> hl" "capped (snd p - bn) \<le> hn"
        using fold_max_le [of 0 "\<lambda>p. capped (fst p - bl)" ps] fold_max_le [of 0 "\<lambda>p. capped (snd p - bn)" ps] p
        by (auto simp: hl_def hn_def)
      then show ?thesis
        using capped_less_top [of "fst p - bl" hl] capped_less_top [of "snd p - bn" hn] \<open>a \<le> FRAME_MAX\<close> \<open>b \<le> FRAME_MAX\<close>
        by (auto simp: lh_def nh_def a'_def b'_def min_def split: if_splits)
    qed
    have "frame_fits (fst p - bl) (snd p - bn) a' b' = frame_fits (fst p - bl) (snd p - bn) a b" if p: "p \<in> set ps" for p
    proof -
      have "frame_fits (fst p - bl) (snd p - bn) a' b' = frame_fits (fst p - bl) (snd p - bn) a b'"
        using big [OF p] frame_fits_wide(1) [of "fst p - bl" lh a "snd p - bn" b'] by (auto simp: a'_def min_def)
      also have "\<dots> = frame_fits (fst p - bl) (snd p - bn) a b"
        using big [OF p] frame_fits_wide(2) [of "snd p - bn" nh b "fst p - bl" a] by (auto simp: b'_def min_def)
      finally show ?thesis .
    qed
    then have "escaped ps a' b' = escaped ps a b"
      unfolding escaped_def bl_def [symmetric] bn_def [symmetric] by (intro sum_where_cong) simp
    moreover have "div_ceil (length ps * (a' + b')) 8 \<le> div_ceil (length ps * (a + b)) 8"
      by (intro div_ceil_mono mult_le_mono2 add_mono) (simp_all add: a'_def b'_def)
    ultimately have "run_cost ps a' b' \<le> run_cost ps a b" by (simp add: run_cost_def)
    moreover have "run_cost ps wl wn \<le> run_cost ps a' b'" by (rule cheapest) (simp_all add: a'_def b'_def)
    ultimately show ?thesis by simp
  qed
  then show ?thesis using run wle bounds choice by auto
qed

text \<open>However large the run, the widths stay a frame's.\<close>

lemma frame_widths_bound:
  assumes "frame_widths ps w = ((wl, wn, esc), w')"
  shows "wl \<le> FRAME_MAX \<and> wn \<le> FRAME_MAX"
proof -
  have gen: "fold (keep_cheaper cost) xs st = st \<or> fst (fold (keep_cheaper cost) xs st) \<in> set xs"
    for cost :: "nat \<times> nat \<times> nat \<Rightarrow> nat" and xs st
  proof (induction xs arbitrary: st)
    case (Cons x xs)
    from Cons [of "keep_cheaper cost x st"] show ?case by (auto simp: keep_cheaper_def)
  qed simp
  have "fst (search_widths n lh nh fit corner tot) \<le> lh \<and> fst (snd (search_widths n lh nh fit corner tot)) \<le> nh"
    for n lh nh fit corner tot
  proof -
    define cost where "cost = (\<lambda>(wl, wn, esc :: nat). div_ceil (n * (wl + wn)) 8 + esc)"
    have p: "price n fit corner tot a b = keep_cheaper cost (a, b, (tot - gget fit a b) + gget corner a b)" for a b
      by (auto simp: fun_eq_iff price_def keep_cheaper_def cost_def Let_def)
    define cand where "cand = map (\<lambda>(a, b). (a, b, (tot - gget fit a b) + gget corner a b)) (List.product [0..<lh + 1] [0..<nh + 1])"
    have "search_widths n lh nh fit corner tot = fst (fold (keep_cheaper cost) cand ((0, 0, 0), usize_bound - 1))"
      unfolding search_widths_def fold_nested cand_def fold_map by (simp only: comp_def p case_prod_unfold)
    moreover have "x \<in> set cand \<Longrightarrow> fst x \<le> lh \<and> fst (snd x) \<le> nh" for x by (auto simp: cand_def)
    ultimately show ?thesis using gen [of cost cand "((0, 0, 0), usize_bound - 1)"] by fastforce
  qed
  moreover have "\<exists>n lh nh fit corner tot. fst (frame_widths ps w) = search_widths n lh nh fit corner tot \<and>
      lh \<le> FRAME_MAX \<and> nh \<le> FRAME_MAX"
    unfolding frame_widths_def Let_def case_prod_unfold fst_conv
    by (intro exI conjI) (rule refl, rule min.cobounded2, rule min.cobounded2)
  ultimately show ?thesis unfolding assms by (metis fst_conv snd_conv le_trans)
qed

subsection \<open>A run of codes as a number\<close>

text \<open>The writer's stream, as the bit stream of the packed codec.\<close>

definition w_bits :: "writer \<Rightarrow> bits" where
  "w_bits w = \<lparr>b_out = pw_out w, b_len = 0, b_bits = pw_bits w, b_used = pw_used w\<rparr>"

lemma push_bits:
  assumes "pair_code_of w l len sfx = Some (code, sfx')" "bits_ok (w_bits w)" "code < 2 ^ pw_width w" "pw_width w \<le> 56"
  obtains w' where "pw_push w l len sfx = Some (w', sfx')" "bits_ok (w_bits w')"
    "bits_nat (w_bits w') = bits_nat (w_bits w) + 2 ^ bits_total (w_bits w) * code"
    "bits_total (w_bits w') = bits_total (w_bits w) + pw_width w"
    "pw_width w' = pw_width w" "pw_frame w' = pw_frame w" "pw_slots w' = pw_slots w"
proof -
  obtain out bits used where f: "flush_bytes (pw_out w) (pw_bits w OR push_bit (pw_used w) (of_nat code))
      (pw_used w + pw_width w) = (out, bits, used)"
    by (cases "flush_bytes (pw_out w) (pw_bits w OR push_bit (pw_used w) (of_nat code)) (pw_used w + pw_width w)") auto
  let ?w = "w\<lparr>pw_bits := bits, pw_used := used, pw_out := out\<rparr>"
  have p: "pw_push w l len sfx = Some (?w, sfx')" unfolding pw_push_def assms(1) option.map prod.case f ..
  have b: "bits_push code (pw_width w) (w_bits w) = (w_bits ?w)\<lparr>b_len := 1\<rparr>"
    unfolding bits_push_def w_bits_def bits.simps f prod.case by simp
  note v = bits_push_value [OF assms(2,3,4)]
  have "bits_ok (w_bits ?w)" "bits_nat (w_bits ?w) = bits_nat (w_bits w) + 2 ^ bits_total (w_bits w) * code"
    "bits_total (w_bits ?w) = bits_total (w_bits w) + pw_width w"
    using v(1-3) unfolding b by (simp_all add: bits_ok_def bits_nat_def bits_total_def)
  then show ?thesis by (rule that [OF p]) simp_all
qed

lemma finish_bits:
  assumes "bits_ok (w_bits w)"
  shows "le_nat (pw_finish w []) = bits_nat (w_bits w)" "length (pw_finish w []) = div_ceil (bits_total (w_bits w)) 8"
    "pw_finish w out = out @ pw_finish w []"
proof -
  have "pw_finish w [] = fst (bits_drain (w_bits w) [])" by (simp add: pw_finish_def bits_drain_def w_bits_def)
  then show "le_nat (pw_finish w []) = bits_nat (w_bits w)" "length (pw_finish w []) = div_ceil (bits_total (w_bits w)) 8"
    using bits_drain_value(1,2) [OF assms] by simp_all
qed (simp add: pw_finish_def)

subsection \<open>What a code means\<close>

text \<open>A run's writer pushes its pairs; \<open>chunks_of\<close> is what each leaves in its suffix.\<close>

fun push_pairs :: "writer \<Rightarrow> pairs \<Rightarrow> (writer \<times> bytes list) option" where
  "push_pairs w [] = Some (w, [])"
| "push_pairs w ((l, len) # ps) = (case pw_push w l len [] of None \<Rightarrow> None
    | Some (w', sfx) \<Rightarrow> map_option (\<lambda>(w'', rest). (w'', sfx # rest)) (push_pairs w' ps))"

fun read_pairs :: "reader \<Rightarrow> nat \<Rightarrow> (nat \<times> nat) option list" where
  "read_pairs r 0 = []"
| "read_pairs r (Suc n) = (case next_code r of (code, r') \<Rightarrow> pair_as (rd_is_frame r) r code # read_pairs r' n)"

text \<open>How the codes of a writer decode, named once for both kinds of code.\<close>

definition code_ok :: "(nat \<Rightarrow> (nat \<times> nat) option) \<Rightarrow> writer \<Rightarrow> nat \<times> nat \<Rightarrow> bool" where
  "code_ok dec w p \<longleftrightarrow> (\<exists>code sfx. pair_code_of w (fst p) (snd p) [] = Some (code, sfx) \<and> code < 2 ^ pw_width w \<and>
    (dec code = Some p \<and> sfx = [] \<or> dec code = None \<and> sfx = varint (fst p) @ varint (snd p)))"

lemma push_pairs_codes:
  assumes "bits_ok (w_bits w)" "pw_width w \<le> 56" "\<forall>p\<in>set ps. code_ok dec w p"
  obtains w' chs cs where "push_pairs w ps = Some (w', chs)" "bits_ok (w_bits w')" "length cs = length ps" "length chs = length ps"
    "bits_nat (w_bits w') = bits_nat (w_bits w) + 2 ^ bits_total (w_bits w) * digits (pw_width w) cs"
    "bits_total (w_bits w') = bits_total (w_bits w) + pw_width w * length cs" "\<forall>c\<in>set cs. c < 2 ^ pw_width w"
    "\<forall>i<length ps. dec (cs ! i) = Some (ps ! i) \<and> chs ! i = [] \<or>
      dec (cs ! i) = None \<and> chs ! i = varint (fst (ps ! i)) @ varint (snd (ps ! i))"
  using assms
proof (induction ps arbitrary: w thesis)
  case Nil
  show ?case by (rule Nil.prems(1) [of w "[]" "[]"]) (use Nil.prems(2) in simp_all)
next
  case (Cons p ps)
  obtain l len where p: "p = (l, len)" by fastforce
  from Cons.prems(4) obtain code sfx where c: "pair_code_of w l len [] = Some (code, sfx)" "code < 2 ^ pw_width w"
    "dec code = Some p \<and> sfx = [] \<or> dec code = None \<and> sfx = varint l @ varint len"
    unfolding code_ok_def by (auto simp: p)
  from push_bits [OF c(1) Cons.prems(2) c(2) Cons.prems(3)] obtain w1 where w1:
    "pw_push w l len [] = Some (w1, sfx)" "bits_ok (w_bits w1)"
    "bits_nat (w_bits w1) = bits_nat (w_bits w) + 2 ^ bits_total (w_bits w) * code"
    "bits_total (w_bits w1) = bits_total (w_bits w) + pw_width w"
    "pw_width w1 = pw_width w" "pw_frame w1 = pw_frame w" "pw_slots w1 = pw_slots w" by blast
  have "pair_code_of w1 = pair_code_of w" by (intro ext) (simp only: pair_code_of_def w1(5-7))
  then have "code_ok dec w1 = code_ok dec w" by (intro ext) (simp only: code_ok_def w1(5))
  then have dec1: "\<forall>q\<in>set ps. code_ok dec w1 q" using Cons.prems(4) by simp
  have wid1: "pw_width w1 \<le> 56" using Cons.prems(3) w1(5) by simp
  obtain w' chs cs where ih:
    "push_pairs w1 ps = Some (w', chs)" "bits_ok (w_bits w')" "length cs = length ps" "length chs = length ps"
    "bits_nat (w_bits w') = bits_nat (w_bits w1) + 2 ^ bits_total (w_bits w1) * digits (pw_width w1) cs"
    "bits_total (w_bits w') = bits_total (w_bits w1) + pw_width w1 * length cs" "\<forall>c\<in>set cs. c < 2 ^ pw_width w1"
    "\<forall>i<length ps. dec (cs ! i) = Some (ps ! i) \<and> chs ! i = [] \<or>
      dec (cs ! i) = None \<and> chs ! i = varint (fst (ps ! i)) @ varint (snd (ps ! i))"
    by (rule Cons.IH [OF _ w1(2) wid1 dec1])
  note w' = ih [unfolded w1(5)]
  show ?case
  proof (rule Cons.prems(1) [of w' "sfx # chs" "code # cs"])
    show "push_pairs w (p # ps) = Some (w', sfx # chs)" using w1(1) w'(1) by (simp add: p)
    show "bits_nat (w_bits w') = bits_nat (w_bits w) + 2 ^ bits_total (w_bits w) * digits (pw_width w) (code # cs)"
      by (simp add: w'(5) w1(3,4) power_add algebra_simps)
    show "\<forall>i<length (p # ps). dec ((code # cs) ! i) = Some ((p # ps) ! i) \<and> (sfx # chs) ! i = [] \<or>
        dec ((code # cs) ! i) = None \<and> (sfx # chs) ! i = varint (fst ((p # ps) ! i)) @ varint (snd ((p # ps) ! i))"
    proof (intro allI impI)
      fix i assume i: "i < length (p # ps)"
      show "dec ((code # cs) ! i) = Some ((p # ps) ! i) \<and> (sfx # chs) ! i = [] \<or>
        dec ((code # cs) ! i) = None \<and> (sfx # chs) ! i = varint (fst ((p # ps) ! i)) @ varint (snd ((p # ps) ! i))"
      proof (cases i)
        case 0
        then show ?thesis using c(3) by (simp add: p)
      next
        case (Suc k)
        then show ?thesis using w'(8) [rule_format, of k] i by simp
      qed
    qed
    show "bits_ok (w_bits w')" by (rule w'(2))
    show "length (code # cs) = length (p # ps)" "length (sfx # chs) = length (p # ps)" using w'(3,4) by simp_all
    show "bits_total (w_bits w') = bits_total (w_bits w) + pw_width w * length (code # cs)"
      by (simp add: w'(6) w1(4))
    show "\<forall>c\<in>set (code # cs). c < 2 ^ pw_width w" using w'(7) c(2) by simp
  qed
qed

lemma load_word_load8: "load_word data byte = load8 data byte"
proof -
  have "u64_of (take n r @ replicate (8 - n) 0) = u64_of (take 8 r)" if "n = min (length r) 8" for n and r :: bytes
    using that by (simp add: u64_of_def le_nat_append min_def)
  then show ?thesis
    by (auto simp: load_word_def load8_def tail_word_def Let_def min_def)
qed

lemma next_code_field:
  assumes "rd_mask r = low_ones (rd_width r)" "rd_width r \<le> 56"
  shows "fst (next_code r) = field_at (le_nat (rd_data r)) (rd_bit r) (rd_width r)"
  using load_field_bit [OF assms(2), of "rd_bit r" "rd_data r"] assms(1)
  by (simp add: next_code_def load_word_load8)

lemma read_pairs_nth:
  assumes "rd_mask r = low_ones (rd_width r)" "rd_width r \<le> 56"
  shows "read_pairs r n = map (\<lambda>i. pair_as (rd_is_frame r) r
    (field_at (le_nat (rd_data r)) (rd_bit r + i * rd_width r) (rd_width r))) [0..<n]"
  using assms
proof (induction n arbitrary: r)
  case (Suc n)
  obtain code r' where nc: "next_code r = (code, r')" by fastforce
  then have r': "r' = r\<lparr>rd_bit := rd_bit r + rd_width r\<rparr>" by (simp add: next_code_def)
  have same: "pair_as f r' c = pair_as f r c" for f c by (simp add: r' pair_as_def)
  have "read_pairs r' n = map (\<lambda>i. pair_as (rd_is_frame r') r'
    (field_at (le_nat (rd_data r')) (rd_bit r' + i * rd_width r') (rd_width r'))) [0..<n]"
    by (rule Suc.IH) (use Suc.prems in \<open>simp_all add: r'\<close>)
  moreover have "code = field_at (le_nat (rd_data r)) (rd_bit r) (rd_width r)"
    using next_code_field [OF Suc.prems] nc by simp
  ultimately show ?case
    by (simp add: nc same upt_conv_Cons map_Suc_upt [symmetric] comp_def del: upt_Suc)
      (simp add: r' algebra_simps)
qed simp

end
