(* ===== verification/Paircode_Run.thy ===== *)
theory Paircode_Run
  imports Paircode_Facts
begin

text \<open>
  A run of \<^verbatim>\<open>src/paircode.rs\<close> reads back: both codes decode what they write, the reader finds the
  frame the writer put in the prologue, and the code a group chooses covers every run of the group.
\<close>

lemma or_push_add: "dn < 2 ^ wn \<Longrightarrow> push_bit wn dl OR dn = dl * 2 ^ wn + (dn :: nat)"
proof -
  assume dn: "dn < 2 ^ wn"
  have "push_bit wn dl AND dn = push_bit wn dl AND take_bit wn dn" using dn by (simp add: take_bit_nat_eq_self)
  also have "\<dots> = 0" by (auto simp: bit_eq_iff bit_simps)
  finally have "push_bit wn dl + dn = push_bit wn dl OR dn" by (rule disjunctive_add_eq_or)
  then show ?thesis by (simp add: push_bit_eq_mult)
qed

lemma unat_low_ones: "w < 64 \<Longrightarrow> unat (low_ones w) = width_top w"
proof -
  assume "w < 64"
  then have "(2::nat) ^ w \<le> 2 ^ 63" by (intro power_increasing) simp_all
  then have "2 ^ w - 1 < (2::nat) ^ 64" by simp
  then have "unat (of_nat (2 ^ w - 1) :: u64) = 2 ^ w - 1" by (simp only: unat_of_nat) simp
  moreover have "low_ones w = of_nat (2 ^ w - 1)" by (simp add: low_ones_def push_bit_eq_mult of_nat_diff)
  ultimately show ?thesis by (simp only: width_top_def)
qed

subsection \<open>A frame\<close>

text \<open>What the prologue of a group's frames is: four offsets of the widths its masks have.\<close>

definition frames_shape :: "frames \<Rightarrow> nat \<Rightarrow> nat \<Rightarrow> nat \<Rightarrow> nat \<Rightarrow> bool" where
  "frames_shape f p0 p1 p2 p3 \<longleftrightarrow> fr_m f = [offset_mask p0, offset_mask p1, offset_mask p2, offset_mask p3] \<and>
    fr_sh f = [0, p0, p0 + p1, p0 + p1 + p2, p0 + p1 + p2 + p3] \<and> p0 + p1 + p2 + p3 \<le> PROLOGUE_MAX \<and>
    p0 \<le> OFFSET_MAX \<and> p1 \<le> OFFSET_MAX \<and> p2 \<le> 15 \<and> p3 \<le> 15"

definition frames_wf :: "frames \<Rightarrow> bool" where
  "frames_wf f \<longleftrightarrow> fr_bl f < usize_bound \<and> fr_bn f < usize_bound \<and> fr_wl f \<le> FRAME_MAX \<and> fr_wn f \<le> FRAME_MAX \<and>
    (\<exists>p0 p1 p2 p3. frames_shape f p0 p1 p2 p3)"

lemma unat_offset_mask: "p \<le> 32 \<Longrightarrow> unat (offset_mask p) = 2 ^ p - 1"
proof -
  assume p: "p \<le> 32"
  then have "(2::nat) ^ p \<le> 2 ^ 32" by (intro power_increasing) simp_all
  then have "2 ^ p - 1 < (2::nat) ^ 32" by (simp add: less_eq_nat.simps)
  moreover have "unat (push_bit p 1 - 1 :: u64) = 2 ^ p - 1"
    using unat_low_ones [of p] p by (simp add: low_ones_def width_top_def)
  ultimately show ?thesis by (simp add: offset_mask_def unsigned_ucast_eq take_bit_nat_eq_self)
qed

lemma ucast_offset_mask: "p \<le> 32 \<Longrightarrow> (ucast (offset_mask p) :: u64) = low_ones p"
proof -
  assume p: "p \<le> 32"
  have "unat (offset_mask p) < 2 ^ 64" using unat_less_power [of "offset_mask p"] by (rule less_trans) simp
  then have "unat (ucast (offset_mask p) :: u64) = unat (offset_mask p)"
    by (simp add: unsigned_ucast_eq take_bit_nat_eq_self)
  then show ?thesis using p by (simp add: word_unat_eq_iff unat_offset_mask unat_low_ones width_top_def)
qed

lemma prologue_step:
  assumes "unat (a :: u64) < 2 ^ s" "d < 2 ^ p" "s + p \<le> 64"
  shows "unat (a OR push_bit s (of_nat d)) = unat a + 2 ^ s * d" "unat (a OR push_bit s (of_nat d)) < 2 ^ (s + p)"
proof -
  have "(2::nat) ^ p \<le> 2 ^ 64" using assms(3) by (intro power_increasing) simp_all
  then have "unat (of_nat d :: u64) = d" using assms(2) by (simp add: unat_of_nat)
  then show e: "unat (a OR push_bit s (of_nat d)) = unat a + 2 ^ s * d"
    using unat_or_push_bit [of a s "of_nat d" p] assms by simp
  have "2 ^ s * (d + 1) \<le> 2 ^ s * 2 ^ p" using assms(2) by (intro mult_le_mono2) simp
  then show "unat (a OR push_bit s (of_nat d)) < 2 ^ (s + p)" using e assms(1) by (simp add: power_add)
qed

lemma prologue_fields:
  assumes sh: "frames_shape f p0 p1 p2 p3" and d: "d0 < 2 ^ p0" "d1 < 2 ^ p1" "d2 < 2 ^ p2" "d3 < 2 ^ p3"
  shows "unat (prologue f [d0, d1, d2, d3]) < 2 ^ frames_bits f" "frames_bits f \<le> 56"
    "field_at (unat (prologue f [d0, d1, d2, d3])) 0 p0 = d0"
    "field_at (unat (prologue f [d0, d1, d2, d3])) p0 p1 = d1"
    "field_at (unat (prologue f [d0, d1, d2, d3])) (p0 + p1) p2 = d2"
    "field_at (unat (prologue f [d0, d1, d2, d3])) (p0 + p1 + p2) p3 = d3"
proof -
  have p: "p0 + p1 + p2 + p3 \<le> 56" using sh by (simp add: frames_shape_def PROLOGUE_MAX_def)
  define a0 :: u64 where "a0 = 0 OR push_bit 0 (of_nat d0)"
  define a1 where "a1 = a0 OR push_bit p0 (of_nat d1)"
  define a2 where "a2 = a1 OR push_bit (p0 + p1) (of_nat d2)"
  define a3 where "a3 = a2 OR push_bit (p0 + p1 + p2) (of_nat d3)"
  have pro: "prologue f [d0, d1, d2, d3] = a3"
    using sh by (simp add: prologue_def frames_shape_def a0_def a1_def a2_def a3_def)
  have a0: "unat a0 = d0" "unat a0 < 2 ^ p0"
    using prologue_step [of 0 0 d0 p0] d(1) p by (simp_all add: a0_def)
  have a1: "unat a1 = unat a0 + 2 ^ p0 * d1" "unat a1 < 2 ^ (p0 + p1)"
    using prologue_step [OF a0(2) d(2)] p by (simp_all add: a1_def)
  have a2: "unat a2 = unat a1 + 2 ^ (p0 + p1) * d2" "unat a2 < 2 ^ (p0 + p1 + p2)"
    using prologue_step [OF a1(2) d(3)] p by (simp_all add: a2_def)
  have a3: "unat a3 = unat a2 + 2 ^ (p0 + p1 + p2) * d3" "unat a3 < 2 ^ (p0 + p1 + p2 + p3)"
    using prologue_step [OF a2(2) d(4)] p by (simp_all add: a3_def)
  have hi: "field_at (unat a + 2 ^ s * x) s q = x" if "unat a < 2 ^ s" "x < 2 ^ q" for a :: u64 and s x q
    using field_at_shift [OF that(1), of x 0 q] that(2) by (simp add: field_at_def)
  show "unat (prologue f [d0, d1, d2, d3]) < 2 ^ frames_bits f" "frames_bits f \<le> 56"
    using a3(2) sh p by (simp_all add: pro frames_bits_def frames_shape_def)
  show "field_at (unat (prologue f [d0, d1, d2, d3])) 0 p0 = d0"
    using d(1) a0(1) by (simp add: pro a3(1) a2(1) a1(1) field_at_plus) (simp add: field_at_def)
  show "field_at (unat (prologue f [d0, d1, d2, d3])) p0 p1 = d1"
    using hi [OF a0(2) d(2)] by (simp add: pro a3(1) a2(1) a1(1) [symmetric] field_at_plus)
  show "field_at (unat (prologue f [d0, d1, d2, d3])) (p0 + p1) p2 = d2"
    using hi [OF a1(2) d(3)] by (simp add: pro a3(1) field_at_plus) (simp add: a2(1))
  show "field_at (unat (prologue f [d0, d1, d2, d3])) (p0 + p1 + p2) p3 = d3"
    using hi [OF a2(2) d(4)] by (simp add: pro a3(1))
qed

text \<open>How a reader of a run's frame decodes a code.\<close>

definition frame_dec :: "nat \<Rightarrow> nat \<Rightarrow> nat \<Rightarrow> nat \<Rightarrow> nat \<Rightarrow> (nat \<times> nat) option" where
  "frame_dec bl wl bn wn code = (if code = width_top (wl + wn) then None
    else Some (usize_add bl (drop_bit wn code), usize_add bn (code AND width_top wn)))"

lemma width_top_pair: "width_top wl * 2 ^ wn + width_top wn = width_top (wl + wn)"
proof -
  have "(2 ^ wl - 1) * 2 ^ wn + (2 ^ wn - 1) = (2::nat) ^ wl * 2 ^ wn - 2 ^ wn + (2 ^ wn - 1)"
    by (simp add: diff_mult_distrib)
  also have "\<dots> = 2 ^ (wl + wn) - 1" by (simp add: power_add)
  finally show ?thesis by (simp add: width_top_def)
qed

lemma frame_code_ok:
  assumes fr: "pw_frame w = Some (bl, wl, bn, wn)" "pw_width w = wl + wn"
    and p: "bl \<le> fst p" "bn \<le> snd p" "fst p < usize_bound" "snd p < usize_bound"
  shows "code_ok (frame_dec bl wl bn wn) w p"
proof -
  define dl dn where "dl = fst p - bl" and "dn = snd p - bn"
  have undo: "usize_add bl dl = fst p" "usize_add bn dn = snd p"
    using p by (simp_all add: usize_add_def dl_def dn_def)
  show ?thesis
  proof (cases "frame_fits dl dn wl wn")
    case True
    then have d: "dl < 2 ^ wl" "dn < 2 ^ wn" "dl \<noteq> width_top wl \<or> dn \<noteq> width_top wn"
      by (auto simp: frame_fits_def le_width_top)
    define code where "code = dl * 2 ^ wn + dn"
    have "(dl + 1) * 2 ^ wn \<le> 2 ^ wl * 2 ^ wn" using d(1) by (intro mult_le_mono1) simp
    then have lt: "code < 2 ^ (wl + wn)" using d(2) by (simp add: code_def power_add)
    have dec: "code div 2 ^ wn = dl" "code mod 2 ^ wn = dn" using d(2) by (simp_all add: code_def)
    have "code \<noteq> width_top (wl + wn)"
    proof
      assume "code = width_top (wl + wn)"
      then have "code = width_top wl * 2 ^ wn + width_top wn" by (simp add: width_top_pair)
      then have "code div 2 ^ wn = width_top wl" "code mod 2 ^ wn = width_top wn" by simp_all
      then show False using dec d(3) by simp
    qed
    moreover have "code AND width_top wn = dn" unfolding width_top_def nat_and_mask by (rule dec(2))
    ultimately have "frame_dec bl wl bn wn code = Some p"
      using undo dec(1) by (simp add: frame_dec_def drop_bit_eq_div)
    moreover have "pair_code_of w (fst p) (snd p) [] = Some (code, [])"
      using True p fr(1) or_push_add [OF d(2), of dl] by (simp add: pair_code_of_def dl_def dn_def code_def Let_def)
    ultimately show ?thesis using lt fr(2) by (auto simp: code_ok_def)
  next
    case False
    have "push_bit wn (width_top wl) OR width_top wn = width_top (wl + wn)"
      using or_push_add [of "width_top wn" wn "width_top wl"] by (simp add: width_top_pair)
    then have "pair_code_of w (fst p) (snd p) [] = Some (width_top (wl + wn), varint (fst p) @ varint (snd p))"
      using False p fr(1) put_varint_eq [of "varint (fst p)" "snd p"]
      by (simp add: pair_code_of_def dl_def dn_def Let_def)
    then show ?thesis using fr(2) by (auto simp: code_ok_def frame_dec_def)
  qed
qed

subsection \<open>A table\<close>

definition table_dec :: "u16 list \<Rightarrow> nat \<Rightarrow> (nat \<times> nat) option" where
  "table_dec ps code = map_option (\<lambda>p. (unat (drop_bit 8 p), unat (p AND 0xFF))) (get_at ps code)"

lemma inverse_slots:
  fixes r :: "u16 list" and ps :: "u16 list"
  defines "slots \<equiv> (\<lambda>ps. fold (\<lambda>(i, p) slots. slots[unat p := of_nat i]) (enumerate 0 ps) r)"
  assumes "k < length r" "r ! k = 65535"
  shows "length (slots ps) = length r \<and> (slots ps ! k = 65535 \<or> (\<exists>i<length ps. slots ps ! k = of_nat i \<and> unat (ps ! i) = k))"
proof (induction ps rule: rev_induct)
  case Nil
  show ?case using assms(3) by (simp add: slots_def)
next
  case (snoc p ps)
  have e: "slots (ps @ [p]) = (slots ps)[unat p := of_nat (length ps)]"
    by (simp add: enumerate_append_eq slots_def)
  show ?case
  proof (cases "unat p = k")
    case True
    then have "slots (ps @ [p]) ! k = of_nat (length ps)" using snoc assms(2) by (simp add: e)
    then show ?thesis using True snoc by (auto simp: e intro!: disjI2 exI [of _ "length ps"])
  next
    case False
    then show ?thesis using snoc by (auto simp: e nth_append)
  qed
qed

lemma pair_key_value: "snd p \<le> 255 \<Longrightarrow> pair_key p = fst p * 256 + snd p"
  using or_push_add [of "snd p" 8 "fst p"] by (simp add: pair_key_def)

lemma table_code_ok:
  assumes w: "pw_frame w = None" "pw_width w = tw" "pw_slots w = inverse_of (Table tw ps)"
    and len: "length ps \<le> width_top tw" "tw \<le> TABLE_MAX"
  shows "code_ok (table_dec ps) w p"
proof -
  have "width_top tw < 2 ^ tw" "(2::nat) ^ tw \<le> 2 ^ 10"
    using len(2) by (simp, intro power_increasing) (simp_all add: TABLE_MAX_def)
  then have small: "length ps \<le> 1023" using len(1) unfolding width_top_def by simp
  have esc: "code_ok (table_dec ps) w p" if "pair_code_of w (fst p) (snd p) [] = Some (width_top tw, varint (fst p) @ varint (snd p))"
    using that w(2) len(1) by (auto simp: code_ok_def table_dec_def get_at_def)
  define slot where "slot = (if fst p \<le> FIELD_MAX \<and> snd p \<le> FIELD_MAX then pw_slots w ! pair_key (fst p, snd p) else 65535)"
  show ?thesis
  proof (cases "slot = 65535")
    case True
    then show ?thesis using w(1,2) put_varint_eq [of "varint (fst p)" "snd p"]
      by (intro esc) (simp add: pair_code_of_def slot_def [symmetric] Let_def)
  next
    case False
    then have p: "fst p \<le> 255" "snd p \<le> 255" by (auto simp: slot_def FIELD_MAX_def split: if_splits)
    define k where "k = pair_key p"
    have k: "k = fst p * 256 + snd p" "k < 65536" using p by (simp_all add: k_def pair_key_value)
    have "slot = inverse_of (Table tw ps) ! k" using p w(3) by (simp add: slot_def FIELD_MAX_def k_def)
    then have "slot = 65535 \<or> (\<exists>i<length ps. slot = of_nat i \<and> unat (ps ! i) = k)"
      using inverse_slots [of k "replicate (2 ^ 16) 65535" ps] k(2)
      by (simp only: inverse_of_def pair_code.case length_replicate nth_replicate) simp
    with False obtain i where i: "i < length ps" "slot = of_nat i" "unat (ps ! i) = k" by auto
    have ui: "unat slot = i" using i small by (simp add: unat_of_nat)
    have m: "(0xFF :: u16) = mask 8" by (simp add: mask_eq_decr_exp)
    have "unat (drop_bit 8 (ps ! i)) = fst p" "unat (ps ! i AND 0xFF) = snd p"
      unfolding m unat_and_mask unat_drop_bit i(3) k(1) using p by simp_all
    then have "table_dec ps i = Some p" using i(1) by (simp add: table_dec_def get_at_def)
    moreover have "i < 2 ^ tw" using i(1) len(1) width_top_less [of tw] by linarith
    ultimately show ?thesis
      using w(1,2) False ui by (auto simp: code_ok_def pair_code_of_def slot_def [symmetric] Let_def)
  qed
qed

subsection \<open>A run and its reader\<close>

text \<open>Where the reader stands, given that the header stream holds a prologue and then the codes.\<close>

lemma reader_reads:
  assumes hdr: "le_nat hdr = pro + 2 ^ at * digits wd cs" "length hdr = div_ceil (at + wd * length cs) 8" "pro < 2 ^ at"
    and cs: "\<forall>c\<in>set cs. c < 2 ^ wd" "wd \<le> 56"
    and r: "reader_at (hdr @ rest) (length cs) at wd fr isf tab = Some (r, sfx)"
  shows "sfx = rest \<and> header_bytes r = length hdr \<and>
    read_pairs r (length cs) = map (pair_as isf r) cs \<and> rd_frame r = fr \<and> rd_mask r = low_ones wd \<and> rd_table r = tab"
proof -
  have "sfx = rest" and r': "r = \<lparr>rd_data = hdr @ rest, rd_hdr_end = length hdr, rd_bit = at, rd_width = wd,
      rd_mask = low_ones wd, rd_frame = fr, rd_is_frame = isf, rd_table = tab\<rparr>"
    using r hdr(2) by (auto simp: reader_at_def get_from_def Let_def mult.commute split: if_splits)
  have "field_at (le_nat (hdr @ rest)) (at + i * wd) wd = cs ! i" if i: "i < length cs" for i
  proof -
    have "wd * i + wd \<le> wd * length cs" using i by (metis Suc_leI mult_Suc_right mult_le_mono2 add.commute)
    then have "at + i * wd + wd \<le> 8 * length hdr"
      using div_ceil_mult_ge [of 8 "at + wd * length cs"] hdr(2) by (simp add: mult.commute)
    then have "field_at (le_nat (hdr @ rest)) (at + i * wd) wd = field_at (le_nat hdr) (at + i * wd) wd"
      unfolding le_nat_append power_256 by (rule field_at_plus)
    also have "\<dots> = field_at (digits wd cs) (i * wd) wd"
      unfolding hdr(1) by (rule field_at_shift [OF hdr(3)])
    also have "\<dots> = cs ! i" using digits_field [OF cs(1) i] by (simp add: mult.commute)
    finally show ?thesis .
  qed
  then have "map (\<lambda>i. pair_as isf r (field_at (le_nat (hdr @ rest)) (at + i * wd) wd)) [0..<length cs] = map (pair_as isf r) cs"
    by (intro nth_equalityI) simp_all
  moreover have "read_pairs r (length cs) = map (\<lambda>i. pair_as isf r (field_at (le_nat (hdr @ rest)) (at + i * wd) wd)) [0..<length cs]"
    using read_pairs_nth [of r "length cs"] cs(2) by (simp add: r')
  ultimately show ?thesis using \<open>sfx = rest\<close> by (simp add: r' header_bytes_def)
qed

definition run_in :: "pair_code \<Rightarrow> pairs \<Rightarrow> bool" where
  "run_in code ps = (case code of Frame f \<Rightarrow> fr_bl f \<le> fst (bases ps) \<and> fr_bn f \<le> snd (bases ps) | Table _ _ \<Rightarrow> True)"

definition code_wf :: "pair_code \<Rightarrow> bool" where
  "code_wf code = (case code of Frame f \<Rightarrow> frames_wf f
    | Table w ps \<Rightarrow> 1 \<le> w \<and> w \<le> TABLE_MAX \<and> length ps \<le> width_top w)"

definition pairs_fit :: "pairs \<Rightarrow> bool" where
  "pairs_fit ps \<longleftrightarrow> (\<forall>p\<in>set ps. fst p < usize_bound \<and> snd p < usize_bound)"

text \<open>What it is for a run to read back, each pair from its code or from the escape in its suffix.\<close>

definition reads_back :: "pair_code \<Rightarrow> bytes \<Rightarrow> bytes \<Rightarrow> pairs \<Rightarrow> bytes list \<Rightarrow> bool" where
  "reads_back code hdr rest ps chs \<longleftrightarrow> length chs = length ps \<and>
    (case reader_of code (hdr @ rest) (length ps) of None \<Rightarrow> False
     | Some (r, sfx) \<Rightarrow> sfx = rest \<and> header_bytes r = length hdr \<and>
        list_all2 (\<lambda>d (p, ch). d = Some p \<and> ch = [] \<or> d = None \<and> ch = varint (fst p) @ varint (snd p))
          (read_pairs r (length ps)) (zip ps chs))"

lemma bases_init: "fst (bases ps) < usize_bound" "snd (bases ps) < usize_bound"
proof -
  have "0 < usize_bound" by (simp add: usize_bound_def)
  then show "fst (bases ps) < usize_bound" "snd (bases ps) < usize_bound"
    using bases_le_init [of ps "usize_bound - 1" "usize_bound - 1"] by (auto simp: bases_def)
qed

lemma codes_read_back:
  assumes ok: "bits_ok (w_bits w)" "bits_nat (w_bits w) = pro" "bits_total (w_bits w) = at" "pw_width w = wd" "wd \<le> 56"
    and dec: "\<forall>p\<in>set ps. code_ok dec w p"
    and rd: "\<And>cs hdr. le_nat hdr = pro + 2 ^ at * digits wd cs \<Longrightarrow> length hdr = div_ceil (at + wd * length cs) 8 \<Longrightarrow>
      length cs = length ps \<Longrightarrow>
      \<exists>fr isf tab. reader_of code (hdr @ rest) (length ps) = reader_at (hdr @ rest) (length ps) at wd fr isf tab \<and>
        (\<forall>r c. rd_frame r = fr \<longrightarrow> rd_mask r = low_ones wd \<longrightarrow> rd_table r = tab \<longrightarrow> pair_as isf r c = dec c)"
  obtains w' chs where "push_pairs w ps = Some (w', chs)" "reads_back code (pw_finish w' []) rest ps chs"
proof -
  obtain w' chs cs where p: "push_pairs w ps = Some (w', chs)" "bits_ok (w_bits w')" "length cs = length ps" "length chs = length ps"
    "bits_nat (w_bits w') = pro + 2 ^ at * digits wd cs" "bits_total (w_bits w') = at + wd * length cs" "\<forall>c\<in>set cs. c < 2 ^ wd"
    "\<forall>i<length ps. dec (cs ! i) = Some (ps ! i) \<and> chs ! i = [] \<or>
      dec (cs ! i) = None \<and> chs ! i = varint (fst (ps ! i)) @ varint (snd (ps ! i))"
    using push_pairs_codes [OF ok(1) _ dec] ok by metis
  define hdr where "hdr = pw_finish w' []"
  have hdr: "le_nat hdr = pro + 2 ^ at * digits wd cs" "length hdr = div_ceil (at + wd * length cs) 8"
    using finish_bits(1,2) [OF p(2)] p(5,6) by (simp_all add: hdr_def)
  have pro: "pro < 2 ^ at" using bits_nat_less [OF ok(1)] ok(2,3) by simp
  obtain fr isf tab where rdr: "reader_of code (hdr @ rest) (length ps) = reader_at (hdr @ rest) (length ps) at wd fr isf tab"
    "\<And>r c. rd_frame r = fr \<Longrightarrow> rd_mask r = low_ones wd \<Longrightarrow> rd_table r = tab \<Longrightarrow> pair_as isf r c = dec c"
    using rd [OF hdr p(3)] by blast
  have "get_from (hdr @ rest) (div_ceil (at + length ps * wd) 8) = Some rest"
    using hdr(2) p(3) by (simp add: get_from_def mult.commute)
  then obtain r where r: "reader_at (hdr @ rest) (length ps) at wd fr isf tab = Some (r, rest)"
    by (simp add: reader_at_def Let_def)
  from reader_reads [OF hdr pro p(7) ok(5), of rest fr isf tab r rest] r p(3)
  have rr: "header_bytes r = length hdr" "read_pairs r (length ps) = map (pair_as isf r) cs" "rd_frame r = fr"
    "rd_mask r = low_ones wd" "rd_table r = tab" by simp_all
  then have "read_pairs r (length ps) = map dec cs" using rdr(2) by simp
  then have "list_all2 (\<lambda>d (p, ch). d = Some p \<and> ch = [] \<or> d = None \<and> ch = varint (fst p) @ varint (snd p))
          (read_pairs r (length ps)) (zip ps chs)"
    using p(3,4,8) by (auto simp: list_all2_conv_all_nth)
  then have "reads_back code hdr rest ps chs" using rdr(1) r rr(1) p(4) by (simp add: reads_back_def)
  with that p(1) show ?thesis by (simp add: hdr_def)
qed

lemma table_run:
  assumes "code_wf (Table tw tab)" "writer_new (Table tw tab) ps w = (wr, w')"
  obtains wr' chs where "push_pairs wr ps = Some (wr', chs)" "reads_back (Table tw tab) (pw_finish wr' []) rest ps chs"
proof (rule codes_read_back [where w = wr and pro = 0 and at = 0 and wd = tw and dec = "table_dec tab" and ps = ps
      and code = "Table tw tab" and rest = rest])
  have wr: "wr = \<lparr>pw_bits = 0, pw_used = 0, pw_out = [], pw_width = tw, pw_frame = None,
        pw_slots = inverse_of (Table tw tab)\<rparr>"
    using assms(2) by (simp add: writer_new_def)
  have wf: "1 \<le> tw" "tw \<le> TABLE_MAX" "length tab \<le> width_top tw" using assms(1) by (simp_all add: code_wf_def)
  show "bits_ok (w_bits wr)" "bits_nat (w_bits wr) = 0" "bits_total (w_bits wr) = 0" "pw_width wr = tw" "tw \<le> 56"
    using wf by (simp_all add: wr w_bits_def bits_ok_def bits_nat_def bits_total_def TABLE_MAX_def)
  show "\<forall>p\<in>set ps. code_ok (table_dec tab) wr p"
    by (intro ballI table_code_ok [of _ tw]) (use wf in \<open>simp_all add: wr\<close>)
  show "\<exists>fr isf tab'. reader_of (Table tw tab) (hdr @ rest) (length ps) = reader_at (hdr @ rest) (length ps) 0 tw fr isf tab' \<and>
        (\<forall>r c. rd_frame r = fr \<longrightarrow> rd_mask r = low_ones tw \<longrightarrow> rd_table r = tab' \<longrightarrow> pair_as isf r c = table_dec tab c)" for hdr
    by (intro exI [of _ run_frame_none] exI [of _ False] exI [of _ tab]) (simp add: reader_of_def pair_as_def table_dec_def)
qed (rule that)

lemma frame_run:
  assumes wf: "code_wf (Frame f)" and inn: "run_in (Frame f) ps" and fit: "pairs_fit ps"
    and wr: "writer_new (Frame f) ps w = (wr, w')"
  obtains wr' chs where "push_pairs wr ps = Some (wr', chs)" "reads_back (Frame f) (pw_finish wr' []) rest ps chs"
proof -
  obtain wl0 wn0 esc w1 where fw: "frame_widths ps w = ((wl0, wn0, esc), w1)" by (metis prod_cases3 surj_pair)
  define bl0 bn0 where "bl0 = fst (bases ps)" and "bn0 = snd (bases ps)"
  obtain p0 p1 p2 p3 where sh: "frames_shape f p0 p1 p2 p3" using wf by (auto simp: code_wf_def frames_wf_def)
  have p32: "p0 \<le> 32" "p1 \<le> 32" "p2 \<le> 32" "p3 \<le> 32" "p0 + p1 + p2 + p3 \<le> 56"
    using sh by (simp_all add: frames_shape_def OFFSET_MAX_def PROLOGUE_MAX_def)
  define d0 d1 d2 d3 where "d0 = min (bl0 - fr_bl f) (2 ^ p0 - 1)" and "d1 = min (bn0 - fr_bn f) (2 ^ p1 - 1)"
    and "d2 = min (wl0 - fr_wl f) (2 ^ p2 - 1)" and "d3 = min (wn0 - fr_wn f) (2 ^ p3 - 1)"
  have d: "d0 < 2 ^ p0" "d1 < 2 ^ p1" "d2 < 2 ^ p2" "d3 < 2 ^ p3"
    by (simp_all add: d0_def d1_def d2_def d3_def min_less_iff_disj)
  have cl: "clamped f \<lparr>ft_bl = bl0, ft_bn = bn0, ft_wl = wl0, ft_wn = wn0, ft_esc = esc, ft_n = length ps\<rparr> = [d0, d1, d2, d3]"
    using sh p32 by (simp add: clamped_def frames_shape_def unat_offset_mask d0_def d1_def d2_def d3_def)
  define bl bn wl wn where "bl = fr_bl f + d0" and "bn = fr_bn f + d1" and "wl = fr_wl f + d2" and "wn = fr_wn f + d3"
  note pf = prologue_fields [OF sh d]
  define pro where "pro = unat (prologue f [d0, d1, d2, d3])"
  obtain out acc used where fl: "flush_bytes [] (prologue f [d0, d1, d2, d3]) (frames_bits f) = (out, acc, used)"
    by (cases "flush_bytes [] (prologue f [d0, d1, d2, d3]) (frames_bits f)") auto
  from flush_bytes_value [OF fl pf(1)] have fv: "le_nat out + 2 ^ (8 * length out) * unat acc = pro"
    "8 * length out + used = frames_bits f" "unat acc < 2 ^ used" "used < 8" by (simp_all add: pro_def)
  have wreq: "wr = \<lparr>pw_bits = acc, pw_used = used, pw_out = out, pw_width = wl + wn, pw_frame = Some (bl, wl, bn, wn), pw_slots = []\<rparr>"
    using wr fl by (simp add: writer_new_def fit_run_def fw bl0_def [symmetric] bn0_def [symmetric] cl Let_def
        bl_def bn_def wl_def wn_def)
  have lo: "fr_bl f \<le> bl0" "fr_bn f \<le> bn0" using inn by (simp_all add: run_in_def bl0_def bn0_def)
  have b: "bl \<le> bl0" "bn \<le> bn0" using lo by (simp_all add: bl_def bn_def d0_def d1_def)
  have "wl0 \<le> 15 \<and> wn0 \<le> 15" using frame_widths_bound [OF fw] by (simp add: FRAME_MAX_def)
  moreover have "fr_wl f \<le> 15" "fr_wn f \<le> 15" using wf by (simp_all add: code_wf_def frames_wf_def FRAME_MAX_def)
  ultimately have w15: "wl \<le> FRAME_MAX" "wn \<le> FRAME_MAX"
    by (auto simp: wl_def wn_def d2_def d3_def FRAME_MAX_def min_def)
  show ?thesis
  proof (rule codes_read_back [where w = wr and pro = pro and at = "frames_bits f" and wd = "wl + wn"
        and dec = "frame_dec bl wl bn wn" and ps = ps and code = "Frame f" and rest = rest])
    show "bits_ok (w_bits wr)" "bits_nat (w_bits wr) = pro" "bits_total (w_bits wr) = frames_bits f" "pw_width wr = wl + wn"
      using fv by (simp_all add: wreq w_bits_def bits_ok_def bits_nat_def bits_total_def)
    show "wl + wn \<le> 56" using w15 by (simp add: FRAME_MAX_def)
    show "\<forall>p\<in>set ps. code_ok (frame_dec bl wl bn wn) wr p"
    proof
      fix p assume p: "p \<in> set ps"
      show "code_ok (frame_dec bl wl bn wn) wr p"
        by (rule frame_code_ok) (use b bases_lower [OF p] fit p in \<open>auto simp: wreq bl0_def bn0_def pairs_fit_def\<close>)
    qed
    fix cs :: "nat list" and hdr assume h: "le_nat hdr = pro + 2 ^ frames_bits f * digits (wl + wn) cs"
      "length hdr = div_ceil (frames_bits f + (wl + wn) * length cs) 8"
    have len: "frames_bits f \<le> length hdr * 8"
      using div_ceil_mult_ge [of 8 "frames_bits f + (wl + wn) * length cs"] h(2) by simp
    have ld: "offset_at f (load_word (hdr @ rest) 0) k = field_at pro s p"
      if k: "fr_sh f ! k = s" "fr_m f ! k = offset_mask p" "p \<le> 32" "s + p \<le> frames_bits f" for k s p
    proof -
      have "s + p \<le> 64" using k(4) pf(2) by simp
      then have "offset_at f (load_word (hdr @ rest) 0) k = field_at (le_nat (hdr @ rest)) s p"
        using load_field [of s p "hdr @ rest" 0] k by (simp add: offset_at_def load_word_load8 ucast_offset_mask)
      also have "\<dots> = field_at (le_nat hdr) s p"
        unfolding le_nat_append power_256 by (rule field_at_plus) (use k(4) len in simp)
      also have "\<dots> = field_at pro s p" unfolding h(1) by (rule field_at_plus [OF k(4)])
      finally show ?thesis .
    qed
    have fb: "frames_bits f = p0 + p1 + p2 + p3" using sh by (simp add: frames_bits_def frames_shape_def)
    have off: "offset_at f (load_word (hdr @ rest) 0) 0 = d0" "offset_at f (load_word (hdr @ rest) 0) 1 = d1"
      "offset_at f (load_word (hdr @ rest) 0) 2 = d2" "offset_at f (load_word (hdr @ rest) 0) 3 = d3"
      using ld [of 0 0 p0] ld [of 1 p0 p1] ld [of 2 "p0 + p1" p2] ld [of 3 "p0 + p1 + p2" p3] sh p32 pf(3-6)
      by (simp_all add: frames_shape_def fb pro_def)
    define fr where "fr = \<lparr>rf_bl = usize_add (fr_bl f) d0, rf_bn = usize_add (fr_bn f) d1, rf_wn = wn, rf_mask_n = width_top wn\<rparr>"
    have "reader_frame f (hdr @ rest) = Some (frames_bits f, wl + wn, fr)"
      using len w15 by (simp add: reader_frame_def off off [unfolded One_nat_def] Let_def wl_def wn_def fr_def)
    then have "reader_of (Frame f) (hdr @ rest) (length ps) = reader_at (hdr @ rest) (length ps) (frames_bits f) (wl + wn) fr True []"
      by (simp add: reader_of_def)
    moreover have "usize_add (fr_bl f) d0 = bl" "usize_add (fr_bn f) d1 = bn"
      using b bases_init [of ps] by (simp_all add: usize_add_def bl_def bn_def bl0_def bn0_def)
    moreover have "wl + wn < 64" using w15 by (simp add: FRAME_MAX_def)
    ultimately show "\<exists>fr isf tab. reader_of (Frame f) (hdr @ rest) (length ps)
          = reader_at (hdr @ rest) (length ps) (frames_bits f) (wl + wn) fr isf tab \<and>
        (\<forall>r c. rd_frame r = fr \<longrightarrow> rd_mask r = low_ones (wl + wn) \<longrightarrow> rd_table r = tab \<longrightarrow>
          pair_as isf r c = frame_dec bl wl bn wn c)"
      by (intro exI [of _ fr] exI [of _ True] exI [of _ "[]"])
        (simp add: pair_as_def frame_dec_def unat_low_ones fr_def)
  qed (rule that)
qed

end
