(* ===== verification/Key_Lcp.thy ===== *)
theory Key_Lcp
  imports Varint
begin

text \<open>
  \<^verbatim>\<open>lcp\<close> of \<^verbatim>\<open>src/dict_index.rs\<close>: how many leading bytes two keys share, by whole words and then a few
  overlapping loads, so that the first difference is one count of trailing zeros. It is proved equal
  to the list function.
\<close>

definition trailing_zeros :: "u64 \<Rightarrow> nat" where
  "trailing_zeros w = length (takeWhile (\<lambda>n. \<not> bit w n) [0..<64])"

definition quad_at :: "bytes \<Rightarrow> nat \<Rightarrow> u32" where
  "quad_at s i = u32_of (take 4 (drop i s))"

definition byte_diff :: "bytes \<Rightarrow> bytes \<Rightarrow> nat \<Rightarrow> u64" where
  "byte_diff a b k = push_bit (8 * k) (ucast (a ! k XOR b ! k))"

text \<open>The words: the answer, or where the tail of fewer than eight bytes begins.\<close>

function lcp_words :: "bytes \<Rightarrow> bytes \<Rightarrow> nat \<Rightarrow> nat \<Rightarrow> nat + nat" where
  "lcp_words a b n i =
    (if i + 8 \<le> n then
       (let x = word_at a i XOR word_at b i
        in if x \<noteq> 0 then Inl (i + trailing_zeros x div 8) else lcp_words a b n (i + 8))
     else Inr i)"
  by pat_completeness auto
termination by (relation "measure (\<lambda>(a, b, n, i). n - i)") auto

declare lcp_words.simps [simp del]

definition lcp_bytes :: "bytes \<Rightarrow> bytes \<Rightarrow> nat" where
  "lcp_bytes a b =
    (let n = min (length a) (length b)
     in case lcp_words a b n 0 of
          Inl l \<Rightarrow> l
        | Inr i \<Rightarrow>
            if i = n then n
            else (let (at, x) =
                (if n \<ge> 8 then (n - 8, word_at a (n - 8) XOR word_at b (n - 8))
                 else if n \<ge> 4 then
                   (let head = ucast (quad_at a 0 XOR quad_at b 0);
                        tail = ucast (quad_at a (n - 4) XOR quad_at b (n - 4))
                    in (0, head OR push_bit (8 * (n - 4)) tail))
                 else (0, byte_diff a b 0 OR byte_diff a b (n div 2) OR byte_diff a b (n - 1)))
              in if x = 0 then n else at + trailing_zeros x div 8))"

subsection \<open>Bits of loaded bytes\<close>

lemma bit_le_nat: "bit (le_nat bs) m \<longleftrightarrow> m div 8 < length bs \<and> bit (bs ! (m div 8)) (m mod 8)"
proof (induction bs arbitrary: m)
  case (Cons b bs)
  show ?case
  proof (cases "m < 8")
    case True
    then have "(unat b + 256 * le_nat bs) mod 2 ^ 8 = unat b" using unat_u8_less [of b] by simp
    then have "bit (unat b + 256 * le_nat bs) m \<longleftrightarrow> bit (unat b) m"
      using True by (metis bit_take_bit_iff take_bit_eq_mod)
    then show ?thesis using True by (simp add: bit_unsigned_iff)
  next
    case False
    then obtain k where k: "m = 8 + k" by (metis le_Suc_ex not_less)
    have "(unat b + 256 * le_nat bs) div 2 ^ 8 = le_nat bs" using unat_u8_less [of b] by simp
    then have "bit (unat b + 256 * le_nat bs) m \<longleftrightarrow> bit (le_nat bs) k"
      unfolding k by (metis bit_drop_bit_eq comp_apply drop_bit_eq_div)
    moreover have "(8 + k) div 8 = Suc (k div 8)" "(8 + k) mod 8 = k mod 8" by simp_all
    ultimately show ?thesis using Cons k by (simp only: le_nat.simps list.size nth_Cons_Suc Suc_less_eq)
        simp
  qed
qed simp

lemma bit_u64_of: "length bs \<le> 8 \<Longrightarrow> bit (u64_of bs) m \<longleftrightarrow> m div 8 < length bs \<and> bit (bs ! (m div 8)) (m mod 8)"
  by (auto simp: u64_of_def bit_of_nat_iff bit_le_nat)

lemma bit_u32_of: "length bs \<le> 4 \<Longrightarrow> bit (u32_of bs) m \<longleftrightarrow> m div 8 < length bs \<and> bit (bs ! (m div 8)) (m mod 8)"
  by (auto simp: u32_of_def bit_of_nat_iff bit_le_nat)

text \<open>A word whose bits are where two byte strings differ.\<close>

definition diff_word :: "u64 \<Rightarrow> bytes \<Rightarrow> bytes \<Rightarrow> bool" where
  "diff_word x a b \<longleftrightarrow> length a = length b \<and> length a \<le> 8 \<and>
    (\<forall>m. bit x m \<longleftrightarrow> m div 8 < length a \<and> bit (a ! (m div 8)) (m mod 8) \<noteq> bit (b ! (m div 8)) (m mod 8))"

lemma diff_word_zero:
  assumes "diff_word x a b"
  shows "x = 0 \<longleftrightarrow> a = b"
proof
  assume "x = 0"
  then have z: "\<not> bit x m" for m by simp
  have same: "bit (a ! k) j = bit (b ! k) j" if "k < length a" "j < 8" for k j
  proof -
    have "(8 * k + j) div 8 = k" "(8 * k + j) mod 8 = j" using that by simp_all
    then show ?thesis using assms z [of "8 * k + j"] that unfolding diff_word_def by metis
  qed
  show "a = b"
  proof (rule nth_equalityI)
    show "length a = length b" using assms by (simp add: diff_word_def)
    show "a ! k = b ! k" if "k < length a" for k
      by (rule bit_word_eqI) (use same that in simp)
  qed
next
  assume "a = b"
  then show "x = 0" using assms by (auto simp: diff_word_def intro: bit_word_eqI)
qed

lemma takeWhile_upt_first:
  assumes "P n" "\<And>j. j < n \<Longrightarrow> \<not> P j" "n < k"
  shows "length (takeWhile (\<lambda>j. \<not> P j) [0..<k]) = n"
proof -
  have "[0..<k] = [0..<n] @ n # [Suc n..<k]"
    using assms(3) by (metis le_add1 less_imp_add_positive upt_add_eq_append upt_conv_Cons zero_le plus_nat.add_0 less_imp_le)
  moreover have "takeWhile (\<lambda>j. \<not> P j) [0..<n] = [0..<n]" using assms(2) by (simp add: takeWhile_eq_all_conv)
  ultimately show ?thesis using assms(1,2) by (simp add: takeWhile_append)
qed

lemma trailing_zeros_diff:
  assumes d: "diff_word x a b" and ne: "a \<noteq> b"
  shows "trailing_zeros x div 8 = lcp a b"
proof -
  define l where "l = lcp a b"
  have len: "length a = length b" "length a \<le> 8" using d by (simp_all add: diff_word_def)
  have l: "l < length a"
    using ne lcp_le(1) [of a b] lcp_take [of a b] len(1) unfolding l_def
    by (metis le_neq_implies_less order_refl take_all)
  have "a ! l \<noteq> b ! l" using lcp_nth_neq [of a b] l len(1) by (simp add: l_def)
  then obtain j where j: "j < 8" "bit (a ! l) j \<noteq> bit (b ! l) j" by (auto simp: bit_eq_iff)
  define m where "m = (LEAST j. bit (a ! l) j \<noteq> bit (b ! l) j)"
  have m: "bit (a ! l) m \<noteq> bit (b ! l) m" "m \<le> j" "\<And>i. i < m \<Longrightarrow> bit (a ! l) i = bit (b ! l) i"
    unfolding m_def by (rule LeastI, rule j(2)) (rule Least_le, rule j(2), use not_less_Least in blast)
  then have m8: "m < 8" using j(1) by simp
  have "bit x (8 * l + m)" using d l m8 m(1) by (simp add: diff_word_def)
  moreover have "\<not> bit x i" if i: "i < 8 * l + m" for i
  proof (cases "i div 8 = l")
    case True
    then have "i mod 8 < m" using i by (metis add_less_cancel_left mult_div_mod_eq)
    then show ?thesis using d m(3) True by (simp add: diff_word_def)
  next
    case False
    have "i div 8 \<le> l" using i m8 by linarith
    with False have "i div 8 < l" by simp
    then have "take (Suc (i div 8)) a = take (Suc (i div 8)) b"
      unfolding l_def by (simp add: less_lcp_iff)
    then have "a ! (i div 8) = b ! (i div 8)" by (metis lessI nth_take)
    then show ?thesis using d by (simp add: diff_word_def)
  qed
  moreover have "8 * l + m < 64" using l len m8 by linarith
  ultimately have "trailing_zeros x = 8 * l + m" unfolding trailing_zeros_def by (rule takeWhile_upt_first)
  then show ?thesis using m8 by (simp add: l_def)
qed

subsection \<open>The loads\<close>

lemma diff_word_words:
  "i + 8 \<le> length a \<Longrightarrow> i + 8 \<le> length b \<Longrightarrow>
    diff_word (word_at a i XOR word_at b i) (take 8 (drop i a)) (take 8 (drop i b))"
  by (simp add: diff_word_def word_at_load8 load8_def bit_xor_iff bit_u64_of cong: conj_cong)
    blast

lemma diff_word_quads:
  assumes "4 \<le> n" "n < 8" "n \<le> length a" "n \<le> length b"
  shows "diff_word (ucast (quad_at a 0 XOR quad_at b 0) OR
      push_bit (8 * (n - 4)) (ucast (quad_at a (n - 4) XOR quad_at b (n - 4)))) (take n a) (take n b)"
proof -
  define D where "D m \<longleftrightarrow> bit (a ! (m div 8)) (m mod 8) \<noteq> bit (b ! (m div 8)) (m mod 8)" for m
  have q: "bit (ucast (quad_at a i XOR quad_at b i) :: u64) m \<longleftrightarrow> m div 8 < 4 \<and> D (8 * i + m)" if "i + 4 \<le> n" for i m
  proof -
    have "m div 8 < 4 \<longleftrightarrow> m < 32" by auto
    then show ?thesis
      using that assms(3,4) by (auto simp: bit_ucast_iff quad_at_def bit_xor_iff bit_u32_of D_def)
  qed
  have "bit (ucast (quad_at a 0 XOR quad_at b 0) OR
      push_bit (8 * (n - 4)) (ucast (quad_at a (n - 4) XOR quad_at b (n - 4))) :: u64) m \<longleftrightarrow> m div 8 < n \<and> D m" for m
  proof -
    have h: "bit (ucast (quad_at a 0 XOR quad_at b 0) :: u64) m \<longleftrightarrow> m div 8 < 4 \<and> D m"
      using q [of 0 m] assms(1) by simp
    have t: "bit (push_bit (8 * (n - 4)) (ucast (quad_at a (n - 4) XOR quad_at b (n - 4))) :: u64) m \<longleftrightarrow>
        8 * (n - 4) \<le> m \<and> m < 64 \<and> (m - 8 * (n - 4)) div 8 < 4 \<and> D m"
      using q [of "n - 4" "m - 8 * (n - 4)"] assms(1) by (auto simp: bit_push_bit_iff)
    show ?thesis unfolding bit_or_iff h t using assms(1,2) by auto
  qed
  then show ?thesis using assms by (simp add: diff_word_def D_def cong: conj_cong)
qed

lemma bit_byte_diff:
  "k < 8 \<Longrightarrow> bit (byte_diff a b k) m \<longleftrightarrow> m div 8 = k \<and> bit (a ! k) (m mod 8) \<noteq> bit (b ! k) (m mod 8)"
proof -
  assume k: "k < 8"
  have "bit (byte_diff a b k) m \<longleftrightarrow> 8 * k \<le> m \<and> m < 64 \<and> bit (a ! k XOR b ! k) (m - 8 * k) \<and> m - 8 * k < 8"
    by (auto simp: byte_diff_def bit_push_bit_iff bit_ucast_iff dest: bit_imp_le_length)
  moreover have "8 * k \<le> m \<and> m - 8 * k < 8 \<longleftrightarrow> m div 8 = k" by auto
  moreover have "m - 8 * k = m mod 8" if "m div 8 = k" using that by (auto simp: minus_mult_div_eq_mod)
  moreover have "m < 64" if "m div 8 = k" using that k by auto
  ultimately show ?thesis by (metis bit_xor_iff)
qed

lemma diff_word_bytes:
  assumes "0 < n" "n < 4" "n \<le> length a" "n \<le> length b"
  shows "diff_word (byte_diff a b 0 OR byte_diff a b (n div 2) OR byte_diff a b (n - 1)) (take n a) (take n b)"
proof -
  have "m div 8 < n \<longleftrightarrow> m div 8 = 0 \<or> m div 8 = n div 2 \<or> m div 8 = n - 1" for m
    using assms(1,2) by auto
  then show ?thesis
    using assms by (auto simp: diff_word_def bit_or_iff bit_byte_diff)
qed

lemma lcp_split:
  assumes "take i a = take i b" "i \<le> length a" "i \<le> length b"
  shows "lcp a b = i + lcp (drop i a) (drop i b)"
  using lcp_append [of "take i a" "drop i a" "drop i b"] assms by (simp add: min_def) (metis append_take_drop_id)

lemma lcp_take_neq:
  "take k a \<noteq> take k b \<Longrightarrow> lcp a b = lcp (take k a) (take k b)"
proof (induction k arbitrary: a b)
  case (Suc k)
  show ?case
  proof (cases "a = [] \<or> b = []")
    case True
    then show ?thesis by (auto simp: neq_Nil_conv)
  next
    case False
    then obtain x xs y ys where ab: "a = x # xs" "b = y # ys" by (auto simp: neq_Nil_conv)
    show ?thesis
    proof (cases "x = y")
      case True
      then have "lcp xs ys = lcp (take k xs) (take k ys)" using Suc.prems by (intro Suc.IH) (simp add: ab)
      then show ?thesis using True by (simp add: ab)
    qed (simp add: ab)
  qed
qed simp

lemma lcp_words_eq:
  assumes n: "n = min (length a) (length b)"
  shows "i \<le> n \<Longrightarrow> take i a = take i b \<Longrightarrow>
    (case lcp_words a b n i of Inl l \<Rightarrow> l = lcp a b
     | Inr j \<Rightarrow> take j a = take j b \<and> j \<le> n \<and> n < j + 8 \<and> i \<le> j)"
proof (induction "n - i" arbitrary: i rule: less_induct)
  case less
  show ?case
  proof (cases "i + 8 \<le> n")
    case False
    then have "lcp_words a b n i = Inr i" by (subst lcp_words.simps) simp
    then show ?thesis using less.prems False by (simp only: sum.case) simp
  next
    case True
    then have len: "i + 8 \<le> length a" "i + 8 \<le> length b" using n by simp_all
    define x where "x = word_at a i XOR word_at b i"
    have d: "diff_word x (take 8 (drop i a)) (take 8 (drop i b))"
      unfolding x_def by (rule diff_word_words [OF len])
    have split: "lcp a b = i + lcp (drop i a) (drop i b)"
      by (rule lcp_split [OF less.prems(2)]) (use len in linarith)+
    show ?thesis
    proof (cases "x = 0")
      case False
      then have ne: "take 8 (drop i a) \<noteq> take 8 (drop i b)" unfolding diff_word_zero [OF d] .
      have "trailing_zeros x div 8 = lcp (drop i a) (drop i b)"
        unfolding lcp_take_neq [OF ne] by (rule trailing_zeros_diff [OF d ne])
      then have "i + trailing_zeros x div 8 = lcp a b" unfolding split by (rule arg_cong)
      moreover have "lcp_words a b n i = Inl (i + trailing_zeros x div 8)"
        using True False by (subst lcp_words.simps) (simp only: x_def [symmetric] Let_def if_True simp_thms)
      ultimately show ?thesis by simp
    next
      case zero: True
      then have "take 8 (drop i a) = take 8 (drop i b)" unfolding diff_word_zero [OF d] .
      then have eq: "take (i + 8) a = take (i + 8) b" using less.prems(2) by (simp only: take_add)
      have "case lcp_words a b n (i + 8) of Inl l \<Rightarrow> l = lcp a b
          | Inr j \<Rightarrow> take j a = take j b \<and> j \<le> n \<and> n < j + 8 \<and> i + 8 \<le> j"
        by (rule less.hyps [OF _ True eq]) (use True in linarith)
      moreover have "lcp_words a b n i = lcp_words a b n (i + 8)"
        using True zero by (subst lcp_words.simps) (simp only: x_def [symmetric] Let_def if_True simp_thms if_False)
      ultimately show ?thesis by (cases "lcp_words a b n (i + 8)") simp_all
    qed
  qed
qed

lemma lcp_min: "take (min (length a) (length b)) a = take (min (length a) (length b)) b \<Longrightarrow>
  lcp a b = min (length a) (length b)"
  using lcp_split [of "min (length a) (length b)" a b] by (auto simp: min_def split: if_splits)

lemma lcp_bytes_eq: "lcp_bytes a b = lcp a b"
proof -
  define n where "n = min (length a) (length b)"
  have n: "n \<le> length a" "n \<le> length b" by (simp_all add: n_def)
  have words: "case lcp_words a b n 0 of Inl l \<Rightarrow> l = lcp a b
     | Inr j \<Rightarrow> take j a = take j b \<and> j \<le> n \<and> n < j + 8 \<and> 0 \<le> j"
    by (rule lcp_words_eq) (simp_all add: n_def)
  show ?thesis
  proof (cases "lcp_words a b n 0")
    case (Inl l)
    then show ?thesis using words by (simp add: lcp_bytes_def n_def)
  next
    case (Inr i)
    then have i: "take i a = take i b" "i \<le> n" "n < i + 8" using words by simp_all
    have fin: "(if x = 0 then n else at + trailing_zeros x div 8) = lcp a b"
      if d: "diff_word x (take k (drop at a)) (take k (drop at b))" and k: "at + k = n" "take at a = take at b" for x at k
    proof (cases "x = 0")
      case True
      then have "take k (drop at a) = take k (drop at b)" using diff_word_zero [OF d] by simp
      then have "take n a = take n b" using k by (metis take_add)
      then show ?thesis using True lcp_min [of a b] by (simp add: n_def)
    next
      case False
      then have ne: "take k (drop at a) \<noteq> take k (drop at b)" using diff_word_zero [OF d] by simp
      have "lcp a b = at + lcp (drop at a) (drop at b)" using n k by (intro lcp_split) simp_all
      then show ?thesis using False trailing_zeros_diff [OF d ne] lcp_take_neq [OF ne] by simp
    qed
    show ?thesis
    proof (cases "i = n")
      case True
      then show ?thesis using i(1) lcp_min [of a b] Inr by (simp add: lcp_bytes_def n_def)
    next
      case False
      consider "n \<ge> 8" | "4 \<le> n" "n < 8" | "0 < n" "n < 4" using False i(2) by linarith
      then show ?thesis
      proof cases
        case 1
        have "take (n - 8) a = take (n - 8) b"
          using arg_cong [OF i(1), of "take (n - 8)"] i(3) 1 by (simp add: min_def split: if_splits)
        then have "(if word_at a (n - 8) XOR word_at b (n - 8) = 0 then n
            else n - 8 + trailing_zeros (word_at a (n - 8) XOR word_at b (n - 8)) div 8) = lcp a b"
          using 1 n by (intro fin [of _ 8] diff_word_words) simp_all
        then show ?thesis using False 1 Inr by (simp add: lcp_bytes_def n_def [symmetric] Let_def)
      next
        case 2
        from fin [OF _ _ _, of _ n 0] diff_word_quads [OF 2 n] show ?thesis
          using False 2 Inr by (simp add: lcp_bytes_def n_def [symmetric] Let_def)
      next
        case 3
        from fin [OF _ _ _, of _ n 0] diff_word_bytes [OF 3 n] show ?thesis
          using False 3 Inr by (simp add: lcp_bytes_def n_def [symmetric] Let_def)
      qed
    qed
  qed
qed

end
