(* ===== verification/Paircode_Theorems.thy ===== *)
theory Paircode_Theorems
  imports Paircode_Run Key_Lcp
begin

text \<open>
  What \<^verbatim>\<open>src/paircode.rs\<close> and the varints under it promise: any run of any group reads back, under
  the code the group chose and after that code has been through the blob; the width search is the
  exhaustive one; and what the search reports as the cost of a frame group is its bytes less the tag.
\<close>

subsection \<open>The code a group chooses\<close>

lemma spread_bounds: "f \<in> set fits \<Longrightarrow> fst (lo_hi sel fits) \<le> sel f \<and> sel f \<le> snd (lo_hi sel fits)"
proof -
  have gen: "fst (fold (\<lambda>f (lo, hi). (min lo (sel f), max hi (sel f))) fs (a, b)) \<le> a \<and>
      b \<le> snd (fold (\<lambda>f (lo, hi). (min lo (sel f), max hi (sel f))) fs (a, b)) \<and>
      (\<forall>f\<in>set fs. fst (fold (\<lambda>f (lo, hi). (min lo (sel f), max hi (sel f))) fs (a, b)) \<le> sel f \<and>
        sel f \<le> snd (fold (\<lambda>f (lo, hi). (min lo (sel f), max hi (sel f))) fs (a, b)))" for fs a b
  proof (induction fs arbitrary: a b)
    case (Cons f fs)
    from Cons [of "min a (sel f)" "max b (sel f)"] show ?case by (simp add: min.bounded_iff max.bounded_iff)
  qed simp
  then show "f \<in> set fits \<Longrightarrow> fst (lo_hi sel fits) \<le> sel f \<and> sel f \<le> snd (lo_hi sel fits)"
    by (auto simp: lo_hi_def)
qed

lemma frames_over_wf:
  assumes f: "frames_over fits = Some f"
    and fits: "\<And>r. r \<in> set fits \<Longrightarrow> ft_bl r < usize_bound \<and> ft_bn r < usize_bound \<and> ft_wl r \<le> FRAME_MAX \<and> ft_wn r \<le> FRAME_MAX"
  shows "frames_wf f \<and> (\<forall>r\<in>set fits. fr_bl f \<le> ft_bl r \<and> fr_bn f \<le> ft_bn r \<and> fr_wl f \<le> ft_wl r \<and> fr_wn f \<le> ft_wn r \<and>
    ft_wl r - fr_wl f \<le> 15 \<and> ft_wn r - fr_wn f \<le> 15)"
proof -
  obtain l0 h0 l1 h1 l2 h2 l3 h3 where s: "lo_hi ft_bl fits = (l0, h0)" "lo_hi ft_bn fits = (l1, h1)"
    "lo_hi ft_wl fits = (l2, h2)" "lo_hi ft_wn fits = (l3, h3)" by fastforce
  have ne: "fits \<noteq> []" using f by (auto simp: frames_over_def)
  then obtain r0 where r0: "r0 \<in> set fits" by (cases fits) auto
  have lo: "l0 \<le> ft_bl r \<and> l1 \<le> ft_bn r \<and> l2 \<le> ft_wl r \<and> l3 \<le> ft_wn r \<and> ft_bl r \<le> h0 \<and> ft_bn r \<le> h1 \<and> ft_wl r \<le> h2 \<and> ft_wn r \<le> h3"
    if "r \<in> set fits" for r
    using spread_bounds [OF that, of ft_bl] spread_bounds [OF that, of ft_bn] spread_bounds [OF that, of ft_wl]
      spread_bounds [OF that, of ft_wn] by (simp add: s)
  have hi: "snd (lo_hi sel fits) \<in> sel ` set fits" for sel :: "fit \<Rightarrow> nat"
  proof -
    have "snd (fold (\<lambda>f (lo, hi). (min lo (sel f), max hi (sel f))) fs (a, b)) \<in> insert b (sel ` set fs)" for fs a b
    proof (induction fs arbitrary: a b)
      case (Cons g fs)
      from Cons [of "min a (sel g)" "max b (sel g)"] show ?case by (auto simp: max_def split: if_splits)
    qed simp
    from this [of fits "sel (hd fits)" "sel (hd fits)"] show ?thesis using ne by (auto simp: lo_hi_def)
  qed
  have h15: "h2 \<le> 15" "h3 \<le> 15"
    using hi [of ft_wl] hi [of ft_wn] fits by (auto simp: s FRAME_MAX_def)
  have n: "frames_new l0 l1 l2 l3 (bits_of (h0 - l0)) (bits_of (h1 - l1)) (bits_of (h2 - l2)) (bits_of (h3 - l3)) = Some f"
    using f ne by (simp add: frames_over_def s)
  have "(16::nat) \<le> 2 ^ 15" by simp
  then have "bits_of (h2 - l2) \<le> 15" "bits_of (h3 - l3) \<le> 15"
    unfolding bits_of_le using h15 by linarith+
  then have "frames_shape f (bits_of (h0 - l0)) (bits_of (h1 - l1)) (bits_of (h2 - l2)) (bits_of (h3 - l3))"
    using n by (auto simp: frames_new_def frames_shape_def split: if_splits)
  moreover have fld: "fr_bl f = l0" "fr_bn f = l1" "fr_wl f = l2" "fr_wn f = l3"
    using n by (auto simp: frames_new_def split: if_splits)
  moreover have "l0 < usize_bound" "l1 < usize_bound" "l2 \<le> FRAME_MAX" "l3 \<le> FRAME_MAX"
    using lo [OF r0] fits [OF r0] by auto
  ultimately have "frames_wf f" unfolding frames_wf_def by auto
  moreover have "ft_wl r - l2 \<le> 15" "ft_wn r - l3 \<le> 15" if "r \<in> set fits" for r
    using lo [OF that] h15 by auto
  ultimately show ?thesis using lo fld by auto
qed

lemma fit_runs_props:
  "r \<in> set (fst (fit_runs rs w)) \<Longrightarrow> ft_bl r < usize_bound \<and> ft_bn r < usize_bound \<and> ft_wl r \<le> FRAME_MAX \<and> ft_wn r \<le> FRAME_MAX"
  "ps \<in> set rs \<Longrightarrow> \<exists>r\<in>set (fst (fit_runs rs w)). ft_bl r = fst (bases ps) \<and> ft_bn r = snd (bases ps)"
proof (induction rs arbitrary: w)
  case (Cons q rs)
  {
    case 1
    obtain wl wn esc w1 where fw: "frame_widths q w = ((wl, wn, esc), w1)" by (metis prod_cases3 surj_pair)
    then show ?case using 1 Cons(1) [of w1] frame_widths_bound [OF fw] bases_init [of q]
      by (auto simp: fit_run_def case_prod_unfold split: prod.splits)
  next
    case 2
    obtain wl wn esc w1 where fw: "frame_widths q w = ((wl, wn, esc), w1)" by (metis prod_cases3 surj_pair)
    then show ?case using 2 Cons(2) [of w1] by (auto simp: fit_run_def case_prod_unfold split: prod.splits)
  }
qed simp_all

lemma best_table_wf:
  assumes "best_table runs = Some (code, bytes)"
  shows "code_wf code \<and> run_in code ps"
proof -
  define entries ranked loose where "entries = length (concat runs)" and "ranked = ranked_pairs (pair_counts (concat runs))"
    and "loose = sum_list (map (\<lambda>p. escape_len (fst p) (snd p)) (filter (\<lambda>p. \<not> nameable p) (concat runs)))"
  define step where "step = (\<lambda>w best. let (t, cost) = table_of entries ranked loose w in
      (case best of None \<Rightarrow> Some (t, cost) | Some (_, b) \<Rightarrow> if cost < b then Some (t, cost) else best))"
  have ok: "code_wf (fst (table_of entries ranked loose w)) \<and> run_in (fst (table_of entries ranked loose w)) ps"
    if "w \<in> set [1..<TABLE_MAX + 1]" for w
    using that by (auto simp: table_of_def Let_def code_wf_def run_in_def)
  have "\<forall>c b. fold step ws best = Some (c, b) \<longrightarrow> code_wf c \<and> run_in c ps"
    if "set ws \<subseteq> set [1..<TABLE_MAX + 1]" "\<forall>c b. best = Some (c, b) \<longrightarrow> code_wf c \<and> run_in c ps" for ws best
    using that
  proof (induction ws arbitrary: best)
    case (Cons w ws)
    have "\<forall>c b. step w best = Some (c, b) \<longrightarrow> code_wf c \<and> run_in c ps"
      using ok [of w] Cons.prems by (auto simp: step_def case_prod_unfold Let_def split: option.splits if_splits)
    moreover have "set ws \<subseteq> set [1..<TABLE_MAX + 1]" using Cons.prems(1) by auto
    ultimately show ?case using Cons.IH [of "step w best"] by simp
  qed simp
  moreover have "fold step [1..<TABLE_MAX + 1] None = Some (code, bytes)"
    using assms by (simp add: best_table_def Let_def entries_def ranked_def loose_def step_def split: if_splits)
  ultimately show ?thesis by blast
qed

lemma frames_none_wf: "frames_wf frames_none"
  unfolding frames_wf_def
  by (intro conjI exI [of _ 0])
    (simp_all add: frames_none_def frames_shape_def usize_bound_def offset_mask_def)

lemma choose_cost_covers:
  assumes "ps \<in> set runs" "ps \<noteq> []"
  shows "code_wf (fst (choose_cost runs)) \<and> run_in (fst (choose_cost runs)) ps"
proof -
  define fits where "fits = fst (fit_runs (filter (\<lambda>r. r \<noteq> []) runs) widths_default)"
  obtain r where r: "r \<in> set fits" "ft_bl r = fst (bases ps)" "ft_bn r = snd (bases ps)"
    using fit_runs_props(2) [of ps "filter (\<lambda>r. r \<noteq> []) runs" widths_default] assms by (auto simp: fits_def)
  have f: "code_wf (Frame f) \<and> run_in (Frame f) ps" if "frames_over fits = Some f" for f
  proof -
    from frames_over_wf [OF that] fit_runs_props(1) r show ?thesis
      unfolding fits_def by (fastforce simp: code_wf_def run_in_def)
  qed
  have bt: "best_table runs \<noteq> None"
  proof -
    have ne: "concat runs \<noteq> []" using assms by auto
    define step where "step = (\<lambda>w best. let (t, cost) = table_of (length (concat runs)) (ranked_pairs (pair_counts (concat runs)))
        (sum_list (map (\<lambda>p. escape_len (fst p) (snd p)) (filter (\<lambda>p. \<not> nameable p) (concat runs)))) w in
      (case best of None \<Rightarrow> Some (t, cost) | Some (_, b) \<Rightarrow> if cost < b then Some (t, cost) else best))"
    have "fold step ws best \<noteq> None" if "best \<noteq> None \<or> ws \<noteq> []" for ws best
      using that
    proof (induction ws arbitrary: best)
      case (Cons w ws)
      have "step w best \<noteq> None" by (auto simp: step_def case_prod_unfold Let_def split: option.splits)
      then show ?case using Cons.IH by simp
    qed simp
    then have "fold step [1..<TABLE_MAX + 1] None \<noteq> None" by (simp add: TABLE_MAX_def)
    then show ?thesis using ne by (simp add: best_table_def Let_def step_def)
  qed
  show ?thesis
    using f bt best_table_wf [of runs _ _ ps]
    by (auto simp: choose_cost_def fits_def [symmetric] Let_def split: option.splits)
qed

text \<open>C32. Whatever runs a group has, every run of it reads back under the code the group chose: the
  writer takes every pair, the reader opened over the run's bytes finds where the suffixes begin, and
  each pair is what its code stands for or, behind an escape, the two varints the writer left for that
  entry. This holds from any state of the search tables the writer shares.\<close>

theorem paircode_roundtrip:
  assumes "ps \<in> set runs" "ps \<noteq> []" "pairs_fit ps" "writer_new (fst (choose_cost runs)) ps w = (wr, w')"
  shows "\<exists>wr' chs. push_pairs wr ps = Some (wr', chs) \<and>
    reads_back (fst (choose_cost runs)) (pw_finish wr' []) rest ps chs"
proof (cases "fst (choose_cost runs)")
  case (Frame f)
  then show ?thesis
    using choose_cost_covers [OF assms(1,2)] frame_run [of f ps w wr w' rest] assms(3,4) by metis
next
  case (Table tw tab)
  then show ?thesis
    using choose_cost_covers [OF assms(1,2)] table_run [of tw tab ps w wr w' rest] assms(4) by metis
qed

theorem paircode_roundtrip_witness:
  "\<exists>wr' chs. push_pairs (fst (writer_new (fst (choose_cost [[(0, 3), (2, 700)], [(1, 1)]])) [(0, 3), (2, 700)] widths_default))
      [(0, 3), (2, 700)] = Some (wr', chs) \<and>
    reads_back (fst (choose_cost [[(0, 3), (2, 700)], [(1, 1)]])) (pw_finish wr' []) [9] [(0, 3), (2, 700)] chs"
  by (rule paircode_roundtrip [where w = widths_default and w' = "snd (writer_new (fst (choose_cost
      [[(0, 3), (2, 700)], [(1, 1)]])) [(0, 3), (2, 700)] widths_default)"])
    (simp_all add: pairs_fit_def usize_bound_def)

subsection \<open>The widths a run is written at\<close>

text \<open>C33. The histogram search is the exhaustive one: of all 256 pairs of widths a frame may take, the
  pair it returns costs a run the fewest bytes (its codes rounded up to bytes, and the escapes of the
  pairs outside the frame or on its all-ones corner), the escape bytes it reports are exactly those,
  and what an earlier run left in the shared tables cannot change any of it.\<close>

theorem frame_widths_optimal:
  assumes "widths_ok w" "length ps * 30 + sum_where (\<lambda>_. True) ps < usize_bound - 2"
    "frame_widths ps w = ((wl, wn, esc), w')" "wl' \<le> FRAME_MAX" "wn' \<le> FRAME_MAX"
  shows "wl \<le> FRAME_MAX \<and> wn \<le> FRAME_MAX \<and> esc = escaped ps wl wn \<and> run_cost ps wl wn \<le> run_cost ps wl' wn' \<and>
    (wl, wn, esc) = fst (frame_widths ps widths_default)"
proof -
  obtain a b e w0 where d: "frame_widths ps widths_default = ((a, b, e), w0)" by (metis prod_cases3 surj_pair)
  have "(a, b, e) = width_choice ps" using frame_widths_best [OF widths_default_ok assms(2) d] by blast
  moreover note best = frame_widths_best [OF assms(1-3)]
  ultimately have "(wl, wn, esc) = fst (frame_widths ps widths_default)" unfolding d fst_conv by metis
  then show ?thesis using best assms(4,5) by blast
qed

theorem frame_widths_optimal_witness:
  "(case frame_widths [(0, 3), (2, 700)] widths_default of ((wl, wn, esc), w') \<Rightarrow>
     wl \<le> FRAME_MAX \<and> wn \<le> FRAME_MAX \<and> esc = escaped [(0, 3), (2, 700)] wl wn \<and>
     run_cost [(0, 3), (2, 700)] wl wn \<le> run_cost [(0, 3), (2, 700)] 2 3 \<and>
     (wl, wn, esc) = fst (frame_widths [(0, 3), (2, 700)] widths_default))"
proof -
  obtain a b e w0 where d: "frame_widths [(0, 3), (2, 700)] widths_default = ((a, b, e), w0)" by (metis prod_cases3 surj_pair)
  show ?thesis
    unfolding d prod.case
    by (rule frame_widths_optimal [OF widths_default_ok _ d, unfolded d])
      (simp_all add: FRAME_MAX_def usize_bound_def weight_def escape_len_def varint_len.simps)
qed

subsection \<open>The code in the blob\<close>

lemma offset_mask_mask: "p \<le> 32 \<Longrightarrow> offset_mask p = mask p"
proof (rule bit_word_eqI)
  fix n assume "p \<le> 32" "n < LENGTH(32)"
  then show "bit (offset_mask p) n = bit (mask p :: u32) n"
    unfolding offset_mask_def low_ones_def [symmetric] low_ones_mask
    by (auto simp: bit_ucast_iff bit_mask_iff)
qed

lemma mask_width_offset: "p \<le> 32 \<Longrightarrow> mask_width (offset_mask p) = p"
proof -
  assume p: "p \<le> 32"
  have "filter (bit (offset_mask p)) [0..<32] = filter (\<lambda>n. n < p) [0..<32]"
    by (rule filter_cong) (use p in \<open>auto simp: offset_mask_mask bit_mask_iff\<close>)
  also have "\<dots> = [0..<p]"
  proof -
    have "[0..<32] = [0..<p] @ [p..<32]" using p upt_add_eq_append [of 0 p "32 - p"] by simp
    then show ?thesis by (auto simp: filter_empty_conv)
  qed
  finally show ?thesis by (simp add: mask_width_def)
qed

lemma nibbles:
  assumes "a \<le> 15" "b \<le> 15"
  shows "unat (drop_bit 4 (push_bit 4 (of_nat a) OR of_nat b :: u8)) = a"
    "unat ((push_bit 4 (of_nat a) OR of_nat b :: u8) AND 0xF) = b"
proof -
  have u: "unat (of_nat a :: u8) = a" "unat (of_nat b :: u8) = b" using assms by (simp_all add: unat_of_nat)
  have "unat (of_nat b OR push_bit 4 (of_nat a) :: u8) = b + 2 ^ 4 * a"
    using unat_or_push_bit [of "of_nat b :: u8" 4 "of_nat a" 4] assms u by simp
  then have e: "unat (push_bit 4 (of_nat a) OR of_nat b :: u8) = b + 16 * a" by (simp add: or.commute)
  have m: "(0xF :: u8) = mask 4" by (simp add: mask_eq_decr_exp)
  show "unat (drop_bit 4 (push_bit 4 (of_nat a) OR of_nat b :: u8)) = a"
    unfolding unat_drop_bit e using assms by simp
  show "unat ((push_bit 4 (of_nat a) OR of_nat b :: u8) AND 0xF) = b"
    unfolding m unat_and_mask e using assms by simp
qed

lemma frames_read_write:
  assumes wf: "frames_wf f"
  shows "frames_read (frames_write f [] @ rest) = Some (f, rest)" "length (frames_write f []) = frames_len f"
proof -
  from wf obtain p0 p1 p2 p3 where sh: "frames_shape f p0 p1 p2 p3" and b: "fr_bl f < 2 ^ 64" "fr_bn f < 2 ^ 64"
    and w: "fr_wl f \<le> 15" "fr_wn f \<le> 15"
    by (auto simp: frames_wf_def usize_bound_def FRAME_MAX_def)
  have p: "p0 \<le> 32" "p1 \<le> 32" "p2 \<le> 15" "p3 \<le> 15"
    using sh by (simp_all add: frames_shape_def OFFSET_MAX_def)
  define b0 b1 b2 b3 :: u8 where "b0 = push_bit 4 (of_nat (fr_wl f)) OR of_nat (fr_wn f)" and "b1 = of_nat p0"
    and "b2 = of_nat p1" and "b3 = push_bit 4 (of_nat p2) OR of_nat p3"
  define vl vn where "vl = varint (fr_bl f)" and "vn = varint (fr_bn f)"
  have wr: "frames_write f [] = vl @ vn @ [b0, b1, b2, b3]"
    using sh p put_varint_eq [of "varint (fr_bl f)" "fr_bn f"]
    by (simp add: frames_write_def frames_shape_def mask_width_offset b0_def b1_def b2_def b3_def vl_def vn_def)
  then show "length (frames_write f []) = frames_len f"
    by (simp add: frames_len_def vl_def vn_def length_varint)
  define bs where "bs = vl @ vn @ b0 # b1 # b2 # b3 # rest"
  have v1: "varint_at bs 0 = Some (fr_bl f, length vl)"
    using varint_at_put [OF b(1), of "[]" "vn @ b0 # b1 # b2 # b3 # rest"] by (simp add: bs_def vl_def length_varint)
  have v2: "varint_at bs (length vl) = Some (fr_bn f, length vl + length vn)"
    using varint_at_put [OF b(2), of vl "b0 # b1 # b2 # b3 # rest"] by (simp add: bs_def vn_def length_varint)
  have nth: "bs ! (length vl + length vn) = b0" "bs ! (length vl + length vn + 1) = b1"
    "bs ! (length vl + length vn + 2) = b2" "bs ! (length vl + length vn + 3) = b3"
    by (simp_all add: bs_def nth_append)
  have u: "unat b1 = p0" "unat b2 = p1" using p by (simp_all add: b1_def b2_def unat_of_nat)
  have fn: "frames_new (fr_bl f) (fr_bn f) (fr_wl f) (fr_wn f) p0 p1 p2 p3 = Some f"
    using sh by (simp add: frames_new_def frames_shape_def)
  have "frames_read bs = map_option (\<lambda>f. (f, drop (length vl + length vn + 4) bs))
      (frames_new (fr_bl f) (fr_bn f) (fr_wl f) (fr_wn f) p0 p1 p2 p3)"
    unfolding frames_read_def v1 option.case prod.case v2 Let_def nth u
    using nibbles [OF w] nibbles [OF p(3,4)] by (simp add: b0_def b3_def bs_def)
  then show "frames_read (frames_write f [] @ rest) = Some (f, rest)"
    unfolding fn wr by (simp add: bs_def)
qed

lemma chunks_u16: "chunks 2 (concat (map u16_bytes ps)) = map u16_bytes ps"
proof (induction ps)
  case (Cons p ps)
  obtain a b where p: "u16_bytes p = [a, b]" using u16_bytes_word(1) [of p] by (auto simp: length_Suc_conv eval_nat_numeral)
  show ?case using Cons by (simp add: p chunks.simps [of 2 "a # b # concat (map u16_bytes ps)"])
qed simp

lemma length_concat_u16: "length (concat (map u16_bytes ps)) = 2 * length ps"
  by (induction ps) (simp_all add: u16_bytes_word)

text \<open>C34. A group's code is read from the bytes it was written as, with whatever follows it in the blob
  left over, and takes the bytes \<^verbatim>\<open>serialized_len\<close> says.\<close>

theorem paircode_blob_roundtrip:
  assumes "code_wf code"
  shows "code_read (code_write code [] @ rest) = Some (code, rest) \<and> length (code_write code out) = length out + code_len code"
proof (cases code)
  case (Frame f)
  then have wf: "frames_wf f" using assms by (simp add: code_wf_def)
  have pre: "frames_write f o' = o' @ frames_write f []" for o'
    using put_varint_eq [of o' "fr_bl f"] put_varint_eq [of "o' @ varint (fr_bl f)" "fr_bn f"]
      put_varint_eq [of "varint (fr_bl f)" "fr_bn f"]
    by (simp add: frames_write_def Let_def)
  show ?thesis
    using frames_read_write [OF wf] pre [of "[0]"] pre [of "out @ [0]"]
    by (simp add: Frame code_write_def code_read_def code_len_def)
next
  case (Table w ps)
  then have w: "1 \<le> w" "w \<le> 10" "length ps \<le> width_top w" using assms by (simp_all add: code_wf_def TABLE_MAX_def)
  have "(2::nat) ^ w \<le> 2 ^ 10" using w(2) by (rule power_increasing) simp
  then have len: "length ps < 2 ^ 16" using w(3) by (simp add: width_top_def)
  obtain c0 c1 where c: "u16_bytes (of_nat (length ps)) = [c0, c1]"
    using u16_bytes_word(1) [of "of_nat (length ps)"] by (auto simp: length_Suc_conv eval_nat_numeral)
  have "le_nat [c0, c1] = length ps"
    using len unfolding c [symmetric] by (simp add: u16_bytes_def le_nat_le_bytes unat_of_nat)
  moreover have "unat (of_nat w :: u8) = w" "(of_nat w :: u8) \<noteq> 0"
    using w by (simp_all add: unat_of_nat word_unat_eq_iff)
  moreover have "map (\<lambda>c. of_nat (le_nat c)) (map u16_bytes ps) = ps"
    by (simp add: comp_def u16_bytes_word(2))
  ultimately show ?thesis
    using w by (simp add: Table code_write_def code_read_def code_len_def c Let_def TABLE_MAX_def TABLE_HEADER_def
        length_concat_u16 chunks_u16 del: map_map)
qed

theorem paircode_blob_roundtrip_witness:
  "code_read (code_write (Table 3 [258, 7]) [] @ [1]) = Some (Table 3 [258, 7], [1]) \<and>
    length (code_write (Table 3 [258, 7]) []) = length ([] :: bytes) + code_len (Table 3 [258, 7])"
  by (rule paircode_blob_roundtrip) (simp add: code_wf_def TABLE_MAX_def width_top_def)

subsection \<open>Varints and shared prefixes\<close>

text \<open>C36. A \<^verbatim>\<open>usize\<close> written as a varint is read back from any position of any buffer, the cursor left
  just past it; and whatever bytes a varint is read from, the value fits a \<^verbatim>\<open>usize\<close>, the cursor moves
  on by at least a byte and stays inside the buffer.\<close>

theorem varint_roundtrip:
  "(v < usize_bound \<longrightarrow> varint_at (pre @ put_varint [] v @ rest) (length pre) = Some (v, length pre + varint_len v)) \<and>
   (case varint_at bs at of None \<Rightarrow> True | Some (u, at') \<Rightarrow> at < at' \<and> at' \<le> length bs \<and> u < usize_bound)"
  using varint_at_put [of v pre rest] varint_at_progress [of bs at]
  by (auto simp: usize_bound_def split: option.splits)

theorem varint_roundtrip_witness:
  "varint_at ([7] @ put_varint [] 300 @ [1]) (length [7 :: u8]) = Some (300, length [7 :: u8] + varint_len 300)"
  using varint_roundtrip [where v = 300 and pre = "[7]" and rest = "[1]"] by (simp add: usize_bound_def)

text \<open>C35. The shared-prefix length computed by whole words and overlapping loads is the number of leading
  bytes the two keys have in common, for keys of every length.\<close>

theorem key_lcp_exact: "lcp_bytes a b = lcp a b"
  by (rule lcp_bytes_eq)

end
