(* ===== verification/Phrase.thy ===== *)
theory Phrase
  imports Fsst_Facts Blob_Hash
begin

text \<open>
  \<^verbatim>\<open>src/phrase.rs\<close>: how a shard splits its byte codes between symbols and phrases (\<open>split\<close>), and the
  dictionary of phrases the suffix streams name by id (\<open>dict\<close>). The dictionary is modelled without
  the trie labels a \<^verbatim>\<open>BDX5\<close> blob may name past its phrases; mining the phrases is not modelled.
\<close>

definition PHRASE_MAX :: nat where "PHRASE_MAX = 32"
definition GROUP :: nat where "GROUP = 256"
definition SYMBOLS :: "u8 list" where "SYMBOLS = [127, 191, 223, 239, 254]"
definition ENDS :: nat where "ENDS = GROUP + 1"

subsection \<open>Splits\<close>

text \<open>The codes from \<open>symbols\<close> up to the escape are phrase prefixes, the last \<open>wide\<close> of them wide.\<close>

record split =
  sp_symbols :: u8
  sp_wide :: u8

definition sp_prefixes :: "split \<Rightarrow> nat" where
  "sp_prefixes s = 255 - unat (sp_symbols s)"

definition sp_two :: "split \<Rightarrow> nat" where
  "sp_two s = (sp_prefixes s - unat (sp_wide s)) * GROUP"

definition sp_limit :: "split \<Rightarrow> nat" where
  "sp_limit s = sp_two s + unat (sp_wide s) * 2 ^ 16"

definition split_read :: "bytes \<Rightarrow> (split \<times> bytes) option" where
  "split_read bs = (case bs of symbols # wide # rest \<Rightarrow>
      let s = \<lparr>sp_symbols = symbols, sp_wide = wide\<rparr>
      in if symbols > 0 \<and> symbols < ESCAPE \<and> unat wide \<le> sp_prefixes s then Some (s, rest) else None
    | _ \<Rightarrow> None)"

definition split_write :: "split \<Rightarrow> bytes \<Rightarrow> bytes" where
  "split_write s out = out @ [sp_symbols s] @ [sp_wide s]"

text \<open>The phrase the stream names at a byte, and the bytes the reference takes.\<close>

definition split_read_at :: "split \<Rightarrow> bytes \<Rightarrow> nat \<Rightarrow> (nat \<times> nat) option" where
  "split_read_at s stream at = (case get_at stream at of None \<Rightarrow> None | Some b \<Rightarrow>
    let code = unat b in
    if code < unat (sp_symbols s) \<or> code = unat ESCAPE then None
    else let class = code - unat (sp_symbols s); narrow = sp_prefixes s - unat (sp_wide s)
      in if class < narrow
         then map_option (\<lambda>lo. (class * GROUP + unat lo, 2)) (get_at stream (at + 1))
         else (case get_at stream (at + 1) of None \<Rightarrow> None
           | Some hi \<Rightarrow> map_option (\<lambda>lo. (sp_two s + (class - narrow) * 2 ^ 16 + push_bit 8 (unat hi) + unat lo, 3))
               (get_at stream (at + 2))))"

definition split_put :: "split \<Rightarrow> nat \<Rightarrow> bytes \<Rightarrow> bytes" where
  "split_put s pid out = (let narrow = sp_prefixes s - unat (sp_wide s) in
    if pid < sp_two s
    then out @ [sp_symbols s + of_nat (pid div GROUP)] @ [of_nat (pid mod GROUP)]
    else let above = pid - sp_two s
      in out @ [sp_symbols s + of_nat (narrow + drop_bit 16 above)] @ [of_nat (drop_bit 8 above)] @ [of_nat above])"

definition family_wide :: "nat \<Rightarrow> nat \<Rightarrow> nat" where
  "family_wide phrases q =
    (case find (\<lambda>j. (q - j) * GROUP + j * 2 ^ 16 \<ge> phrases) [0..<q + 1] of Some j \<Rightarrow> j | None \<Rightarrow> q)"

definition family :: "nat \<Rightarrow> split list" where
  "family phrases = fold (\<lambda>(symbols, wide) out.
      let s = \<lparr>sp_symbols = symbols, sp_wide = of_nat wide\<rparr> in if s \<in> set out then out else out @ [s])
    (concat (map (\<lambda>symbols. map (Pair symbols) [0, family_wide phrases (255 - unat symbols)]) SYMBOLS)) []"

text \<open>What a parse charges: two bytes for the cheap ids, three up to the limit.\<close>

record prices =
  pr_two :: nat
  pr_limit :: nat

definition sp_prices :: "split \<Rightarrow> prices" where
  "sp_prices s = \<lparr>pr_two = sp_two s, pr_limit = sp_limit s\<rparr>"

definition bytes_for :: "prices \<Rightarrow> nat \<Rightarrow> nat" where
  "bytes_for p pid = (if pid < pr_two p then 2 else 3)"

subsection \<open>The dictionary\<close>

record dict =
  d_raw :: shared
  d_bases :: "u32 list"
  d_ends :: nat
  d_bytes :: nat
  d_used :: nat
  d_count :: nat

text \<open>\<^verbatim>\<open>copy_from_slice\<close> into a range of the section under construction.\<close>

definition put_at :: "bytes \<Rightarrow> nat \<Rightarrow> bytes \<Rightarrow> bytes" where
  "put_at raw at bs = take at raw @ bs @ drop (at + length bs) raw"

fun put_phrases :: "nat \<Rightarrow> nat \<Rightarrow> nat \<Rightarrow> nat \<Rightarrow> nat \<Rightarrow> bytes list \<Rightarrow> bytes \<Rightarrow> bytes" where
  "put_phrases ends start g base k [] raw = raw"
| "put_phrases ends start g base k (p # ps) raw =
    (let raw = raw @ p; end = of_nat (length raw - start - base)
     in put_phrases ends start g base (Suc k) ps (put_at raw (ends + 2 * (ENDS * g + k + 1)) (u16_bytes end)))"

fun put_groups :: "nat \<Rightarrow> nat \<Rightarrow> nat \<Rightarrow> bytes list list \<Rightarrow> bytes \<times> u32 list \<Rightarrow> bytes \<times> u32 list" where
  "put_groups ends start g [] st = st"
| "put_groups ends start g (grp # rest) (raw, bases) =
    (let base = length raw - start;
       raw = put_at raw (4 + 4 * g) (u32_bytes (of_nat base))
     in put_groups ends start (Suc g) rest (put_phrases ends start g base 0 grp raw, bases @ [of_nat base]))"

definition dict_of :: "bytes list \<Rightarrow> dict" where
  "dict_of phrases =
    (let groups = div_ceil (length phrases) GROUP;
       ends = 4 + 4 * groups; start = 4 + 4 * groups + 2 * ENDS * groups;
       (raw, bases) = put_groups ends start 0 (chunks GROUP phrases)
         (put_at (replicate start 0) 0 (u32_bytes (of_nat (length phrases))), []);
       used = length raw - start
     in \<lparr>d_raw = shared_whole (raw @ replicate PHRASE_MAX 0), d_bases = bases, d_ends = ends, d_bytes = start,
         d_used = used, d_count = length phrases\<rparr>)"

definition dict_span :: "dict \<Rightarrow> nat \<Rightarrow> (nat \<times> nat) option" where
  "dict_span d pid =
    (if pid \<ge> d_count d then None
     else let g = pid div GROUP; k = pid mod GROUP in
      Option.bind (get_at (d_bases d) g) (\<lambda>base.
      Option.bind (get_from (shared_bytes (d_raw d)) (d_ends d + 2 * (ENDS * g + k))) (\<lambda>e.
        if length e < 4 then None
        else Some (unat base + le_nat [e ! 0, e ! 1], unat base + le_nat [e ! 2, e ! 3]))))"

text \<open>\<^verbatim>\<open>slice::get\<close> of a range.\<close>

definition get_range :: "'a list \<Rightarrow> nat \<Rightarrow> nat \<Rightarrow> 'a list option" where
  "get_range xs from to = (if from \<le> to \<and> to \<le> length xs then Some (take (to - from) (drop from xs)) else None)"

definition dict_at :: "dict \<Rightarrow> nat \<Rightarrow> bytes option" where
  "dict_at d pid = Option.bind (dict_span d pid) (\<lambda>(start, end).
    Option.bind (get_range (shared_bytes (d_raw d)) (d_bytes d) (d_bytes d + d_used d)) (\<lambda>bs.
      get_range bs start end))"

definition dict_chunk :: "dict \<Rightarrow> nat \<Rightarrow> (bytes \<times> nat) option" where
  "dict_chunk d pid = Option.bind (dict_span d pid) (\<lambda>(start, end).
    if end < start then None
    else Option.bind (get_from (shared_bytes (d_raw d)) (d_bytes d + start)) (\<lambda>tail.
      if length tail < PHRASE_MAX then None else Some (take PHRASE_MAX tail, end - start)))"

definition dict_len :: "dict \<Rightarrow> nat" where
  "dict_len d = d_bytes d + d_used d"

definition dict_write :: "dict \<Rightarrow> bytes \<Rightarrow> bytes" where
  "dict_write d out = out @ take (dict_len d) (shared_bytes (d_raw d))"

definition phrase_ok :: "bytes option \<Rightarrow> bool" where
  "phrase_ok p = (case p of None \<Rightarrow> False | Some p \<Rightarrow> 1 \<le> length p \<and> length p \<le> PHRASE_MAX)"

definition dict_margin :: "shared \<Rightarrow> shared" where
  "dict_margin sec = (case run_on sec PHRASE_MAX of Some r \<Rightarrow> r
    | None \<Rightarrow> shared_whole (shared_bytes sec @ replicate PHRASE_MAX 0))"

definition dict_read :: "shared \<Rightarrow> dict option" where
  "dict_read sec = (let bs = shared_bytes sec in
    if length bs < 4 then None
    else let count = le_nat (take 4 bs); groups = div_ceil count GROUP in
      Option.bind (checked_mul_usize groups 4) (\<lambda>m. Option.bind (checked_add_usize m 4) (\<lambda>ends.
      Option.bind (checked_mul_usize groups (2 * ENDS)) (\<lambda>m. Option.bind (checked_add_usize m ends) (\<lambda>start.
        if length bs < start then None
        else let raw = dict_margin sec;
            d = \<lparr>d_raw = raw, d_bases = map u32_of (chunks 4 (drop 4 (take ends (shared_bytes raw)))),
              d_ends = ends, d_bytes = start, d_used = length bs - start, d_count = count\<rparr>
          in if \<forall>pid\<in>set [0..<count]. phrase_ok (dict_at d pid) then Some d else None)))))"

end
