(* ===== verification/Phrase_Facts.thy ===== *)
theory Phrase_Facts
  imports Phrase
begin

text \<open>
  What \<^verbatim>\<open>src/phrase.rs\<close> promises of its splits and its dictionary: references and their codes are in
  bijection under every split a blob may hold, the dictionary gives each phrase by its id from the
  bytes a build laid out, and the same bytes read back from any place of a blob.
\<close>

subsection \<open>Splits\<close>

definition split_wf :: "split \<Rightarrow> bool" where
  "split_wf s \<longleftrightarrow> 0 < unat (sp_symbols s) \<and> unat (sp_symbols s) < 255 \<and> unat (sp_wide s) \<le> sp_prefixes s"

lemma split_read_iff: "split_read bs = Some (s, rest) \<longleftrightarrow> split_wf s \<and> bs = split_write s [] @ rest"
  by (cases s; auto simp: split_read_def split_wf_def split_write_def word_less_nat_alt ESCAPE_def Let_def
      split: list.splits if_splits)

lemma split_put_append: "split_put s pid out = out @ split_put s pid []"
  by (simp add: split_put_def Let_def)

lemma length_split_put: "length (split_put s pid []) = bytes_for (sp_prices s) pid"
  by (simp add: split_put_def Let_def bytes_for_def sp_prices_def)

lemma u8_plus_unat:
  assumes "unat (a::u8) + n < 256"
  shows "unat (a + of_nat n) = unat a + n"
  using assms by (simp add: unat_word_ariths unat_of_nat)

lemma three_bytes: "a div 2 ^ 16 * 2 ^ 16 + (push_bit 8 (a div 2 ^ 8 mod 256) + a mod 256) = (a::nat)"
proof -
  have "a div 65536 = a div 256 div 256" by (simp flip: div_mult2_eq)
  then have "a div 65536 * 65536 + (a div 256 mod 256 * 256 + a mod 256) = a"
    using div_mult_mod_eq [of "a div 256" 256] div_mult_mod_eq [of a 256] by linarith
  then show ?thesis by (simp add: push_bit_eq_mult)
qed

lemma split_read_put:
  assumes wf: "split_wf s" and lim: "pid < sp_limit s"
  shows "split_read_at s (pre @ split_put s pid [] @ rest) (length pre) = Some (pid, bytes_for (sp_prices s) pid)"
proof -
  have sym: "unat (sp_symbols s) + sp_prefixes s = 255" "unat (sp_wide s) \<le> sp_prefixes s"
    using wf by (simp_all add: split_wf_def sp_prefixes_def)
  show ?thesis
  proof (cases "pid < sp_two s")
    case True
    then have g: "pid div GROUP < sp_prefixes s - unat (sp_wide s)"
      by (simp add: sp_two_def less_mult_imp_div_less)
    then have "unat (sp_symbols s + of_nat (pid div GROUP)) = unat (sp_symbols s) + pid div GROUP"
      using sym by (intro u8_plus_unat) linarith
    moreover have "unat (of_nat (pid mod GROUP) :: u8) = pid mod GROUP"
      by (simp add: unat_of_nat GROUP_def)
    ultimately show ?thesis
      using True g sym by (simp add: split_read_at_def split_put_def Let_def get_at_def nth_append bytes_for_def
          sp_prices_def ESCAPE_def)
  next
    case False
    define above narrow where "above = pid - sp_two s" and "narrow = sp_prefixes s - unat (sp_wide s)"
    have "above < unat (sp_wide s) * 2 ^ 16" using lim False by (simp add: sp_limit_def above_def)
    then have h: "above div 2 ^ 16 < unat (sp_wide s)" by (rule less_mult_imp_div_less)
    then have "unat (sp_symbols s + of_nat (narrow + drop_bit 16 above)) = unat (sp_symbols s) + (narrow + above div 2 ^ 16)"
      using sym unfolding drop_bit_eq_div by (intro u8_plus_unat) (simp add: narrow_def)
    moreover have "unat (of_nat (drop_bit 8 above) :: u8) = above div 2 ^ 8 mod 256" "unat (of_nat above :: u8) = above mod 256"
      by (simp_all add: unat_of_nat drop_bit_eq_div)
    moreover have "above div 2 ^ 16 * 2 ^ 16 + (push_bit 8 (above div 2 ^ 8 mod 256) + above mod 256) = above"
      by (rule three_bytes)
    moreover have "pid = sp_two s + above" using False by (simp add: above_def)
    moreover have "narrow + unat (sp_wide s) = sp_prefixes s" using sym by (simp add: narrow_def)
    ultimately show ?thesis
      using False h sym by (simp add: split_read_at_def split_put_def Let_def get_at_def nth_append bytes_for_def
          sp_prices_def ESCAPE_def above_def [symmetric] narrow_def [symmetric])
  qed
qed

lemma get_at_Suc_drop: "get_at xs i = Some x \<Longrightarrow> drop i xs = x # drop (Suc i) xs"
  by (auto simp: get_at_Some_iff Cons_nth_drop_Suc)

lemma split_read_sound:
  assumes wf: "split_wf s" and rd: "split_read_at s stream at = Some (pid, took)"
  shows "pid < sp_limit s" "drop at stream = split_put s pid [] @ drop (at + took) stream"
    "took = bytes_for (sp_prices s) pid" "at + took \<le> length stream"
proof -
  have sym: "unat (sp_symbols s) + sp_prefixes s = 255" "unat (sp_wide s) \<le> sp_prefixes s"
    using wf by (simp_all add: split_wf_def sp_prefixes_def)
  define narrow :: nat where "narrow = sp_prefixes s - unat (sp_wide s)"
  from rd obtain b where b: "get_at stream at = Some b" "unat (sp_symbols s) \<le> unat b" "unat b \<noteq> 255"
    by (auto simp: split_read_at_def Let_def ESCAPE_def split: option.splits if_splits)
  define cl where "cl = unat b - unat (sp_symbols s)"
  have cls: "cl < sp_prefixes s" "unat b = unat (sp_symbols s) + cl"
    using b(2,3) sym(1) unat_u8_less [of b] unfolding cl_def by linarith+
  then have "b = sp_symbols s + of_nat cl"
    using u8_plus_unat [of "sp_symbols s" cl] sym by (simp add: word_unat_eq_iff)
  have two: "sp_two s = narrow * GROUP" by (simp add: sp_two_def narrow_def)
  have "pid < sp_limit s \<and> drop at stream = split_put s pid [] @ drop (at + took) stream \<and>
    took = bytes_for (sp_prices s) pid \<and> at + took \<le> length stream"
  proof (cases "cl < narrow")
    case True
    with rd b obtain lo where lo: "get_at stream (Suc at) = Some lo" "pid = cl * GROUP + unat lo" "took = 2"
      by (auto simp: split_read_at_def Let_def ESCAPE_def cl_def [symmetric] narrow_def [symmetric] split: option.splits)
    have l: "unat lo < GROUP" by (simp add: GROUP_def)
    have "Suc cl * GROUP \<le> narrow * GROUP" using True by (intro mult_le_mono1) simp
    then have p: "pid < sp_two s" using lo l two by simp
    have "pid div GROUP = cl" "pid mod GROUP = unat lo" using lo(2) l by (simp_all add: GROUP_def)
    then have "split_put s pid [] = [b, lo]"
      using p \<open>b = sp_symbols s + of_nat cl\<close> by (simp add: split_put_def Let_def)
    then show ?thesis
      using p lo b get_at_Suc_drop [OF b(1)] get_at_Suc_drop [OF lo(1)]
      by (auto simp: sp_limit_def bytes_for_def sp_prices_def get_at_Some_iff)
  next
    case False
    with rd b obtain hi lo where lo: "get_at stream (Suc at) = Some hi" "get_at stream (Suc (Suc at)) = Some lo"
      "pid = sp_two s + (cl - narrow) * 2 ^ 16 + push_bit 8 (unat hi) + unat lo" "took = 3"
      by (auto simp: split_read_at_def Let_def ESCAPE_def cl_def [symmetric] narrow_def [symmetric] split: option.splits)
    define above where "above = (cl - narrow) * 2 ^ 16 + 2 ^ 8 * unat hi + unat lo"
    have ab: "pid = sp_two s + above" "pid - sp_two s = above" using lo(3) by (simp_all add: above_def push_bit_eq_mult)
    have h: "unat hi < 256" "unat lo < 256" by simp_all
    then have low: "256 * unat hi + unat lo < 65536" by linarith
    then have a16: "above div 2 ^ 16 = cl - narrow" by (simp add: above_def)
    have "above = 2 ^ 8 * ((cl - narrow) * 2 ^ 8 + unat hi) + unat lo" by (simp add: above_def)
    moreover have "(2 ^ 8 * x + unat lo) div 2 ^ 8 = x" for x using h(2) by simp
    ultimately have a8: "above div 2 ^ 8 = (cl - narrow) * 2 ^ 8 + unat hi" by metis
    have "cl - narrow < unat (sp_wide s)" using False cls sym by (simp add: narrow_def) 
    then have "Suc (cl - narrow) * 2 ^ 16 \<le> unat (sp_wide s) * 2 ^ 16" by (intro mult_le_mono1) simp
    then have "above < unat (sp_wide s) * 2 ^ 16"
      using low by (simp add: above_def)
    then have lim: "pid < sp_limit s" using ab by (simp add: sp_limit_def)
    have "(of_nat (drop_bit 8 above) :: u8) = hi" "(of_nat above :: u8) = lo"
      unfolding word_unat_eq_iff unat_of_nat_u8 drop_bit_eq_div a8
      using h unfolding above_def by (simp_all add: mod_add_eq [symmetric] mod_mult_right_eq [symmetric])
    moreover have "narrow + drop_bit 16 above = cl" using False a16 by (simp add: drop_bit_eq_div)
    ultimately have "split_put s pid [] = [b, hi, lo]"
      using ab \<open>b = sp_symbols s + of_nat cl\<close> by (simp add: split_put_def Let_def narrow_def [symmetric] del: of_nat_add)
    then show ?thesis
      using lim lo(1,2,4) ab(1) get_at_Suc_drop [OF b(1)] get_at_Suc_drop [OF lo(1)] get_at_Suc_drop [OF lo(2)]
      by (simp add: bytes_for_def sp_prices_def) (simp add: get_at_Some_iff numeral_3_eq_3)
  qed
  then show "pid < sp_limit s" "drop at stream = split_put s pid [] @ drop (at + took) stream"
    "took = bytes_for (sp_prices s) pid" "at + took \<le> length stream" by simp_all
qed

lemma family_fold:
  "set (fold (\<lambda>x out. if f x \<in> set out then out else out @ [f x]) xs out) = set out \<union> f ` set xs"
  "distinct out \<Longrightarrow> distinct (fold (\<lambda>x out. if f x \<in> set out then out else out @ [f x]) xs out)"
  by (induction xs arbitrary: out) auto

lemma find_upt:
  "case find P [0..<Suc q] of None \<Rightarrow> \<forall>j\<le>q. \<not> P j | Some j \<Rightarrow> j \<le> q \<and> P j \<and> (\<forall>i<j. \<not> P i)"
proof (cases "find P [0..<Suc q]")
  case None
  then have "\<forall>j\<in>set [0..<Suc q]. \<not> P j" by (auto simp only: find_None_iff)
  then have "\<forall>j\<le>q. \<not> P j" by auto
  with None show ?thesis by (simp only: option.case)
next
  case (Some j)
  then obtain i where i: "i < Suc q" "P ([0..<Suc q] ! i)" "j = [0..<Suc q] ! i" "\<forall>k<i. \<not> P ([0..<Suc q] ! k)"
    by (auto simp only: find_Some_iff length_upt diff_zero)
  then have "j \<le> q \<and> P j \<and> (\<forall>i<j. \<not> P i)" by (simp del: upt_Suc)
  with Some show ?thesis by (simp del: upt_Suc)
qed

lemma family_wide:
  shows "family_wide phrases q \<le> q"
    and "phrases \<le> q * 2 ^ 16 \<Longrightarrow> phrases \<le> (q - family_wide phrases q) * GROUP + family_wide phrases q * 2 ^ 16"
    and "j < family_wide phrases q \<Longrightarrow> (q - j) * GROUP + j * 2 ^ 16 < phrases"
proof -
  define P :: "nat \<Rightarrow> bool" where "P j \<longleftrightarrow> phrases \<le> (q - j) * GROUP + j * 2 ^ 16" for j
  have w: "family_wide phrases q = (case find P [0..<Suc q] of Some j \<Rightarrow> j | None \<Rightarrow> q)"
    unfolding family_wide_def P_def Suc_eq_plus1 ..
  have "family_wide phrases q \<le> q \<and> (P q \<longrightarrow> P (family_wide phrases q)) \<and> (j < family_wide phrases q \<longrightarrow> \<not> P j)"
    using find_upt [where P = P and q = q] unfolding w by (cases "find P [0..<Suc q]") auto
  then show "family_wide phrases q \<le> q"
    and "phrases \<le> q * 2 ^ 16 \<Longrightarrow> phrases \<le> (q - family_wide phrases q) * GROUP + family_wide phrases q * 2 ^ 16"
    and "j < family_wide phrases q \<Longrightarrow> (q - j) * GROUP + j * 2 ^ 16 < phrases"
    by (simp_all add: P_def)
qed

subsection \<open>The dictionary a build lays out\<close>

lemma drop_concat_equal:
  assumes "\<And>x. x \<in> set xs \<Longrightarrow> length (f x) = n"
  shows "drop (n * k) (concat (map f xs)) = concat (map f (drop k xs))"
  using assms
proof (induction xs arbitrary: k)
  case (Cons x xs)
  then show ?case by (cases k) simp_all
qed simp

lemma length_concat_equal:
  assumes "\<And>x. x \<in> set xs \<Longrightarrow> length (f x) = n"
  shows "length (concat (map f xs)) = n * length xs"
  using assms by (induction xs) simp_all

lemma put_at_middle: "length pre = at \<Longrightarrow> length old = length new \<Longrightarrow> put_at (pre @ old @ rest) at new = pre @ new @ rest"
  by (simp add: put_at_def)

text \<open>How many bytes the first phrases of a list take.\<close>

definition reach_of :: "bytes list \<Rightarrow> nat \<Rightarrow> nat" where
  "reach_of ps k = length (concat (take k ps))"

lemma reach_of_simps [simp]: "reach_of ps 0 = 0" "reach_of (p # ps) (Suc k) = length p + reach_of ps k"
  by (simp_all add: reach_of_def)

lemma reach_of_mono: "j \<le> k \<Longrightarrow> reach_of ps j \<le> reach_of ps k"
  by (simp add: reach_of_def le_iff_add take_add) (metis concat_append length_append le_add1 take_add)

lemma put_phrases_layout:
  assumes "length pre = ends + 2 * (ENDS * g + k + 1)" "length ps \<le> m" "base \<le> length body"
    "start = length pre + 2 * m + length post"
  shows "put_phrases ends start g base k ps (pre @ replicate (2 * m) 0 @ post @ body) =
    pre @ concat (map (\<lambda>j. u16_bytes (of_nat (length body - base + reach_of ps (Suc j)))) [0..<length ps])
      @ replicate (2 * (m - length ps)) 0 @ post @ body @ concat ps"
  using assms
proof (induction ps arbitrary: pre k m body)
  case (Cons p ps)
  obtain m' where m: "m = Suc m'" using Cons.prems(2) by (cases m) auto
  define e :: u16 where "e = of_nat (length body - base + length p)"
  have e: "(of_nat (length (pre @ replicate (2 * m) 0 @ post @ body @ p) - start - base) :: u16) = e"
    using Cons.prems(3,4) by (simp add: e_def)
  have z: "replicate (2 * m) (0::u8) = [0, 0] @ replicate (2 * m') 0" by (simp add: m)
  have put: "put_at (pre @ replicate (2 * m) 0 @ post @ body @ p) (ends + 2 * (ENDS * g + k + 1)) (u16_bytes e)
      = (pre @ u16_bytes e) @ replicate (2 * m') 0 @ post @ body @ p"
    unfolding z using Cons.prems(1) put_at_middle [of pre _ "[0, 0]" "u16_bytes e" "replicate (2 * m') 0 @ post @ body @ p"]
    by (simp add: u16_bytes_word)
  have "put_phrases ends start g base k (p # ps) (pre @ replicate (2 * m) 0 @ post @ body)
      = put_phrases ends start g base (Suc k) ps ((pre @ u16_bytes e) @ replicate (2 * m') 0 @ post @ body @ p)"
    using put e by (simp add: Let_def)
  also have "\<dots> = (pre @ u16_bytes e) @ concat (map (\<lambda>j. u16_bytes (of_nat (length (body @ p) - base + reach_of ps (Suc j)))) [0..<length ps])
      @ replicate (2 * (m' - length ps)) 0 @ post @ (body @ p) @ concat ps"
    by (rule Cons.IH) (use Cons.prems m in \<open>simp_all add: u16_bytes_word\<close>)
  also have "\<dots> = pre @ concat (map (\<lambda>j. u16_bytes (of_nat (length body - base + reach_of (p # ps) (Suc j)))) [0..<length (p # ps)])
      @ replicate (2 * (m - length (p # ps))) 0 @ post @ body @ concat (p # ps)"
    using Cons.prems(3) by (simp add: m e_def upt_conv_Cons map_Suc_upt [symmetric] comp_def add.assoc del: upt_Suc)
  finally show ?case .
qed simp

text \<open>A group's ends: its opening zero, one end a phrase, and zeros for the phrases it lacks.\<close>

definition group_ends :: "bytes list \<Rightarrow> bytes" where
  "group_ends grp = concat (map (\<lambda>j. u16_bytes (of_nat (reach_of grp j))) [0..<Suc (length grp)])
    @ replicate (2 * (GROUP - length grp)) 0"

lemma length_group_ends: "length grp \<le> GROUP \<Longrightarrow> length (group_ends grp) = 2 * ENDS"
  using length_concat_equal [of "[0..<Suc (length grp)]" "\<lambda>j. u16_bytes (of_nat (reach_of grp j))" 2]
  by (simp add: group_ends_def u16_bytes_word ENDS_def del: upt_Suc)

lemma put_phrases_group:
  assumes "length pre = ends + 2 * (ENDS * g)" "length grp \<le> GROUP" "start = length pre + 2 * ENDS + length post"
  shows "put_phrases ends start g (length body) 0 grp (pre @ replicate (2 * ENDS) 0 @ post @ body) =
    pre @ group_ends grp @ post @ body @ concat grp"
proof -
  have "u16_bytes 0 = replicate 2 0" by (simp add: u16_bytes_def numeral_2_eq_2)
  moreover have "2 * ENDS = 2 + 2 * GROUP" by (simp add: ENDS_def)
  ultimately have z: "replicate (2 * ENDS) (0::u8) = u16_bytes 0 @ replicate (2 * GROUP) 0"
    by (simp only: replicate_add)
  have "put_phrases ends start g (length body) 0 grp ((pre @ u16_bytes 0) @ replicate (2 * GROUP) 0 @ post @ body) =
    (pre @ u16_bytes 0) @ concat (map (\<lambda>j. u16_bytes (of_nat (length body - length body + reach_of grp (Suc j)))) [0..<length grp])
      @ replicate (2 * (GROUP - length grp)) 0 @ post @ body @ concat grp"
    by (rule put_phrases_layout) (use assms in \<open>simp_all add: u16_bytes_word ENDS_def\<close>)
  moreover have "[0..<Suc (length grp)] = 0 # map Suc [0..<length grp]" by (simp only: upt_conv_Cons map_Suc_upt)
  ultimately show ?thesis
    by (simp add: z group_ends_def comp_def del: upt_Suc)
qed

lemma put_groups_layout:
  assumes "length cnt = 4" "length bs = 4 * g" "length es = 2 * ENDS * g" "ends = 4 + 4 * (g + length gs)"
    "start = ends + 2 * ENDS * (g + length gs)" "\<forall>grp\<in>set gs. length grp \<le> GROUP"
  shows "put_groups ends start g gs (cnt @ bs @ replicate (4 * length gs) 0 @ es @ replicate (2 * ENDS * length gs) 0 @ body, bases) =
    (let bl = map (\<lambda>j. of_nat (length body + length (concat (concat (take j gs))))) [0..<length gs]
     in (cnt @ bs @ concat (map u32_bytes bl) @ es @ concat (map group_ends gs) @ body @ concat (concat gs), bases @ bl))"
  using assms
proof (induction gs arbitrary: bs es g body bases)
  case (Cons grp gs)
  define b :: u32 where "b = of_nat (length body)"
  define r where "r = length gs"
  have z: "replicate (4 * length (grp # gs)) (0::u8) = replicate 4 0 @ replicate (4 * r) 0"
    "replicate (2 * ENDS * length (grp # gs)) (0::u8) = replicate (2 * ENDS) 0 @ replicate (2 * ENDS * r) 0"
    by (simp_all add: r_def replicate_add)
  define raw where "raw = cnt @ bs @ replicate (4 * length (grp # gs)) 0 @ es @ replicate (2 * ENDS * length (grp # gs)) 0 @ body"
  have base: "length raw - start = length body"
    using Cons.prems by (simp add: raw_def algebra_simps)
  have p1: "put_at raw (4 + 4 * g) (u32_bytes b) =
    (cnt @ (bs @ u32_bytes b) @ replicate (4 * r) 0 @ es) @ replicate (2 * ENDS) 0 @ replicate (2 * ENDS * r) 0 @ body"
    using Cons.prems(1,2) put_at_middle [of "cnt @ bs" "4 + 4 * g" "replicate 4 0" "u32_bytes b"]
    unfolding raw_def z by simp
  have p2: "put_phrases ends start g (length body) 0 grp (put_at raw (4 + 4 * g) (u32_bytes b)) =
    (cnt @ (bs @ u32_bytes b) @ replicate (4 * r) 0 @ es) @ group_ends grp @ replicate (2 * ENDS * r) 0 @ body @ concat grp"
    unfolding p1
    by (rule put_phrases_group) (use Cons.prems in \<open>simp_all add: r_def algebra_simps\<close>)
  have "put_groups ends start g (grp # gs) (raw, bases) =
    put_groups ends start (Suc g) gs
      (cnt @ (bs @ u32_bytes b) @ replicate (4 * length gs) 0 @ (es @ group_ends grp) @ replicate (2 * ENDS * length gs) 0 @ (body @ concat grp),
       bases @ [b])"
    using base p2 by (simp add: Let_def b_def r_def)
  also have "\<dots> = (let bl = map (\<lambda>j. of_nat (length (body @ concat grp) + length (concat (concat (take j gs))))) [0..<length gs]
     in (cnt @ (bs @ u32_bytes b) @ concat (map u32_bytes bl) @ (es @ group_ends grp) @ concat (map group_ends gs)
        @ (body @ concat grp) @ concat (concat gs), (bases @ [b]) @ bl))"
    by (rule Cons.IH) (use Cons.prems in \<open>simp_all add: length_group_ends algebra_simps\<close>)
  finally show ?case
    unfolding raw_def
    by (simp add: Let_def b_def upt_conv_Cons map_Suc_upt [symmetric] comp_def add.assoc del: upt_Suc)
qed (simp add: Let_def)

subsection \<open>Reading a dictionary\<close>

definition phrases_ok :: "bytes list \<Rightarrow> bool" where
  "phrases_ok ps \<longleftrightarrow> (\<forall>p\<in>set ps. 1 \<le> length p \<and> length p \<le> PHRASE_MAX) \<and> length ps < 2 ^ 32 \<and> length (concat ps) < 2 ^ 32"

definition group_bases :: "bytes list list \<Rightarrow> u32 list" where
  "group_bases gs = map (\<lambda>j. of_nat (length (concat (concat (take j gs))))) [0..<length gs]"

definition section_of :: "bytes list \<Rightarrow> bytes" where
  "section_of ps = (let gs = chunks GROUP ps in
    u32_bytes (of_nat (length ps)) @ concat (map u32_bytes (group_bases gs)) @ concat (map group_ends gs) @ concat ps)"

text \<open>What a dictionary over these phrases is, built or read: the section, and a margin behind it.\<close>

definition dict_holds :: "dict \<Rightarrow> bytes list \<Rightarrow> bool" where
  "dict_holds d ps \<longleftrightarrow> (\<exists>margin. shared_bytes (d_raw d) = section_of ps @ margin \<and> length margin \<ge> PHRASE_MAX) \<and>
    d_bases d = group_bases (chunks GROUP ps) \<and> d_ends d = 4 + 4 * length (chunks GROUP ps) \<and>
    d_bytes d = 4 + 4 * length (chunks GROUP ps) + 2 * ENDS * length (chunks GROUP ps) \<and>
    d_used d = length (concat ps) \<and> d_count d = length ps"

lemma GROUP_pos [simp]: "0 < GROUP" "GROUP \<noteq> 0"
  by (simp_all add: GROUP_def)

lemma length_concat_le: "\<forall>p\<in>set ps. length p \<le> m \<Longrightarrow> length (concat ps) \<le> m * length ps"
  by (induction ps) auto

lemma concat_chunks: "concat (chunks n xs) = (if n = 0 then [] else xs)"
proof (induction n xs rule: chunks.induct)
  case (1 n xs)
  show ?case
    by (subst chunks.simps) (use 1 in auto)
qed

lemma concat_take_chunks: "0 < n \<Longrightarrow> concat (take j (chunks n xs)) = take (j * n) xs"
proof (induction n xs arbitrary: j rule: chunks.induct)
  case (1 n xs)
  show ?case
  proof (cases "xs = [] \<or> j = 0")
    case False
    then obtain k where j: "j = Suc k" by (cases j) auto
    then have "concat (take j (chunks n xs)) = take n xs @ take (k * n) (drop n xs)"
      using 1 False by (subst chunks.simps) simp
    then show ?thesis by (simp add: j take_add)
  qed auto
qed

lemma chunk_length: "0 < n \<Longrightarrow> grp \<in> set (chunks n xs) \<Longrightarrow> length grp \<le> n"
  by (auto simp: in_set_conv_nth nth_chunks)

lemma length_concat_u32: "length (concat (map u32_bytes bl)) = 4 * length bl"
  by (induction bl) simp_all

lemma length_group_bases [simp]: "length (group_bases gs) = length gs"
  by (simp add: group_bases_def)

lemma length_groups_ends:
  "\<forall>grp\<in>set gs. length grp \<le> GROUP \<Longrightarrow> length (concat (map group_ends gs)) = 2 * ENDS * length gs"
  by (rule length_concat_equal) (simp add: length_group_ends)

lemma dict_of_holds: "dict_holds (dict_of ps) ps"
proof -
  define gs where "gs = chunks GROUP ps"
  have n: "div_ceil (length ps) GROUP = length gs" by (simp add: gs_def length_chunks)
  have sz: "\<forall>grp\<in>set gs. length grp \<le> GROUP" by (simp add: gs_def chunk_length)
  define ends start where "ends = 4 + 4 * length gs" and "start = 4 + 4 * length gs + 2 * ENDS * length gs"
  have "put_at (replicate start 0) 0 (u32_bytes (of_nat (length ps))) =
      u32_bytes (of_nat (length ps)) @ [] @ replicate (4 * length gs) 0 @ [] @ replicate (2 * ENDS * length gs) 0 @ []"
    by (simp add: put_at_def start_def flip: replicate_add)
  moreover have "concat gs = ps" by (simp add: gs_def concat_chunks)
  ultimately have "put_groups ends start 0 gs (put_at (replicate start 0) 0 (u32_bytes (of_nat (length ps))), []) =
      (section_of ps, group_bases gs)"
    using put_groups_layout [of "u32_bytes (of_nat (length ps))" "[]" 0 "[]" ends gs start "[]" "[]"] sz
    by (simp add: ends_def start_def group_bases_def section_of_def gs_def [symmetric] Let_def)
  then have d: "dict_of ps = \<lparr>d_raw = shared_whole (section_of ps @ replicate PHRASE_MAX 0), d_bases = group_bases gs,
      d_ends = ends, d_bytes = start, d_used = length (section_of ps) - start, d_count = length ps\<rparr>"
    by (simp add: dict_of_def n gs_def [symmetric] ends_def start_def Let_def)
  moreover have "length (section_of ps) = start + length (concat ps)"
    using sz by (simp add: section_of_def gs_def [symmetric] start_def length_concat_u32 length_groups_ends Let_def)
  ultimately show ?thesis
    by (auto simp: dict_holds_def shared_bytes_def shared_whole_def gs_def [symmetric] ends_def start_def)
qed

lemma length_section: "length (section_of ps) =
    4 + 4 * length (chunks GROUP ps) + 2 * ENDS * length (chunks GROUP ps) + length (concat ps)"
  using length_groups_ends [of "chunks GROUP ps"]
  by (simp add: section_of_def length_concat_u32 chunk_length Let_def)

lemma u16_value: "v < 2 ^ 16 \<Longrightarrow> le_nat (u16_bytes (of_nat v)) = v"
  by (simp add: u16_bytes_def le_nat_le_bytes unat_of_nat)

lemma group_ends_drop:
  assumes "k < length grp"
  shows "\<exists>zs. drop (2 * k) (group_ends grp) =
    u16_bytes (of_nat (reach_of grp k)) @ u16_bytes (of_nat (reach_of grp (Suc k))) @ zs"
proof -
  define f where "f = (\<lambda>j. u16_bytes (of_nat (reach_of grp j)))"
  have "drop k [0..<Suc (length grp)] = k # Suc k # [Suc (Suc k)..<Suc (length grp)]"
    using assms upt_conv_Cons [of k "Suc (length grp)"] upt_conv_Cons [of "Suc k" "Suc (length grp)"]
    by (simp del: upt_Suc)
  then have "drop (2 * k) (concat (map f [0..<Suc (length grp)])) = f k @ f (Suc k) @ concat (map f [Suc (Suc k)..<Suc (length grp)])"
    by (subst drop_concat_equal) (simp_all add: f_def u16_bytes_word del: upt_Suc)
  moreover have "2 * k \<le> length (concat (map f [0..<Suc (length grp)]))"
    using assms length_concat_equal [of "[0..<Suc (length grp)]" f 2] by (simp add: f_def u16_bytes_word del: upt_Suc)
  ultimately have "drop (2 * k) (group_ends grp) = f k @ f (Suc k) @
      concat (map f [Suc (Suc k)..<Suc (length grp)]) @ replicate (2 * (GROUP - length grp)) 0"
    by (simp add: group_ends_def flip: f_def del: upt_Suc)
  then show ?thesis by (auto simp: f_def)
qed

lemma dict_span_holds:
  assumes d: "dict_holds d ps" and ok: "phrases_ok ps" and i: "i < length ps"
  shows "dict_span d i = Some (reach_of ps i, reach_of ps (Suc i))"
proof -
  define gs g k where "gs = chunks GROUP ps" and "g = i div GROUP" and "k = i mod GROUP"
  have g: "g < length gs" using i by (simp add: gs_def g_def less_length_chunks)
  have ik: "i = g * GROUP + k" by (simp add: g_def k_def)
  define grp where "grp = gs ! g"
  have grp: "grp = take GROUP (drop (g * GROUP) ps)" using g by (simp add: grp_def gs_def nth_chunks)
  have kg: "k < GROUP" by (simp add: k_def)
  then have k: "k < length grp" using i ik by (simp add: grp)
  have sz: "\<forall>grp\<in>set gs. length grp \<le> GROUP" by (simp add: gs_def chunk_length)
  obtain margin where raw: "shared_bytes (d_raw d) = section_of ps @ margin" and ends: "d_ends d = 4 + 4 * length gs"
    and bases: "d_bases d = group_bases gs" and cnt: "d_count d = length ps"
    using d by (auto simp: dict_holds_def gs_def)
  have sum: "reach_of ps (g * GROUP) + reach_of grp j = reach_of ps (g * GROUP + j)" if "j \<le> GROUP" for j
    using that by (simp add: reach_of_def take_add grp)
  have base: "get_at (d_bases d) g = Some (of_nat (reach_of ps (g * GROUP)))"
    using g by (simp add: bases get_at_def group_bases_def reach_of_def concat_take_chunks gs_def)
  have le: "reach_of ps j < 2 ^ 32" for j
  proof -
    have "reach_of ps j \<le> length (concat ps)"
      using reach_of_mono [of j "max j (length ps)" ps] by (simp add: reach_of_def)
    then show ?thesis using ok by (simp add: phrases_ok_def)
  qed
  have small: "reach_of grp j < 2 ^ 16" if "j \<le> GROUP" for j
  proof -
    have "\<forall>p\<in>set (take j grp). length p \<le> PHRASE_MAX"
      using ok by (auto simp: phrases_ok_def grp dest!: in_set_takeD in_set_dropD)
    then have "length (concat (take j grp)) \<le> PHRASE_MAX * length (take j grp)"
      by (rule length_concat_le)
    moreover have "length (take j grp) \<le> 256" using that by (simp add: GROUP_def)
    ultimately show ?thesis by (simp add: reach_of_def PHRASE_MAX_def)
  qed
  define hdr where "hdr = u32_bytes (of_nat (length ps)) @ concat (map u32_bytes (group_bases gs))"
  have hl: "length hdr = d_ends d" by (simp add: hdr_def ends length_concat_u32)
  obtain zs where zs: "drop (2 * k) (group_ends grp) =
    u16_bytes (of_nat (reach_of grp k)) @ u16_bytes (of_nat (reach_of grp (Suc k))) @ zs"
    using group_ends_drop [OF k] by blast
  have dg: "drop g gs = grp # drop (Suc g) gs" using g by (simp add: Cons_nth_drop_Suc grp_def)
  have "drop (2 * ENDS * g) (concat (map group_ends gs)) = concat (map group_ends (drop g gs))"
    by (rule drop_concat_equal) (use sz in \<open>simp add: length_group_ends\<close>)
  then have at: "drop (2 * (ENDS * g + k)) (concat (map group_ends gs)) =
      drop (2 * k) (group_ends grp) @ concat (map group_ends (drop (Suc g) gs))"
  proof -
    have "2 * (ENDS * g + k) = 2 * k + 2 * ENDS * g" by simp
    moreover have "2 * k \<le> length (group_ends grp)"
      using length_group_ends [of grp] kg sz g by (simp add: grp_def ENDS_def)
    ultimately show ?thesis
      using \<open>drop (2 * ENDS * g) _ = _\<close> dg by (simp only: drop_drop [symmetric]) simp
  qed
  have in_es: "2 * (ENDS * g + k) \<le> length (concat (map group_ends gs))"
  proof -
    have "ENDS * Suc g \<le> ENDS * length gs" using g by (intro mult_le_mono2) simp
    then show ?thesis using sz kg by (simp add: length_groups_ends ENDS_def)
  qed
  have "drop (d_ends d + 2 * (ENDS * g + k)) (section_of ps @ margin) =
      u16_bytes (of_nat (reach_of grp k)) @ u16_bytes (of_nat (reach_of grp (Suc k))) @ zs @
        concat (map group_ends (drop (Suc g) gs)) @ concat ps @ margin"
  proof -
    have "section_of ps @ margin = hdr @ concat (map group_ends gs) @ concat ps @ margin"
      by (simp add: section_of_def hdr_def gs_def Let_def)
    then show ?thesis using at zs in_es by (simp add: hl [symmetric])
  qed
  then obtain e where e: "get_from (shared_bytes (d_raw d)) (d_ends d + 2 * (ENDS * g + k)) = Some e"
    "e = u16_bytes (of_nat (reach_of grp k)) @ u16_bytes (of_nat (reach_of grp (Suc k))) @ zs @
        concat (map group_ends (drop (Suc g) gs)) @ concat ps @ margin"
    using in_es hl by (auto simp: get_from_def raw length_section gs_def ends length_groups_ends chunk_length)
  have v: "le_nat [e ! 0, e ! 1] = reach_of grp k" "le_nat [e ! 2, e ! 3] = reach_of grp (Suc k)"
  proof -
    have two: "\<exists>a b. u16_bytes w = [a, b]" for w
      using u16_bytes_word(1) [of w] by (auto simp: length_Suc_conv numeral_2_eq_2)
    obtain a b where ab: "u16_bytes (of_nat (reach_of grp k)) = [a, b]" using two by blast
    obtain a' b' where ab': "u16_bytes (of_nat (reach_of grp (Suc k))) = [a', b']" using two by blast
    have "[e ! 0, e ! 1] = [a, b]" "[e ! 2, e ! 3] = [a', b']" by (simp_all add: e(2) ab ab')
    then show "le_nat [e ! 0, e ! 1] = reach_of grp k" "le_nat [e ! 2, e ! 3] = reach_of grp (Suc k)"
      using small [of k] small [of "Suc k"] kg by (simp_all only: ab [symmetric] ab' [symmetric] u16_value Suc_leI less_imp_le)
  qed
  have "unat (of_nat (reach_of ps (g * GROUP)) :: u32) = reach_of ps (g * GROUP)"
    using le [of "g * GROUP"] by (simp add: unat_of_nat)
  moreover have "\<not> length e < 4" by (simp add: e(2) u16_bytes_word)
  ultimately show ?thesis
    using i cnt base e(1) v sum [of k] sum [of "Suc k"] kg ik
    by (simp add: dict_span_def g_def [symmetric] k_def [symmetric] Let_def)
qed

lemma concat_at:
  assumes "i < length ps"
  shows "concat ps = concat (take i ps) @ ps ! i @ concat (drop (Suc i) ps)"
  using assms by (metis concat_append concat.simps(2) id_take_nth_drop)

lemma reach_of_Suc: "i < length ps \<Longrightarrow> reach_of ps (Suc i) = reach_of ps i + length (ps ! i)"
  by (simp add: reach_of_def take_Suc_conv_app_nth)

lemma dict_at_holds:
  assumes d: "dict_holds d ps" and ok: "phrases_ok ps"
  shows "dict_at d i = get_at ps i"
    and "dict_chunk d i = (if i < length ps then Some (fst (the (dict_chunk d i)), length (ps ! i)) else None)"
    and "i < length ps \<Longrightarrow> length (fst (the (dict_chunk d i))) = PHRASE_MAX \<and>
      take (length (ps ! i)) (fst (the (dict_chunk d i))) = ps ! i"
proof -
  obtain margin where raw: "shared_bytes (d_raw d) = section_of ps @ margin" and m: "length margin \<ge> PHRASE_MAX"
    and start: "d_bytes d + length (concat ps) = length (section_of ps)" and cnt: "d_count d = length ps"
    and used: "d_used d = length (concat ps)"
    using d by (auto simp: dict_holds_def length_section)
  have out: "dict_at d i = None \<and> dict_chunk d i = None" if "\<not> i < length ps"
    using that cnt by (simp add: dict_at_def dict_chunk_def dict_span_def)
  have inn: "dict_at d i = Some (ps ! i) \<and> (\<exists>c. dict_chunk d i = Some (c, length (ps ! i)) \<and> length c = PHRASE_MAX \<and>
      take (length (ps ! i)) c = ps ! i)" if i: "i < length ps"
  proof -
    note span = dict_span_holds [OF d ok i] and sc = reach_of_Suc [OF i] and cc = concat_at [OF i]
    have lim: "reach_of ps (Suc i) \<le> length (concat ps)" unfolding sc by (subst cc) (simp add: reach_of_def)
    obtain front where front: "section_of ps = front @ concat ps" by (simp add: section_of_def Let_def)
    then have "length front = d_bytes d" using start by simp
    then have tail: "drop (d_bytes d) (section_of ps) = concat ps" using front by simp
    have both: "drop (d_bytes d) (section_of ps @ margin) = concat ps @ margin" using start tail by simp
    then have dr: "drop (d_bytes d + reach_of ps i) (section_of ps @ margin) = ps ! i @ concat (drop (Suc i) ps) @ margin"
      unfolding add.commute [of "d_bytes d"] drop_drop [symmetric] both
      by (subst cc) (simp add: reach_of_def)
    have "take (d_used d) (drop (d_bytes d) (section_of ps @ margin)) = concat ps"
      using both used by simp
    then have "get_range (shared_bytes (d_raw d)) (d_bytes d) (d_bytes d + d_used d) = Some (concat ps)"
      using start used by (simp add: get_range_def raw)
    moreover have "get_range (concat ps) (reach_of ps i) (reach_of ps (Suc i)) = Some (ps ! i)"
    proof -
      have "drop (reach_of ps i) (concat ps) = ps ! i @ concat (drop (Suc i) ps)"
        by (subst cc) (simp add: reach_of_def)
      then show ?thesis using lim sc by (simp add: get_range_def)
    qed
    ultimately have at: "dict_at d i = Some (ps ! i)" by (simp add: dict_at_def span)
    have pm: "length (ps ! i) \<le> PHRASE_MAX" using ok i by (simp add: phrases_ok_def)
    have "get_from (shared_bytes (d_raw d)) (d_bytes d + reach_of ps i) = Some (ps ! i @ concat (drop (Suc i) ps) @ margin)"
      using start lim sc dr by (simp add: get_from_def raw)
    then have "dict_chunk d i = Some (take PHRASE_MAX (ps ! i @ concat (drop (Suc i) ps) @ margin), length (ps ! i))"
      using m sc by (simp add: dict_chunk_def span)
    then show ?thesis using at m pm by (auto simp: min_def)
  qed
  show "dict_at d i = get_at ps i" using inn out by (auto simp: get_at_def)
  show "dict_chunk d i = (if i < length ps then Some (fst (the (dict_chunk d i)), length (ps ! i)) else None)"
    using inn out by auto
  show "i < length ps \<Longrightarrow> length (fst (the (dict_chunk d i))) = PHRASE_MAX \<and>
      take (length (ps ! i)) (fst (the (dict_chunk d i))) = ps ! i"
    using inn by auto
qed

lemma dict_margin_bytes:
  assumes "shared_wf sec"
  shows "\<exists>margin. shared_bytes (dict_margin sec) = shared_bytes sec @ margin \<and> length margin \<ge> PHRASE_MAX"
proof (cases "run_on sec PHRASE_MAX")
  case None
  moreover have "shared_bytes (shared_whole bs) = bs" for bs by (simp add: shared_whole_def shared_bytes_def)
  ultimately show ?thesis by (simp add: dict_margin_def)
next
  case (Some r)
  then have r: "r = sec\<lparr>sh_len := sh_len sec + PHRASE_MAX\<rparr>" "sh_start sec + (sh_len sec + PHRASE_MAX) \<le> length (sh_src sec)"
    by (auto simp: run_on_def checked_add_usize_def bind_eq_Some_conv split: if_splits)
  then have "shared_bytes r = shared_bytes sec @ take PHRASE_MAX (drop (sh_start sec + sh_len sec) (sh_src sec))"
    using take_add [of "sh_len sec" PHRASE_MAX "drop (sh_start sec) (sh_src sec)"]
    by (simp add: shared_bytes_def drop_drop add.commute [of "sh_start sec"])
  moreover have "length (take PHRASE_MAX (drop (sh_start sec + sh_len sec) (sh_src sec))) = PHRASE_MAX"
    using r(2) by simp
  ultimately show ?thesis using Some by (auto simp: dict_margin_def)
qed

lemma chunks_u32: "chunks 4 (concat (map u32_bytes bl)) = map u32_bytes bl"
proof (induction bl)
  case (Cons b bl)
  have "4 = Suc (Suc (Suc (Suc 0)))" by simp
  then have "\<exists>x y z w. u32_bytes b = [x, y, z, w]" unfolding u32_bytes_def by (simp only: le_bytes.simps) blast
  then obtain x y z w where "u32_bytes b = [x, y, z, w]" by blast
  then show ?case using Cons by (simp add: chunks.simps [of 4 "x # y # z # w # concat (map u32_bytes bl)"])
qed simp

lemma dict_read_section:
  assumes wf: "shared_wf sec" and sec: "shared_bytes sec = section_of ps" and ok: "phrases_ok ps"
  shows "\<exists>d. dict_read sec = Some d \<and> dict_holds d ps"
proof -
  define gs where "gs = chunks GROUP ps"
  have n: "div_ceil (length ps) GROUP = length gs" by (simp add: gs_def length_chunks)
  have lp: "length ps < 2 ^ 32" using ok by (simp add: phrases_ok_def)
  have "length gs \<le> length ps" unfolding n [symmetric] by (simp add: div_ceil_le_iff GROUP_def)
  then have lg: "length gs < 2 ^ 32" using lp by simp
  have cnt: "le_nat (take 4 (section_of ps)) = length ps"
    using lp by (simp add: section_of_def Let_def unat_of_nat)
  obtain margin where raw: "shared_bytes (dict_margin sec) = section_of ps @ margin" "length margin \<ge> PHRASE_MAX"
    using dict_margin_bytes [OF wf] sec by auto
  define ends start where "ends = 4 + 4 * length gs" and "start = 4 + 4 * length gs + 2 * ENDS * length gs"
  have len: "length (section_of ps) = start + length (concat ps)"
    using length_section [of ps] by (simp add: start_def gs_def)
  have "drop 4 (take ends (section_of ps @ margin)) = concat (map u32_bytes (group_bases gs))"
    by (simp add: section_of_def Let_def gs_def [symmetric] ends_def length_concat_u32)
  then have bases: "map u32_of (chunks 4 (drop 4 (take ends (section_of ps @ margin)))) = group_bases gs"
    by (simp add: chunks_u32 comp_def)
  define d where "d = \<lparr>d_raw = dict_margin sec, d_bases = group_bases gs, d_ends = ends, d_bytes = start,
    d_used = length (concat ps), d_count = length ps\<rparr>"
  have holds: "dict_holds d ps"
    using raw by (auto simp: dict_holds_def d_def ends_def start_def gs_def)
  have "phrase_ok (dict_at d i)" if "i < length ps" for i
    using that dict_at_holds(1) [OF holds ok, of i] ok by (simp add: phrase_ok_def get_at_def phrases_ok_def)
  moreover have "checked_mul_usize (length gs) 4 = Some (4 * length gs)" "checked_add_usize (4 * length gs) 4 = Some ends"
    "checked_mul_usize (length gs) (2 * ENDS) = Some (2 * ENDS * length gs)"
    "checked_add_usize (2 * ENDS * length gs) ends = Some start"
    using lg by (simp_all add: checked_mul_usize_def checked_add_usize_def usize_bound_def ends_def start_def ENDS_def GROUP_def)
  moreover have "4 \<le> length (section_of ps)" by (simp add: length_section)
  ultimately have "dict_read sec = Some d"
    by (simp add: dict_read_def sec cnt n len raw(1) bases d_def Let_def mult.commute del: take_append drop_append)
  with holds show ?thesis by blast
qed


lemma dict_write_holds: "dict_holds d ps \<Longrightarrow> dict_write d out = out @ section_of ps"
  by (auto simp: dict_holds_def dict_write_def dict_len_def length_section)

subsection \<open>What the splits and the dictionary promise\<close>

text \<open>C37. Under every split a blob may hold, references and phrase ids are in bijection: the reference
  written for an id the split can name reads back as that id from any place of any stream, and whatever
  reference is read from a stream is the one the writer leaves for its id, which the split can name.\<close>

theorem phrase_reference_bijection:
  assumes "split_wf s"
  shows "(pid < sp_limit s \<longrightarrow>
      split_read_at s (pre @ split_put s pid [] @ rest) (length pre) = Some (pid, bytes_for (sp_prices s) pid)) \<and>
    (case split_read_at s stream at of None \<Rightarrow> True
     | Some (pid, took) \<Rightarrow> pid < sp_limit s \<and> took = bytes_for (sp_prices s) pid \<and>
         drop at stream = split_put s pid [] @ drop (at + took) stream)"
  using split_read_put [OF assms] split_read_sound [OF assms] by (auto split: option.splits)

theorem phrase_reference_bijection_witness:
  "split_read_at \<lparr>sp_symbols = 254, sp_wide = 1\<rparr> ([7] @ split_put \<lparr>sp_symbols = 254, sp_wide = 1\<rparr> 300 [] @ [1]) (length [7 :: u8])
    = Some (300, bytes_for (sp_prices \<lparr>sp_symbols = 254, sp_wide = 1\<rparr>) 300)"
  using phrase_reference_bijection [of "\<lparr>sp_symbols = 254, sp_wide = 1\<rparr>" 300 "[7]" "[1]"]
  by (simp add: split_wf_def sp_prefixes_def sp_limit_def sp_two_def)

text \<open>C38. The splits a shard chooses among for a dictionary are distinct and such as a blob may hold, and
  for every number of symbols one of them names the whole dictionary wherever some split of that number
  does, with the fewest wide prefixes that do.\<close>

theorem split_family_covers:
  "distinct (family phrases) \<and> (\<forall>s\<in>set (family phrases). split_wf s) \<and>
   list_all (\<lambda>b. phrases \<le> (255 - unat b) * 2 ^ 16 \<longrightarrow>
     (\<exists>s\<in>set (family phrases). sp_symbols s = b \<and> phrases \<le> sp_limit s \<and>
       (\<forall>j < unat (sp_wide s). sp_limit \<lparr>sp_symbols = b, sp_wide = of_nat j\<rparr> < phrases))) SYMBOLS"
proof -
  define f :: "u8 \<times> nat \<Rightarrow> split" where "f x = \<lparr>sp_symbols = fst x, sp_wide = of_nat (snd x)\<rparr>" for x
  define cands where "cands = concat (map (\<lambda>b. map (Pair b) [0, family_wide phrases (255 - unat b)]) SYMBOLS)"
  have fam: "family phrases = fold (\<lambda>x out. if f x \<in> set out then out else out @ [f x]) cands []"
    unfolding family_def f_def cands_def Let_def case_prod_unfold ..
  then have set: "set (family phrases) = f ` set cands" and dist: "distinct (family phrases)"
    using family_fold [where f = f and xs = cands and out = "[]"] by simp_all
  have sym: "0 < unat b \<and> unat b < 255" if "b \<in> set SYMBOLS" for b
    using that by (auto simp: SYMBOLS_def)
  have wide: "unat (of_nat w :: u8) = w" if "w \<le> 255 - unat b" for w and b :: u8
    using that by (simp add: unat_of_nat)
  have ok: "split_wf (f x)" if "x \<in> set cands" for x
  proof -
    from that obtain b w where x: "x = (b, w)" "b \<in> set SYMBOLS" "w \<le> 255 - unat b"
      using family_wide(1) by (auto simp: cands_def)
    then show ?thesis
      using sym [of b] wide [of w b] by (simp add: f_def split_wf_def sp_prefixes_def)
  qed
  moreover have "\<exists>s\<in>set (family phrases). sp_symbols s = b \<and> phrases \<le> sp_limit s \<and>
       (\<forall>j < unat (sp_wide s). sp_limit \<lparr>sp_symbols = b, sp_wide = of_nat j\<rparr> < phrases)"
    if b: "b \<in> set SYMBOLS" and n: "phrases \<le> (255 - unat b) * 2 ^ 16" for b
  proof
    define q where "q = 255 - unat b"
    define w where "w = family_wide phrases q"
    have "(b, w) \<in> set cands" using b by (auto simp: cands_def w_def q_def)
    then show "f (b, w) \<in> set (family phrases)" unfolding set by blast
    have wq: "w \<le> q" unfolding w_def by (rule family_wide(1))
    have lim: "sp_limit \<lparr>sp_symbols = b, sp_wide = of_nat j\<rparr> = (q - j) * GROUP + j * 2 ^ 16" if "j \<le> q" for j
      using wide [of j b] that by (simp add: sp_limit_def sp_two_def sp_prefixes_def q_def)
    have "phrases \<le> (q - w) * GROUP + w * 2 ^ 16" unfolding w_def by (rule family_wide(2)) (use n in \<open>simp add: q_def\<close>)
    moreover have "(q - j) * GROUP + j * 2 ^ 16 < phrases" if "j < w" for j
      using family_wide(3) that unfolding w_def .
    moreover have "unat (of_nat w :: u8) = w" using wide [of w b] wq by (simp add: q_def)
    ultimately show "sp_symbols (f (b, w)) = b \<and> phrases \<le> sp_limit (f (b, w)) \<and>
       (\<forall>j < unat (sp_wide (f (b, w))). sp_limit \<lparr>sp_symbols = b, sp_wide = of_nat j\<rparr> < phrases)"
      using lim wq by (simp add: f_def)
  qed
  ultimately show ?thesis using dist set by (auto simp: list_all_iff)
qed

theorem split_family_covers_witness:
  "\<exists>s\<in>set (family 1000). sp_symbols s = 254 \<and> 1000 \<le> sp_limit s \<and>
    (\<forall>j < unat (sp_wide s). sp_limit \<lparr>sp_symbols = 254, sp_wide = of_nat j\<rparr> < 1000)"
  using split_family_covers [of 1000] by (simp add: SYMBOLS_def)

text \<open>C39. A dictionary's bytes, wherever they lie in a blob, read back as a dictionary that gives each
  phrase by its id and nothing past the last, as the built one does, the fixed read of a phrase holding
  the phrase's bytes first.\<close>

theorem phrase_dict_roundtrip:
  assumes "phrases_ok ps" "shared_wf sec" "shared_bytes sec = dict_write (dict_of ps) []"
  shows "\<exists>d. dict_read sec = Some d \<and> dict_at d i = get_at ps i \<and> dict_at (dict_of ps) i = get_at ps i \<and>
    (case dict_chunk d i of None \<Rightarrow> i \<ge> length ps
     | Some (c, len) \<Rightarrow> i < length ps \<and> len = length (ps ! i) \<and> length c = PHRASE_MAX \<and> take len c = ps ! i)"
proof -
  note built = dict_of_holds [of ps]
  have "shared_bytes sec = section_of ps" using assms(3) dict_write_holds [OF built] by simp
  from dict_read_section [OF assms(2) this assms(1)] obtain d where d: "dict_read sec = Some d" "dict_holds d ps" by blast
  note at = dict_at_holds [OF d(2) assms(1)]
  show ?thesis
    using d(1) at(1) [of i] dict_at_holds(1) [OF built assms(1), of i] at(2) [of i] at(3) [of i]
    by (auto split: option.splits if_splits)
qed

theorem phrase_dict_roundtrip_witness:
  "\<exists>d. dict_read (shared_whole (dict_write (dict_of [[104, 116], [46]]) [])) = Some d \<and> dict_at d 1 = get_at [[104, 116], [46]] 1 \<and>
    dict_at (dict_of [[104, 116], [46]]) 1 = get_at [[104, 116], [46]] 1 \<and>
    (case dict_chunk d 1 of None \<Rightarrow> 1 \<ge> length [[104, 116], [46 :: u8]]
     | Some (c, len) \<Rightarrow> 1 < length [[104, 116], [46 :: u8]] \<and> len = length ([[104, 116], [46 :: u8]] ! 1) \<and>
         length c = PHRASE_MAX \<and> take len c = [[104, 116], [46]] ! 1)"
  by (rule phrase_dict_roundtrip) (simp_all add: phrases_ok_def PHRASE_MAX_def shared_whole_def shared_wf_def shared_bytes_def)



end
