(* ===== verification/Suffix.thy ===== *)
theory Suffix
  imports Phrase Packed Key_Lcp
begin

text \<open>
  The coded suffixes of \<^verbatim>\<open>src/dict_index/codec.rs\<close>: a piece of a run's stream, what a compare has left of
  the probe, the compares that walk a coded suffix against it without decoding, the decoders, and the
  codec a shard settles on with its bytes. The shards are symbol-coded, symbol-coded with phrases, or
  packed; the trie labels of a \<^verbatim>\<open>BDX5\<close> dictionary are not modelled.
\<close>

subsection \<open>Pieces\<close>

record piece =
  pc_stream :: bytes
  pc_start :: nat
  pc_units :: nat

definition piece_bytes :: "piece \<Rightarrow> bytes" where
  "piece_bytes p = (let at = pc_start p div 8; end = min (at + pc_units p) (length (pc_stream p))
    in case get_range (pc_stream p) at end of Some bs \<Rightarrow> bs | None \<Rightarrow> [])"

definition piece_codes :: "piece \<Rightarrow> nat \<Rightarrow> codes" where
  "piece_codes p width = \<lparr>c_bytes = pc_stream p, c_start = pc_start p, c_width = width, c_len = pc_units p\<rparr>"

definition piece_units :: "piece \<Rightarrow> nat \<Rightarrow> nat" where
  "piece_units p unit = min (pc_units p) ((length (pc_stream p) * 8 - pc_start p) div unit)"

subsection \<open>The probe\<close>

record rest =
  rs_key :: bytes
  rs_at :: nat
  rs_tail :: u64

definition key_tail :: "bytes \<Rightarrow> u64" where
  "key_tail key = (if length key \<ge> 8 then u64_of (drop (length key - 8) key)
    else fold (\<lambda>(k, b) w. w OR push_bit (8 * k) (ucast b)) (enumerate 0 key) 0)"

definition rest_len :: "rest \<Rightarrow> nat" where
  "rest_len r = length (rs_key r) - rs_at r"

text \<open>The eight bytes at \<open>c\<close> past the start: a load, or the tail shifted down by a \<^verbatim>\<open>u32\<close> count.\<close>

definition rest_word :: "rest \<Rightarrow> nat \<Rightarrow> u64" where
  "rest_word r c = (let i = rs_at r + c;
      shifted = (let shift = 8 * (i - (length (rs_key r) - 8)) mod 2 ^ 32
        in if shift < 64 then drop_bit shift (rs_tail r) else 0)
    in case get_from (rs_key r) i of
         Some s \<Rightarrow> if length s \<ge> 8 then u64_of (take 8 s) else shifted
       | None \<Rightarrow> shifted)"

definition rest_bytes :: "rest \<Rightarrow> bytes" where
  "rest_bytes r = drop (rs_at r) (rs_key r)"

definition probe_rest :: "bytes \<Rightarrow> nat \<Rightarrow> rest" where
  "probe_rest key at = \<lparr>rs_key = key, rs_at = at, rs_tail = key_tail key\<rparr>"

subsection \<open>Comparing\<close>

text \<open>\<open>Inl\<close> with the answer, or \<open>Inr\<close> with how far the two agree.\<close>

definition compare_word :: "u64 \<Rightarrow> nat \<Rightarrow> rest \<Rightarrow> nat \<Rightarrow> (nat \<times> cmp) + nat" where
  "compare_word word len r c =
    (let m = min len (rest_len r - c); theirs = rest_word r c; x = (word XOR theirs) AND low_mask m
     in if x \<noteq> 0
        then let d = trailing_zeros x div 8; a = ucast (drop_bit (8 * d) word); b = ucast (drop_bit (8 * d) theirs) :: u8
          in Inl (c + d, cmp_of a b)
        else if m < len then Inl (c + m, CGreater) else Inr (c + m))"

definition ended :: "nat \<Rightarrow> rest \<Rightarrow> nat \<times> cmp" where
  "ended c r = (c, if c = rest_len r then CEqual else CLess)"

function compare_symbols_from :: "fsst_table \<Rightarrow> bytes \<Rightarrow> rest \<Rightarrow> nat \<Rightarrow> nat \<Rightarrow> nat \<times> cmp" where
  "compare_symbols_from t packed r i c =
    (case get_at packed i of None \<Rightarrow> ended c r | Some code \<Rightarrow>
      let k = unat code in
      if k < length (t_words t) then
        (case compare_word (t_words t ! k) (unat (t_lens t ! k)) r c of
           Inl a \<Rightarrow> a | Inr c \<Rightarrow> compare_symbols_from t packed r (i + 1) c)
      else if code = ESCAPE then
        (case get_at packed (i + 1) of None \<Rightarrow> ended c r
         | Some b \<Rightarrow> (case compare_word (ucast b) 1 r c of
             Inl a \<Rightarrow> a | Inr c \<Rightarrow> compare_symbols_from t packed r (i + 2) c))
      else ended c r)"
  by pat_completeness auto
termination by (relation "measure (\<lambda>(t, packed, r, i, c). length packed - i)") (auto simp: get_at_Some_iff)

declare compare_symbols_from.simps [simp del]

definition compare_symbols :: "fsst_table \<Rightarrow> bytes \<Rightarrow> rest \<Rightarrow> nat \<times> cmp" where
  "compare_symbols t packed r = compare_symbols_from t packed r 0 0"

text \<open>A phrase, a word of its padded bytes at a time.\<close>

fun compare_phrase :: "u64 list \<Rightarrow> nat \<Rightarrow> nat \<Rightarrow> rest \<Rightarrow> nat \<Rightarrow> (nat \<times> cmp) + nat" where
  "compare_phrase [] plen k r c = Inr c"
| "compare_phrase (w # ws) plen k r c =
    (if k \<ge> plen then Inr c
     else (case compare_word w (min (plen - k) 8) r c of
       Inl a \<Rightarrow> Inl a | Inr c \<Rightarrow> compare_phrase ws plen (k + 8) r c))"

lemma split_read_took: "split_read_at s stream at = Some (pid, took) \<Longrightarrow> 2 \<le> took \<and> at + took \<le> length stream"
  by (auto simp: split_read_at_def get_at_def Let_def split: option.splits if_splits)

function compare_tiered_from :: "fsst_table \<Rightarrow> split \<Rightarrow> dict \<Rightarrow> bytes \<Rightarrow> rest \<Rightarrow> nat \<Rightarrow> nat \<Rightarrow> nat \<times> cmp" where
  "compare_tiered_from t s d packed r i c =
    (case get_at packed i of None \<Rightarrow> ended c r | Some code \<Rightarrow>
      let k = unat code in
      if k < min (length (t_words t)) (unat (sp_symbols s)) then
        (case compare_word (t_words t ! k) (unat (t_lens t ! k)) r c of
           Inl a \<Rightarrow> a | Inr c \<Rightarrow> compare_tiered_from t s d packed r (i + 1) c)
      else if code = ESCAPE then
        (case get_at packed (i + 1) of None \<Rightarrow> ended c r
         | Some b \<Rightarrow> (case compare_word (ucast b) 1 r c of
             Inl a \<Rightarrow> a | Inr c \<Rightarrow> compare_tiered_from t s d packed r (i + 2) c))
      else (case split_read_at s packed i of None \<Rightarrow> ended c r
        | Some (pid, took) \<Rightarrow>
           (case dict_chunk d pid of None \<Rightarrow> ended c r
            | Some (phrase, plen) \<Rightarrow>
               (case compare_phrase (map u64_of (chunks 8 phrase)) plen 0 r c of
                  Inl a \<Rightarrow> a | Inr c \<Rightarrow> compare_tiered_from t s d packed r (i + took) c))))"
  by pat_completeness auto
termination by (relation "measure (\<lambda>(t, s, d, packed, r, i, c). length packed - i)")
  (auto simp: get_at_Some_iff dest: split_read_took)

declare compare_tiered_from.simps [simp del]

definition compare_tiered :: "fsst_table \<Rightarrow> split \<Rightarrow> dict \<Rightarrow> bytes \<Rightarrow> rest \<Rightarrow> nat \<times> cmp" where
  "compare_tiered t s d packed r = compare_tiered_from t s d packed r 0 0"

subsection \<open>Decoding phrases\<close>

function tiered_loop :: "fsst_table \<Rightarrow> split \<Rightarrow> dict \<Rightarrow> bytes \<Rightarrow> nat \<Rightarrow> nat \<Rightarrow> nat \<Rightarrow> slots \<Rightarrow> (slots \<times> nat) outcome" where
  "tiered_loop t s d packed cap i o' room =
    (if i < length packed \<and> o' < cap then
       (case split_read_at s packed i of
          Some (pid, took) \<Rightarrow>
            (case dict_chunk d pid of None \<Rightarrow> Refuses
             | Some (phrase, len) \<Rightarrow>
                 bind_outcome (room_put room o' phrase) (tiered_loop t s d packed cap (i + took) (o' + len)))
        | None \<Rightarrow>
            if packed ! i = ESCAPE then
              (case get_at packed (i + 1) of None \<Rightarrow> Refuses
               | Some b \<Rightarrow> bind_outcome (room_byte room o' b) (tiered_loop t s d packed cap (i + 2) (o' + 1)))
            else let k = unat (packed ! i) in
              (case get_at (t_words t) k of None \<Rightarrow> Refuses
               | Some word \<Rightarrow> bind_outcome (room_put room o' (u64_bytes word))
                   (tiered_loop t s d packed cap (i + 1) (o' + unat (t_lens t ! k)))))
     else Gives (room, o'))"
  by pat_completeness auto
termination by (relation "measure (\<lambda>(t, s, d, packed, cap, i, o', room). length packed - i)")
  (auto simp: get_at_Some_iff dest: split_read_took)

declare tiered_loop.simps [simp del]

definition decode_tiered :: "fsst_table \<Rightarrow> split \<Rightarrow> dict \<Rightarrow> bytes \<Rightarrow> bytes \<Rightarrow> nat \<Rightarrow> bytes outcome" where
  "decode_tiered t s d packed out cap =
    (case checked_mul_usize (length packed) (PHRASE_MAX div 2) of None \<Rightarrow> Refuses
     | Some n \<Rightarrow> bind_outcome
         (tiered_loop t s d packed cap 0 0 (room_of (min n (min (cap + PHRASE_MAX) (usize_bound - 1)))))
         (\<lambda>(room, o'). commit out o' room))"

subsection \<open>The codec of a shard\<close>

datatype codec = Symbols fsst_table "split option" | Packed alphabet

definition codec_unit :: "codec \<Rightarrow> nat" where
  "codec_unit c = (case c of Symbols _ _ \<Rightarrow> 8 | Packed a \<Rightarrow> a_width a)"

definition codec_decode :: "dict \<Rightarrow> codec \<Rightarrow> piece \<Rightarrow> bytes \<Rightarrow> nat \<Rightarrow> bytes outcome" where
  "codec_decode d codec p out cap = (case codec of
      Symbols t (Some s) \<Rightarrow> decode_tiered t s d (piece_bytes p) out cap
    | Symbols t None \<Rightarrow> fsst_decode_into t (piece_bytes p) out cap
    | Packed a \<Rightarrow> decode_into a (piece_codes p (a_width a)) out cap)"

definition codec_len :: "codec \<Rightarrow> nat" where
  "codec_len codec = 1 + (case codec of
      Symbols t s \<Rightarrow> fsst_len t + 2 * (if s = None then 0 else 1)
    | Packed a \<Rightarrow> alphabet_len a)"

definition codec_write :: "codec \<Rightarrow> bytes \<Rightarrow> bytes" where
  "codec_write codec out = (case codec of
      Symbols t (Some s) \<Rightarrow> fsst_write t (split_write s (out @ [2]))
    | Symbols t None \<Rightarrow> fsst_write t (out @ [0])
    | Packed a \<Rightarrow> alphabet_write a (out @ [1]))"

definition has_phrases :: "codec \<Rightarrow> bool" where
  "has_phrases codec = (case codec of Symbols _ (Some _) \<Rightarrow> True | _ \<Rightarrow> False)"

definition codec_read :: "bytes \<Rightarrow> codec option" where
  "codec_read bs = (case bs of [] \<Rightarrow> None | kind # rest \<Rightarrow>
    if kind = 0 then map_option (\<lambda>t. Symbols t None) (fsst_from_bytes rest)
    else if kind = 1 then map_option Packed (alphabet_read rest)
    else if kind = 2 then Option.bind (split_read rest) (\<lambda>(s, rest). Option.bind (fsst_from_bytes rest) (\<lambda>t.
      if length (t_words t) \<le> unat (sp_symbols s) then Some (Symbols t (Some s)) else None))
    else None)"

text \<open>How a scan compares one entry's suffix: the codec, told apart once a run.\<close>

datatype suffix_cmp = SymbolsCmp fsst_table | TieredCmp fsst_table split dict | PackedCmp alphabet

definition cmp_unit :: "suffix_cmp \<Rightarrow> nat" where
  "cmp_unit c = (case c of SymbolsCmp _ \<Rightarrow> 8 | TieredCmp _ _ _ \<Rightarrow> 8 | PackedCmp a \<Rightarrow> a_width a)"

definition cmp_compare :: "suffix_cmp \<Rightarrow> piece \<Rightarrow> rest \<Rightarrow> nat \<times> cmp" where
  "cmp_compare c p r = (case c of
      SymbolsCmp t \<Rightarrow> compare_symbols t (piece_bytes p) r
    | TieredCmp t s d \<Rightarrow> compare_tiered t s d (piece_bytes p) r
    | PackedCmp a \<Rightarrow> compare a (piece_codes p (a_width a)) (rest_bytes r))"

end
