(* ===== verification/Scan.thy ===== *)
theory Scan
  imports Suffix Paircode
begin

text \<open>
  Walking a front-coded run: \<^verbatim>\<open>Entries\<close> and the scan of \<^verbatim>\<open>src/dict_index/codec.rs\<close>, \<^verbatim>\<open>scan_run\<close> of
  \<^verbatim>\<open>src/dict_index/route.rs\<close>, and \<^verbatim>\<open>advance\<close> and \<^verbatim>\<open>climb\<close> of \<^verbatim>\<open>src/dict_index/query.rs\<close>, which turn a run
  and a number of steps into a key. The cursor's sums wrap as the code writes them.
\<close>

definition STAIRS :: nat where "STAIRS = 32"

definition usize_max :: nat where
  "usize_max = usize_bound - 1"

definition sat_mul :: "nat \<Rightarrow> nat \<Rightarrow> nat" where
  "sat_mul a b = min (a * b) usize_max"

subsection \<open>Entries\<close>

record entries =
  en_codes :: reader
  en_sfx :: bytes
  en_at :: nat
  en_count :: nat
  en_reach :: nat
  en_end_bits :: nat
  en_max_units :: nat
  en_unit :: nat

definition entries_empty :: entries where
  "entries_empty = \<lparr>en_codes = reader_none, en_sfx = [], en_at = 0, en_count = 0, en_reach = 0,
    en_end_bits = 0, en_max_units = 0, en_unit = 8\<rparr>"

definition entries_of :: "pair_code \<Rightarrow> codec \<Rightarrow> bytes \<Rightarrow> nat \<Rightarrow> entries" where
  "entries_of code codec data count = (let entries = count - 1; unit = codec_unit codec in
    case reader_of code data entries of None \<Rightarrow> entries_empty
    | Some (codes, sfx) \<Rightarrow> \<lparr>en_codes = codes, en_sfx = sfx, en_at = 0, en_count = entries, en_reach = 0,
        en_end_bits = sat_mul (length sfx) 8,
        en_max_units = (if unit = 8 then length sfx else sat_mul (length sfx) 8 div unit), en_unit = unit\<rparr>)"

definition en_is_frame :: "entries \<Rightarrow> bool" where
  "en_is_frame e = rd_is_frame (en_codes e)"

definition en_off :: "entries \<Rightarrow> nat" where
  "en_off e = min (en_reach e) (en_end_bits e)"

text \<open>The pair an escape stands for, and the bit its suffix proper starts at.\<close>

definition escaped_pair :: "bytes \<Rightarrow> nat \<Rightarrow> (nat \<times> nat \<times> nat) option" where
  "escaped_pair sfx off =
    Option.bind (varint_at sfx (div_ceil off 8)) (\<lambda>(l, at).
    Option.bind (varint_at sfx at) (\<lambda>(len, at). Some (l, len, at * 8)))"

text \<open>The next header and the entries behind it; an escape's two varints move the cursor.\<close>

definition head_within :: "bool \<Rightarrow> entries \<Rightarrow> (nat \<times> nat) option \<times> entries" where
  "head_within frame e = (case next_code (en_codes e) of (code, codes) \<Rightarrow>
    let e = e\<lparr>en_codes := codes\<rparr>;
      check = (\<lambda>(l, len). if len \<le> en_max_units e then Some (l, len) else None)
    in case pair_as frame codes code of
         Some pair \<Rightarrow> (check pair, e)
       | None \<Rightarrow> (case varint_at (en_sfx e) (div_ceil (en_off e) 8) of None \<Rightarrow> (None, e)
           | Some (l, at) \<Rightarrow> (case varint_at (en_sfx e) at of None \<Rightarrow> (None, e)
               | Some (len, at) \<Rightarrow> (check (l, len), e\<lparr>en_reach := at * 8\<rparr>))))"

definition head_as :: "bool \<Rightarrow> entries \<Rightarrow> (nat \<times> nat) option \<times> entries" where
  "head_as frame e = (if en_at e \<ge> en_count e then (None, e) else head_within frame (e\<lparr>en_at := en_at e + 1\<rparr>))"

definition en_head :: "entries \<Rightarrow> (nat \<times> nat) option \<times> entries" where
  "en_head e = head_as (en_is_frame e) e"

definition at_off :: "entries \<Rightarrow> nat \<Rightarrow> piece" where
  "at_off e len = \<lparr>pc_stream = en_sfx e, pc_start = en_off e, pc_units = len\<rparr>"

definition moved :: "nat \<Rightarrow> nat \<Rightarrow> nat \<Rightarrow> nat" where
  "moved pos len unit = usize_add pos (len * unit mod usize_bound)"

definition en_skip :: "nat \<Rightarrow> entries \<Rightarrow> entries" where
  "en_skip len e = e\<lparr>en_reach := moved (en_reach e) len (en_unit e)\<rparr>"

definition en_piece :: "nat \<Rightarrow> entries \<Rightarrow> piece \<times> entries" where
  "en_piece len e = (at_off e len, en_skip len e)"

fun pass_loop :: "nat \<Rightarrow> entries \<Rightarrow> entries option" where
  "pass_loop 0 e = Some e"
| "pass_loop (Suc n) e = (case en_head e of (None, _) \<Rightarrow> None | (Some (_, len), e) \<Rightarrow> pass_loop n (en_skip len e))"

definition en_pass :: "nat \<Rightarrow> entries \<Rightarrow> entries" where
  "en_pass n e = (case pass_loop n e of None \<Rightarrow> entries_empty
    | Some e \<Rightarrow> e\<lparr>en_count := en_count e - n, en_at := 0\<rparr>)"

subsection \<open>A run's bytes told apart\<close>

record run_split =
  rn_headers :: nat
  rn_wide_bytes :: nat
  rn_codes :: nat
  rn_entries :: nat
  rn_wide :: nat

lemma head_within_frame: "head_within frame e = (r, e') \<Longrightarrow> en_at e' = en_at e \<and> en_count e' = en_count e"
  by (auto simp: head_within_def Let_def split: prod.splits option.splits)

function split_walk :: "entries \<Rightarrow> run_split \<Rightarrow> run_split" where
  "split_walk e s = (let before = en_off e in
    case en_head e of (None, _) \<Rightarrow> s
    | (Some (_, len), e) \<Rightarrow>
        let s = s\<lparr>rn_entries := rn_entries s + 1\<rparr>;
          s = (if en_off e \<noteq> before
            then s\<lparr>rn_wide_bytes := rn_wide_bytes s + (en_off e div 8 - div_ceil before 8), rn_wide := rn_wide s + 1\<rparr> else s)
        in split_walk (en_skip len e) s)"
  by pat_completeness auto
termination
  by (relation "measure (\<lambda>(e, s). en_count e - en_at e)")
    (auto simp: en_head_def head_as_def en_skip_def dest!: head_within_frame [OF sym] split: if_splits)

declare split_walk.simps [simp del]

definition split_run :: "pair_code \<Rightarrow> codec \<Rightarrow> bytes \<Rightarrow> nat \<Rightarrow> run_split" where
  "split_run code codec data keys = (let e = entries_of code codec data keys;
      s = split_walk e \<lparr>rn_headers = header_bytes (en_codes e), rn_wide_bytes = 0, rn_codes = 0, rn_entries = 0, rn_wide = 0\<rparr>
    in s\<lparr>rn_codes := length (en_sfx e) - rn_wide_bytes s\<rparr>)"

subsection \<open>The scan\<close>

text \<open>
  The walk keeps its own cursor: the header codes, the reach, the matched bytes and the entry \<open>j\<close>. It
  gives the last key of the run not above the probe, the bytes that one shares with the probe, and
  whether it is the probe.
\<close>

definition scan_pair :: "bool \<Rightarrow> entries \<Rightarrow> reader \<Rightarrow> nat \<Rightarrow> nat \<Rightarrow> (nat \<times> nat \<times> nat) option" where
  "scan_pair frame e codes code pos = (case pair_as frame codes code of
      Some (l, len) \<Rightarrow> Some (l, len, pos)
    | None \<Rightarrow> escaped_pair (en_sfx e) (min pos (en_end_bits e)))"

function scan_from :: "bool \<Rightarrow> nat \<Rightarrow> (piece \<Rightarrow> rest \<Rightarrow> nat \<times> cmp) \<Rightarrow> entries \<Rightarrow> bytes \<Rightarrow> nat \<Rightarrow> reader \<Rightarrow> nat \<Rightarrow> nat \<Rightarrow> nat
    \<Rightarrow> nat \<times> nat \<times> bool" where
  "scan_from frame unit judge e probe count codes pos matched j =
    (if j < count then
       (case next_code codes of (code, codes) \<Rightarrow>
        (case scan_pair frame e codes code pos of None \<Rightarrow> (j - 1, matched, False)
         | Some (l, len, pos) \<Rightarrow>
            if len > en_max_units e \<or> l < matched then (j - 1, matched, False)
            else let start = min pos (en_end_bits e); pos = moved pos len unit in
              if l > matched then scan_from frame unit judge e probe count codes pos matched (j + 1)
              else (case judge \<lparr>pc_stream = en_sfx e, pc_start = start, pc_units = len\<rparr> (probe_rest probe matched) of
                  (c, CEqual) \<Rightarrow> (j, matched + c, True)
                | (c, CGreater) \<Rightarrow> (j - 1, matched, False)
                | (c, CLess) \<Rightarrow> scan_from frame unit judge e probe count codes pos (matched + c) (j + 1))))
     else (count - 1, matched, False))"
  by pat_completeness auto
termination
  by (relation "measure (\<lambda>(frame, unit, judge, e, probe, count, codes, pos, matched, j). count - j)") auto

declare scan_from.simps [simp del]

definition scan_with :: "bool \<Rightarrow> entries \<Rightarrow> nat \<Rightarrow> bytes \<Rightarrow> nat \<Rightarrow> nat \<Rightarrow> (piece \<Rightarrow> rest \<Rightarrow> nat \<times> cmp) \<Rightarrow> nat \<times> nat \<times> bool" where
  "scan_with frame e count probe matched unit judge =
    scan_from frame unit judge e probe count (en_codes e) (en_reach e) matched 1"

definition scan_as :: "bool \<Rightarrow> entries \<Rightarrow> nat \<Rightarrow> bytes \<Rightarrow> nat \<Rightarrow> suffix_cmp \<Rightarrow> nat \<times> nat \<times> bool" where
  "scan_as frame e count probe matched cmp = scan_with frame e count probe matched (cmp_unit cmp) (cmp_compare cmp)"

definition cmp_for :: "dict \<Rightarrow> codec \<Rightarrow> suffix_cmp" where
  "cmp_for d codec = (case codec of
      Symbols t None \<Rightarrow> SymbolsCmp t | Symbols t (Some s) \<Rightarrow> TieredCmp t s d | Packed a \<Rightarrow> PackedCmp a)"

definition scan_run :: "dict \<Rightarrow> codec \<Rightarrow> entries \<Rightarrow> nat \<Rightarrow> bytes \<Rightarrow> nat \<Rightarrow> nat \<times> nat \<times> bool" where
  "scan_run d codec e count probe matched =
    (if en_count e + 1 \<noteq> count then (0, matched, False)
     else scan_as (en_is_frame e) e count probe matched (cmp_for d codec))"

subsection \<open>From a run to a key\<close>

definition advance :: "dict \<Rightarrow> codec \<Rightarrow> entries \<Rightarrow> bytes \<Rightarrow> bytes outcome \<times> entries" where
  "advance d codec e cur = (case en_head e of (None, e) \<Rightarrow> (Refuses, e)
    | (Some (l, len), e) \<Rightarrow> (case en_piece len e of (p, e) \<Rightarrow>
        (if l > length cur \<or> piece_units p (codec_unit codec) \<noteq> len then Refuses
         else codec_decode d codec p (take l cur) usize_max, e)))"

fun advances :: "dict \<Rightarrow> codec \<Rightarrow> nat \<Rightarrow> entries \<Rightarrow> bytes \<Rightarrow> bytes outcome" where
  "advances d codec 0 e cur = Gives cur"
| "advances d codec (Suc n) e cur = (case advance d codec e cur of (r, e) \<Rightarrow> bind_outcome r (advances d codec n e))"

text \<open>
  The staircase of a climb, the last stair first: an entry whose shared prefix a later one does not
  exceed contributes nothing to the key. \<open>Inl\<close> is a staircase deeper than the stack holds.
\<close>

type_synonym stair = "nat \<times> nat \<times> nat"

fun climb_walk :: "bool \<Rightarrow> nat \<Rightarrow> entries \<Rightarrow> stair list \<Rightarrow> (unit + entries \<times> stair list) option" where
  "climb_walk frame 0 e stair = Some (Inr (e, stair))"
| "climb_walk frame (Suc n) e stair = (case head_within frame e of (None, _) \<Rightarrow> None
    | (Some (l, len), e) \<Rightarrow>
       let at = en_reach e; e = en_skip len e; stair = dropWhile (\<lambda>(l', _, _). l' \<ge> l) stair
       in if length stair = STAIRS then Some (Inl ()) else climb_walk frame n e ((l, at, len) # stair))"

definition climb_emit :: "dict \<Rightarrow> codec \<Rightarrow> bytes \<Rightarrow> stair \<Rightarrow> nat \<Rightarrow> bytes \<Rightarrow> bytes outcome" where
  "climb_emit d codec sfx st cap out = (case st of (l, at, len) \<Rightarrow>
    if l > length out then Refuses
    else codec_decode d codec \<lparr>pc_stream = sfx, pc_start = at, pc_units = len\<rparr> (take l out) cap)"

fun climb_emits :: "dict \<Rightarrow> codec \<Rightarrow> bytes \<Rightarrow> stair list \<Rightarrow> bytes \<Rightarrow> bytes outcome" where
  "climb_emits d codec sfx [] out = Gives out"
| "climb_emits d codec sfx [a] out = climb_emit d codec sfx a usize_max out"
| "climb_emits d codec sfx (a # b # rest) out =
    bind_outcome (climb_emit d codec sfx a (fst b - fst a) out) (climb_emits d codec sfx (b # rest))"

definition climb_as :: "bool \<Rightarrow> dict \<Rightarrow> codec \<Rightarrow> pair_code \<Rightarrow> bytes \<Rightarrow> nat \<Rightarrow> nat \<Rightarrow> bytes \<Rightarrow> bytes outcome" where
  "climb_as frame d codec code data count steps out = (let e = entries_of code codec data count in
    if steps > en_count e then Refuses
    else case climb_walk frame steps e [] of
        None \<Rightarrow> Refuses
      | Some (Inl _) \<Rightarrow> advances d codec steps e out
      | Some (Inr (e', stair)) \<Rightarrow>
          if en_reach e' > en_end_bits e' then Refuses else climb_emits d codec (en_sfx e) (rev stair) out)"

definition climb :: "dict \<Rightarrow> codec \<Rightarrow> pair_code \<Rightarrow> bytes \<Rightarrow> nat \<Rightarrow> nat \<Rightarrow> bytes \<Rightarrow> bytes outcome" where
  "climb d codec code data count steps out =
    climb_as (case code of Frame _ \<Rightarrow> True | Table _ _ \<Rightarrow> False) d codec code data count steps out"

end
