(* ===== verification/Suffix_Facts.thy ===== *)
theory Suffix_Facts
  imports Suffix Phrase_Facts Packed_Facts Fsst_Encode
begin

text \<open>
  The compares of \<^verbatim>\<open>src/dict_index/codec.rs\<close> agree with the decoders: each gives the prefix the decoded
  suffix shares with the probe and how the two order, and each decoder gives what the stream denotes.
\<close>

subsection \<open>Words of the probe\<close>

definition probe_ok :: "rest \<Rightarrow> bool" where
  "probe_ok r \<longleftrightarrow> rs_tail r = key_tail (rs_key r) \<and> rs_at r \<le> length (rs_key r)"

lemma probe_rest_ok [simp]: "at \<le> length key \<Longrightarrow> probe_ok (probe_rest key at)"
  by (simp add: probe_ok_def probe_rest_def)

lemma drop_bit_u64_of:
  assumes "length bs \<le> 8"
  shows "drop_bit (8 * k) (u64_of bs) = u64_of (drop k bs)"
proof (rule bit_word_eqI)
  fix n :: nat
  have "(8 * k + n) div 8 = k + n div 8" "(8 * k + n) mod 8 = n mod 8" by simp_all
  then show "bit (drop_bit (8 * k) (u64_of bs)) n = bit (u64_of (drop k bs)) n"
    using assms by (auto simp: bit_drop_bit_eq bit_u64_of)
qed

lemma rest_word_load8:
  assumes "probe_ok r" "c \<le> rest_len r"
  shows "rest_word r c = load8 (rs_key r) (rs_at r + c)"
proof -
  define key i where "key = rs_key r" and "i = rs_at r + c"
  have i: "i \<le> length key" using assms by (auto simp: key_def i_def probe_ok_def rest_len_def)
  show ?thesis
  proof (cases "i + 8 \<le> length key")
    case True
    then have "8 \<le> length key - i" by linarith
    then show ?thesis using i by (simp add: rest_word_def load8_def get_from_def Let_def flip: key_def i_def)
  next
    case False
    define t where "t = drop (length key - 8) key"
    have t: "length t \<le> 8" "drop (i - (length key - 8)) t = drop i key" using False by (simp_all add: t_def)
    have tail: "rs_tail r = u64_of t"
    proof (cases "8 \<le> length key")
      case True
      then show ?thesis using assms(1) by (simp add: probe_ok_def key_tail_def t_def key_def)
    next
      case short: False
      then have "length key \<le> 8" by simp
      then have "fold (\<lambda>(k, b) w. w OR push_bit (8 * k) (ucast b)) (enumerate 0 key) (0::u64) = u64_of key"
        using gather_bytes [of key 0 0] by (simp add: word_unat_eq_iff unat_u64_of)
      then show ?thesis using short assms(1) by (simp add: probe_ok_def key_tail_def t_def key_def)
    qed
    define sh where "sh = i - (length key - 8)"
    have sh: "sh \<le> 8" using i by (simp add: sh_def)
    then have m: "8 * sh mod 2 ^ 32 = 8 * sh" by simp
    have "(if 8 * sh < 64 then drop_bit (8 * sh) (u64_of t) else 0) = u64_of (drop i key)"
      using sh t drop_bit_u64_of [OF t(1), of sh] by (cases "sh = 8") (simp_all add: sh_def u64_of_def)
    moreover have "load8 key i = u64_of (drop i key)" using False by (simp add: load8_def)
    moreover have "\<not> 8 \<le> length (drop i key)" using False by simp
    ultimately show ?thesis
      using i m by (simp add: rest_word_def get_from_def tail Let_def flip: key_def i_def sh_def del: length_drop split: if_splits)
  qed
qed

subsection \<open>A word of the suffix\<close>

lemma bit_word_bytes:
  assumes "n div 8 < 8"
  shows "bit (word :: u64) n \<longleftrightarrow> bit (u64_bytes word ! (n div 8)) (n mod 8)"
  using bit_u64_of [of "u64_bytes word" n] assms by simp

lemma word_byte: "k < 8 \<Longrightarrow> ucast (drop_bit (8 * k) word) = u64_bytes word ! k"
proof (rule bit_word_eqI)
  fix n assume "k < 8" "n < LENGTH(8)"
  then have "(8 * k + n) div 8 = k" "(8 * k + n) mod 8 = n" by simp_all
  then show "bit (ucast (drop_bit (8 * k) word) :: u8) n = bit (u64_bytes word ! k) n"
    using bit_word_bytes [of "8 * k + n" word] \<open>k < 8\<close> \<open>n < LENGTH(8)\<close> by (simp add: bit_ucast_iff bit_drop_bit_eq)
qed

lemma load8_byte:
  assumes "i + k < length bs" "k < 8"
  shows "u64_bytes (load8 bs i) ! k = bs ! (i + k)"
proof -
  have "u64_bytes (load8 bs i) ! k = take 8 (drop i bs) ! k"
  proof (rule bit_word_eqI)
    fix n assume n: "n < LENGTH(8)"
    then have "(8 * k + n) div 8 = k" "(8 * k + n) mod 8 = n" "k < length bs - i" using assms by simp_all
    then show "bit (u64_bytes (load8 bs i) ! k) n = bit (take 8 (drop i bs) ! k) n"
      using bit_word_bytes [of "8 * k + n" "load8 bs i"] bit_u64_of [of "take 8 (drop i bs)" "8 * k + n"] assms n
      by (simp add: load8_def)
  qed
  then show ?thesis using assms by simp
qed

lemma cmp_of_eqs [simp]: "CGreater = cmp_of a b \<longleftrightarrow> b < a" "CEqual = cmp_of a b \<longleftrightarrow> a = b" "CLess = cmp_of a b \<longleftrightarrow> a < b"
  by (simp_all add: eq_commute [of _ "cmp_of a b"])

lemma compare_word_cases:
  assumes ok: "probe_ok r" "c \<le> rest_len r" and len: "len \<le> 8" "bs = take len (u64_bytes word)"
    and rem: "rem = drop (rs_at r + c) (rs_key r)"
  shows "compare_word word len r c =
    (if lcp bs rem = len then Inr (c + len) else Inl (c + lcp bs rem, cmp_of bs rem))"
proof -
  define m where "m = min len (length rem)"
  have lr: "length rem = rest_len r - c" using ok by (simp add: rem rest_len_def)
  have lb: "length bs = len" using len by simp
  define theirs where "theirs = rest_word r c"
  have th: "theirs = load8 (rs_key r) (rs_at r + c)" unfolding theirs_def by (rule rest_word_load8 [OF ok])
  define x where "x = (word XOR theirs) AND low_mask m"
  have m8: "m \<le> 8" "m \<le> len" "m \<le> length rem" using len by (simp_all add: m_def)
  have ours: "u64_bytes word ! k = bs ! k" if "k < m" for k using that m8 len by simp
  have remk: "u64_bytes theirs ! k = rem ! k" if "k < m" for k
    unfolding th using that m8 load8_byte [of "rs_at r + c" k "rs_key r"] by (simp add: rem)
  have d: "diff_word x (take m bs) (take m rem)"
    unfolding diff_word_def
  proof (intro conjI allI)
    show "length (take m bs) = length (take m rem)" "length (take m bs) \<le> 8" using m8 lb by simp_all
    fix n
    have "bit x n \<longleftrightarrow> bit word n \<noteq> bit theirs n \<and> n < 8 * m"
      using m8(1) by (auto simp: x_def bit_and_iff bit_xor_iff LOW_MASK_mask bit_mask_iff dest: bit_imp_le_length)
    moreover have "n < 8 * m \<longleftrightarrow> n div 8 < m" by auto
    ultimately show "bit x n \<longleftrightarrow> n div 8 < length (take m bs) \<and>
        bit (take m bs ! (n div 8)) (n mod 8) \<noteq> bit (take m rem ! (n div 8)) (n mod 8)"
      using bit_word_bytes [of n word] bit_word_bytes [of n theirs] ours [of "n div 8"] remk [of "n div 8"] m8 lb
      by auto
  qed
  have mm: "min len (rest_len r - c) = m" by (simp add: m_def lr)
  show ?thesis
  proof (cases "x = 0")
    case True
    then have eq: "take m bs = take m rem" using diff_word_zero [OF d] by simp
    have l: "lcp bs rem = m"
    proof -
      have "lcp bs rem = m + lcp (drop m bs) (drop m rem)" using eq m8 lb by (intro lcp_split) simp_all
      moreover have "drop m bs = [] \<or> drop m rem = []" using lb by (auto simp: m_def)
      ultimately show ?thesis by auto
    qed
    have "cmp_of bs rem = CGreater" if "m < len"
      using that l lb m8 cmp_of_lcp [of bs rem] by (auto simp: m_def)
    then show ?thesis using True l m8 by (auto simp: compare_word_def mm theirs_def [symmetric] x_def [symmetric] Let_def)
  next
    case False
    then have ne: "take m bs \<noteq> take m rem" using diff_word_zero [OF d] by simp
    have tz: "trailing_zeros x div 8 = lcp bs rem"
      unfolding lcp_take_neq [OF ne] by (rule trailing_zeros_diff [OF d ne])
    have lm: "lcp bs rem < m"
    proof (rule ccontr)
      assume "\<not> lcp bs rem < m"
      then have "take m bs = take m rem" using arg_cong [OF lcp_take [of bs rem], of "take m"] by (simp add: min_def)
      with ne show False ..
    qed
    have "cmp_of (bs ! lcp bs rem) (rem ! lcp bs rem) = cmp_of bs rem"
      using lm m8 lb by (simp add: cmp_of_lcp [of bs rem])
    moreover have "ucast (drop_bit (8 * lcp bs rem) word) = bs ! lcp bs rem"
      "ucast (drop_bit (8 * lcp bs rem) theirs) = rem ! lcp bs rem"
      using word_byte [of "lcp bs rem"] lm m8 ours remk by simp_all
    ultimately show ?thesis
      using False tz lm m8 by (simp add: compare_word_def mm theirs_def [symmetric] x_def [symmetric] Let_def)
  qed
qed

text \<open>One step of a compare: what the word's bytes decide, and what is left to the walk.\<close>

lemma lcp_append_neq:
  "lcp bs rem \<noteq> length bs \<Longrightarrow> lcp (bs @ s) rem = lcp bs rem"
  by (induction bs rem rule: lcp.induct) auto

lemma cmp_of_append_neq:
  fixes bs :: "'a::linorder list"
  shows "lcp bs rem \<noteq> length bs \<Longrightarrow> cmp_of (bs @ s) rem = cmp_of bs rem"
  by (induction bs rem rule: lcp.induct) auto

lemma lcp_prefix:
  assumes "lcp bs rem = length bs"
  shows "length bs \<le> length rem" "lcp (bs @ s) rem = length bs + lcp s (drop (length bs) rem)"
    "cmp_of (bs @ s) (rem :: 'a::linorder list) = cmp_of s (drop (length bs) rem)"
proof -
  have "rem = bs @ drop (length bs) rem" using assms lcp_take [of bs rem] by (metis append_take_drop_id order_refl take_all)
  then show "length bs \<le> length rem" "lcp (bs @ s) rem = length bs + lcp s (drop (length bs) rem)"
    "cmp_of (bs @ s) rem = cmp_of s (drop (length bs) rem)"
    by (metis le_add1 length_append, metis lcp_append, metis cmp_of_append)
qed

definition against :: "rest \<Rightarrow> nat \<Rightarrow> bytes \<Rightarrow> nat \<times> cmp" where
  "against r c s = (let rem = drop (rs_at r + c) (rs_key r) in (c + lcp s rem, cmp_of s rem))"

lemma compare_word_step:
  assumes ok: "probe_ok r" "c \<le> rest_len r" and len: "len \<le> 8" "bs = take len (u64_bytes word)"
    and k: "\<And>c'. c' = c + len \<Longrightarrow> c' \<le> rest_len r \<Longrightarrow> k c' = against r c' s"
  shows "(case compare_word word len r c of Inl a \<Rightarrow> a | Inr c' \<Rightarrow> k c') = against r c (bs @ s)"
proof -
  define rem where "rem = drop (rs_at r + c) (rs_key r)"
  have lb: "length bs = len" using len by simp
  note cw = compare_word_cases [OF ok len rem_def]
  show ?thesis
  proof (cases "lcp bs rem = len")
    case False
    then show ?thesis
      using lcp_append_neq [of bs rem s] cmp_of_append_neq [of bs rem s] lb
      by (simp add: cw against_def rem_def [symmetric] Let_def)
  next
    case True
    then have p: "lcp bs rem = length bs" by (simp add: lb)
    have "c + len \<le> rest_len r" using lcp_prefix(1) [OF p] lb ok by (auto simp: rem_def rest_len_def)
    then have "k (c + len) = against r (c + len) s" by (rule k [OF refl])
    moreover have "drop len rem = drop (rs_at r + (c + len)) (rs_key r)" by (simp add: rem_def add_ac)
    ultimately show ?thesis
      using lcp_prefix(2,3) [OF p, of s] True lb by (simp add: cw against_def rem_def [symmetric] Let_def)
  qed
qed

lemma ended_against: "c \<le> rest_len r \<Longrightarrow> ended c r = against r c []"
  by (auto simp: ended_def against_def rest_len_def Let_def)

lemma split_read_at_drop: "at \<le> length xs \<Longrightarrow> split_read_at s (drop at xs) k = split_read_at s xs (at + k)"
  by (simp add: split_read_at_def get_at_def Let_def add.assoc less_diff_conv add.commute cong: conj_cong)

subsection \<open>What a symbol stream denotes\<close>

text \<open>
  One decoder for both symbol codes: \<open>nxt\<close> gives the bytes the head of a stream names and the rest of
  the stream; the walk stops once the cap is reached.
\<close>

function stream_ref :: "(bytes \<Rightarrow> (bytes \<times> bytes) option) \<Rightarrow> nat \<Rightarrow> bytes \<Rightarrow> bytes option" where
  "stream_ref nxt cap packed =
    (if packed = [] \<or> cap = 0 then Some []
     else case nxt packed of None \<Rightarrow> None
       | Some (tok, rest) \<Rightarrow>
          if length rest < length packed then map_option ((@) tok) (stream_ref nxt (cap - length tok) rest) else None)"
  by pat_completeness auto
termination by (relation "measure (\<lambda>(nxt, cap, packed). length packed)") auto

declare stream_ref.simps [simp del]

definition symbols_next :: "fsst_table \<Rightarrow> bytes \<Rightarrow> (bytes \<times> bytes) option" where
  "symbols_next t packed = (case packed of [] \<Rightarrow> None | code # rest \<Rightarrow>
    if code = ESCAPE then (case rest of [] \<Rightarrow> None | b # rest \<Rightarrow> Some ([b], rest))
    else if unat code < length (t_words t) then Some (symbol t (unat code), rest) else None)"

definition tiered_next :: "fsst_table \<Rightarrow> split \<Rightarrow> dict \<Rightarrow> bytes \<Rightarrow> (bytes \<times> bytes) option" where
  "tiered_next t s d packed = (case split_read_at s packed 0 of
      Some (pid, took) \<Rightarrow> map_option (\<lambda>(phrase, len). (take len phrase, drop took packed)) (dict_chunk d pid)
    | None \<Rightarrow> symbols_next t packed)"

lemma symbols_next_simps [simp]:
  "symbols_next t [] = None"
  "symbols_next t (code # rest) =
    (if code = ESCAPE then (case rest of [] \<Rightarrow> None | b # rest \<Rightarrow> Some ([b], rest))
     else if unat code < length (t_words t) then Some (symbol t (unat code), rest) else None)"
  by (simp_all add: symbols_next_def)

lemma append_one: "(@) [x] = (#) x"
  by (intro ext) simp

lemma symbols_ref: "fsst_ref t cap packed = stream_ref (symbols_next t) cap packed"
proof (induction t cap packed rule: fsst_ref.induct)
  case (1 t cap)
  then show ?case by (simp add: stream_ref.simps)
next
  case (2 t cap code rest)
  show ?case
  proof (cases "cap = 0")
    case False
    then show ?thesis
      using 2 by (subst stream_ref.simps) (auto simp: append_one split: list.splits)
  qed (simp add: stream_ref.simps)
qed

text \<open>A larger cap reads on; a smaller one stops early, with at least the bytes it asks for.\<close>

lemma stream_ref_cap:
  assumes "stream_ref nxt cap packed = Some s" "length s < cap"
  shows "\<exists>d. stream_ref nxt cap' packed = Some d \<and> take cap' d = take cap' s \<and> (length s < cap' \<longrightarrow> d = s)"
  using assms
proof (induction nxt cap packed arbitrary: s cap' rule: stream_ref.induct)
  case (1 nxt cap packed)
  show ?case
  proof (cases "packed = [] \<or> cap' = 0")
    case True
    have "s = []" if "packed = []" using that 1(2) by (simp add: stream_ref.simps)
    with True show ?thesis by (auto simp: stream_ref.simps)
  next
    case False
    have "cap \<noteq> 0" using 1(3) by simp
    with False 1(2) obtain tok rest s' where n: "nxt packed = Some (tok, rest)" "length rest < length packed"
      "stream_ref nxt (cap - length tok) rest = Some s'" "s = tok @ s'"
      by (subst (asm) stream_ref.simps) (auto split: option.splits if_splits)
    have "length s' < cap - length tok" using n(4) 1(3) by simp
    from 1(1) [OF _ n(1) refl n(2,3) this, of "cap' - length tok"] False \<open>cap \<noteq> 0\<close>
    obtain d where d: "stream_ref nxt (cap' - length tok) rest = Some d"
      "take (cap' - length tok) d = take (cap' - length tok) s'" "length s' < cap' - length tok \<longrightarrow> d = s'"
      by auto
    have "stream_ref nxt cap' packed = Some (tok @ d)"
      using False n(1,2) d(1) by (subst stream_ref.simps) simp
    then show ?thesis using d(2,3) n(4) by auto
  qed
qed

lemma stream_ref_step:
  assumes "stream_ref nxt cap packed = Some s" "length s < cap" "packed \<noteq> []"
  obtains tok rest s' where "nxt packed = Some (tok, rest)" "length rest < length packed"
    "stream_ref nxt (cap - length tok) rest = Some s'" "s = tok @ s'" "length s' < cap - length tok"
proof -
  have "cap \<noteq> 0" using assms(2) by simp
  with assms obtain tok rest s' where n: "nxt packed = Some (tok, rest)" "length rest < length packed"
      "stream_ref nxt (cap - length tok) rest = Some s'" "s = tok @ s'"
    by (subst (asm) stream_ref.simps) (auto split: option.splits if_splits)
  with that assms(2) show thesis by simp
qed

lemma stream_ref_Nil: "stream_ref nxt cap [] = Some s \<longleftrightarrow> s = []"
  by (auto simp: stream_ref.simps)

lemma stream_ref_nonempty:
  "packed \<noteq> [] \<Longrightarrow> cap \<noteq> 0 \<Longrightarrow> stream_ref nxt cap packed = (case nxt packed of None \<Rightarrow> None
     | Some (tok, rest) \<Rightarrow>
        if length rest < length packed then map_option ((@) tok) (stream_ref nxt (cap - length tok) rest) else None)"
  by (subst stream_ref.simps) simp

lemma tiered_loop_ref:
  assumes wf: "table_wf t" and chunk: "\<And>pid c len. dict_chunk d pid = Some (c, len) \<Longrightarrow> length c = PHRASE_MAX \<and> len \<le> PHRASE_MAX"
  shows "i \<le> length packed \<Longrightarrow> n = min (length packed * 16) (cap + PHRASE_MAX) \<Longrightarrow>
    room_has room n bs \<Longrightarrow> length bs \<le> 16 * i \<Longrightarrow> o' = length bs \<Longrightarrow>
    (case stream_ref (tiered_next t s d) (cap - length bs) (drop i packed) of
       None \<Rightarrow> tiered_loop t s d packed cap i o' room = Refuses
     | Some dec \<Rightarrow> \<exists>room'. room_has room' n (bs @ dec) \<and>
         tiered_loop t s d packed cap i o' room = Gives (room', length (bs @ dec)))"
proof (induction "length packed - i" arbitrary: i room bs o' rule: less_induct)
  case less
  note has = less.prems(3) and n = less.prems(2) and len = less.prems(4) and o' = less.prems(5)
  show ?case
  proof (cases "i < length packed \<and> o' < cap")
    case False
    then have "stream_ref (tiered_next t s d) (cap - length bs) (drop i packed) = Some []"
      using o' by (auto simp: stream_ref.simps)
    with False has o' show ?thesis by (auto simp: tiered_loop.simps [of t s d packed cap i])
  next
    case True
    then have dne: "drop i packed \<noteq> []" and cap: "cap - length bs \<noteq> 0" using o' by simp_all
    note ref = stream_ref_nonempty [OF dne cap, of "tiered_next t s d"]
    \<comment> \<open>one token: the bytes are stored and the walk goes on behind it\<close>
    have step: ?thesis
      if nxt: "tiered_next t s d (drop i packed) = Some (tok, drop (i + k) packed)" and k: "0 < k" "i + k \<le> length packed"
        and room: "room_has room' n (bs @ tok)" and tl: "length tok \<le> 16 * k"
        and go: "tiered_loop t s d packed cap i o' room = tiered_loop t s d packed cap (i + k) (o' + length tok) room'"
      for tok k room'
    proof -
      have "case stream_ref (tiered_next t s d) (cap - length (bs @ tok)) (drop (i + k) packed) of
            None \<Rightarrow> tiered_loop t s d packed cap (i + k) (o' + length tok) room' = Refuses
          | Some dec \<Rightarrow> \<exists>room''. room_has room'' n ((bs @ tok) @ dec) \<and>
              tiered_loop t s d packed cap (i + k) (o' + length tok) room' = Gives (room'', length ((bs @ tok) @ dec))"
        by (rule less.hyps) (use k n room tl len o' True in simp_all)
      moreover have "length packed - (i + k) < length packed - i" using k by linarith
      ultimately show ?thesis
        using ref nxt k True go
        by (cases "stream_ref (tiered_next t s d) (cap - length (bs @ tok)) (drop (i + k) packed)") (simp_all add: diff_diff_left)
    qed
    have refuse: ?thesis if "tiered_next t s d (drop i packed) = None" "tiered_loop t s d packed cap i o' room = Refuses"
      using that ref by simp
    show ?thesis
    proof (cases "split_read_at s packed i")
      case (Some q)
      obtain pid took where q: "q = (pid, took)" by fastforce
      note took = split_read_took [OF Some [unfolded q]]
      have at0: "split_read_at s (drop i packed) 0 = Some (pid, took)"
        using Some q True by (simp add: split_read_at_drop)
      show ?thesis
      proof (cases "dict_chunk d pid")
        case None
        then show ?thesis
          using refuse at0 True Some q by (simp add: tiered_next_def tiered_loop.simps [of t s d packed cap i])
      next
        case (Some cl)
        obtain c l where cl: "cl = (c, l)" by fastforce
        have c: "length c = PHRASE_MAX" "l \<le> PHRASE_MAX" using chunk [of pid c l] Some cl by simp_all
        have fits: "length bs + length c \<le> n" using True o' len n took c by (simp add: PHRASE_MAX_def)
        obtain room' where r: "room_put room (length bs) c = Gives room'" "room_has room' n (bs @ c)"
          using room_put_has [OF has fits] by blast
        have "take (length bs + l) (bs @ c) = bs @ take l c" by simp
        then have r2: "room_has room' n (bs @ take l c)" using room_has_take [OF r(2), of "length bs + l"] by simp
        show ?thesis
        proof (rule step [where tok = "take l c" and k = took and room' = room'])
          show "tiered_next t s d (drop i packed) = Some (take l c, drop (i + took) packed)"
            using at0 Some cl by (simp add: tiered_next_def add.commute)
          show "tiered_loop t s d packed cap i o' room = tiered_loop t s d packed cap (i + took) (o' + length (take l c)) room'"
            using True \<open>split_read_at s packed i = Some q\<close> q Some cl r(1) o' c by (subst tiered_loop.simps) simp
        qed (use took r2 c in \<open>auto simp: PHRASE_MAX_def\<close>)
      qed
    next
      case None
      have at0: "split_read_at s (drop i packed) 0 = None" using None True by (simp add: split_read_at_drop)
      have d: "drop i packed = packed ! i # drop (Suc i) packed" using True by (simp add: Cons_nth_drop_Suc)
      have nxt: "tiered_next t s d (drop i packed) = symbols_next t (packed ! i # drop (Suc i) packed)"
        using at0 d by (simp add: tiered_next_def)
      have room8: "length bs + 8 \<le> n" using True o' len n by (auto simp: PHRASE_MAX_def)
      show ?thesis
      proof (cases "packed ! i = ESCAPE")
        case esc: True
        show ?thesis
        proof (cases "Suc i < length packed")
          case False
          then show ?thesis
            using refuse nxt esc True None by (simp add: get_at_def tiered_loop.simps [of t s d packed cap i])
        next
          case si: True
          then have d2: "drop (Suc i) packed = packed ! Suc i # drop (i + 2) packed" by (simp add: Cons_nth_drop_Suc)
          obtain room' where r: "room_byte room (length bs) (packed ! Suc i) = Gives room'"
              "room_has room' n (bs @ [packed ! Suc i])"
            using room_byte_has [OF has, of "packed ! Suc i"] room8 by auto
          show ?thesis
            by (rule step [where tok = "[packed ! Suc i]" and k = 2 and room' = room'])
              (use nxt d2 esc si r True None o' in \<open>auto simp: get_at_def tiered_loop.simps [of t s d packed cap i]\<close>)
        qed
      next
        case ne: False
        show ?thesis
        proof (cases "unat (packed ! i) < length (t_words t)")
          case False
          then show ?thesis
            using refuse nxt ne True None by (simp add: get_at_def tiered_loop.simps [of t s d packed cap i])
        next
          case kw: True
          define c where "c = unat (packed ! i)"
          have ck: "c < length (t_lens t)" using kw wf by (simp add: c_def table_wf_def)
          obtain room' where r: "room_put room (length bs) (u64_bytes (t_words t ! c)) = Gives room'"
              "room_has room' n (bs @ u64_bytes (t_words t ! c))"
            using room_put_has [OF has, of "u64_bytes (t_words t ! c)"] room8 by auto
          have "take (length bs + unat (t_lens t ! c)) (bs @ u64_bytes (t_words t ! c)) = bs @ symbol t c"
            by (simp add: symbol_def)
          then have r2: "room_has room' n (bs @ symbol t c)"
            using room_has_take [OF r(2), of "length bs + unat (t_lens t ! c)"] by simp
          have sl: "length (symbol t c) = unat (t_lens t ! c)" by (rule length_symbol [OF wf ck])
          have l8: "unat (t_lens t ! c) \<le> 8" by (rule table_wf_nth(2) [OF wf ck])
          show ?thesis
          proof (rule step [where tok = "symbol t c" and k = 1 and room' = room'])
            show "tiered_next t s d (drop i packed) = Some (symbol t c, drop (i + 1) packed)"
              using nxt ne kw by (simp add: c_def)
            show "tiered_loop t s d packed cap i o' room = tiered_loop t s d packed cap (i + 1) (o' + length (symbol t c)) room'"
              using True None ne kw r(1) o' sl by (subst tiered_loop.simps) (simp add: get_at_def c_def)
          qed (use True r2 sl l8 in auto)
        qed
      qed
    qed
  qed
qed

definition chunks_ok :: "dict \<Rightarrow> bool" where
  "chunks_ok d \<longleftrightarrow> (\<forall>pid c len. dict_chunk d pid = Some (c, len) \<longrightarrow> length c = PHRASE_MAX \<and> len \<le> PHRASE_MAX)"

lemma decode_tiered_ref:
  assumes "table_wf t" "chunks_ok d" "length packed * 16 < usize_bound"
  shows "decode_tiered t s d packed out cap =
    (case stream_ref (tiered_next t s d) cap packed of None \<Rightarrow> Refuses | Some bs \<Rightarrow> Gives (out @ bs))"
proof -
  define n where "n = min (length packed * 16) (cap + PHRASE_MAX)"
  have room: "checked_mul_usize (length packed) (PHRASE_MAX div 2) = Some (length packed * 16)"
    "min (length packed * 16) (min (cap + PHRASE_MAX) (usize_bound - 1)) = n"
    using assms(3) by (auto simp: checked_mul_usize_def PHRASE_MAX_def n_def)
  have "case stream_ref (tiered_next t s d) cap packed of
       None \<Rightarrow> tiered_loop t s d packed cap 0 0 (room_of n) = Refuses
     | Some dec \<Rightarrow> \<exists>room'. room_has room' n dec \<and>
         tiered_loop t s d packed cap 0 0 (room_of n) = Gives (room', length dec)"
    using tiered_loop_ref [OF assms(1), of d 0 packed n cap "room_of n" "[]" 0 s] assms(2)
    by (simp add: n_def chunks_ok_def cong del: option.case_cong_weak)
  then show ?thesis
    by (auto simp: decode_tiered_def room room [unfolded One_nat_def] commit_has split: option.splits)
qed

subsection \<open>Compares against what the stream denotes\<close>

lemma escaped_word: "take 1 (u64_bytes (ucast b)) = [b]"
proof -
  have "8 = Suc 7" by simp
  then have "u64_bytes (ucast b) = of_nat (unat (ucast b :: u64)) # le_bytes 7 (unat (ucast b :: u64) div 256)"
    unfolding u64_bytes_def by (simp only: le_bytes.simps)
  moreover have "unat (ucast b :: u64) = unat b" by (simp add: unsigned_ucast_eq take_bit_nat_eq_self less_trans [OF unat_u8_less])
  ultimately show ?thesis by simp
qed

lemma compare_symbols_against:
  assumes wf: "table_wf t" and ok: "probe_ok r"
  shows "c \<le> rest_len r \<Longrightarrow> i \<le> length packed \<Longrightarrow> stream_ref (symbols_next t) cap (drop i packed) = Some s \<Longrightarrow> length s < cap \<Longrightarrow>
    compare_symbols_from t packed r i c = against r c s"
proof (induction "length packed - i" arbitrary: i c cap s rule: less_induct)
  case less
  show ?case
  proof (cases "i < length packed")
    case False
    then have "s = []" using less.prems(3) by (simp add: stream_ref_Nil)
    with False show ?thesis
      using ended_against [OF less.prems(1)] by (simp add: compare_symbols_from.simps [of t packed r i] get_at_def)
  next
    case True
    then have d: "drop i packed = packed ! i # drop (Suc i) packed" by (simp add: Cons_nth_drop_Suc)
    then have dne: "drop i packed \<noteq> []" by simp
    obtain tok rest s' where n:
      "symbols_next t (drop i packed) = Some (tok, rest)" "stream_ref (symbols_next t) (cap - length tok) rest = Some s'"
      "s = tok @ s'" "length s' < cap - length tok"
      by (rule stream_ref_step [OF less.prems(3,4) dne])
    show ?thesis
    proof (cases "unat (packed ! i) < length (t_words t)")
      case k: True
      then have ne: "packed ! i \<noteq> ESCAPE" using wf by (auto simp: ESCAPE_def table_wf_def)
      have ck: "unat (packed ! i) < length (t_lens t)" using k wf by (simp add: table_wf_def)
      have tok: "tok = take (unat (t_lens t ! unat (packed ! i))) (u64_bytes (t_words t ! unat (packed ! i)))" "rest = drop (i + 1) packed"
        using n(1) d k ne by (simp_all add: symbol_def)
      have "(case compare_word (t_words t ! unat (packed ! i)) (unat (t_lens t ! unat (packed ! i))) r c of
           Inl a \<Rightarrow> a | Inr c \<Rightarrow> compare_symbols_from t packed r (i + 1) c) = against r c (tok @ s')"
        by (rule compare_word_step [OF ok less.prems(1) table_wf_nth(2) [OF wf ck] tok(1)], rule less.hyps)
          (use True n tok in auto)
      then show ?thesis
        using True k n(3) by (subst compare_symbols_from.simps) (simp add: get_at_def)
    next
      case nk: False
      then have esc: "packed ! i = ESCAPE" using n(1) d by (auto split: if_splits)
      then obtain b where b: "drop (Suc i) packed = b # rest" "tok = [b]"
        using n(1) d by (auto split: list.splits)
      then have si: "Suc i < length packed" by (metis drop_eq_Nil list.distinct(1) not_le)
      then have b': "packed ! Suc i = b" "rest = drop (i + 2) packed" using b(1) by (auto simp: Cons_nth_drop_Suc [symmetric])
      have "(case compare_word (ucast b) 1 r c of
           Inl a \<Rightarrow> a | Inr c \<Rightarrow> compare_symbols_from t packed r (i + 2) c) = against r c (tok @ s')"
        by (rule compare_word_step [OF ok less.prems(1)], simp, simp add: b(2) escaped_word [unfolded One_nat_def], rule less.hyps)
          (use si n b' b(2) in auto)
      then show ?thesis
        using True nk esc si n(3) b' by (subst compare_symbols_from.simps) (simp add: get_at_def)
    qed
  qed
qed

lemma compare_phrase_step:
  assumes ok: "probe_ok r"
  shows "c \<le> rest_len r \<Longrightarrow> plen \<le> k + 8 * length ws \<Longrightarrow> bs = take (plen - k) (concat (map u64_bytes ws)) \<Longrightarrow>
    (\<And>c'. c' = c + length bs \<Longrightarrow> c' \<le> rest_len r \<Longrightarrow> f c' = against r c' s) \<Longrightarrow>
    (case compare_phrase ws plen k r c of Inl a \<Rightarrow> a | Inr c' \<Rightarrow> f c') = against r c (bs @ s)"
proof (induction ws arbitrary: k c bs)
  case Nil
  then show ?case by simp
next
  case (Cons w ws)
  show ?case
  proof (cases "plen \<le> k")
    case True
    then show ?thesis using Cons.prems by simp
  next
    case False
    define len where "len = min (plen - k) 8"
    define bs' where "bs' = take (plen - (k + 8)) (concat (map u64_bytes ws))"
    have bs: "bs = take len (u64_bytes w) @ bs'"
      using Cons.prems(3) by (auto simp: len_def bs'_def min_def)
    have "(case compare_word w len r c of Inl a \<Rightarrow> a
        | Inr c' \<Rightarrow> (case compare_phrase ws plen (k + 8) r c' of Inl a \<Rightarrow> a | Inr c' \<Rightarrow> f c')) =
      against r c (take len (u64_bytes w) @ bs' @ s)"
    proof (rule compare_word_step [OF ok Cons.prems(1) _ refl])
      show "len \<le> 8" by (simp add: len_def)
      fix c' assume c': "c' = c + len" "c' \<le> rest_len r"
      show "(case compare_phrase ws plen (k + 8) r c' of Inl a \<Rightarrow> a | Inr c' \<Rightarrow> f c') = against r c' (bs' @ s)"
      proof (rule Cons.IH [OF c'(2)])
        show "plen \<le> k + 8 + 8 * length ws" using Cons.prems(2) by simp
        show "f c'' = against r c'' s" if "c'' = c' + length bs'" "c'' \<le> rest_len r" for c''
          using Cons.prems(4) [of c''] that c' bs by (simp add: len_def)
      qed (simp add: bs'_def)
    qed
    moreover have "(case compare_phrase (w # ws) plen k r c of Inl a \<Rightarrow> a | Inr c' \<Rightarrow> f c') =
      (case compare_word w len r c of Inl a \<Rightarrow> a
        | Inr c' \<Rightarrow> (case compare_phrase ws plen (k + 8) r c' of Inl a \<Rightarrow> a | Inr c' \<Rightarrow> f c'))"
      using False by (simp add: len_def split: sum.splits)
    ultimately show ?thesis by (simp add: bs)
  qed
qed

lemma phrase_words:
  assumes "length ph = 32"
  shows "concat (map u64_bytes (map u64_of (chunks 8 ph))) = ph" "length (chunks 8 ph) = 4"
proof -
  show four: "length (chunks 8 ph) = 4" using assms by (simp add: length_chunks div_ceil_def)
  have "length (chunks 8 ph ! j) = 8" if "j < 4" for j
    using that four assms by (simp add: nth_chunks)
  then have "\<forall>x\<in>set (chunks 8 ph). length x = 8" using four by (auto simp: in_set_conv_nth)
  then have "map u64_bytes (map u64_of (chunks 8 ph)) = chunks 8 ph"
    by (simp add: map_idI u64_bytes_of)
  then show "concat (map u64_bytes (map u64_of (chunks 8 ph))) = ph" by (simp add: concat_chunks)
qed

lemma compare_tiered_against:
  assumes wf: "table_wf t" and ok: "probe_ok r" and chunks: "chunks_ok d" and cut: "length (t_words t) \<le> unat (sp_symbols s)"
  shows "c \<le> rest_len r \<Longrightarrow> i \<le> length packed \<Longrightarrow> stream_ref (tiered_next t s d) cap (drop i packed) = Some u \<Longrightarrow> length u < cap \<Longrightarrow>
    compare_tiered_from t s d packed r i c = against r c u"
proof (induction "length packed - i" arbitrary: i c cap u rule: less_induct)
  case less
  show ?case
  proof (cases "i < length packed")
    case False
    then have "u = []" using less.prems(3) by (simp add: stream_ref_Nil)
    with False show ?thesis
      using ended_against [OF less.prems(1)] by (simp add: compare_tiered_from.simps [of t s d packed r i] get_at_def)
  next
    case True
    then have dr: "drop i packed = packed ! i # drop (Suc i) packed" by (simp add: Cons_nth_drop_Suc)
    then have dne: "drop i packed \<noteq> []" by simp
    obtain tok rest s' where n:
      "tiered_next t s d (drop i packed) = Some (tok, rest)" "stream_ref (tiered_next t s d) (cap - length tok) rest = Some s'"
      "u = tok @ s'" "length s' < cap - length tok"
      by (rule stream_ref_step [OF less.prems(3,4) dne])
    have at0: "split_read_at s (drop i packed) 0 = split_read_at s packed i" using True by (simp add: split_read_at_drop)
    have low: "split_read_at s packed i = None" if "unat (packed ! i) < unat (sp_symbols s) \<or> packed ! i = ESCAPE"
      using that True by (auto simp: split_read_at_def get_at_def)
    have mn: "min (length (t_words t)) (unat (sp_symbols s)) = length (t_words t)" using cut by simp
    show ?thesis
    proof (cases "unat (packed ! i) < length (t_words t)")
      case k: True
      then have ne: "packed ! i \<noteq> ESCAPE" using wf by (auto simp: ESCAPE_def table_wf_def)
      have ck: "unat (packed ! i) < length (t_lens t)" using k wf by (simp add: table_wf_def)
      have "split_read_at s packed i = None" using low k cut by simp
      then have tok: "tok = take (unat (t_lens t ! unat (packed ! i))) (u64_bytes (t_words t ! unat (packed ! i)))" "rest = drop (i + 1) packed"
        using n(1) at0 dr k ne by (simp_all add: tiered_next_def symbol_def)
      have "(case compare_word (t_words t ! unat (packed ! i)) (unat (t_lens t ! unat (packed ! i))) r c of
           Inl a \<Rightarrow> a | Inr c \<Rightarrow> compare_tiered_from t s d packed r (i + 1) c) = against r c (tok @ s')"
        by (rule compare_word_step [OF ok less.prems(1) table_wf_nth(2) [OF wf ck] tok(1)], rule less.hyps)
          (use True n tok in auto)
      then show ?thesis
        using True k n(3) mn by (subst compare_tiered_from.simps) (simp add: get_at_def)
    next
      case nk: False
      show ?thesis
      proof (cases "packed ! i = ESCAPE")
        case esc: True
        have "split_read_at s packed i = None" using low esc by simp
        then obtain b where b: "drop (Suc i) packed = b # rest" "tok = [b]"
          using n(1) at0 dr esc by (auto simp: tiered_next_def split: list.splits)
        then have si: "Suc i < length packed" by (metis drop_eq_Nil list.distinct(1) not_le)
        then have b': "packed ! Suc i = b" "rest = drop (i + 2) packed" using b(1) by (auto simp: Cons_nth_drop_Suc [symmetric])
        have "(case compare_word (ucast b) 1 r c of
             Inl a \<Rightarrow> a | Inr c \<Rightarrow> compare_tiered_from t s d packed r (i + 2) c) = against r c (tok @ s')"
          by (rule compare_word_step [OF ok less.prems(1)], simp, simp add: b(2) escaped_word [unfolded One_nat_def], rule less.hyps)
            (use si n b' b(2) in auto)
        then show ?thesis
          using True nk esc si n(3) b' mn by (subst compare_tiered_from.simps) (simp add: get_at_def)
      next
        case ne: False
        have "symbols_next t (drop i packed) = None" using nk ne dr by simp
        then obtain pid took ph len where q: "split_read_at s packed i = Some (pid, took)" "dict_chunk d pid = Some (ph, len)"
          "tok = take len ph" "rest = drop (i + took) packed"
          using n(1) at0 by (auto simp: tiered_next_def add.commute split: option.splits)
        have ph: "length ph = 32" "len \<le> 32" using chunks q(2) by (auto simp: chunks_ok_def PHRASE_MAX_def)
        have "(case compare_phrase (map u64_of (chunks 8 ph)) len 0 r c of
             Inl a \<Rightarrow> a | Inr c \<Rightarrow> compare_tiered_from t s d packed r (i + took) c) = against r c (tok @ s')"
        proof (rule compare_phrase_step [OF ok less.prems(1)])
          show "len \<le> 0 + 8 * length (map u64_of (chunks 8 ph))" using phrase_words(2) [OF ph(1)] ph(2) by simp
          show "tok = take (len - 0) (concat (map u64_bytes (map u64_of (chunks 8 ph))))"
            unfolding phrase_words(1) [OF ph(1)] using q(3) by simp
          show "compare_tiered_from t s d packed r (i + took) c' = against r c' s'" if "c' \<le> rest_len r" for c'
            by (rule less.hyps [OF _ that _ n(2) [unfolded q(4)] n(4)]) (use split_read_took [OF q(1)] True in auto)
        qed
        then show ?thesis
          using True nk ne q(1,2) n(3) mn by (subst compare_tiered_from.simps) (simp add: get_at_def)
      qed
    qed
  qed
qed

end
