(* ===== verification/Scan_Facts.thy ===== *)
theory Scan_Facts
  imports Scan Suffix_Facts
begin

text \<open>
  The contract of a suffix codec as a locale, what the scan and the climb do over any codec that keeps
  it, and the three codecs as its interpretations.
\<close>

subsection \<open>Orders past a shared prefix\<close>

text \<open>Of three keys, the two that share less with the first order as the third does against it.\<close>

lemma lcp_third:
  fixes a b c :: "'a::linorder list"
  shows "lcp a b < lcp a c \<Longrightarrow> lcp b c = lcp b a \<and> cmp_of b c = cmp_of b a"
proof (induction a arbitrary: b c)
  case (Cons x a)
  from Cons.prems obtain c' where c: "c = x # c'" by (cases c) (auto split: if_splits)
  show ?case
  proof (cases b)
    case Nil
    then show ?thesis using c by simp
  next
    case (Cons y b')
    then show ?thesis using Cons.prems Cons.IH [of b' c'] c by (cases "x = y") simp_all
  qed
qed simp

lemma lcp_from:
  fixes a b :: "'a::linorder list"
  assumes "take l a = take l b" "l \<le> length a" "l \<le> length b"
  shows "lcp a b = l + lcp (drop l a) (drop l b)" "cmp_of a b = cmp_of (drop l a) (drop l b)"
proof -
  show "lcp a b = l + lcp (drop l a) (drop l b)" by (rule lcp_split [OF assms])
  have "cmp_of (take l a @ drop l a) (take l b @ drop l b) = cmp_of (drop l a) (drop l b)"
    unfolding assms(1) by (rule cmp_of_append)
  then show "cmp_of a b = cmp_of (drop l a) (drop l b)" by simp
qed

lemma cmp_of_self [simp]: "cmp_of a a = CEqual"
  by (simp add: cmp_of_def)

subsection \<open>A run that was written\<close>

text \<open>
  The entries from here on name these keys: each header gives the prefix a key shares with the one
  before it, and the piece behind it denotes the rest of the key. The cursor never passes the run's end.
\<close>

fun run_of :: "(piece \<Rightarrow> bytes \<Rightarrow> bool) \<Rightarrow> entries \<Rightarrow> bytes \<Rightarrow> bytes list \<Rightarrow> bool" where
  "run_of denotes e prev [] \<longleftrightarrow> en_reach e \<le> en_end_bits e"
| "run_of denotes e prev (k # ks) \<longleftrightarrow> (\<exists>len e'. head_within (en_is_frame e) e = (Some (lcp prev k, len), e') \<and>
      denotes \<lparr>pc_stream = en_sfx e, pc_start = en_reach e', pc_units = len\<rparr> (drop (lcp prev k) k) \<and>
      en_reach e \<le> en_end_bits e \<and> en_reach e' \<le> en_end_bits e \<and> run_of denotes (en_skip len e') k ks)"

lemma head_within_keeps:
  "head_within frame e = (r, e') \<Longrightarrow> en_sfx e' = en_sfx e \<and> en_end_bits e' = en_end_bits e \<and> en_max_units e' = en_max_units e \<and>
    en_unit e' = en_unit e \<and> en_is_frame e' = en_is_frame e \<and> en_at e' = en_at e \<and> en_count e' = en_count e"
  by (auto simp: head_within_def Let_def next_code_def en_is_frame_def split: option.splits)

lemma head_within_at:
  "head_within frame (e\<lparr>en_at := n, en_count := m\<rparr>) =
    (case head_within frame e of (r, e') \<Rightarrow> (r, e'\<lparr>en_at := n, en_count := m\<rparr>))"
  by (auto simp: head_within_def Let_def en_off_def split: option.splits prod.splits)

lemma run_of_at: "run_of denotes (e\<lparr>en_at := n, en_count := m\<rparr>) prev ks = run_of denotes e prev ks"
proof (induction ks arbitrary: e prev)
  case (Cons k ks)
  have fr: "en_is_frame (e\<lparr>en_at := n, en_count := m\<rparr>) = en_is_frame e" by (simp add: en_is_frame_def)
  obtain r e' where h: "head_within (en_is_frame e) e = (r, e')" by fastforce
  have "en_skip len (e'\<lparr>en_at := n, en_count := m\<rparr>) = (en_skip len e')\<lparr>en_at := n, en_count := m\<rparr>" for len
    by (simp add: en_skip_def)
  then show ?case by (simp add: fr head_within_at h Cons.IH)
qed simp

text \<open>The scan's own cursor reads what the entries would.\<close>

lemma scan_pair_head:
  assumes "head_within frame e = (Some (l, len), e')" "next_code (en_codes e) = (code, codes)"
  shows "scan_pair frame e codes code (en_reach e) = Some (l, len, en_reach e')" "len \<le> en_max_units e" "en_codes e' = codes"
  using assms by (auto simp: head_within_def scan_pair_def escaped_pair_def en_off_def Let_def bind_eq_Some_conv
      split: option.splits if_splits)

lemma scan_pair_cong: "en_sfx e' = en_sfx e \<Longrightarrow> en_end_bits e' = en_end_bits e \<Longrightarrow> scan_pair frame e' = scan_pair frame e"
  by (intro ext) (simp add: scan_pair_def cong: option.case_cong)

subsection \<open>The contract of a suffix codec\<close>

text \<open>
  What the walks ask of a codec: comparing a piece against the probe is comparing what the piece denotes,
  decoding it gives that up to the cap, and a piece takes as many units as its header says.
\<close>

locale suffix_codec =
  fixes unit :: nat
    and judge :: "piece \<Rightarrow> rest \<Rightarrow> nat \<times> cmp"
    and decode :: "piece \<Rightarrow> bytes \<Rightarrow> nat \<Rightarrow> bytes outcome"
    and denotes :: "piece \<Rightarrow> bytes \<Rightarrow> bool"
  assumes judged: "denotes p s \<Longrightarrow> at \<le> length key \<Longrightarrow>
      judge p (probe_rest key at) = (lcp s (drop at key), cmp_of s (drop at key))"
    and decoded: "denotes p s \<Longrightarrow> \<exists>d r. s = d @ r \<and> decode p out cap = Gives (out @ d) \<and> min cap (length s) \<le> length d"
    and measured: "denotes p s \<Longrightarrow> piece_units p unit = pc_units p"
begin

lemma decoded_whole: "denotes p s \<Longrightarrow> length s \<le> cap \<Longrightarrow> decode p out cap = Gives (out @ s)"
  using decoded [of p s out cap] by auto

text \<open>The scan finds the last key of the run not above the probe.\<close>

lemma scan_finds:
  assumes "run_of denotes e prev ks" "en_sfx e0 = en_sfx e" "en_end_bits e0 = en_end_bits e" "en_max_units e0 = en_max_units e"
    "en_unit e = unit" "sorted_wrt (<) (prev # ks)" "prev < probe" "matched = lcp prev probe" "0 < j" "cnt = j + length ks"
  shows "scan_from (en_is_frame e) unit judge e0 probe cnt (en_codes e) (en_reach e) matched j =
    (let m = length (takeWhile (\<lambda>k. k \<le> probe) ks); k = (prev # ks) ! m in (j - 1 + m, lcp k probe, k = probe))"
  using assms
proof (induction ks arbitrary: e prev matched j)
  case Nil
  then show ?case by (auto simp: scan_from.simps)
next
  case (Cons k ks)
  obtain len e' where h: "head_within (en_is_frame e) e = (Some (lcp prev k, len), e')"
    and den: "denotes \<lparr>pc_stream = en_sfx e, pc_start = en_reach e', pc_units = len\<rparr> (drop (lcp prev k) k)"
    and reach: "en_reach e \<le> en_end_bits e" "en_reach e' \<le> en_end_bits e" and rest: "run_of denotes (en_skip len e') k ks"
    using Cons.prems(1) by auto
  obtain code codes where nc: "next_code (en_codes e) = (code, codes)" by fastforce
  note keeps = head_within_keeps [OF h] and sp = scan_pair_head [OF h nc]
  have sp0: "scan_pair (en_is_frame e) e0 codes code (en_reach e) = Some (lcp prev k, len, en_reach e')"
    using sp(1) scan_pair_cong [OF Cons.prems(2,3)] by simp
  have len: "len \<le> en_max_units e0" using sp(2) Cons.prems(4) by simp
  have at: "min (en_reach e') (en_end_bits e0) = en_reach e'" using reach(2) Cons.prems(3) by simp
  have mv: "moved (en_reach e') len unit = en_reach (en_skip len e')" using keeps Cons.prems(5) by (simp add: en_skip_def)
  have lt: "prev < k" "sorted_wrt (<) (k # ks)" using Cons.prems(6) by auto
  have j: "j < cnt" using Cons.prems(10) by simp
  \<comment> \<open>the entry is below the probe: the walk goes on from it\<close>
  have on: "scan_from (en_is_frame e) unit judge e0 probe cnt codes (moved (en_reach e') len unit) matched' (j + 1) =
      (let m = length (takeWhile (\<lambda>k. k \<le> probe) (k # ks)); q = (prev # k # ks) ! m in (j - 1 + m, lcp q probe, q = probe))"
    if "k < probe" "matched' = lcp k probe" for matched'
  proof -
    have "scan_from (en_is_frame (en_skip len e')) unit judge e0 probe cnt (en_codes (en_skip len e')) (en_reach (en_skip len e')) matched' (j + 1) =
      (let m = length (takeWhile (\<lambda>k. k \<le> probe) ks); q = (k # ks) ! m in (j + 1 - 1 + m, lcp q probe, q = probe))"
      by (rule Cons.IH [OF rest]) (use keeps Cons.prems lt that in \<open>simp_all add: en_skip_def\<close>)
    then show ?thesis
      using that keeps sp(3) mv Cons.prems(9) by (simp add: en_skip_def en_is_frame_def Let_def less_imp_le)
  qed
  \<comment> \<open>the entry is past the probe: the key before it is the answer\<close>
  have stop: "(j - 1, lcp prev probe, False) =
      (let m = length (takeWhile (\<lambda>k. k \<le> probe) (k # ks)); q = (prev # k # ks) ! m in (j - 1 + m, lcp q probe, q = probe))"
    if "probe < k"
    using that Cons.prems(7) by (auto simp: Let_def)
  consider "lcp prev k < matched" | "matched < lcp prev k" | "lcp prev k = matched" by linarith
  then show ?case
  proof cases
    case 1
    then have "cmp_of k probe = cmp_of k prev" using lcp_third [of prev k probe] Cons.prems(8) by simp
    then have "probe < k" using lt(1) by (metis cmp_of_simps(3))
    then show ?thesis
      using stop 1 j nc sp0 Cons.prems(8) by (subst scan_from.simps) simp
  next
    case 2
    then have t: "lcp probe k = lcp probe prev" "cmp_of probe k = cmp_of probe prev"
      using lcp_third [of prev probe k] Cons.prems(8) by simp_all
    then have "k < probe" using Cons.prems(7) by (metis cmp_of_simps(3))
    moreover have "matched = lcp k probe" using t(1) Cons.prems(8) by (simp add: lcp_comm)
    ultimately show ?thesis
      using on 2 j nc sp0 len by (subst scan_from.simps) (simp add: Let_def)
  next
    case 3
    have mk: "matched \<le> length k" "matched \<le> length probe" using 3 Cons.prems(8) lcp_le by metis+
    have "take matched k = take matched probe" using lcp_take [of prev k] lcp_take [of prev probe] 3 Cons.prems(8) by metis
    note from_m = lcp_from [OF this mk]
    define c ord where "c = lcp (drop matched k) (drop matched probe)" and "ord = cmp_of (drop matched k) (drop matched probe)"
    have jd: "judge \<lparr>pc_stream = en_sfx e, pc_start = en_reach e', pc_units = len\<rparr> (probe_rest probe matched) = (c, ord)"
      using judged [OF den mk(2)] 3 by (simp add: c_def ord_def)
    have ord: "ord = cmp_of k probe" "lcp k probe = matched + c" using from_m by (simp_all add: c_def ord_def)
    show ?thesis
    proof (cases ord)
      case CLess
      then have "k < probe" using ord by simp
      moreover have "matched + c = lcp k probe" using ord by simp
      ultimately show ?thesis
        using on CLess 3 j nc sp0 len jd at Cons.prems(2) by (subst scan_from.simps) (simp add: Let_def)
    next
      case CGreater
      then have "probe < k" using ord by simp
      then show ?thesis
        using stop CGreater 3 j nc sp0 len jd at Cons.prems(2,8) by (subst scan_from.simps) (simp add: Let_def)
    next
      case CEqual
      then have k: "k = probe" using ord by simp
      have "takeWhile (\<lambda>k. k \<le> probe) ks = []"
        using lt(2) k by (cases ks) (auto simp: not_le)
      then show ?thesis
        using CEqual k ord 3 j nc sp0 len jd at Cons.prems(2,9) by (subst scan_from.simps) (simp add: Let_def)
    qed
  qed
qed

end

subsection \<open>Staircases\<close>

text \<open>What a staircase spells, the last stair first, and when it is one.\<close>

fun stair_key :: "bytes \<Rightarrow> (nat \<times> bytes) list \<Rightarrow> bytes" where
  "stair_key k0 [] = k0"
| "stair_key k0 ((l, s) # st) = take l (stair_key k0 st) @ s"

fun stair_ok :: "bytes \<Rightarrow> (nat \<times> bytes) list \<Rightarrow> bool" where
  "stair_ok k0 [] \<longleftrightarrow> True"
| "stair_ok k0 ((l, s) # st) \<longleftrightarrow> l \<le> length (stair_key k0 st) \<and> (st \<noteq> [] \<longrightarrow> fst (hd st) < l) \<and> stair_ok k0 st"

text \<open>Dropping the stairs a shorter shared prefix hides keeps the bytes below it.\<close>

lemma stair_pop:
  assumes "stair_ok k0 st" "l \<le> length (stair_key k0 st)" "st' = dropWhile (\<lambda>x. l \<le> fst x) st"
  shows "stair_ok k0 st' \<and> take l (stair_key k0 st') = take l (stair_key k0 st) \<and> l \<le> length (stair_key k0 st') \<and>
    (st' \<noteq> [] \<longrightarrow> fst (hd st') < l)"
  using assms
proof (induction st)
  case (Cons x st)
  obtain m s where x: "x = (m, s)" by fastforce
  show ?case
  proof (cases "l \<le> m")
    case False
    then show ?thesis using Cons.prems by (simp add: x)
  next
    case True
    then have "l \<le> length (stair_key k0 st)" "take l (stair_key k0 (x # st)) = take l (stair_key k0 st)"
      using Cons.prems(1) by (simp_all add: x min_def)
    then show ?thesis using Cons True by (simp add: x)
  qed
qed simp

text \<open>The same read from the bottom, as the keys are emitted.\<close>

fun spelled :: "bytes \<Rightarrow> (nat \<times> bytes) list \<Rightarrow> bytes" where
  "spelled key [] = key"
| "spelled key ((l, s) # st) = spelled (take l key @ s) st"

fun spells :: "bytes \<Rightarrow> (nat \<times> bytes) list \<Rightarrow> bool" where
  "spells key [] \<longleftrightarrow> True"
| "spells key ((l, s) # st) \<longleftrightarrow> l \<le> length key \<and> (st \<noteq> [] \<longrightarrow> l < fst (hd st)) \<and> spells (take l key @ s) st"

lemma spelled_snoc: "spelled key (st @ [(l, s)]) = take l (spelled key st) @ s"
  by (induction key st rule: spelled.induct) simp_all

lemma spells_snoc:
  "spells key (st @ [(l, s)]) \<longleftrightarrow> spells key st \<and> l \<le> length (spelled key st) \<and> (st \<noteq> [] \<longrightarrow> fst (last st) < l)"
  by (induction key st rule: spelled.induct) (auto simp: hd_append)

lemma stair_bottom: "spelled k0 (rev st) = stair_key k0 st" "stair_ok k0 st \<Longrightarrow> spells k0 (rev st)"
proof -
  show sp: "spelled k0 (rev st) = stair_key k0 st" for st
    by (induction k0 st rule: stair_key.induct) (simp_all add: spelled_snoc)
  show "stair_ok k0 st \<Longrightarrow> spells k0 (rev st)"
  proof (induction st)
    case (Cons x st)
    then show ?case using sp [of st] by (cases x) (auto simp: spells_snoc last_rev)
  qed simp
qed

subsection \<open>Keys of a run\<close>

locale codec_run = suffix_codec "codec_unit codec" "cmp_compare (cmp_for d codec)" "codec_decode d codec" denotes
  for d :: dict and codec :: codec and denotes :: "piece \<Rightarrow> bytes \<Rightarrow> bool"
begin

lemma advance_next:
  assumes "run_of denotes e prev (k # ks)" "en_at e < en_count e" "length k \<le> usize_max"
  obtains e1 where "advance d codec e prev = (Gives k, e1)" "run_of denotes e1 k ks"
    "en_at e1 = Suc (en_at e)" "en_count e1 = en_count e"
proof -
  obtain len e' where h: "head_within (en_is_frame e) e = (Some (lcp prev k, len), e')"
    and den: "denotes \<lparr>pc_stream = en_sfx e, pc_start = en_reach e', pc_units = len\<rparr> (drop (lcp prev k) k)"
    and reach: "en_reach e' \<le> en_end_bits e" and rest: "run_of denotes (en_skip len e') k ks"
    using assms(1) by auto
  note keeps = head_within_keeps [OF h]
  define e1 where "e1 = e'\<lparr>en_at := Suc (en_at e), en_count := en_count e\<rparr>"
  have head: "en_head e = (Some (lcp prev k, len), e1)"
    using assms(2) head_within_at [where frame = "en_is_frame e" and e = e and n = "Suc (en_at e)" and m = "en_count e"] h
    by (simp add: en_head_def head_as_def e1_def)
  have pc: "at_off e1 len = \<lparr>pc_stream = en_sfx e, pc_start = en_reach e', pc_units = len\<rparr>"
    using keeps reach by (simp add: at_off_def e1_def en_off_def)
  have "codec_decode d codec (at_off e1 len) (take (lcp prev k) prev) usize_max = Gives (take (lcp prev k) prev @ drop (lcp prev k) k)"
    unfolding pc by (rule decoded_whole [OF den]) (use assms(3) in simp)
  then have "codec_decode d codec (at_off e1 len) (take (lcp prev k) prev) usize_max = Gives k"
    by (simp add: lcp_take)
  moreover have "piece_units (at_off e1 len) (codec_unit codec) = len" using measured [OF den] by (simp add: pc)
  ultimately have "advance d codec e prev = (Gives k, en_skip len e1)"
    using head lcp_le(1) [of prev k] by (simp add: advance_def en_piece_def not_less)
  moreover have "en_skip len e1 = (en_skip len e')\<lparr>en_at := Suc (en_at e), en_count := en_count e\<rparr>"
    by (simp add: en_skip_def e1_def)
  ultimately show thesis
    using that rest run_of_at [where e = "en_skip len e'" and denotes = denotes] by simp
qed

lemma advances_key:
  assumes "run_of denotes e prev ks" "n \<le> length ks" "en_at e + n \<le> en_count e" "\<forall>k\<in>set ks. length k \<le> usize_max"
  shows "advances d codec n e prev = Gives ((prev # ks) ! n)"
  using assms
proof (induction n arbitrary: e prev ks)
  case (Suc n)
  then obtain k ks' where ks: "ks = k # ks'" by (cases ks) auto
  have run: "run_of denotes e prev (k # ks')" and at: "en_at e < en_count e" and len: "length k \<le> usize_max"
    using Suc.prems by (simp_all add: ks del: run_of.simps)
  obtain e1 where e1: "advance d codec e prev = (Gives k, e1)" "run_of denotes e1 k ks'"
    "en_at e1 = Suc (en_at e)" "en_count e1 = en_count e"
    by (rule advance_next [OF run at len])
  have "advances d codec n e1 k = Gives ((k # ks') ! n)"
    by (rule Suc.IH [OF e1(2)]) (use Suc.prems e1 in \<open>simp_all add: ks\<close>)
  then show ?case using e1(1) by (simp add: ks)
qed simp

definition stair_for :: "bytes \<Rightarrow> stair \<Rightarrow> nat \<times> bytes \<Rightarrow> bool" where
  "stair_for sfx a b \<longleftrightarrow> (case (a, b) of ((l, at, len), (l', s)) \<Rightarrow> l = l' \<and> length s \<le> usize_max \<and>
    denotes \<lparr>pc_stream = sfx, pc_start = at, pc_units = len\<rparr> s)"

lemma stairs_drop:
  "list_all2 (stair_for sfx) xs ys \<Longrightarrow>
    list_all2 (stair_for sfx) (dropWhile (\<lambda>(l', _, _). l' \<ge> l) xs) (dropWhile (\<lambda>x. l \<le> fst x) ys)"
  by (induction rule: list_all2_induct) (auto simp: stair_for_def split: prod.splits)

lemma climb_walk_stairs:
  assumes "run_of denotes e k ks" "stair_ok k0 st" "stair_key k0 st = k" "list_all2 (stair_for (en_sfx e)) stair st"
    "n \<le> length ks" "\<forall>k\<in>set ks. length k \<le> usize_max"
  shows "climb_walk (en_is_frame e) n e stair = Some (Inl ()) \<or>
    (\<exists>e' stair' st'. climb_walk (en_is_frame e) n e stair = Some (Inr (e', stair')) \<and> stair_ok k0 st' \<and>
      stair_key k0 st' = (k # ks) ! n \<and> list_all2 (stair_for (en_sfx e)) stair' st' \<and>
      en_reach e' \<le> en_end_bits e' \<and> en_sfx e' = en_sfx e)"
  using assms
proof (induction n arbitrary: e k ks stair st)
  case 0
  then have "en_reach e \<le> en_end_bits e" by (cases ks) auto
  with 0 show ?case by auto
next
  case (Suc n)
  then obtain q ks' where ks: "ks = q # ks'" by (cases ks) auto
  obtain len e' where h: "head_within (en_is_frame e) e = (Some (lcp k q, len), e')"
    and den: "denotes \<lparr>pc_stream = en_sfx e, pc_start = en_reach e', pc_units = len\<rparr> (drop (lcp k q) q)"
    and rest: "run_of denotes (en_skip len e') q ks'"
    using Suc.prems(1) by (auto simp: ks)
  note keeps = head_within_keeps [OF h]
  define l st1 stair1 where "l = lcp k q" and "st1 = dropWhile (\<lambda>x. l \<le> fst x) st"
    and "stair1 = dropWhile (\<lambda>(l', _, _). l' \<ge> l) stair"
  have same: "list_all2 (stair_for (en_sfx e)) stair1 st1"
    unfolding st1_def stair1_def by (rule stairs_drop [OF Suc.prems(4)])
  have pop: "stair_ok k0 st1 \<and> take l (stair_key k0 st1) = take l (stair_key k0 st) \<and> l \<le> length (stair_key k0 st1) \<and>
    (st1 \<noteq> [] \<longrightarrow> fst (hd st1) < l)"
    by (rule stair_pop [OF Suc.prems(2) _ st1_def]) (simp add: Suc.prems(3) l_def lcp_le)
  define st2 where "st2 = (l, drop l q) # st1"
  have "take l k @ drop l q = q" unfolding l_def by (metis append_take_drop_id lcp_take)
  then have key2: "stair_key k0 st2 = q" using pop Suc.prems(3) by (simp add: st2_def)
  have ok2: "stair_ok k0 st2" using pop by (simp add: st2_def)
  have s2: "list_all2 (stair_for (en_sfx e)) ((l, en_reach e', len) # stair1) st2"
    using same den Suc.prems(6) ks by (auto simp: st2_def stair_for_def l_def)
  have step: "climb_walk (en_is_frame e) (Suc n) e stair = (if length stair1 = STAIRS then Some (Inl ())
      else climb_walk (en_is_frame e) n (en_skip len e') ((l, en_reach e', len) # stair1))"
    by (simp add: h Let_def l_def stair1_def)
  show ?case
  proof (cases "length stair1 = STAIRS")
    case True
    then show ?thesis using step by simp
  next
    case False
    have "en_is_frame (en_skip len e') = en_is_frame e" "en_sfx (en_skip len e') = en_sfx e"
      using keeps by (simp_all add: en_skip_def en_is_frame_def)
    with Suc.IH [OF rest ok2 key2, of "(l, en_reach e', len) # stair1"] s2 Suc.prems(5,6)
    show ?thesis unfolding step using False by (simp add: ks)
  qed
qed

lemma climb_emits_spelled:
  assumes "list_all2 (stair_for sfx) xs ys" "spells key ys" "ys = [] \<longrightarrow> out = key"
    "ys \<noteq> [] \<longrightarrow> fst (hd ys) \<le> length out \<and> take (fst (hd ys)) out = take (fst (hd ys)) key"
  shows "climb_emits d codec sfx xs out = Gives (spelled key ys)"
  using assms
proof (induction ys arbitrary: xs key out rule: list.induct)
  case (Cons y ys)
  obtain l s where y: "y = (l, s)" by (cases y)
  obtain x xs' where x: "xs = x # xs'" "stair_for sfx x y" and tl: "list_all2 (stair_for sfx) xs' ys"
    using Cons.prems(1) by (auto simp: list_all2_Cons2)
  then obtain at len where xs: "xs = (l, at, len) # xs'" and s: "length s \<le> usize_max"
    and den: "denotes \<lparr>pc_stream = sfx, pc_start = at, pc_units = len\<rparr> s"
    by (cases x) (auto simp: stair_for_def y)
  have out: "l \<le> length out" "take l out = take l key" and sp: "l \<le> length key" "spells (take l key @ s) ys"
    and lt: "ys \<noteq> [] \<longrightarrow> l < fst (hd ys)"
    using Cons.prems(2,4) by (simp_all add: y)
  show ?case
  proof (cases ys)
    case Nil
    then have "xs' = []" using tl by simp
    then show ?thesis
      using decoded_whole [OF den s, of "take l key"] out Nil
      by (simp add: xs y climb_emit_def)
  next
    case (Cons y2 ys2)
    then obtain x2 xs2 where xs': "xs' = x2 # xs2" "stair_for sfx x2 y2"
      using tl by (auto simp: list_all2_Cons2)
    then have fx: "fst x2 = fst y2" by (cases x2; cases y2) (simp add: stair_for_def)
    define l2 where "l2 = fst y2"
    have l2: "l < l2" "l2 \<le> l + length s"
      using lt sp local.Cons by (cases y2; simp add: l2_def)+
    obtain u r where u: "s = u @ r" "codec_decode d codec \<lparr>pc_stream = sfx, pc_start = at, pc_units = len\<rparr> (take l out) (l2 - l)
        = Gives (take l out @ u)" "min (l2 - l) (length s) \<le> length u"
      using decoded [OF den, of "take l out" "l2 - l"] by auto
    have lu: "l2 - l \<le> length u" using u(3) l2 by simp
    have "climb_emits d codec sfx xs' (take l out @ u) = Gives (spelled (take l key @ s) ys)"
      by (rule Cons.IH [OF tl sp(2)]) (use local.Cons out sp(1) l2 lu u(1) in \<open>auto simp: l2_def [symmetric] min_absorb2\<close>)
    then show ?thesis
      using u(2) out by (simp add: xs xs'(1) fx y climb_emit_def l2_def)
  qed
qed simp

lemma climb_key:
  assumes e: "e = entries_of code codec data cnt" and run: "run_of denotes e k0 ks" and frame: "en_is_frame e = (case code of Frame _ \<Rightarrow> True | Table _ _ \<Rightarrow> False)"
    and n: "n \<le> length ks" "n \<le> en_count e" and len: "\<forall>k\<in>set ks. length k \<le> usize_max"
  shows "climb d codec code data cnt n k0 = Gives ((k0 # ks) ! n)"
proof -
  have at: "en_at e = 0" by (simp add: e entries_of_def entries_empty_def Let_def split: option.splits)
  from climb_walk_stairs [OF run, of k0 "[]" "[]" n] n len
  consider "climb_walk (en_is_frame e) n e [] = Some (Inl ())"
    | e' stair st where "climb_walk (en_is_frame e) n e [] = Some (Inr (e', stair))" "stair_ok k0 st"
      "stair_key k0 st = (k0 # ks) ! n" "list_all2 (stair_for (en_sfx e)) stair st" "en_reach e' \<le> en_end_bits e'" "en_sfx e' = en_sfx e"
    by auto
  then show ?thesis
  proof cases
    case 1
    then show ?thesis
      using advances_key [OF run n(1)] n at len by (simp add: climb_def climb_as_def e [symmetric] frame [symmetric] Let_def)
  next
    case 2
    have "climb_emits d codec (en_sfx e) (rev stair) k0 = Gives (spelled k0 (rev st))"
    proof (rule climb_emits_spelled)
      show "list_all2 (stair_for (en_sfx e)) (rev stair) (rev st)" using 2(4) by simp
      show sp: "spells k0 (rev st)" by (rule stair_bottom(2) [OF 2(2)])
      show "rev st \<noteq> [] \<longrightarrow> fst (hd (rev st)) \<le> length k0 \<and> take (fst (hd (rev st))) k0 = take (fst (hd (rev st))) k0"
        using sp by (cases "rev st") auto
    qed simp
    then show ?thesis
      using 2 n by (simp add: climb_def climb_as_def e [symmetric] frame [symmetric] Let_def stair_bottom)
  qed
qed

end

end
