(* ===== verification/Codecs.thy ===== *)
theory Codecs
  imports Scan_Facts
begin

text \<open>
  The three codecs of a shard keep the contract the walks rest on: what a piece denotes under each, and
  the interpretations of the locales on the model of \<^verbatim>\<open>src/dict_index/codec.rs\<close>.
\<close>

subsection \<open>What a piece denotes\<close>

definition piece_in :: "piece \<Rightarrow> bool" where
  "piece_in p \<longleftrightarrow> pc_start p mod 8 = 0 \<and> pc_start p div 8 + pc_units p \<le> length (pc_stream p)"

definition symbols_denotes :: "fsst_table \<Rightarrow> piece \<Rightarrow> bytes \<Rightarrow> bool" where
  "symbols_denotes t p s \<longleftrightarrow> table_wf t \<and> piece_in p \<and>
    stream_ref (symbols_next t) (Suc (length s)) (piece_bytes p) = Some s"

definition tiered_denotes :: "fsst_table \<Rightarrow> split \<Rightarrow> dict \<Rightarrow> piece \<Rightarrow> bytes \<Rightarrow> bool" where
  "tiered_denotes t sp d p s \<longleftrightarrow> table_wf t \<and> chunks_ok d \<and> length (t_words t) \<le> unat (sp_symbols sp) \<and> piece_in p \<and>
    length (pc_stream p) * 16 < usize_bound \<and> stream_ref (tiered_next t sp d) (Suc (length s)) (piece_bytes p) = Some s"

definition packed_denotes :: "alphabet \<Rightarrow> piece \<Rightarrow> bytes \<Rightarrow> bool" where
  "packed_denotes a p s \<longleftrightarrow> alphabet_wf a \<and> covers a s \<and> holds (piece_codes p (a_width a)) (codes_of a s)"

lemma piece_in_units: "piece_in p \<Longrightarrow> piece_units p 8 = pc_units p"
proof -
  assume "piece_in p"
  then have "pc_start p mod 8 = 0" and b: "pc_start p div 8 + pc_units p \<le> length (pc_stream p)"
    by (simp_all add: piece_in_def)
  then have "8 * (pc_start p div 8) = pc_start p" using mult_div_mod_eq [of 8 "pc_start p"] by linarith
  then have "pc_units p * 8 \<le> length (pc_stream p) * 8 - pc_start p" using b by linarith
  then have "pc_units p \<le> (length (pc_stream p) * 8 - pc_start p) div 8" by linarith
  then show ?thesis by (simp add: piece_units_def)
qed

lemma against_probe:
  "at \<le> length key \<Longrightarrow> against (probe_rest key at) 0 s = (lcp s (drop at key), cmp_of s (drop at key))"
  by (simp add: against_def probe_rest_def Let_def)

lemma stream_ref_prefix:
  assumes "stream_ref nxt cap packed = Some s" "length s < cap"
  shows "\<exists>d r. stream_ref nxt cap' packed = Some d \<and> s = d @ r \<and> min cap' (length s) \<le> length d"
  using assms
proof (induction nxt cap packed arbitrary: s cap' rule: stream_ref.induct)
  case (1 nxt cap packed)
  show ?case
  proof (cases "packed = [] \<or> cap' = 0")
    case True
    have "s = []" if "packed = []" using that 1(2) by (simp add: stream_ref.simps)
    with True show ?thesis by (auto simp: stream_ref.simps)
  next
    case False
    then have ne: "packed \<noteq> []" by simp
    obtain tok rest s' where n: "nxt packed = Some (tok, rest)" "length rest < length packed"
      "stream_ref nxt (cap - length tok) rest = Some s'" "s = tok @ s'" "length s' < cap - length tok"
      by (rule stream_ref_step [OF 1(2,3) ne])
    have "\<not> (packed = [] \<or> cap = 0)" using ne 1(3) by auto
    from 1(1) [OF this n(1) refl n(2,3,5), of "cap' - length tok"] obtain d r where d:
      "stream_ref nxt (cap' - length tok) rest = Some d" "s' = d @ r" "min (cap' - length tok) (length s') \<le> length d"
      by blast
    have "stream_ref nxt cap' packed = Some (tok @ d)"
      using False n(1,2) d(1) by (subst stream_ref.simps) simp
    then show ?thesis using d(2,3) n(4) by auto
  qed
qed

lemma holds_units:
  assumes w: "1 \<le> w" "w \<le> 8" and h: "holds (piece_codes p w) cs"
  shows "piece_units p w = pc_units p"
proof (cases "pc_units p")
  case 0
  then show ?thesis by (simp add: piece_units_def)
next
  case (Suc n)
  define pos where "pos = pc_start p + n * w"
  have "n < c_len (piece_codes p w)" using Suc by (simp add: piece_codes_def)
  then have "codes_at (piece_codes p w) n \<noteq> None" using h by (auto simp: holds_def)
  then have "pos div 8 \<le> length (pc_stream p) \<and> (length (pc_stream p) - pos div 8 < 8 \<longrightarrow> pos + w \<le> length (pc_stream p) * 8)"
    using Suc by (auto simp: codes_at_def piece_codes_def Let_def pos_def get_from_def split: option.splits if_splits)
  then have "pos + w \<le> length (pc_stream p) * 8" using w(2) by (cases "length (pc_stream p) - pos div 8 < 8") auto
  then have "pc_units p * w \<le> length (pc_stream p) * 8 - pc_start p" by (simp add: pos_def Suc)
  then have "pc_units p \<le> (length (pc_stream p) * 8 - pc_start p) div w" using w(1) by (simp add: less_eq_div_iff_mult_less_eq)
  then show ?thesis by (simp add: piece_units_def)
qed

subsection \<open>The interpretations\<close>

interpretation symbols: suffix_codec 8 "cmp_compare (SymbolsCmp t)" "\<lambda>p. fsst_decode_into t (piece_bytes p)"
  "symbols_denotes t" for t
proof unfold_locales
  fix p s at key out cap
  assume den: "symbols_denotes t p s"
  then have wf: "table_wf t" and r: "stream_ref (symbols_next t) (Suc (length s)) (piece_bytes p) = Some s"
    by (simp_all add: symbols_denotes_def)
  show "cmp_compare (SymbolsCmp t) p (probe_rest key at) = (lcp s (drop at key), cmp_of s (drop at key))"
    if "at \<le> length key" for at key
    using compare_symbols_against [OF wf probe_rest_ok [OF that], of 0 0 "piece_bytes p"] r against_probe [OF that]
    by (simp add: cmp_compare_def compare_symbols_def)
  show "\<exists>d r. s = d @ r \<and> fsst_decode_into t (piece_bytes p) out cap = Gives (out @ d) \<and> min cap (length s) \<le> length d"
    using stream_ref_prefix [OF r lessI, of cap] fsst_decode_ref [OF wf, of "piece_bytes p" out cap]
    by (auto simp: symbols_ref)
  show "piece_units p 8 = pc_units p" using den by (simp add: symbols_denotes_def piece_in_units)
qed

interpretation tiered: suffix_codec 8 "cmp_compare (TieredCmp t sp d)" "\<lambda>p. decode_tiered t sp d (piece_bytes p)"
  "tiered_denotes t sp d" for t sp d
proof unfold_locales
  fix p s at key out cap
  assume den: "tiered_denotes t sp d p s"
  then have wf: "table_wf t" "chunks_ok d" "length (t_words t) \<le> unat (sp_symbols sp)"
    and r: "stream_ref (tiered_next t sp d) (Suc (length s)) (piece_bytes p) = Some s"
    by (simp_all add: tiered_denotes_def)
  have "length (piece_bytes p) \<le> length (pc_stream p)"
    by (auto simp: piece_bytes_def get_range_def Let_def split: option.splits)
  then have small: "length (piece_bytes p) * 16 < usize_bound" using den by (simp add: tiered_denotes_def)
  show "cmp_compare (TieredCmp t sp d) p (probe_rest key at) = (lcp s (drop at key), cmp_of s (drop at key))"
    if "at \<le> length key" for at key
    using compare_tiered_against [OF wf(1) probe_rest_ok [OF that] wf(2,3), of 0 0 "piece_bytes p"] r against_probe [OF that]
    by (simp add: cmp_compare_def compare_tiered_def)
  show "\<exists>u r. s = u @ r \<and> decode_tiered t sp d (piece_bytes p) out cap = Gives (out @ u) \<and> min cap (length s) \<le> length u"
    using stream_ref_prefix [OF r lessI, of cap] decode_tiered_ref [OF wf(1,2) small, of sp out cap] by auto
  show "piece_units p 8 = pc_units p" using den by (simp add: tiered_denotes_def piece_in_units)
qed

interpretation packing: suffix_codec "a_width a" "cmp_compare (PackedCmp a)" "\<lambda>p. decode_into a (piece_codes p (a_width a))"
  "packed_denotes a" for a
proof unfold_locales
  fix p s at key out cap
  assume den: "packed_denotes a p s"
  then have wf: "alphabet_wf a" "covers a s" and h: "holds (piece_codes p (a_width a)) (codes_of a s)"
    by (simp_all add: packed_denotes_def)
  have t: "tables_ok (a_width a) (a_one a) (a_two a)" using wf(1) by (simp add: alphabet_wf_def)
  note w = tables_sizes(1,2) [OF t]
  have cw: "c_width (piece_codes p (a_width a)) = a_width a" by (simp add: piece_codes_def)
  show "cmp_compare (PackedCmp a) p (probe_rest key at) = (lcp s (drop at key), cmp_of s (drop at key))"
    if "at \<le> length key" for at key
    using compare_loop_holds [OF wf, of "piece_codes p (a_width a)" "[]" 0 "drop at key"] h
      spread_cmp_bytewise [OF _ cw w, of 0 "drop at key"]
    by (simp add: cmp_compare_def compare_def rest_bytes_def probe_rest_def)
  show "\<exists>u r. s = u @ r \<and> decode_into a (piece_codes p (a_width a)) out cap = Gives (out @ u) \<and> min cap (length s) \<le> length u"
    using decode_holds [OF wf h cw, of out cap] by (metis append_take_drop_id length_take min.commute order_refl)
  show "piece_units p (a_width a) = pc_units p" by (rule holds_units [OF w h])
qed

definition piece_denotes :: "dict \<Rightarrow> codec \<Rightarrow> piece \<Rightarrow> bytes \<Rightarrow> bool" where
  "piece_denotes d codec = (case codec of
      Symbols t None \<Rightarrow> symbols_denotes t | Symbols t (Some sp) \<Rightarrow> tiered_denotes t sp d | Packed a \<Rightarrow> packed_denotes a)"

lemma codec_is:
  "codec_unit (Symbols t sp) = 8" "codec_unit (Packed a) = a_width a"
  "cmp_for d (Symbols t None) = SymbolsCmp t" "cmp_for d (Symbols t (Some q)) = TieredCmp t q d" "cmp_for d (Packed a) = PackedCmp a"
  "codec_decode d (Symbols t None) = (\<lambda>p. fsst_decode_into t (piece_bytes p))"
  "codec_decode d (Symbols t (Some q)) = (\<lambda>p. decode_tiered t q d (piece_bytes p))"
  "codec_decode d (Packed a) = (\<lambda>p. decode_into a (piece_codes p (a_width a)))"
  by (simp_all add: codec_unit_def cmp_for_def codec_decode_def fun_eq_iff)

interpretation coded: codec_run d codec "piece_denotes d codec" for d codec
proof -
  consider (s) t where "codec = Symbols t None" | (t) t sp where "codec = Symbols t (Some sp)" | (p) a where "codec = Packed a"
    by (metis codec.exhaust option.exhaust)
  then show "codec_run d codec (piece_denotes d codec)"
    unfolding codec_run_def
    by cases (simp_all add: piece_denotes_def codec_is symbols.suffix_codec_axioms tiered.suffix_codec_axioms packing.suffix_codec_axioms)
qed

end
