(* ===== verification/Encode.thy ===== *)
theory Encode
  imports Suffix Paircode
begin

text \<open>
  \<^verbatim>\<open>src/dict_index/encode.rs\<close>: a shard's runs as they are collected, the codec and the header codes they
  are priced under, and the runs and blocks written out. The phrases of a shard are left to later: a
  shard settles here between its symbol table and a packed alphabet, which is what it does wherever
  the blob has no phrases. A slice past its array is a panic, and an encoder that does not return is
  written as one too.
\<close>

subsection \<open>Collected runs\<close>

record collected =
  co_lcps :: "nat list"
  co_raw :: bytes
  co_raw_ends :: "nat list"
  co_coded :: bytes
  co_coded_ends :: "nat list"
  co_tier :: bytes
  co_tier_ends :: "nat list"
  co_freq :: "nat list"
  co_runs :: "nat list"
  co_per_block :: "nat list"

definition co_new :: collected where
  "co_new = \<lparr>co_lcps = [], co_raw = [], co_raw_ends = [], co_coded = [], co_coded_ends = [], co_tier = [],
    co_tier_ends = [], co_freq = replicate 256 0, co_runs = [], co_per_block = []\<rparr>"

definition co_open :: "collected \<Rightarrow> collected" where
  "co_open c = c\<lparr>co_runs := co_runs c @ [0]\<rparr>"

definition count_bytes :: "bytes \<Rightarrow> nat list \<Rightarrow> nat list" where
  "count_bytes raw freq = fold (\<lambda>b freq. freq[unat b := freq ! unat b + 1]) raw freq"

definition bump_last :: "nat list \<Rightarrow> nat list" where
  "bump_last xs = butlast xs @ [last xs + 1]"

definition co_push :: "bytes \<Rightarrow> bytes \<Rightarrow> encoder \<Rightarrow> collected \<Rightarrow> collected outcome" where
  "co_push prev key enc c = (let l = lcp_bytes prev key; raw = drop l key in
    case fsst_encode_into enc raw [] of None \<Rightarrow> Panics
    | Some scratch \<Rightarrow>
       if co_runs c = [] then Panics
       else Gives (c\<lparr>co_lcps := co_lcps c @ [l], co_raw := co_raw c @ raw,
         co_raw_ends := co_raw_ends c @ [length (co_raw c @ raw)], co_freq := count_bytes raw (co_freq c),
         co_coded := co_coded c @ scratch, co_coded_ends := co_coded_ends c @ [length (co_coded c @ scratch)],
         co_runs := bump_last (co_runs c)\<rparr>))"

definition co_entries :: "collected \<Rightarrow> nat" where
  "co_entries c = length (co_lcps c)"

text \<open>One entry's bytes in an arena that says where each of them ends.\<close>

definition arena_at :: "bytes \<Rightarrow> nat list \<Rightarrow> nat \<Rightarrow> bytes outcome" where
  "arena_at bs ends i = (if i < length ends \<and> (if i = 0 then 0 else ends ! (i - 1)) \<le> ends ! i \<and> ends ! i \<le> length bs
    then let start = (if i = 0 then 0 else ends ! (i - 1)) in Gives (take (ends ! i - start) (drop start bs))
    else Panics)"

definition raw_at :: "collected \<Rightarrow> nat \<Rightarrow> bytes outcome" where
  "raw_at c i = arena_at (co_raw c) (co_raw_ends c) i"

definition coded_at :: "collected \<Rightarrow> nat \<Rightarrow> bytes outcome" where
  "coded_at c i = arena_at (co_coded c) (co_coded_ends c) i"

definition tier_at :: "collected \<Rightarrow> nat \<Rightarrow> bytes outcome" where
  "tier_at c i = arena_at (co_tier c) (co_tier_ends c) i"

fun map_outcome :: "('a \<Rightarrow> 'b outcome) \<Rightarrow> 'a list \<Rightarrow> 'b list outcome" where
  "map_outcome f [] = Gives []"
| "map_outcome f (x # xs) = bind_outcome (f x) (\<lambda>y. bind_outcome (map_outcome f xs) (\<lambda>ys. Gives (y # ys)))"

definition units_at :: "codec \<Rightarrow> collected \<Rightarrow> nat \<Rightarrow> nat outcome" where
  "units_at codec c i = (case codec of
      Symbols _ (Some _) \<Rightarrow> bind_outcome (tier_at c i) (\<lambda>s. Gives (length s))
    | Symbols _ None \<Rightarrow> bind_outcome (coded_at c i) (\<lambda>s. Gives (length s))
    | Packed a \<Rightarrow> bind_outcome (raw_at c i) (\<lambda>s. Gives (codes_for a s)))"

definition co_pairs :: "codec \<Rightarrow> collected \<Rightarrow> pairs outcome" where
  "co_pairs codec c = map_outcome (\<lambda>i. bind_outcome (units_at codec c i) (\<lambda>u. Gives (co_lcps c ! i, u))) [0..<co_entries c]"

text \<open>The pairs of every run, a block's restarts told from its microblocks.\<close>

fun cut_runs :: "nat list \<Rightarrow> pairs \<Rightarrow> pairs list" where
  "cut_runs [] ps = []"
| "cut_runs (n # ns) ps = take n ps # cut_runs ns (drop n ps)"

fun split_groups :: "nat list \<Rightarrow> pairs list \<Rightarrow> pairs list \<times> pairs list" where
  "split_groups [] rs = ([], [])"
| "split_groups (m # ms) rs = (case split_groups ms (drop m rs) of (micro, restart) \<Rightarrow>
    (tl (take m rs) @ micro, take (min m 1) rs @ restart))"

definition co_groups :: "collected \<Rightarrow> pairs \<Rightarrow> pairs list \<times> pairs list" where
  "co_groups c ps = split_groups (co_per_block c) (cut_runs (co_runs c) ps)"

definition packed_bytes :: "alphabet \<Rightarrow> pairs list \<Rightarrow> nat" where
  "packed_bytes a runs = sum_list (map (\<lambda>run. div_ceil (sum_list (map snd run) * a_width a) 8) runs)"

definition co_price :: "codec \<Rightarrow> collected \<Rightarrow> (nat \<times> pair_code \<times> pair_code) outcome" where
  "co_price codec c = bind_outcome (co_pairs codec c) (\<lambda>ps.
    case co_groups c ps of (micro, restart) \<Rightarrow>
    let m = choose_cost micro; r = choose_cost restart;
      suffixes = (case codec of Symbols _ (Some _) \<Rightarrow> length (co_tier c) | Symbols _ None \<Rightarrow> length (co_coded c)
        | Packed a \<Rightarrow> packed_bytes a (cut_runs (co_runs c) ps))
    in Gives (snd m + snd r + suffixes, fst m, fst r))"

text \<open>The codec a shard is cheapest under where the blob has no phrases, with its pairs and header codes.\<close>

definition settle_plain :: "fsst_table \<Rightarrow> collected \<Rightarrow> (codec \<times> (pair_code \<times> pair_code) \<times> pairs) outcome" where
  "settle_plain table c = bind_outcome (co_price (Symbols table None) c) (\<lambda>(n, codes).
    bind_outcome (case alphabet_of (co_freq c) of None \<Rightarrow> Gives (Symbols table None, codes)
      | Some (a, _) \<Rightarrow> bind_outcome (co_price (Packed a) c) (\<lambda>(packed, packed_codes).
          Gives (if packed < n then (Packed a, packed_codes) else (Symbols table None, codes))))
    (\<lambda>(best, codes). bind_outcome (co_pairs best c) (\<lambda>ps. Gives (best, codes, ps))))"

subsection \<open>Writing a run\<close>

definition put_suffix :: "codec \<Rightarrow> collected \<Rightarrow> nat \<Rightarrow> bits \<Rightarrow> bits outcome" where
  "put_suffix codec c i body = (case codec of
      Symbols _ (Some _) \<Rightarrow> bind_outcome (tier_at c i) (\<lambda>s. Gives (bits_extend body s))
    | Symbols _ None \<Rightarrow> bind_outcome (coded_at c i) (\<lambda>s. Gives (bits_extend body s))
    | Packed a \<Rightarrow> bind_outcome (raw_at c i) (\<lambda>s. Gives (fst (encode_into a s body))))"

fun run_loop :: "codec \<Rightarrow> collected \<Rightarrow> nat \<Rightarrow> pairs \<Rightarrow> writer \<Rightarrow> bits \<Rightarrow> (writer \<times> bits) outcome" where
  "run_loop codec c i [] w body = Gives (w, body)"
| "run_loop codec c i ((l, len) # ps) w body = (case pw_push w l len [] of None \<Rightarrow> Panics
    | Some (w, escape) \<Rightarrow>
        let body = (if escape \<noteq> [] then bits_extend (bits_pad body) escape else body) in
        bind_outcome (put_suffix codec c i body) (run_loop codec c (Suc i) ps w))"

definition write_run :: "pair_code \<Rightarrow> codec \<Rightarrow> collected \<Rightarrow> pairs \<Rightarrow> nat \<Rightarrow> bytes \<times> widths \<Rightarrow> (bytes \<times> widths) outcome" where
  "write_run code codec c ps first scratch = (case scratch of (out, widths) \<Rightarrow>
    if ps = [] then Gives (out, widths)
    else case writer_new code ps widths of (w, widths) \<Rightarrow>
      bind_outcome (run_loop codec c first ps w bits_new) (\<lambda>(w, body).
        Gives (fst (bits_drain body (pw_finish w out)), widths)))"

subsection \<open>Blocks\<close>

fun push_windows :: "encoder \<Rightarrow> bytes list \<Rightarrow> collected \<Rightarrow> collected outcome" where
  "push_windows enc (a # b # ks) c = bind_outcome (co_push a b enc c) (push_windows enc (b # ks))"
| "push_windows enc _ c = Gives c"

fun push_micros :: "encoder \<Rightarrow> bytes list list \<Rightarrow> collected \<Rightarrow> collected outcome" where
  "push_micros enc [] c = Gives c"
| "push_micros enc (ks # kss) c = bind_outcome (push_windows enc ks (co_open c)) (push_micros enc kss)"

definition collect_block :: "bytes list \<Rightarrow> nat \<Rightarrow> encoder \<Rightarrow> collected \<Rightarrow> collected outcome" where
  "collect_block keys micro enc c = (if keys = [] then Panics
    else bind_outcome (push_windows enc (map hd (chunks micro keys)) (co_open c)) (\<lambda>c.
      bind_outcome (push_micros enc (chunks micro keys) c) (\<lambda>c.
        Gives (c\<lparr>co_per_block := co_per_block c @ [1 + div_ceil (length keys) micro]\<rparr>))))"

record shard =
  sh_collected :: collected
  sh_pairs :: pairs
  sh_codec :: codec
  sh_codes :: "pair_code \<times> pair_code"

text \<open>The runs of one block, from run \<open>k\<close> on: the bytes so far, where each microblock starts, and
  the first entry and run of the next one.\<close>

fun write_runs :: "shard \<Rightarrow> nat \<Rightarrow> nat list \<Rightarrow> nat \<Rightarrow> nat \<Rightarrow> bytes \<Rightarrow> nat list \<Rightarrow> widths \<Rightarrow> (bytes \<times> nat list \<times> widths \<times> nat) outcome" where
  "write_runs sh at [] k first block starts w = Gives (block, starts, w, first)"
| "write_runs sh at (n # ns) k first block starts w =
    (let starts = (if k > 0 then starts @ [at + length block] else starts);
       code = (if k = 0 then snd (sh_codes sh) else fst (sh_codes sh))
     in if first + n \<le> length (sh_pairs sh) then
          bind_outcome (write_run code (sh_codec sh) (sh_collected sh) (take n (drop first (sh_pairs sh))) first (block, w))
            (\<lambda>(block, w). write_runs sh at ns (Suc k) (first + n) block starts w)
        else Panics)"

record part =
  pt_heads :: bytes
  pt_head_ends :: "nat list"
  pt_blocks :: "nat list"
  pt_micros :: "nat list"
  pt_data :: bytes
  pt_codes :: "(pair_code \<times> pair_code) list"
  pt_codecs :: "codec list"

text \<open>Writing a shard block by block into the part's data, \<open>at\<close> being where the next block begins.\<close>

fun write_blocks :: "shard \<Rightarrow> nat list \<Rightarrow> nat list \<Rightarrow> nat \<Rightarrow> nat \<Rightarrow> widths \<Rightarrow> part \<Rightarrow> (nat \<times> widths \<times> part) outcome" where
  "write_blocks sh [] runs first at w pt = Gives (at, w, pt)"
| "write_blocks sh (m # ms) runs first at w pt =
    (if m \<le> length runs then
       bind_outcome (write_runs sh at (take m runs) 0 first [] [] w) (\<lambda>(block, starts, w, first).
         write_blocks sh ms (drop m runs) first (at + length block) w
           (pt\<lparr>pt_blocks := pt_blocks pt @ [at], pt_micros := pt_micros pt @ starts, pt_data := pt_data pt @ block\<rparr>))
     else Panics)"

definition shard_write :: "shard \<Rightarrow> nat \<Rightarrow> widths \<Rightarrow> part \<Rightarrow> (nat \<times> widths \<times> part) outcome" where
  "shard_write sh at w pt = write_blocks sh (co_per_block (sh_collected sh)) (co_runs (sh_collected sh)) 0 at w pt"

definition rebase_micros :: "nat list \<Rightarrow> nat list \<Rightarrow> nat \<Rightarrow> nat list" where
  "rebase_micros micros blocks per = map (\<lambda>(i, m). m - blocks ! (i div per)) (enumerate 0 micros)"

subsection \<open>A range of shards\<close>

definition part_new :: part where
  "part_new = \<lparr>pt_heads = [], pt_head_ends = [], pt_blocks = [], pt_micros = [], pt_data = [], pt_codes = [], pt_codecs = []\<rparr>"

fun collect_blocks :: "nat \<Rightarrow> encoder \<Rightarrow> bytes list list \<Rightarrow> collected \<Rightarrow> part \<Rightarrow> (collected \<times> part) outcome" where
  "collect_blocks micro enc [] c pt = Gives (c, pt)"
| "collect_blocks micro enc (ks # kss) c pt =
    (let heads = pt_heads pt @ hd ks;
       pt = pt\<lparr>pt_heads := heads, pt_head_ends := pt_head_ends pt @ [length heads]\<rparr>
     in bind_outcome (collect_block ks micro enc c) (\<lambda>c. collect_blocks micro enc kss c pt))"

fun encode_shards :: "nat \<Rightarrow> nat \<Rightarrow> fsst_table list \<Rightarrow> nat \<Rightarrow> bytes list list \<Rightarrow> nat \<Rightarrow> widths \<Rightarrow> part \<Rightarrow> part outcome" where
  "encode_shards block micro tables s [] at w pt = Gives pt"
| "encode_shards block micro tables s (span # spans) at w pt =
    (if tables = [] then Panics
     else let table = tables ! min s (length tables - 1) in
      bind_outcome (collect_blocks micro (encoder_of table) (chunks block span) co_new pt) (\<lambda>(c, pt).
      bind_outcome (settle_plain table c) (\<lambda>(codec, codes, ps).
      bind_outcome (shard_write \<lparr>sh_collected = c, sh_pairs = ps, sh_codec = codec, sh_codes = codes\<rparr> at w pt) (\<lambda>(at, w, pt).
        encode_shards block micro tables (Suc s) spans at w
          (pt\<lparr>pt_codes := pt_codes pt @ [codes], pt_codecs := pt_codecs pt @ [codec]\<rparr>)))))"

definition encode_range :: "bytes list \<Rightarrow> nat \<Rightarrow> nat \<Rightarrow> fsst_table list \<Rightarrow> nat \<Rightarrow> nat \<Rightarrow> part outcome" where
  "encode_range keys block micro tables shard first_block =
    encode_shards block micro tables (first_block div shard) (chunks (shard * block) keys) 0 widths_default part_new"

end
