(* ===== verification/Ties.thy ===== *)
theory Ties
  imports Key_Lcp Fsst_Facts
begin

text \<open>
  \<^verbatim>\<open>src/ties.rs\<close>: a trie of eight-byte words over each long run of blocks whose samples tie, and the
  descent that places a probe among the run's heads; with \<^verbatim>\<open>sample_at\<close> of \<^verbatim>\<open>src/dict_index/route.rs\<close>,
  which every word is. Numbers the code keeps as \<^verbatim>\<open>u32\<close> are naturals, the two marks among them.
\<close>

subsection \<open>Samples\<close>

definition swap_bytes :: "u64 \<Rightarrow> u64" where
  "swap_bytes w = u64_of (rev (u64_bytes w))"

definition sample_at :: "bytes \<Rightarrow> nat \<Rightarrow> u64" where
  "sample_at key g = swap_bytes (word_at key g)"

text \<open>\<^verbatim>\<open>slice::partition_point\<close> of a slice the predicate partitions, and \<^verbatim>\<open>slice::binary_search\<close> of an
  ascending one.\<close>

definition partition_point :: "('a \<Rightarrow> bool) \<Rightarrow> 'a list \<Rightarrow> nat" where
  "partition_point p xs = length (takeWhile p xs)"

definition search_ascending :: "'a list \<Rightarrow> 'a \<Rightarrow> nat option" where
  "search_ascending xs x = (let i = length (takeWhile (\<lambda>y. y \<noteq> x) xs) in if i < length xs then Some i else None)"

subsection \<open>The tries\<close>

definition LEAF :: nat where "LEAF = 2 ^ 32 - 1"
definition FLAT :: nat where "FLAT = 2 ^ 32 - 2"
definition MAX_DEPTH :: nat where "MAX_DEPTH = 32"
definition MIN_RUN :: nat where "MIN_RUN = 8"

record tie_node =
  tn_p :: nat
  tn_first :: nat
  tn_count :: nat
  tn_hi :: nat

definition tie_node_default :: tie_node where
  "tie_node_default = \<lparr>tn_p = 0, tn_first = 0, tn_count = 0, tn_hi = 0\<rparr>"

record ties =
  ts_roots :: "nat list"
  ts_nodes :: "tie_node list"
  ts_words :: "u64 list"
  ts_starts :: "nat list"
  ts_kids :: "nat list"

datatype tie_end = EndAt nat | EndLeaf nat | EndFlat nat nat

definition u32_ok :: "nat \<Rightarrow> bool" where
  "u32_ok n \<longleftrightarrow> n < 2 ^ 32"

subsection \<open>Deriving\<close>

definition tie_splits :: "bytes \<Rightarrow> bytes \<Rightarrow> nat option" where
  "tie_splits h0 h1 = (let p = lcp_bytes h0 h1 in
    if \<not> u32_ok p then None
    else if sample_at h0 p \<noteq> sample_at h1 p then Some p else None)"

text \<open>Where the first run of \<open>MIN_RUN\<close> equal samples starts, and where it ends.\<close>

definition tie_run :: "u64 list \<Rightarrow> nat \<Rightarrow> (nat \<times> nat) option" where
  "tie_run samples at =
    map_option (\<lambda>k. let lo = at + k in (lo, lo + MIN_RUN + length (takeWhile (\<lambda>s. s = samples ! lo) (drop (lo + MIN_RUN) samples))))
      (find (\<lambda>k. samples ! (at + k) = samples ! (at + k + MIN_RUN - 1)) [0..<length samples + 1 - at - MIN_RUN])"

lemma tie_run_bounds: "tie_run samples at = Some (lo, hi) \<Longrightarrow> at \<le> lo \<and> lo + MIN_RUN \<le> hi \<and> hi \<le> length samples"
proof -
  assume "tie_run samples at = Some (lo, hi)"
  then obtain k where k: "find (\<lambda>k. samples ! (at + k) = samples ! (at + k + MIN_RUN - 1)) [0..<length samples + 1 - at - MIN_RUN] = Some k"
    "lo = at + k" "hi = lo + MIN_RUN + length (takeWhile (\<lambda>s. s = samples ! lo) (drop (lo + MIN_RUN) samples))"
    by (auto simp: tie_run_def Let_def)
  then have "k < length samples + 1 - at - MIN_RUN" by (auto simp: find_Some_iff)
  then show ?thesis
    using k(2,3) length_takeWhile_le [of "\<lambda>s. s = samples ! lo" "drop (lo + MIN_RUN) samples"] by auto
qed

function tie_roots :: "u64 list \<Rightarrow> (nat \<Rightarrow> bytes) \<Rightarrow> nat \<Rightarrow> (nat \<times> tie_node) list" where
  "tie_roots samples head at = (case tie_run samples at of None \<Rightarrow> []
    | Some (lo, hi) \<Rightarrow>
        (case tie_splits (head lo) (head (hi - 1)) of
           Some p \<Rightarrow> [(lo, tie_node_default\<lparr>tn_p := p, tn_hi := hi\<rparr>)] | None \<Rightarrow> []) @ tie_roots samples head hi)"
  by pat_completeness auto
termination
  by (relation "measure (\<lambda>(samples, head, at). length samples - at)") (auto dest!: tie_run_bounds simp: MIN_RUN_def)

declare tie_roots.simps [simp del]

text \<open>One node's edges, a group of equal words at a time, and the nodes they open.\<close>

type_synonym tie_task = "nat \<times> nat \<times> nat \<times> nat \<times> nat"

definition push_edge :: "u64 \<Rightarrow> nat \<Rightarrow> nat \<Rightarrow> ties \<Rightarrow> ties" where
  "push_edge word start kid t = t\<lparr>ts_words := ts_words t @ [word], ts_starts := ts_starts t @ [start], ts_kids := ts_kids t @ [kid]\<rparr>"

function tie_edges :: "bytes list \<Rightarrow> u64 list \<Rightarrow> nat \<Rightarrow> nat \<Rightarrow> nat \<Rightarrow> ties \<Rightarrow> tie_task list \<Rightarrow> ties \<times> tie_task list" where
  "tie_edges run words lo depth a t queue =
    (if a < length words then
       (let c = a + length (takeWhile (\<lambda>w. w = words ! a) (drop a words));
          (kid, t, queue) =
            (if c - a = 1 then (LEAF, t, queue)
             else if depth \<ge> MAX_DEPTH then (FLAT, t, queue)
             else (case tie_splits (run ! a) (run ! (c - 1)) of
                 Some p \<Rightarrow> let kid = length (ts_nodes t) in
                   (kid, t\<lparr>ts_nodes := ts_nodes t @ [tie_node_default]\<rparr>, queue @ [(kid, p, lo + a, lo + c, depth + 1)])
               | None \<Rightarrow> (FLAT, t, queue)))
        in tie_edges run words lo depth c (push_edge (words ! a) (lo + a) kid t) queue)
     else (t, queue))"
  by pat_completeness auto
termination
proof (relation "measure (\<lambda>(run, words, lo, depth, a, t, queue). length words - a)", simp)
  fix words :: "u64 list" and run :: "bytes list" and lo depth a t queue c x kid y t' queue'
  assume "a < length words" "c = a + length (takeWhile (\<lambda>w. w = words ! a) (drop a words))"
  moreover from this(1) have "drop a words = words ! a # drop (Suc a) words" by (simp add: Cons_nth_drop_Suc)
  ultimately show "((run, words, lo, depth, c, push_edge (words ! a) (lo + a) kid t', queue'), run, words, lo, depth, a, t, queue)
      \<in> measure (\<lambda>(run, words, lo, depth, a, t, queue). length words - a)"
    by auto
qed

declare tie_edges.simps [simp del]

text \<open>Each root's trie, breadth first.\<close>

partial_function (option) tie_grow :: "nat \<Rightarrow> bytes list \<Rightarrow> tie_task list \<Rightarrow> ties \<Rightarrow> ties option" where
  "tie_grow base heads queue t = (case queue of [] \<Rightarrow> Some t
    | (i, p, lo, hi, depth) # queue \<Rightarrow>
        (let run = take (hi - lo) (drop (lo - base) heads); words = map (\<lambda>h. sample_at h p) run; first = length (ts_words t)
         in case tie_edges run words lo depth 0 t queue of (t, queue) \<Rightarrow>
           tie_grow base heads queue (t\<lparr>ts_nodes := (ts_nodes t)[i := \<lparr>tn_p = p, tn_first = first,
             tn_count = length (ts_words t) - first, tn_hi = hi\<rparr>]\<rparr>)))"

fun grow_roots :: "(nat \<Rightarrow> bytes) \<Rightarrow> nat list \<Rightarrow> ties \<Rightarrow> ties option" where
  "grow_roots head [] t = Some t"
| "grow_roots head (r # rs) t = (let base = ts_roots t ! r; end = tn_hi (ts_nodes t ! r) in
    Option.bind (tie_grow base (map head [base..<end]) [(r, tn_p (ts_nodes t ! r), base, end, 1)] t) (grow_roots head rs))"

text \<open>The outer option is a derivation that ends, the inner one what it gives.\<close>

definition ties_derive :: "u64 list \<Rightarrow> (nat \<Rightarrow> bytes) \<Rightarrow> ties option option" where
  "ties_derive samples head =
    (if \<not> u32_ok (length samples) then Some None
     else let roots = tie_roots samples head 0 in
       if roots = [] then Some None
       else map_option Some (grow_roots head [0..<length roots]
         \<lparr>ts_roots = map fst roots, ts_nodes = map snd roots, ts_words = [], ts_starts = [], ts_kids = []\<rparr>))"

subsection \<open>Placing a probe\<close>

definition tie_root :: "ties \<Rightarrow> nat \<Rightarrow> nat option" where
  "tie_root t lo = (if u32_ok lo then search_ascending (ts_roots t) lo else None)"

definition tie_end_of :: "ties \<Rightarrow> tie_node \<Rightarrow> nat \<Rightarrow> nat" where
  "tie_end_of t node j = (if j + 1 < tn_count node then ts_starts t ! (tn_first node + j + 1) else tn_hi node)"

definition tie_edge :: "ties \<Rightarrow> tie_node \<Rightarrow> bytes \<Rightarrow> nat \<times> bool" where
  "tie_edge t node probe = (let words = take (tn_count node) (drop (tn_first node) (ts_words t)); w = sample_at probe (tn_p node);
      j = partition_point (\<lambda>x. x < w) words
    in (j, get_at words j = Some w))"

partial_function (option) tie_descend :: "ties \<Rightarrow> bytes \<Rightarrow> tie_node \<Rightarrow> (tie_node \<times> tie_end \<times> nat) option" where
  "tie_descend t probe node = (case tie_edge t node probe of (j, equal) \<Rightarrow>
    if \<not> equal then
      let lo = ts_starts t ! tn_first node; l = (if j < tn_count node then ts_starts t ! (tn_first node + j) else tn_hi node)
      in Some (node, EndAt l, if l > lo then l - 1 else lo)
    else let a = ts_starts t ! (tn_first node + j); kid = ts_kids t ! (tn_first node + j) in
      if kid = LEAF then Some (node, EndLeaf a, a)
      else if kid = FLAT then Some (node, EndFlat a (tie_end_of t node j), a)
      else tie_descend t probe (ts_nodes t ! kid))"

partial_function (option) tie_correct :: "ties \<Rightarrow> bytes \<Rightarrow> nat \<Rightarrow> tie_node \<Rightarrow> nat \<Rightarrow> nat \<Rightarrow> (nat \<times> nat) option" where
  "tie_correct t probe shared node lo hi =
    (if tn_p node \<le> shared then
       (case tie_edge t node probe of (j, equal) \<Rightarrow>
          if \<not> equal then Some (lo, hi)
          else let lo = ts_starts t ! (tn_first node + j); hi = tie_end_of t node j; kid = ts_kids t ! (tn_first node + j) in
            if kid = LEAF \<or> kid = FLAT then Some (lo, hi)
            else tie_correct t probe shared (ts_nodes t ! kid) lo hi)
     else Some (lo, hi))"

definition head_below :: "bytes \<Rightarrow> bytes \<Rightarrow> nat \<Rightarrow> bool" where
  "head_below probe h shared = (case (get_at probe shared, get_at h shared) of
      (_, None) \<Rightarrow> False | (None, Some _) \<Rightarrow> True | (Some x, Some y) \<Rightarrow> x < y)"

text \<open>A descent that does not end is written as a panic.\<close>

definition ties_boundary :: "ties \<Rightarrow> nat \<Rightarrow> bytes \<Rightarrow> (nat \<Rightarrow> bytes outcome) \<Rightarrow> (nat \<Rightarrow> nat \<Rightarrow> nat outcome) \<Rightarrow>
    (nat \<times> (nat \<times> nat) option) outcome" where
  "ties_boundary t root probe head flat =
    (case tie_descend t probe (ts_nodes t ! root) of None \<Rightarrow> Panics
     | Some (node, stop, at) \<Rightarrow> bind_outcome (head at) (\<lambda>h.
         let shared = lcp_bytes probe h; below = head_below probe h shared in
         bind_outcome
          (if shared < tn_p node
           then (case tie_correct t probe shared (ts_nodes t ! root) (ts_starts t ! tn_first (ts_nodes t ! root)) (tn_hi (ts_nodes t ! root)) of
               None \<Rightarrow> Panics | Some (lo, hi) \<Rightarrow> Gives (if below then lo else hi))
           else (case stop of EndAt l \<Rightarrow> Gives l | EndLeaf b \<Rightarrow> Gives (b + (if \<not> below then 1 else 0)) | EndFlat a c \<Rightarrow> flat a c))
          (\<lambda>l. Gives (l, if l = at + 1 then Some (shared, length h) else None))))"

end
