(* ===== verification/Dict_Index.thy ===== *)
theory Dict_Index
  imports Scan Offsets Ties
begin

text \<open>
  The ordered dictionary of \<^verbatim>\<open>src/dict_index.rs\<close>: the parsed index and its accessors, the routing of
  \<^verbatim>\<open>src/dict_index/route.rs\<close> and the queries of \<^verbatim>\<open>src/dict_index/query.rs\<close>, over byte keys. The index is
  one without a character code and without trie labels (a \<^verbatim>\<open>BDX3\<close> blob), so a query is its own bytes and
  \<^verbatim>\<open>locate_query\<close> is \<^verbatim>\<open>locate\<close>. A read past an offset section panics, as the slice behind it does.
\<close>

definition NO_ROUTE :: u64 where "NO_ROUTE = - 1"
definition DEFAULT_BLOCK :: nat where "DEFAULT_BLOCK = 256"
definition MAX_BLOCK :: nat where "MAX_BLOCK = 1024"
definition SHARD_KEYS :: nat where "SHARD_KEYS = 65536"

record dict_index =
  di_block :: nat
  di_micro :: nat
  di_per :: nat
  di_n :: nat
  di_heads :: bytes
  di_head_ends :: offsets
  di_samples :: "u64 list"
  di_ties :: "ties option"
  di_blocks :: offsets
  di_micros :: packed
  di_data :: bytes
  di_codecs :: "codec list"
  di_codes :: "(pair_code \<times> pair_code) list"
  di_shard :: nat
  di_shard_bits :: nat
  di_phrases :: dict
  di_g :: nat
  di_mroute :: "u64 list option"

subsection \<open>Sizes\<close>

fun isqrt_from :: "nat \<Rightarrow> nat \<Rightarrow> nat" where
  "isqrt_from n 0 = 0"
| "isqrt_from n (Suc k) = (if Suc k * Suc k \<le> n then Suc k else isqrt_from n k)"

definition clamp :: "nat \<Rightarrow> nat \<Rightarrow> nat \<Rightarrow> nat" where
  "clamp lo hi x = max lo (min hi x)"

definition micro_for :: "nat \<Rightarrow> nat" where
  "micro_for block = (let frm = clamp 16 32 (isqrt_from block block) in
    case find (\<lambda>d. block mod d = 0) [frm..<33] of Some d \<Rightarrow> d
    | None \<Rightarrow> (case find (\<lambda>d. block mod d = 0) (rev [2..<33]) of Some d \<Rightarrow> d | None \<Rightarrow> block))"

definition shard_blocks_for :: "nat \<Rightarrow> nat" where
  "shard_blocks_for block = clamp 1 (2 ^ 16 - 1) (SHARD_KEYS div block)"

definition shard_bits_of :: "nat \<Rightarrow> nat" where
  "shard_bits_of shard = (if is_power_of_two shard then bits_of shard - 1 else 2 ^ 32 - 1)"

subsection \<open>Reading the sections\<close>

definition blocks_len :: "dict_index \<Rightarrow> nat" where
  "blocks_len d = length (di_samples d)"

definition shard_of :: "dict_index \<Rightarrow> nat \<Rightarrow> nat" where
  "shard_of d b = (if di_shard_bits d < 64 then drop_bit (di_shard_bits d) b else b div di_shard d)"

definition codec_of :: "dict_index \<Rightarrow> nat \<Rightarrow> codec" where
  "codec_of d b = (case get_at (di_codecs d) (shard_of d b) of Some c \<Rightarrow> c | None \<Rightarrow> di_codecs d ! 0)"

definition codes_of_block :: "dict_index \<Rightarrow> nat \<Rightarrow> pair_code \<times> pair_code" where
  "codes_of_block d b = (case get_at (di_codes d) (shard_of d b) of Some c \<Rightarrow> c | None \<Rightarrow> di_codes d ! 0)"

definition range_or_empty :: "bytes \<Rightarrow> nat \<Rightarrow> nat \<Rightarrow> bytes" where
  "range_or_empty bs from to = (case get_range bs from to of Some r \<Rightarrow> r | None \<Rightarrow> [])"

definition head_of :: "bytes \<Rightarrow> offsets \<Rightarrow> nat \<Rightarrow> bytes outcome" where
  "head_of heads ends b = bind_outcome
    (if b = 0 then bind_outcome (offsets_at ends 0) (\<lambda>v. Gives (0, v)) else offsets_pair ends (b - 1))
    (\<lambda>(start, end). Gives (range_or_empty heads (unat start) (unat end)))"

definition di_head :: "dict_index \<Rightarrow> nat \<Rightarrow> bytes outcome" where
  "di_head d b = head_of (di_heads d) (di_head_ends d) b"

definition count_in :: "dict_index \<Rightarrow> nat \<Rightarrow> nat" where
  "count_in d b = min (di_n d - b * di_block d) (di_block d)"

definition micros_in :: "dict_index \<Rightarrow> nat \<Rightarrow> nat" where
  "micros_in d b = (if b + 1 < blocks_len d then di_per d else div_ceil (count_in d b) (di_micro d))"

definition micro_count :: "dict_index \<Rightarrow> nat \<Rightarrow> nat \<Rightarrow> nat" where
  "micro_count d b j = min (count_in d b - j * di_micro d) (di_micro d)"

definition micro_of :: "dict_index \<Rightarrow> nat \<Rightarrow> nat" where
  "micro_of d ident = ident div di_block d * di_per d + ident mod di_block d div di_micro d"

definition block_end :: "dict_index \<Rightarrow> nat \<Rightarrow> nat outcome" where
  "block_end d b = (if b + 1 < blocks_len d then bind_outcome (offsets_at (di_blocks d) (b + 1)) (\<lambda>v. Gives (unat v))
    else Gives (length (di_data d)))"

definition restart_data_at :: "dict_index \<Rightarrow> nat \<Rightarrow> u64 \<Rightarrow> bytes outcome" where
  "restart_data_at d b base = bind_outcome
    (if di_per d = 1 then Gives base else bind_outcome (packed_at (di_micros d) (b * di_per d)) (\<lambda>m. Gives (base + m)))
    (\<lambda>end. Gives (range_or_empty (di_data d) (unat base) (unat end)))"

definition restart_data :: "dict_index \<Rightarrow> nat \<Rightarrow> bytes outcome" where
  "restart_data d b = bind_outcome (offsets_at (di_blocks d) b) (restart_data_at d b)"

definition micro_data_at :: "dict_index \<Rightarrow> nat \<Rightarrow> nat \<Rightarrow> u64 \<Rightarrow> bytes outcome" where
  "micro_data_at d b j base = bind_outcome
    (if j + 1 < micros_in d b then
       bind_outcome (packed_pair (di_micros d) (b * di_per d + j)) (\<lambda>(s, e). Gives (unat (base + s), unat (base + e)))
     else bind_outcome (if di_per d = 1 then Gives base
         else bind_outcome (packed_at (di_micros d) (b * di_per d + j)) (\<lambda>m. Gives (base + m)))
       (\<lambda>start. bind_outcome (block_end d b) (\<lambda>end. Gives (unat start, end))))
    (\<lambda>(start, end). Gives (range_or_empty (di_data d) start end))"

definition micro_data :: "dict_index \<Rightarrow> nat \<Rightarrow> nat \<Rightarrow> bytes outcome" where
  "micro_data d b j = bind_outcome (offsets_at (di_blocks d) b) (micro_data_at d b j)"

subsection \<open>Routing to a block\<close>

text \<open>The end of a run of equal samples: a gallop, then a search of the last step.\<close>

function gallop :: "u64 list \<Rightarrow> u64 \<Rightarrow> nat \<Rightarrow> nat \<Rightarrow> nat \<times> nat" where
  "gallop samples s hi step = (if 0 < step \<and> get_at samples (hi + step - 1) = Some s
    then gallop samples s (hi + step) (step * 2) else (hi, step))"
  by pat_completeness auto
termination
  by (relation "measure (\<lambda>(samples, s, hi, step). length samples - hi)") (auto simp: get_at_Some_iff)

declare gallop.simps [simp del]

definition past_equal :: "u64 list \<Rightarrow> nat \<Rightarrow> u64 \<Rightarrow> nat" where
  "past_equal samples lo s =
    (if get_at samples lo \<noteq> Some s then lo
     else case gallop samples s (lo + 1) 1 of (hi, step) \<Rightarrow>
       let end = min (hi + step - 1) (length samples)
       in hi + partition_point (\<lambda>x. x \<le> s) (take (end - hi) (drop hi samples)))"

text \<open>\<open>None\<close> where the probe has the prefix; otherwise the boundary it lands on.\<close>

definition place_prefix :: "bytes \<Rightarrow> nat \<Rightarrow> bytes \<Rightarrow> nat option" where
  "place_prefix prefix blocks probe =
    (case get_range probe 0 (length prefix) of
       Some front \<Rightarrow> (case cmp_of front prefix of CEqual \<Rightarrow> None | ord \<Rightarrow> Some (if ord = CLess then 0 else blocks))
     | None \<Rightarrow> Some (if probe \<le> prefix then 0 else blocks))"

definition common_head_raw :: "bytes \<Rightarrow> nat list \<Rightarrow> nat" where
  "common_head_raw heads ends = (if ends = [] then 0
    else let h0 = take (hd ends) heads; start = (if length ends = 1 then 0 else ends ! (length ends - 2))
      in min (lcp_bytes h0 (take (last ends - start) (drop start heads))) (2 ^ 16 - 1))"

definition samples_of :: "bytes \<Rightarrow> nat list \<Rightarrow> nat \<Rightarrow> u64 list" where
  "samples_of heads ends g = map (\<lambda>(at, end). sample_at (take (end - at) (drop at heads)) g) (zip (0 # ends) ends)"

definition route :: "dict_index \<Rightarrow> bytes \<Rightarrow> (nat + u64) outcome" where
  "route d probe = bind_outcome
    (if di_g d > 0 then bind_outcome (di_head d 0) (\<lambda>head.
        Gives (place_prefix (take (min (di_g d) (length head)) head) (blocks_len d) probe)) else Gives None)
    (\<lambda>placed. Gives (case placed of Some l \<Rightarrow> Inl l | None \<Rightarrow> Inr (sample_at probe (di_g d))))"

function head_boundary :: "dict_index \<Rightarrow> bytes \<Rightarrow> nat \<Rightarrow> nat \<Rightarrow> nat outcome" where
  "head_boundary d probe l r =
    (if l < r then let m = l + (r - l) div 2 in
       bind_outcome (di_head d m) (\<lambda>h. if h \<le> probe then head_boundary d probe (m + 1) r else head_boundary d probe l m)
     else Gives l)"
  by pat_completeness auto
termination by (relation "measure (\<lambda>(d, probe, l, r). r - l)") auto

declare head_boundary.simps [simp del]

definition tie_boundary :: "dict_index \<Rightarrow> bytes \<Rightarrow> nat \<Rightarrow> (nat \<times> (nat \<times> nat) option) option outcome" where
  "tie_boundary d probe lo = (case di_ties d of None \<Rightarrow> Gives None | Some t \<Rightarrow>
    (case tie_root t lo of None \<Rightarrow> Gives None | Some root \<Rightarrow>
      bind_outcome (ties_boundary t root probe (di_head d) (head_boundary d probe)) (\<lambda>r. Gives (Some r))))"

definition sample_boundary :: "dict_index \<Rightarrow> bytes \<Rightarrow> u64 \<Rightarrow> (nat \<times> (nat \<times> nat) option) outcome" where
  "sample_boundary d probe s = (let lo = partition_point (\<lambda>x. x < s) (di_samples d) in
    if get_at (di_samples d) lo \<noteq> Some s then Gives (lo, None)
    else bind_outcome (if get_at (di_samples d) (lo + MIN_RUN - 1) = Some s then tie_boundary d probe lo else Gives None)
      (\<lambda>placed. case placed of Some r \<Rightarrow> Gives r
        | None \<Rightarrow> bind_outcome (head_boundary d probe lo (past_equal (di_samples d) lo s)) (\<lambda>l. Gives (l, None))))"

subsection \<open>Routing to a microblock\<close>

definition may_end_before :: "u64 \<Rightarrow> nat \<Rightarrow> bool" where
  "may_end_before w i \<longleftrightarrow> 8 - (if w = 0 then 64 else trailing_zeros w) div 8 < i"

definition leading_zeros :: "u64 \<Rightarrow> nat" where
  "leading_zeros w = 64 - bits_of (unat w)"

text \<open>Bytes every restart shares with the head, then a second pass for the eight bytes past them.\<close>

fun restart_shares :: "nat \<Rightarrow> entries \<Rightarrow> nat \<Rightarrow> (entries \<times> nat) option" where
  "restart_shares 0 e o' = Some (e, o')"
| "restart_shares (Suc n) e o' = (case en_head e of (None, _) \<Rightarrow> None
    | (Some (l, len), e) \<Rightarrow> restart_shares n (en_skip len e) (min o' l))"

fun restart_samples :: "dict \<Rightarrow> codec \<Rightarrow> nat \<Rightarrow> entries \<Rightarrow> bytes \<Rightarrow> nat \<Rightarrow> u64 list outcome" where
  "restart_samples d codec 0 e cur o' = Gives []"
| "restart_samples d codec (Suc n) e cur o' = (case en_head e of (None, _) \<Rightarrow> Refuses
    | (Some (l, len), e) \<Rightarrow> (case en_piece len e of (p, e) \<Rightarrow>
       bind_outcome
        (if l < o' + 8 then
           (if l > length cur \<or> piece_units p (codec_unit codec) \<noteq> len then Refuses
            else codec_decode d codec p (take l cur) (o' + 8 - l))
         else Gives cur)
        (\<lambda>cur. bind_outcome (restart_samples d codec n e cur o') (\<lambda>ws. Gives (sample_at cur o' # ws)))))"

definition restart_words :: "dict_index \<Rightarrow> codec \<Rightarrow> pair_code \<Rightarrow> bytes \<Rightarrow> nat \<Rightarrow> bytes \<Rightarrow> nat \<Rightarrow> (nat \<times> u64 list) outcome" where
  "restart_words d codec code data count head n = (let e = entries_of code codec data count in
    case restart_shares n e (length head) of None \<Rightarrow> Refuses
    | Some (e', o') \<Rightarrow>
        if en_reach e' > en_end_bits e' then Refuses
        else bind_outcome (restart_samples (di_phrases d) codec n e head o') (\<lambda>ws.
          if sorted ws then Gives (o', ws) else Refuses))"

definition micro_group :: "dict_index \<Rightarrow> nat \<Rightarrow> u64 list outcome" where
  "micro_group d b = (let per = di_per d; r = micros_in d b; none = NO_ROUTE # replicate (per - 1) (- 1) in
    if r < 2 then Gives none
    else bind_outcome (restart_data d b) (\<lambda>data. bind_outcome (di_head d b) (\<lambda>head.
      case restart_words d (codec_of d b) (snd (codes_of_block d b)) data r head (r - 1) of
        Panics \<Rightarrow> Panics | Refuses \<Rightarrow> Gives none
      | Gives (o', ws) \<Rightarrow> Gives (of_nat o' # ws @ replicate (per - r) (- 1)))))"

fun concat_outcome :: "(nat \<Rightarrow> 'a list outcome) \<Rightarrow> nat list \<Rightarrow> 'a list outcome" where
  "concat_outcome f [] = Gives []"
| "concat_outcome f (b # bs) = bind_outcome (f b) (\<lambda>x. bind_outcome (concat_outcome f bs) (\<lambda>xs. Gives (x @ xs)))"

definition micro_route :: "dict_index \<Rightarrow> u64 list outcome" where
  "micro_route d = (if di_per d = 1 then Gives [] else concat_outcome (micro_group d) [0..<blocks_len d])"

definition route_microblocks :: "dict_index \<Rightarrow> (dict_index \<times> nat) outcome" where
  "route_microblocks d = (case di_mroute d of Some ws \<Rightarrow> Gives (d, 8 * length ws)
    | None \<Rightarrow> bind_outcome (micro_route d) (\<lambda>ws. Gives (d\<lparr>di_mroute := Some ws\<rparr>, 8 * length ws)))"

definition micro_routed :: "dict_index \<Rightarrow> nat \<Rightarrow> nat \<Rightarrow> bytes \<Rightarrow> nat \<Rightarrow> nat \<times> nat \<times> bool" where
  "micro_routed d b r probe matched = (let per = di_per d; whole_run = (0, matched, True) in
    case Option.bind (di_mroute d) (\<lambda>w. get_range w (b * per) ((b + 1) * per)) of None \<Rightarrow> whole_run
    | Some grp \<Rightarrow>
       if grp ! 0 = NO_ROUTE then whole_run
       else let o' = unat (grp ! 0) in
         if matched < o' then (r - 1, matched, False)
         else let s = sample_at probe o'; words = drop 1 grp; j = partition_point (\<lambda>w. w < s) words; tied = (get_at words j = Some s)
           in if j = 0 then (0, matched, tied)
              else let below = words ! (j - 1); i = leading_zeros (below XOR s) div 8
                in if may_end_before below i then whole_run else (j, o' + i, tied))"

subsection \<open>Locating a probe\<close>

definition locate_past :: "dict_index \<Rightarrow> nat \<Rightarrow> bytes \<Rightarrow> nat \<Rightarrow> (nat \<times> bool) outcome" where
  "locate_past d b probe matched = (let base = b * di_block d; codec = codec_of d b; r = micros_in d b in
    bind_outcome (offsets_at (di_blocks d) b) (\<lambda>block_base.
    bind_outcome
      (if r > 1 then
         (case micro_routed d b r probe matched of (frm, shared, tied) \<Rightarrow>
            if tied then bind_outcome (restart_data_at d b block_base) (\<lambda>data.
              let restarts = en_pass frm (entries_of (snd (codes_of_block d b)) codec data r)
              in case scan_run (di_phrases d) codec restarts (r - frm) probe shared of (k, shared, hit) \<Rightarrow>
                Gives (if hit then Inl (base + (frm + k) * di_micro d, True) else Inr (frm + k, shared)))
            else Gives (Inr (frm, shared)))
       else Gives (Inr (0, matched)))
      (\<lambda>placed. case placed of Inl r \<Rightarrow> Gives r
        | Inr (j, matched) \<Rightarrow> bind_outcome (micro_data_at d b j block_base) (\<lambda>data.
            let count = micro_count d b j; e = entries_of (fst (codes_of_block d b)) codec data count
            in case scan_run (di_phrases d) codec e count probe matched of (k, _, hit) \<Rightarrow>
              Gives (base + j * di_micro d + k + (if hit then 0 else 1), hit)))))"

definition locate_in :: "dict_index \<Rightarrow> nat \<Rightarrow> bytes \<Rightarrow> (nat \<times> bool) outcome" where
  "locate_in d l probe = (if l = 0 then Gives (0, False)
    else let b = l - 1 in bind_outcome (di_head d b) (\<lambda>head. let matched = lcp_bytes head probe in
      if matched = length head \<and> matched = length probe then Gives (b * di_block d, True)
      else locate_past d b probe matched))"

definition locate :: "dict_index \<Rightarrow> bytes \<Rightarrow> (nat \<times> bool) outcome" where
  "locate d probe = (if di_n d = 0 then Gives (0, False)
    else bind_outcome (route d probe) (\<lambda>r.
      bind_outcome (case r of Inr s \<Rightarrow> sample_boundary d probe s | Inl l \<Rightarrow> Gives (l, None)) (\<lambda>(l, known).
        case known of
          Some (matched, len) \<Rightarrow>
            if matched = len \<and> matched = length probe then Gives ((l - 1) * di_block d, True)
            else locate_past d (l - 1) probe matched
        | None \<Rightarrow> locate_in d l probe)))"

subsection \<open>Queries\<close>

definition di_id :: "dict_index \<Rightarrow> bytes \<Rightarrow> nat option outcome" where
  "di_id d key = bind_outcome (locate d key) (\<lambda>(rank, hit). Gives (if hit then Some rank else None))"

definition di_contains :: "dict_index \<Rightarrow> bytes \<Rightarrow> bool outcome" where
  "di_contains d key = bind_outcome (locate d key) (\<lambda>(rank, hit). Gives hit)"

definition lower_bound :: "dict_index \<Rightarrow> bytes \<Rightarrow> nat outcome" where
  "lower_bound d key = bind_outcome (locate d key) (\<lambda>(rank, hit). Gives rank)"

definition range_count :: "dict_index \<Rightarrow> bytes \<Rightarrow> bytes \<Rightarrow> nat outcome" where
  "range_count d lo hi = bind_outcome (lower_bound d hi) (\<lambda>h. bind_outcome (lower_bound d lo) (\<lambda>l. Gives (h - l)))"

text \<open>The prefix with its last byte incremented, the carry dropping bytes of \<open>0xff\<close>; from the end.\<close>

fun carry :: "bytes \<Rightarrow> bytes option" where
  "carry [] = None"
| "carry (b # rev_bs) = (if b = 255 then carry rev_bs else Some (rev ((b + 1) # rev_bs)))"

definition prefix_id_range :: "dict_index \<Rightarrow> bytes \<Rightarrow> (nat \<times> nat) outcome" where
  "prefix_id_range d prefix = bind_outcome (locate d prefix) (\<lambda>(start, _).
    bind_outcome (case carry (rev prefix) of None \<Rightarrow> Gives (di_n d) | Some upper \<Rightarrow> lower_bound d upper)
      (\<lambda>end. Gives (start, max end start)))"

definition prefix_count :: "dict_index \<Rightarrow> bytes \<Rightarrow> nat outcome" where
  "prefix_count d prefix = bind_outcome (prefix_id_range d prefix) (\<lambda>(start, end). Gives (end - start))"

definition key_bytes_into :: "dict_index \<Rightarrow> nat \<Rightarrow> bytes outcome" where
  "key_bytes_into d ident = (if ident \<ge> di_n d then Refuses
    else let b = ident div di_block d; off = ident mod di_block d; j = off div di_micro d; steps = off mod di_micro d;
        codec = codec_of d b; codes = codes_of_block d b
      in bind_outcome (di_head d b) (\<lambda>head.
         bind_outcome (restart_data d b) (\<lambda>rdata.
         bind_outcome (if j > 0 then climb (di_phrases d) codec (snd codes) rdata (micros_in d b) j head else Gives head) (\<lambda>out.
         bind_outcome (micro_data d b j) (\<lambda>mdata.
           climb (di_phrases d) codec (fst codes) mdata (micro_count d b j) steps out)))))"

definition successor :: "dict_index \<Rightarrow> bytes \<Rightarrow> (bytes \<times> nat) option outcome" where
  "successor d query = bind_outcome (locate d query) (\<lambda>(rank, _).
    case key_bytes_into d rank of Panics \<Rightarrow> Panics | Refuses \<Rightarrow> Gives None | Gives k \<Rightarrow> Gives (Some (k, rank)))"

definition predecessor :: "dict_index \<Rightarrow> bytes \<Rightarrow> (bytes \<times> nat) option outcome" where
  "predecessor d query = bind_outcome (locate d query) (\<lambda>(rank, found).
    if \<not> found \<and> rank = 0 then Gives None
    else let at = (if found then rank else rank - 1) in
      case key_bytes_into d at of Panics \<Rightarrow> Panics | Refuses \<Rightarrow> Gives None | Gives k \<Rightarrow> Gives (Some (k, at)))"

end
