(* ===== verification/Build.thy ===== *)
theory Build
  imports Encode Dict_Index
begin

text \<open>
  Building an index from sorted keys: \<^verbatim>\<open>build_pieces\<close>, \<^verbatim>\<open>train_shards\<close> and the packing of the offset
  arrays in \<^verbatim>\<open>src/dict_index/encode.rs\<close>, and \<^verbatim>\<open>from_vocabulary\<close> in \<^verbatim>\<open>src/dict_index/build.rs\<close>, any number of
  shards of them. The vocabulary is the shards' symbol tables, without phrases: what
  \<^verbatim>\<open>mine_phrases\<close> answers where it gives \<^verbatim>\<open>Phrases::none\<close>. Threads split
  the work into ranges in the order the code splits it; a range that panics makes the build panic.
\<close>

definition TRAIN_PIECES :: nat where "TRAIN_PIECES = 10000"
definition TRAIN_RUN :: nat where "TRAIN_RUN = 256"
definition MINE_MIN :: nat where "MINE_MIN = 2 ^ 14"
definition PARALLEL_BLOCKS :: nat where "PARALLEL_BLOCKS = 64"
definition TRAIN_BUDGET :: nat where "TRAIN_BUDGET = 64 * 2 ^ 20"
definition TRAIN_BYTES :: nat where "TRAIN_BYTES = 3 * 2 ^ 20"

subsection \<open>Threads\<close>

text \<open>\<open>cores\<close> is what \<^verbatim>\<open>available_parallelism\<close> answers.\<close>

definition build_threads :: "nat \<Rightarrow> nat \<Rightarrow> nat \<Rightarrow> nat" where
  "build_threads cores n block = max 1 (min (div_ceil n block div PARALLEL_BLOCKS) cores)"

definition train_threads :: "nat \<Rightarrow> nat" where
  "train_threads threads = clamp 1 (TRAIN_BUDGET div TRAIN_BYTES) threads"

subsection \<open>Training\<close>

text \<open>Every \<open>step\<close>-th number from \<open>start\<close> up to \<open>end\<close>.\<close>

definition step_by :: "nat \<Rightarrow> nat \<Rightarrow> nat \<Rightarrow> nat list" where
  "step_by start end step = map (\<lambda>k. start + k * step) [0..<div_ceil (end - start) step]"

definition piece_at :: "bytes list \<Rightarrow> nat \<Rightarrow> nat \<Rightarrow> nat \<Rightarrow> bytes list" where
  "piece_at keys block micro i = (let off = i mod block in
    if off = 0 then []
    else let against = keys ! (if off mod micro = 0 then i - micro else i - 1); key = keys ! i
      in [drop (lcp_bytes against key) key])"

definition build_pieces :: "bytes list \<Rightarrow> nat \<Rightarrow> nat \<Rightarrow> nat \<Rightarrow> bytes list list" where
  "build_pieces keys block micro dense =
    (let n = length keys; nb = div_ceil n block; shard = shard_blocks_for block; span = shard * block in
     map (\<lambda>s. let start = s * span; end = min ((s + 1) * span) n;
            step = (if dense > 0 then dense else max 1 ((end - start) div TRAIN_PIECES))
          in concat (map (\<lambda>at. concat (map (piece_at keys block micro) [at..<min (at + TRAIN_RUN) end]))
               (step_by start end (TRAIN_RUN * step))))
       [0..<max 1 (div_ceil nb shard)])"

definition train_one :: "bytes list \<Rightarrow> fsst_table outcome" where
  "train_one sample = (case train sample of None \<Rightarrow> Panics | Some t \<Rightarrow> Gives t)"

definition train_shards :: "bytes list list \<Rightarrow> nat \<Rightarrow> fsst_table list outcome" where
  "train_shards samples threads =
    (if threads = 1 \<or> length samples = 1 then map_outcome train_one samples
     else bind_outcome (map_outcome (map_outcome train_one) (chunks (div_ceil (length samples) threads) samples))
       (\<lambda>tss. Gives (concat tss)))"

subsection \<open>Packing the arrays\<close>

definition packed_offsets :: "nat list \<Rightarrow> offsets outcome" where
  "packed_offsets ns = (let values = map of_nat ns; width = width_of values SHIFT in
    bind_outcome (pack values SHIFT width) (\<lambda>(bases, deltas).
      Gives \<lparr>o_bases = bases, o_deltas = deltas, o_width = width, o_shift = SHIFT\<rparr>))"

definition packed_micros :: "nat list \<Rightarrow> packed outcome" where
  "packed_micros ns = (let values = map of_nat ns; width = packed_width_of values in
    bind_outcome (packed_pack values width) (\<lambda>ds. Gives \<lparr>p_deltas = ds, p_width = width\<rparr>))"

subsection \<open>Encoding the ranges and joining their parts\<close>

definition part_join :: "part \<Rightarrow> part \<Rightarrow> part" where
  "part_join all pt = (let at_head = length (pt_heads all); at_data = length (pt_data all) in
    \<lparr>pt_heads = pt_heads all @ pt_heads pt, pt_head_ends = pt_head_ends all @ map ((+) at_head) (pt_head_ends pt),
     pt_blocks = pt_blocks all @ map ((+) at_data) (pt_blocks pt), pt_micros = pt_micros all @ map ((+) at_data) (pt_micros pt),
     pt_data = pt_data all @ pt_data pt, pt_codes = pt_codes all @ pt_codes pt, pt_codecs = pt_codecs all @ pt_codecs pt\<rparr>)"

definition encode_parts :: "bytes list \<Rightarrow> nat \<Rightarrow> nat \<Rightarrow> nat \<Rightarrow> fsst_table list \<Rightarrow> part outcome" where
  "encode_parts keys block micro threads tables =
    (let nb = div_ceil (length keys) block; shard = shard_blocks_for block; span = shard * block;
       run = max (span * div_ceil (div_ceil nb threads) shard) 1
     in bind_outcome (map_outcome (\<lambda>(c, range). encode_range range block micro tables shard (c * run div block)) (enumerate 0 (chunks run keys)))
       (\<lambda>parts. Gives (foldl part_join part_new parts)))"

definition index_of_part :: "nat \<Rightarrow> nat \<Rightarrow> nat \<Rightarrow> fsst_table list \<Rightarrow> part \<Rightarrow> dict_index outcome" where
  "index_of_part n block micro tables pt =
    (let per = div_ceil block micro; shard = shard_blocks_for block;
       micros = rebase_micros (pt_micros pt) (pt_blocks pt) per
     in bind_outcome
      (if pt_codes pt = [] then (if tables = [] then Panics
          else Gives ([(Frame frames_none, Frame frames_none)], [Symbols (tables ! 0) None]))
       else Gives (pt_codes pt, pt_codecs pt))
      (\<lambda>(codes, codecs). let g = common_head_raw (pt_heads pt) (pt_head_ends pt) in
      bind_outcome (packed_offsets (pt_head_ends pt)) (\<lambda>head_ends.
      bind_outcome (packed_offsets (pt_blocks pt)) (\<lambda>blocks.
      bind_outcome (packed_micros (if per = 1 then [] else micros)) (\<lambda>micros.
      Gives \<lparr>di_block = block, di_micro = micro, di_per = per, di_n = n, di_heads = pt_heads pt, di_head_ends = head_ends,
        di_samples = samples_of (pt_heads pt) (pt_head_ends pt) g, di_ties = None, di_blocks = blocks, di_micros = micros,
        di_data = pt_data pt, di_codecs = codecs, di_codes = codes, di_shard = shard, di_shard_bits = shard_bits_of shard,
        di_phrases = dict_of [], di_g = g, di_mroute = None\<rparr>)))))"

text \<open>The tries over the heads, each read from the index already built; a head that cannot be read, and
  a derivation that does not end, are panics.\<close>

definition with_ties :: "dict_index \<Rightarrow> dict_index outcome" where
  "with_ties d = bind_outcome (map_outcome (di_head d) [0..<blocks_len d]) (\<lambda>heads.
    case ties_derive (di_samples d) (\<lambda>b. heads ! b) of None \<Rightarrow> Panics
    | Some ties \<Rightarrow> Gives (d\<lparr>di_ties := ties\<rparr>))"

definition from_vocabulary :: "bytes list \<Rightarrow> nat \<Rightarrow> nat \<Rightarrow> nat \<Rightarrow> fsst_table list \<Rightarrow> dict_index outcome" where
  "from_vocabulary keys block micro threads tables =
    (if block = 0 \<or> micro = 0 \<or> threads = 0 then Panics
     else bind_outcome (encode_parts keys block micro threads tables) (\<lambda>pt.
       bind_outcome (index_of_part (length keys) block micro tables pt) with_ties))"

end
