(* ===== verification/Mine.thy ===== *)
theory Mine
  imports Build
begin

text \<open>
  Whether a build mines phrases: \<^verbatim>\<open>mine_phrases\<close> of \<^verbatim>\<open>src/dict_index/encode.rs\<close> down to the bar it puts
  before the miner, \<^verbatim>\<open>packed_only\<close> of \<^verbatim>\<open>src/phrase.rs\<close>, with the parse that prices a suffix under the
  symbols alone. The miner itself is not modelled: a build that reaches it leaves the model.
\<close>

definition PROBE_SHARDS :: nat where "PROBE_SHARDS = 3"
definition PROBE_PIECES :: nat where "PROBE_PIECES = 2048"

text \<open>The cheapest coding of every suffix of a string, in bits, and the word the walk carries backwards.\<close>

fun parse_costs :: "encoder \<Rightarrow> bytes \<Rightarrow> u32 list \<times> u64" where
  "parse_costs enc [] = ([0], 0)"
| "parse_costs enc (b # s) = (case parse_costs enc s of (costs, word) \<Rightarrow>
    let word = push_bit 8 word OR ucast b; (code, len) = fsst_step enc word (length s + 1);
      best = (if code = ESCAPE then 16 + costs ! 0 else 8 + costs ! (len - 1))
    in (best # costs, word))"

definition parse_plain :: "encoder \<Rightarrow> bytes \<Rightarrow> u32" where
  "parse_plain enc s = hd (fst (parse_costs enc s))"

definition price_plain :: "bytes list \<Rightarrow> encoder \<Rightarrow> u64" where
  "price_plain pieces enc = sum_list (map (\<lambda>p. ucast (parse_plain enc p) div 8) pieces)"

text \<open>\<^verbatim>\<open>iter().step_by(k)\<close>.\<close>

definition every :: "nat \<Rightarrow> 'a list \<Rightarrow> 'a list" where
  "every k xs = map (\<lambda>i. xs ! (i * k)) [0..<div_ceil (length xs) k]"

definition byte_freq :: "bytes list \<Rightarrow> nat list" where
  "byte_freq probe = map (\<lambda>b. length (filter (\<lambda>x. unat x = b) (concat probe))) [0..<256]"

fun packed_probe :: "(bytes list \<times> fsst_table) list \<Rightarrow> bool \<Rightarrow> bool" where
  "packed_probe [] asked = asked"
| "packed_probe ((sample, table) # rest) asked =
    (let probe = every (max 1 (div_ceil (length sample) PROBE_PIECES)) sample in
     if probe = [] then packed_probe rest asked
     else case alphabet_of (byte_freq probe) of None \<Rightarrow> False
       | Some (_, bits) \<Rightarrow> if bits div 8 \<ge> unat (price_plain probe (encoder_of table)) then False else packed_probe rest True)"

definition packed_only :: "bytes list list \<Rightarrow> fsst_table list \<Rightarrow> bool" where
  "packed_only samples tables = (let step = max 1 (div_ceil (length samples) PROBE_SHARDS)
    in packed_probe (zip (every step samples) (every step tables)) False)"

text \<open>Whether \<^verbatim>\<open>mine_phrases\<close> goes past its early return.\<close>

definition mines :: "bytes list list \<Rightarrow> fsst_table list \<Rightarrow> nat \<Rightarrow> bool" where
  "mines samples tables n \<longleftrightarrow> \<not> (n < MINE_MIN \<or> packed_only samples tables)"

text \<open>\<^verbatim>\<open>from_sorted_as\<close> for a corpus of its own keys: \<open>None\<close> where phrases are mined.\<close>

definition from_sorted_as :: "bytes list \<Rightarrow> nat \<Rightarrow> nat \<Rightarrow> nat \<Rightarrow> dict_index outcome option" where
  "from_sorted_as keys block micro threads =
    (if block = 0 \<or> micro = 0 then Some Panics
     else let pieces = build_pieces keys block micro 0 in
       case train_shards pieces (train_threads threads) of Panics \<Rightarrow> Some Panics | Refuses \<Rightarrow> Some Refuses
       | Gives tables \<Rightarrow> if mines pieces tables (length keys) then None
           else Some (from_vocabulary keys block micro threads tables))"

definition from_sorted :: "nat \<Rightarrow> bytes list \<Rightarrow> nat \<Rightarrow> nat \<Rightarrow> dict_index outcome option" where
  "from_sorted cores keys block micro = from_sorted_as keys block micro (build_threads cores (length keys) block)"

end
