(* ===== verification/Sort.thy ===== *)
theory Sort
  imports Dict_Index
begin

text \<open>
  From keys in any order to sorted distinct ones, as \<^verbatim>\<open>src/dict_index/build.rs\<close> gets there: the check
  that they ascend already, the pass that drops their duplicates, and the sort a range a thread with its
  merge. The standard library's \<^verbatim>\<open>sort_unstable\<close> is \<open>sort\<close> (keys of equal bytes are equal), its
  \<^verbatim>\<open>BinaryHeap\<close> a list whose least entry is taken, and its \<^verbatim>\<open>isqrt\<close> the integer square root. Prefetching
  and page faults taken early change no value and are left out.
\<close>

subsection \<open>Ranges of keys\<close>

definition in_ranges :: "bytes list \<Rightarrow> nat \<Rightarrow> (bytes list \<Rightarrow> 'a) \<Rightarrow> 'a list" where
  "in_ranges keys threads f = (if threads \<le> 1 \<or> length keys \<le> 1 then [f keys]
    else map f (chunks (div_ceil (length keys) threads) keys))"

fun range_ascends :: "bytes option \<Rightarrow> bytes list \<Rightarrow> bool" where
  "range_ascends prev [] = True"
| "range_ascends prev (key # keys) =
    ((case prev of None \<Rightarrow> True | Some p \<Rightarrow> p < key) \<and> range_ascends (Some key) keys)"

definition strictly_ascending :: "bytes list \<Rightarrow> nat \<Rightarrow> bool" where
  "strictly_ascending keys threads = (let size = max (div_ceil (length keys) (max threads 1)) 1 in
    list_all (\<lambda>above. above) (in_ranges keys threads (range_ascends None)) \<and>
    list_all (\<lambda>k. keys ! (size + k * size - 1) < keys ! (size + k * size)) [0..<div_ceil (length keys - size) size])"

subsection \<open>Dropping duplicates\<close>

text \<open>Whether the keys ascend, and the keys then: without their duplicates, or swapped about so far.\<close>

definition swap :: "nat \<Rightarrow> nat \<Rightarrow> 'a list \<Rightarrow> 'a list" where
  "swap i j xs = xs[i := xs ! j, j := xs ! i]"

function dedup_loop :: "nat \<Rightarrow> nat \<Rightarrow> bytes list \<Rightarrow> bool \<times> bytes list" where
  "dedup_loop i kept keys =
    (if i < length keys then
       if kept > 0 \<and> keys ! i < keys ! (kept - 1) then (False, keys)
       else if kept > 0 \<and> keys ! i = keys ! (kept - 1) then dedup_loop (i + 1) kept keys
       else dedup_loop (i + 1) (kept + 1) (if kept \<noteq> i then swap kept i keys else keys)
     else (True, take kept keys))"
  by pat_completeness auto
termination by (relation "measure (\<lambda>(i, kept, keys). length keys - i)") (auto simp: swap_def)

declare dedup_loop.simps [simp del]

definition dedup_ascending :: "bytes list \<Rightarrow> bool \<times> bytes list" where
  "dedup_ascending keys = dedup_loop 0 0 keys"

definition distinct_ascending :: "bytes list \<Rightarrow> nat \<Rightarrow> bool \<times> bytes list" where
  "distinct_ascending keys threads = (if strictly_ascending keys threads then (True, keys) else dedup_ascending keys)"

subsection \<open>Sorting\<close>

fun heap_top :: "(bytes \<times> nat) list \<Rightarrow> (bytes \<times> nat) option" where
  "heap_top [] = None"
| "heap_top (x # xs) = (case heap_top xs of None \<Rightarrow> Some x
    | Some y \<Rightarrow> Some (if fst x < fst y \<or> fst x = fst y \<and> snd x \<le> snd y then x else y))"

fun merge_slots :: "bytes list list \<Rightarrow> nat \<Rightarrow> nat list \<Rightarrow> (bytes \<times> nat) list \<Rightarrow> bytes list outcome" where
  "merge_slots parts 0 next' heads = Gives []"
| "merge_slots parts (Suc slots) next' heads = (case heap_top heads of None \<Rightarrow> Panics
    | Some (key, r) \<Rightarrow> bind_outcome
        (case get_at (parts ! r) (next' ! r) of
           Some k \<Rightarrow> merge_slots parts slots (next'[r := next' ! r + 1]) ((k, r) # remove1 (key, r) heads)
         | None \<Rightarrow> merge_slots parts slots next' (remove1 (key, r) heads))
        (\<lambda>out. Gives (key # out)))"

definition merge_into :: "bytes list list \<Rightarrow> nat \<Rightarrow> bytes list outcome" where
  "merge_into parts slots = merge_slots parts slots (replicate (length parts) 1)
    (concat (map (\<lambda>(r, p). case p of [] \<Rightarrow> [] | k # _ \<Rightarrow> [(k, r)]) (enumerate 0 parts)))"

text \<open>Where each splitter falls in a run, between its start and its end.\<close>

definition run_cuts :: "bytes list \<Rightarrow> bytes list \<Rightarrow> nat list" where
  "run_cuts splitters r = 0 # map (\<lambda>s. partition_point (\<lambda>k. k < s) r) splitters @ [length r]"

fun merge_parts :: "bytes list list \<Rightarrow> nat list list \<Rightarrow> nat list \<Rightarrow> bytes list outcome" where
  "merge_parts runs cuts [] = Gives []"
| "merge_parts runs cuts (j # js) =
    (let parts = map (\<lambda>(r, c). take (c ! (j + 1) - c ! j) (drop (c ! j) r)) (zip runs cuts)
     in bind_outcome (merge_into parts (sum_list (map length parts))) (\<lambda>part.
        bind_outcome (merge_parts runs cuts js) (\<lambda>rest. Gives (part @ rest))))"

definition sort_on :: "bytes list \<Rightarrow> nat \<Rightarrow> bytes list outcome" where
  "sort_on keys threads = (let n = length keys; threads = max (min threads (isqrt_from n n)) 1 in
    if threads = 1 then Gives (sort keys)
    else let size = div_ceil n threads; runs = map sort (chunks size keys);
        sample = sort (concat (map (\<lambda>r. map (\<lambda>i. r ! (i * length r div threads)) [0..<threads]) runs));
        splitters = map (\<lambda>j. sample ! (j * length sample div threads)) [1..<threads];
        cuts = map (run_cuts splitters) runs
      in merge_parts runs cuts [0..<threads])"

definition sort_distinct :: "bytes list \<Rightarrow> nat \<Rightarrow> bytes list outcome" where
  "sort_distinct keys threads = (case distinct_ascending keys threads of
      (True, keys) \<Rightarrow> Gives keys
    | (False, keys) \<Rightarrow> bind_outcome (sort_on keys threads) (\<lambda>keys.
        case dedup_ascending keys of (True, keys) \<Rightarrow> Gives keys | (False, _) \<Rightarrow> Panics))"

end
