(* ===== verification/Char_Count.thy ===== *)
theory Char_Count
  imports Key_Lcp
begin

text \<open>
  Whether a corpus may be worth a character code, from \<^verbatim>\<open>src/charcode.rs\<close>: the bytes of a key outside
  ASCII, counted eight at a time, and the bound \<^verbatim>\<open>worth_counting\<close> puts on their share.
\<close>

definition ONES :: u64 where "ONES = 0x0101010101010101"

definition count_high :: "u64 \<Rightarrow> u64" where
  "count_high w = drop_bit 56 ((drop_bit 7 w AND ONES) * ONES)"

fun high_words :: "bytes \<Rightarrow> u64 \<Rightarrow> u64 \<times> bytes" where
  "high_words key n = (if 8 \<le> length key then high_words (drop 8 key) (n + count_high (u64_of (take 8 key))) else (n, key))"

declare high_words.simps [simp del]

definition high_bytes :: "bytes \<Rightarrow> u64" where
  "high_bytes key = (case high_words key 0 of (n, rest) \<Rightarrow>
    n + count_high (fold (\<lambda>b t. push_bit 8 t OR ucast b) rest 0))"

definition worth_counting :: "u64 \<Rightarrow> u64 \<Rightarrow> bool" where
  "worth_counting bytes' high \<longleftrightarrow> high * 30 \<ge> bytes' * 4"

subsection \<open>Eight at a time counts what one at a time does\<close>

definition is_high :: "u8 \<Rightarrow> bool" where
  "is_high b \<longleftrightarrow> 128 \<le> b"

lemma is_high_bit: "is_high b \<longleftrightarrow> bit b 7"
proof -
  have "bit b 7 \<longleftrightarrow> bit (unat b) 7" by (simp add: bit_unsigned_iff)
  then have "bit b 7 \<longleftrightarrow> odd (unat b div 128)" by (simp add: bit_iff_odd)
  moreover have "unat b div 128 = 0 \<or> unat b div 128 = 1" using unat_u8_less [of b] by arith
  ultimately have "bit b 7 \<longleftrightarrow> 128 \<le> unat b" by auto
  then show ?thesis by (simp add: is_high_def word_le_nat_alt)
qed

lemma bit_ONES: "bit ONES n \<longleftrightarrow> n < 64 \<and> n mod 8 = 0"
proof (cases "n < 64")
  case True
  then have "n \<in> set [0..<64]" by simp
  then show ?thesis by (simp add: upt_rec ONES_def) (elim disjE; simp)
next
  case False
  then show ?thesis using bit_imp_le_length [of ONES n] by fastforce
qed

definition top_bits :: "bool \<Rightarrow> bool \<Rightarrow> bool \<Rightarrow> bool \<Rightarrow> bool \<Rightarrow> bool \<Rightarrow> bool \<Rightarrow> bool \<Rightarrow> u64" where
  "top_bits a b c d e f g h = of_bool a OR push_bit 8 (of_bool b) OR push_bit 16 (of_bool c) OR push_bit 24 (of_bool d) OR
    push_bit 32 (of_bool e) OR push_bit 40 (of_bool f) OR push_bit 48 (of_bool g) OR push_bit 56 (of_bool h)"

lemma tops: "drop_bit 7 w AND ONES = top_bits (bit w 7) (bit w 15) (bit w 23) (bit w 31) (bit w 39) (bit w 47) (bit w 55) (bit w 63)" for w :: u64
proof (rule bit_word_eqI)
  fix n assume "n < LENGTH(64)"
  then have "n \<in> set [0..<64]" by simp
  then show "bit (drop_bit 7 w AND ONES) n = bit (top_bits (bit w 7) (bit w 15) (bit w 23) (bit w 31) (bit w 39) (bit w 47) (bit w 55) (bit w 63)) n"
    by (simp add: upt_rec top_bits_def bit_or_iff bit_and_iff bit_ONES bit_drop_bit_eq bit_push_bit_iff bit_of_bool_iff) (elim disjE; simp)
qed

lemma tops_sum: "drop_bit 56 (top_bits a b c d e f g h * ONES) =
  of_bool a + of_bool b + of_bool c + of_bool d + of_bool e + of_bool f + of_bool g + of_bool h"
  by (cases a; cases b; cases c; cases d; cases e; cases f; cases g; cases h) (simp_all add: top_bits_def ONES_def)

lemma high_sum: "length bs \<le> n \<Longrightarrow> (\<Sum>k<n. of_bool (k < length bs \<and> is_high (bs ! k))) = (of_nat (length (filter is_high bs)) :: u64)"
proof (induction bs arbitrary: n)
  case (Cons b bs)
  then obtain m where m: "n = Suc m" by (cases n) auto
  have "(\<Sum>k<n. of_bool (k < length (b # bs) \<and> is_high ((b # bs) ! k))) =
      of_bool (is_high b) + (\<Sum>k<m. of_bool (k < length bs \<and> is_high (bs ! k)) :: u64)"
    unfolding m by (subst sum.lessThan_Suc_shift) (simp only: nth_Cons_0 nth_Cons_Suc length_Cons Suc_less_eq zero_less_Suc simp_thms)
  also have "\<dots> = of_bool (is_high b) + of_nat (length (filter is_high bs))" using Cons.IH [of m] Cons.prems by (simp only: m length_Cons Suc_le_mono)
  finally show ?case by simp
qed (simp only: list.size not_less_zero simp_thms of_bool_eq sum.neutral_const filter.simps semiring_1_class.of_nat_0)

lemma sum_eight: "(\<Sum>k<8. f k) = f 0 + f 1 + f 2 + f 3 + f 4 + f 5 + f 6 + f (7 :: nat)" for f :: "nat \<Rightarrow> u64"
  by (simp add: eval_nat_numeral)

lemma count_high_word:
  assumes "length bs \<le> 8"
  shows "count_high (u64_of bs) = of_nat (length (filter is_high bs))"
proof -
  have "count_high (u64_of bs) = (\<Sum>k<8. of_bool (k < length bs \<and> is_high (bs ! k)))"
    unfolding count_high_def tops tops_sum sum_eight by (simp add: bit_u64_of [OF assms] is_high_bit)
  then show ?thesis using high_sum [OF assms] by simp
qed

lemma high_words_counts:
  "high_words key n = (n + of_nat (length (filter is_high (take (length key div 8 * 8) key))), drop (length key div 8 * 8) key)"
proof (induction key n rule: high_words.induct)
  case (1 key n)
  show ?case
  proof (cases "8 \<le> length key")
    case True
    define m where "m = (length key - 8) div 8 * 8"
    have m: "length key div 8 * 8 = 8 + m" using True by (simp add: m_def le_div_geq)
    have "filter is_high (take (8 + m) key) = filter is_high (take 8 key) @ filter is_high (take m (drop 8 key))"
      by (simp add: take_add)
    then show ?thesis
      using 1 True by (simp add: high_words.simps [of key] m count_high_word m_def [symmetric] add.commute add.left_commute)
  next
    case False
    then show ?thesis by (simp add: high_words.simps [of key])
  qed
qed

lemma tail_word: "length bs \<le> 8 \<Longrightarrow> fold (\<lambda>b t. push_bit 8 t OR ucast b) bs 0 = u64_of (rev bs)"
proof (induction bs rule: rev_induct)
  case (snoc b bs)
  have "push_bit 8 (u64_of (rev bs)) OR ucast b = u64_of (b # rev bs)"
  proof (rule bit_word_eqI)
    fix n assume n: "n < LENGTH(64)"
    have "bit (u64_of (b # rev bs)) n \<longleftrightarrow> n div 8 < Suc (length bs) \<and> bit ((b # rev bs) ! (n div 8)) (n mod 8)"
      using bit_u64_of [of "b # rev bs" n] snoc.prems by simp
    moreover have "bit (u64_of (rev bs)) (n - 8) \<longleftrightarrow> (n - 8) div 8 < length bs \<and> bit (rev bs ! ((n - 8) div 8)) ((n - 8) mod 8)"
      using bit_u64_of [of "rev bs" "n - 8"] snoc.prems by simp
    moreover have "n div 8 = Suc ((n - 8) div 8) \<and> n mod 8 = (n - 8) mod 8" if "8 \<le> n"
      using that le_div_geq [of 8 n] le_mod_geq [of 8 n] by simp
    moreover have "\<not> bit b n" if "8 \<le> n" using that bit_imp_le_length [of b n] by fastforce
    moreover have "n div 8 = 0 \<and> n mod 8 = n" if "n < 8" using that by simp
    ultimately show "bit (push_bit 8 (u64_of (rev bs)) OR ucast b) n \<longleftrightarrow> bit (u64_of (b # rev bs)) n"
      using n by (cases "8 \<le> n") (auto simp: bit_or_iff bit_push_bit_iff bit_ucast_iff)
  qed
  then show ?case using snoc by simp
qed (simp add: u64_of_def)

lemma high_bytes_counts: "high_bytes key = of_nat (length (filter is_high key))"
proof -
  define m where "m = length key div 8 * 8"
  have "length (drop m key) \<le> 8" by (simp add: m_def minus_div_mult_eq_mod less_imp_le)
  then have "count_high (fold (\<lambda>b t. push_bit 8 t OR ucast b) (drop m key) 0) = of_nat (length (filter is_high (rev (drop m key))))"
    by (simp add: tail_word count_high_word)
  moreover have "filter is_high key = filter is_high (take m key) @ filter is_high (drop m key)" by (metis append_take_drop_id filter_append)
  ultimately show ?thesis
    by (simp add: high_bytes_def high_words_counts m_def [symmetric] rev_filter [symmetric])
qed

end
