(* ===== verification/Char_Code.thy ===== *)
theory Char_Code
  imports Char_Count Paircode Utf8
begin

text \<open>
  The character code of \<^verbatim>\<open>src/charcode.rs\<close>: the codewords and their index, the code over an alphabet, the
  tally of a corpus, and the choice of the code it is smallest under. A character is its code point.
\<close>

subsection \<open>Characters\<close>

text \<open>The first character of well-formed UTF-8, and all of them (\<^verbatim>\<open>chars\<close>); \<open>utf8_of\<close> is \<^verbatim>\<open>encode_utf8\<close>.\<close>

definition char_value :: "bytes \<Rightarrow> nat" where
  "char_value s = (let b = \<lambda>i. unat (s ! i) mod 64; a = unat (s ! 0) in
    if char_len s = 1 then a
    else if char_len s = 2 then (a mod 32) * 64 + b 1
    else if char_len s = 3 then (a mod 16) * 64 ^ 2 + b 1 * 64 + b 2
    else (a mod 8) * 64 ^ 3 + b 1 * 64 ^ 2 + b 2 * 64 + b 3)"

function chars_of :: "bytes \<Rightarrow> nat list" where
  "chars_of s = (if s = [] \<or> char_len s = 0 then [] else char_value s # chars_of (drop (char_len s) s))"
  by pat_completeness auto
termination by (relation "measure length") auto

declare chars_of.simps [simp del]

lemma chars_of_Nil [simp]: "chars_of [] = []"
  by (simp add: chars_of.simps)

definition utf8_of :: "nat \<Rightarrow> bytes" where
  "utf8_of c = (let t = \<lambda>n. of_nat (128 + n mod 64) in
    if c < 0x80 then [of_nat c]
    else if c < 0x800 then [of_nat (192 + c div 64), t c]
    else if c < 0x10000 then [of_nat (224 + c div 64 ^ 2), t (c div 64), t c]
    else [of_nat (240 + c div 64 ^ 3), t (c div 64 ^ 2), t (c div 64), t c])"

subsection \<open>Modes and codewords\<close>

definition LEADS :: nat where "LEADS = 128"
definition PAGE :: nat where "PAGE = 256"
definition PAGES :: nat where "PAGES = 0x1100"
definition LOW :: nat where "LOW = 0x800"

datatype char_mode = Seven | Eight

definition mode_base :: "char_mode \<Rightarrow> u8" where
  "mode_base m = (case m of Seven \<Rightarrow> 0 | Eight \<Rightarrow> 0x80)"

definition mode_page :: "char_mode \<Rightarrow> nat" where
  "mode_page m = (case m of Seven \<Rightarrow> 128 | Eight \<Rightarrow> 256)"

definition mode_tag :: "char_mode \<Rightarrow> u8" where
  "mode_tag m = (case m of Seven \<Rightarrow> 7 | Eight \<Rightarrow> 8)"

definition char_word :: "u8 \<Rightarrow> u8 option \<Rightarrow> u32" where
  "char_word first second = (case second of None \<Rightarrow> push_bit 16 1 OR push_bit 8 (ucast first)
    | Some s \<Rightarrow> push_bit 16 2 OR push_bit 8 (ucast first) OR ucast s)"

definition word_narrow :: "u32 \<Rightarrow> u16" where
  "word_narrow w = (let lead = ucast (drop_bit 8 w) AND 0x7F in
    if drop_bit 16 w = 2 then 0x8000 OR push_bit 8 lead OR (ucast w AND 0xFF) else push_bit 8 lead OR 1)"

definition word_widen :: "u16 \<Rightarrow> u8 \<Rightarrow> u32" where
  "word_widen n base = (let n = ucast n :: u32 in
    push_bit 16 (1 + drop_bit 15 n) OR push_bit 8 (ucast base OR drop_bit 8 n AND 0x7F) OR n AND 0xFF)"

subsection \<open>The index\<close>

record char_index =
  ci_low :: "u32 list"
  ci_pages :: "u16 list"
  ci_words :: "u16 list"
  ci_base :: u8

text \<open>\<^verbatim>\<open>if v.len() <= at { v.resize(at + 1, 0) }\<close>.\<close>

definition grown :: "nat \<Rightarrow> 'a :: zero list \<Rightarrow> 'a list" where
  "grown at v = v @ replicate (at + 1 - length v) 0"

definition index_put :: "nat \<times> u32 \<Rightarrow> char_index \<Rightarrow> char_index" where
  "index_put cw ix = (case cw of (cp, w) \<Rightarrow>
    if cp < LOW then ix\<lparr>ci_low := (grown cp (ci_low ix))[cp := w]\<rparr>
    else let pages = grown (cp div 256) (ci_pages ix);
        (pages, words) = (if pages ! (cp div 256) = 0
          then let words = ci_words ix @ replicate PAGE 0 in (pages[cp div 256 := of_nat (length words div PAGE)], words)
          else (pages, ci_words ix))
      in ix\<lparr>ci_pages := pages, ci_words := words[(unat (pages ! (cp div 256)) - 1) * PAGE + cp mod 256 := word_narrow w]\<rparr>)"

definition index_build :: "(nat \<times> u32) list \<Rightarrow> u8 \<Rightarrow> char_index" where
  "index_build spelt base = fold index_put spelt \<lparr>ci_low = [], ci_pages = [], ci_words = [], ci_base = base\<rparr>"

definition index_get :: "char_index \<Rightarrow> nat \<Rightarrow> u32" where
  "index_get ix cp = (if cp < length (ci_low ix) then ci_low ix ! cp
    else if cp div 256 < length (ci_pages ix) \<and> ci_pages ix ! (cp div 256) \<noteq> 0
    then let n = ci_words ix ! ((unat (ci_pages ix ! (cp div 256)) - 1) * PAGE + cp mod 256)
      in if n = 0 then 0 else word_widen n (ci_base ix)
    else 0)"

subsection \<open>A code\<close>

record char_code =
  cc_mode :: char_mode
  cc_firsts :: "u16 list"
  cc_index :: char_index
  cc_leads :: "u32 list"
  cc_utf8 :: "u32 list"
  cc_len :: nat

text \<open>\<^verbatim>\<open>packed\<close>: a character's UTF-8 in a little-endian word.\<close>

definition char_packed :: "nat \<Rightarrow> u32" where
  "char_packed c = of_nat (le_nat (utf8_of c))"

definition varint_size :: "nat \<Rightarrow> nat" where
  "varint_size v = div_ceil (bits_of (unat ((of_nat v :: u32) OR 1))) 7"

fun deltas_size :: "nat \<Rightarrow> nat list \<Rightarrow> nat" where
  "deltas_size prev [] = 0"
| "deltas_size prev (c # cs) = varint_size (c - prev) + deltas_size c cs"

text \<open>\<^verbatim>\<open>windows(2)\<close>.\<close>

definition leads_of :: "u16 list \<Rightarrow> (u16 \<times> u16) list" where
  "leads_of firsts = zip firsts (tl firsts)"

definition spelt_lead :: "char_mode \<Rightarrow> nat list \<Rightarrow> nat \<times> u16 \<times> u16 \<Rightarrow> (nat \<times> u32) list" where
  "spelt_lead mode chars lp = (case lp of (l, a, b) \<Rightarrow> let first = unat a; end = unat b; lead = mode_base mode + of_nat l in
    map (\<lambda>(at, c). (c, if end - first = 1 then char_word lead None else char_word lead (Some (of_nat at))))
      (enumerate 0 (take (end - first) (drop first chars))))"

definition cc_new :: "char_mode \<Rightarrow> nat list \<Rightarrow> u16 list \<Rightarrow> char_code" where
  "cc_new mode chars firsts =
    (let pairs = enumerate 0 (leads_of firsts);
       ascii = (if mode = Eight then map (\<lambda>b. (b, char_word (of_nat b) None)) [0..<0x80] else []);
       leads = fold (\<lambda>(l, a, b) ls. ls[unat (mode_base mode) + l := push_bit 9 (ucast a) OR ucast (b - a)]) pairs (replicate 256 0);
       utf8 = map char_packed chars;
       leads = (if mode = Eight then fold (\<lambda>b ls. ls[b := push_bit 9 (of_nat (length chars + b)) OR 1]) [0..<0x80] leads else leads);
       utf8 = (if mode = Eight then utf8 @ map char_packed [0..<0x80] else utf8)
     in \<lparr>cc_mode = mode, cc_firsts = firsts, cc_index = index_build (concat (map (spelt_lead mode chars) pairs) @ ascii) (mode_base mode),
       cc_leads = leads, cc_utf8 = utf8,
       cc_len = 1 + varint_size (length chars) + length firsts + deltas_size 0 chars\<rparr>)"

subsection \<open>Counting a corpus\<close>

record char_tally =
  ty_bytes :: u64
  ty_pages :: "u64 list option list"

definition tally_new :: char_tally where
  "tally_new = \<lparr>ty_bytes = 0, ty_pages = replicate PAGES None\<rparr>"

definition count_char :: "nat \<Rightarrow> u64 list option list \<Rightarrow> u64 list option list" where
  "count_char c pages = (let page = (case pages ! (c div 256) of None \<Rightarrow> replicate 256 0 | Some p \<Rightarrow> p)
    in pages[c div 256 := Some (page[c mod 256 := page ! (c mod 256) + 1])])"

definition tally_add :: "bytes \<Rightarrow> char_tally \<Rightarrow> char_tally" where
  "tally_add key t = \<lparr>ty_bytes = ty_bytes t + of_nat (length key), ty_pages = fold count_char (chars_of key) (ty_pages t)\<rparr>"

definition merge_page :: "u64 list option \<times> u64 list option \<Rightarrow> u64 list option" where
  "merge_page mt = (case mt of (mine, None) \<Rightarrow> mine | (None, Some theirs) \<Rightarrow> Some theirs
    | (Some a, Some b) \<Rightarrow> Some (map2 (+) a b))"

definition tally_merge :: "char_tally \<Rightarrow> char_tally \<Rightarrow> char_tally" where
  "tally_merge other t = \<lparr>ty_bytes = ty_bytes t + ty_bytes other, ty_pages = map merge_page (zip (ty_pages t) (ty_pages other))\<rparr>"

subsection \<open>Choosing a code\<close>

definition page_chars :: "nat \<times> u64 list option \<Rightarrow> (nat \<times> u64) list" where
  "page_chars pp = (case pp of (p, None) \<Rightarrow> []
    | (p, Some page) \<Rightarrow> map (\<lambda>(i, n). (p * PAGE + i, n)) (filter (\<lambda>(i, n). n > 0) (enumerate 0 page)))"

text \<open>The widths of the leads a set of singles needs.\<close>

fun page_widths :: "nat \<Rightarrow> nat \<Rightarrow> nat list" where
  "page_widths page run = (if run = 0 \<or> page = 0 then [] else min run page # page_widths page (run - min run page))"

declare page_widths.simps [simp del]

fun lead_widths :: "bool list \<Rightarrow> nat \<Rightarrow> nat \<Rightarrow> nat list" where
  "lead_widths [] page run = page_widths page run"
| "lead_widths (s # single) page run = (if s then page_widths page run @ 1 # lead_widths single page 0 else lead_widths single page (run + 1))"

definition marked :: "nat \<Rightarrow> nat list \<Rightarrow> nat \<Rightarrow> bool list" where
  "marked n ranked k = fold (\<lambda>i single. single[i := True]) (take k ranked) (replicate n False)"

text \<open>The largest number of singles whose leads fit, by bisection.\<close>

function most_singles :: "nat \<Rightarrow> nat list \<Rightarrow> nat \<Rightarrow> nat \<Rightarrow> nat \<Rightarrow> nat" where
  "most_singles n ranked page lo hi = (if lo < hi then let mid = div_ceil (lo + hi) 2 in
      if length (lead_widths (marked n ranked mid) page 0) \<le> LEADS then most_singles n ranked page mid hi
      else most_singles n ranked page lo (mid - 1)
    else lo)"
  by pat_completeness auto
termination by (relation "measure (\<lambda>(n, ranked, page, lo, hi). hi - lo)") (auto simp: div_ceil_def)

declare most_singles.simps [simp del]

definition is_ascii :: "nat \<Rightarrow> bool" where
  "is_ascii c \<longleftrightarrow> c < 0x80"

definition code_over :: "char_mode \<Rightarrow> (nat \<times> u64) list \<Rightarrow> u64 \<Rightarrow> char_code" where
  "code_over mode spelled occurs =
    (let n = length spelled; ranked = sort_key (\<lambda>i. (- int (unat (snd (spelled ! i))), i)) [0..<n];
       lo = most_singles n ranked (mode_page mode) 0 n;
       covered = sum_list (map (\<lambda>i. snd (spelled ! i)) (take lo ranked));
       single = marked n ranked (if covered * 10 \<ge> occurs then lo else 0);
       firsts = foldl (\<lambda>firsts w. firsts @ [last firsts + of_nat w]) [0] (lead_widths single (mode_page mode) 0)
     in cc_new mode (map fst spelled) firsts)"

definition pays :: "u64 \<Rightarrow> u64 \<Rightarrow> u64 \<Rightarrow> bool" where
  "pays spelt table bytes' \<longleftrightarrow> (spelt + table) * 10 \<le> bytes' * 9 \<and> table * 20 \<le> (if spelt \<le> bytes' then bytes' - spelt else 0)"

definition choose_for :: "char_tally \<Rightarrow> u64 \<Rightarrow> char_code option" where
  "choose_for t bytes' =
    (let alphabet = concat (map page_chars (enumerate 0 (ty_pages t))) in
     if alphabet = [] then None
     else let occurs = sum_list (map snd alphabet); high = dropWhile (\<lambda>(c, n). is_ascii c) alphabet in
       if length alphabet > LEADS * mode_page Seven \<and> length high > LEADS * mode_page Eight then None
       else let code = (if length alphabet \<le> LEADS * mode_page Seven then code_over Seven alphabet occurs else code_over Eight high occurs);
           spelt = sum_list (map (\<lambda>(c, n). n * ucast (drop_bit 16 (index_get (cc_index code) c))) alphabet);
           spelt = ucast ((ucast spelt * ucast bytes' :: 128 word) div ucast (max (ty_bytes t) 1))
         in if pays spelt (of_nat (cc_len code)) bytes' then Some code else None)"

definition tally_choose :: "char_tally \<Rightarrow> char_code option" where
  "tally_choose t = choose_for t (ty_bytes t)"

end
