(* ===== verification/Build_Entry.thy ===== *)
theory Build_Entry
  imports Mine Sort Char_Code
begin

text \<open>
  The builders of \<^verbatim>\<open>src/dict_index/build.rs\<close>: \<^verbatim>\<open>build_with_block\<close>, \<^verbatim>\<open>build_sorted_with_block\<close> and
  \<^verbatim>\<open>build_with_layout\<close> with their checks of the sizes and of the order, down to \<^verbatim>\<open>from_view\<close>. A build that
  takes up a character code, or that mines phrases, leaves the model: its result is \<open>None\<close>. Inside the
  model the result is \<open>Some\<close> outcome, \<open>Refuses\<close> being \<^verbatim>\<open>IndexError::Build\<close>.
\<close>

subsection \<open>The character code a corpus is smallest under\<close>

definition code_counts :: "bytes list \<Rightarrow> nat \<Rightarrow> u64 \<times> u64" where
  "code_counts keys threads = fold (\<lambda>(rb, rh) (b, h). (b + rb, h + rh))
    (in_ranges keys threads (\<lambda>range. fold (\<lambda>k (b, h). (b + of_nat (length k), h + high_bytes k)) range (0, 0))) (0, 0)"

definition choose_code :: "bytes list \<Rightarrow> nat \<Rightarrow> char_code option" where
  "choose_code keys threads = (case code_counts keys threads of (bytes', high) \<Rightarrow>
    if \<not> worth_counting bytes' high then None
    else tally_choose (fold tally_merge (in_ranges keys threads (\<lambda>range. fold tally_add range tally_new)) tally_new))"

subsection \<open>The builders\<close>

definition from_view :: "nat \<Rightarrow> bytes list \<Rightarrow> nat \<Rightarrow> nat \<Rightarrow> dict_index outcome option" where
  "from_view cores view block micro = (case choose_code view (build_threads cores (length view) block) of
    None \<Rightarrow> from_sorted cores view block micro | Some code \<Rightarrow> None)"

definition built_view :: "nat \<Rightarrow> bytes list outcome \<Rightarrow> nat \<Rightarrow> nat \<Rightarrow> dict_index outcome option" where
  "built_view cores view block micro = (case view of Gives keys \<Rightarrow> from_view cores keys block micro
    | Refuses \<Rightarrow> Some Refuses | Panics \<Rightarrow> Some Panics)"

definition build_with_block :: "nat \<Rightarrow> bytes list \<Rightarrow> nat \<Rightarrow> dict_index outcome option" where
  "build_with_block cores items block =
    (if \<not> (1 \<le> block \<and> block \<le> MAX_BLOCK) then Some Refuses
     else built_view cores (sort_distinct items (build_threads cores (length items) block)) block (micro_for block))"

definition build_sorted_with_block :: "nat \<Rightarrow> bytes list \<Rightarrow> nat \<Rightarrow> dict_index outcome option" where
  "build_sorted_with_block cores items block =
    (if \<not> (1 \<le> block \<and> block \<le> MAX_BLOCK) then Some Refuses
     else built_view cores (case distinct_ascending items (build_threads cores (length items) block) of
         (True, view) \<Rightarrow> Gives view | (False, _) \<Rightarrow> Refuses) block (micro_for block))"

definition build_with_layout :: "nat \<Rightarrow> bytes list \<Rightarrow> nat \<Rightarrow> nat \<Rightarrow> dict_index outcome option" where
  "build_with_layout cores items block micro =
    (if \<not> (1 \<le> block \<and> block \<le> MAX_BLOCK) then Some Refuses
     else if micro = 0 \<or> block mod micro \<noteq> 0 then Some Refuses
     else built_view cores (sort_distinct items (build_threads cores (length items) block)) block micro)"

definition build_default :: "nat \<Rightarrow> bytes list \<Rightarrow> dict_index outcome option" where
  "build_default cores items = build_with_block cores items DEFAULT_BLOCK"

definition build_sorted :: "nat \<Rightarrow> bytes list \<Rightarrow> dict_index outcome option" where
  "build_sorted cores items = build_sorted_with_block cores items DEFAULT_BLOCK"

end
