(* ===== verification/Sample_Facts.thy ===== *)
theory Sample_Facts
  imports Dict_Index Suffix_Facts
begin

text \<open>
  What a sample says of the key it was taken from: eight bytes, padded with zeros, in key order.
\<close>

subsection \<open>Words in byte order\<close>

text \<open>The number the first \<open>n\<close> bytes of a key spell, the first one most significant.\<close>

fun be_nat :: "nat \<Rightarrow> bytes \<Rightarrow> nat" where
  "be_nat 0 bs = 0"
| "be_nat (Suc n) [] = 0"
| "be_nat (Suc n) (b # bs) = unat b * 256 ^ n + be_nat n bs"

lemma be_nat_Nil [simp]: "be_nat n [] = 0"
  by (cases n) simp_all

lemma be_nat_less: "be_nat n bs < 256 ^ n"
proof (induction n bs rule: be_nat.induct)
  case (3 n b bs)
  have "(unat b + 1) * 256 ^ n \<le> 256 * (256::nat) ^ n" using unat_u8_less [of b] by (intro mult_le_mono1) linarith
  then have "unat b * 256 ^ n + 256 ^ n \<le> (256::nat) ^ Suc n" by (simp add: algebra_simps)
  then show ?case using 3 by (simp del: power_Suc)
qed simp_all

lemma le_nat_rev_be: "le_nat (rev (take n bs @ replicate (n - length bs) 0)) = be_nat n bs"
proof (induction n bs rule: be_nat.induct)
  case (2 n)
  then show ?case by (simp add: le_nat_append le_nat_replicate_0 flip: replicate_append_same)
next
  case (3 n b bs)
  have "length (rev (take n bs @ replicate (n - length bs) (0::u8))) = n" by simp
  moreover have "rev (take (Suc n) (b # bs) @ replicate (Suc n - length (b # bs)) 0)
    = rev (take n bs @ replicate (n - length bs) 0) @ [b]" by simp
  ultimately show ?case using 3 by (simp only: le_nat_append) (simp add: mult.commute)
qed simp

lemma unat_sample_at: "unat (sample_at key g) = be_nat 8 (drop g key)"
proof -
  define w where "w = take 8 (drop g key) @ replicate (8 - length (drop g key)) 0"
  have "unat (word_at key g) = le_nat w"
    by (simp add: word_at_load8 load8_def w_def unat_u64_of le_nat_append le_nat_replicate_0)
  moreover have "length w = 8" by (simp add: w_def)
  ultimately have "u64_bytes (word_at key g) = w"
    by (metis le_nat_inj le_nat_word_bytes(1) length_word_bytes(1))
  then show ?thesis
    using le_nat_rev_be [of 8 "drop g key"] by (simp add: sample_at_def swap_bytes_def unat_u64_of w_def)
qed

lemma be_nat_mono: "a \<le> b \<Longrightarrow> be_nat n a \<le> be_nat n b" for a b :: bytes
proof (induction n arbitrary: a b)
  case (Suc n)
  show ?case
  proof (cases a)
    case (Cons x xs)
    then obtain y ys where b: "b = y # ys" using Suc.prems by (cases b) auto
    show ?thesis
    proof (cases "x = y")
      case True
      then show ?thesis using Suc Cons b by simp
    next
      case False
      then have "x < y" using Suc.prems Cons b by simp
      then have "unat x + 1 \<le> unat y" by (simp add: word_less_nat_alt)
      then have "(unat x + 1) * 256 ^ n \<le> unat y * 256 ^ n" by (rule mult_le_mono1)
      then show ?thesis using be_nat_less [of n xs] Cons b by simp
    qed
  qed simp
qed simp

text \<open>Keys that share the bytes a sample is taken past order as their samples do.\<close>

lemma sample_mono:
  assumes "take g a = take g b" "a \<le> b"
  shows "sample_at a g \<le> sample_at b g"
proof -
  have "a = take g a @ drop g a" "b = take g a @ drop g b" by (simp, metis append_take_drop_id assms(1))
  then have "drop g a \<le> drop g b" using assms(2) lex_append_left [of "take g a" "drop g a" "drop g b"] by metis
  then show ?thesis by (simp add: word_le_nat_alt unat_sample_at be_nat_mono)
qed

lemma sample_less: "take g a = take g b \<Longrightarrow> sample_at a g < sample_at b g \<Longrightarrow> a < b"
  using sample_mono [of g b a] by (metis leD not_le)

end
