(* ===== verification/Run_Facts.thy ===== *)
theory Run_Facts
  imports Encode Codecs Paircode_Theorems
begin

text \<open>
  A run that was written names its keys: the header codes and the suffix stream \<open>write_run\<close> lays down
  are what the walks of a run read, whatever codec and header code the shard took.
\<close>

subsection \<open>Growing a bit stream\<close>

definition grows :: "bits \<Rightarrow> bits \<Rightarrow> bool" where
  "grows b b' \<longleftrightarrow> bits_ok b' \<and> bits_total b \<le> bits_total b' \<and> (\<exists>k. bits_nat b' = bits_nat b + 2 ^ bits_total b * k)"

definition appends :: "bits \<Rightarrow> nat \<Rightarrow> nat \<Rightarrow> bits \<Rightarrow> bool" where
  "appends b v w b' \<longleftrightarrow> bits_ok b' \<and> bits_total b' = bits_total b + w \<and> bits_nat b' = bits_nat b + 2 ^ bits_total b * v"

lemma grows_refl: "bits_ok b \<Longrightarrow> grows b b"
  by (auto simp: grows_def)

lemma appends_grows: "appends b v w b' \<Longrightarrow> grows b b'"
  by (auto simp: appends_def grows_def)

lemma grows_trans: "grows a b \<Longrightarrow> grows b c \<Longrightarrow> grows a c"
proof -
  assume "grows a b" "grows b c"
  then obtain k k' where k: "bits_nat b = bits_nat a + 2 ^ bits_total a * k" "bits_nat c = bits_nat b + 2 ^ bits_total b * k'"
    "bits_total a \<le> bits_total b" "bits_total b \<le> bits_total c" "bits_ok c" by (auto simp: grows_def)
  obtain j where j: "bits_total b = bits_total a + j" using k(3) by (metis le_Suc_ex)
  have "bits_nat c = bits_nat a + 2 ^ bits_total a * (k + 2 ^ j * k')"
    unfolding k(1,2) by (simp add: j power_add algebra_simps)
  then show ?thesis using k(3-5) by (auto simp: grows_def)
qed

lemma appended_field:
  assumes b: "bits_ok b" and a: "appends b v w b1" "v < 2 ^ w" and g: "grows b1 b2"
  shows "field_at (bits_nat b2) (bits_total b) w = v"
proof -
  obtain k where k: "bits_nat b2 = bits_nat b1 + 2 ^ bits_total b1 * k" using g by (auto simp: grows_def)
  have "field_at (bits_nat b2) (bits_total b) w = field_at (bits_nat b1) (bits_total b) w"
    unfolding k using a(1) by (intro field_at_plus) (simp add: appends_def)
  also have "\<dots> = field_at v 0 w"
    using a(1) field_at_shift [OF bits_nat_less [OF b], of v 0 w] by (simp add: appends_def)
  finally show ?thesis using a(2) by (simp add: field_at_def)
qed

lemma pad_appends:
  assumes "bits_ok b"
  shows "appends b 0 (8 * div_ceil (bits_total b) 8 - bits_total b) (bits_pad b) \<and> b_used (bits_pad b) = 0 \<and>
    bits_total (bits_pad b) = 8 * div_ceil (bits_total b) 8"
proof -
  have m: "unat (b_bits b) < 256"
    using assms power_increasing [of "b_used b" 8 "2::nat"] by (auto simp: bits_ok_def)
  show ?thesis
    using assms m by (auto simp: appends_def bits_pad_def bits_ok_def bits_total_def bits_nat_def div_ceil_def le_nat_append unat_ucast_u8 power_256)
qed

lemma extend_appends:
  assumes "bits_ok b" "b_used b = 0"
  shows "appends b (le_nat bs) (8 * length bs) (bits_extend b bs) \<and> b_used (bits_extend b bs) = 0"
  using assms
  by (simp add: appends_def bits_extend_def bits_ok_def bits_total_def bits_nat_def le_nat_append power_256)

lemma push_all_appends:
  assumes "bits_ok b" "\<forall>c\<in>set cs. c < 2 ^ w" "w \<le> 56"
  shows "appends b (digits w cs) (w * length cs) (push_all w cs b)"
  using push_all_value [OF assms] by (simp add: appends_def)

text \<open>Whole bytes of a stream are a field of its number.\<close>

lemma bytes_of_field:
  assumes "field_at (le_nat sfx) (8 * k) (8 * length bs) = le_nat bs" "k + length bs \<le> length sfx"
  shows "take (length bs) (drop k sfx) = bs"
proof -
  have "le_nat (take (length bs) (drop k sfx)) = field_at (le_nat sfx) (8 * k) (8 * length bs)"
    using assms(2) by (simp add: le_nat_take le_nat_drop field_at_def power_256)
  then have "le_nat (take (length bs) (drop k sfx)) = le_nat bs" using assms(1) by simp
  then show ?thesis using assms(2) by (subst (asm) le_nat_inj) simp_all
qed

subsection \<open>One suffix\<close>

text \<open>
  What a body must be for a codec to go on, and what one suffix puts there: a field of as many units
  as its pair says, which a piece placed over it denotes.
\<close>

definition body_ok :: "codec \<Rightarrow> bits \<Rightarrow> bool" where
  "body_ok codec b \<longleftrightarrow> bits_ok b \<and> (codec_unit codec = 8 \<longrightarrow> b_used b = 0)"

definition puts :: "dict \<Rightarrow> codec \<Rightarrow> (bits \<Rightarrow> bits outcome) \<Rightarrow> nat \<Rightarrow> bytes \<Rightarrow> bool" where
  "puts d codec f len s \<longleftrightarrow> (\<exists>v. v < 2 ^ (len * codec_unit codec) \<and>
    (\<forall>b. body_ok codec b \<longrightarrow> (\<exists>b'. f b = Gives b' \<and> body_ok codec b' \<and> appends b v (len * codec_unit codec) b')) \<and>
    (\<forall>sfx pos. (codec_unit codec = 8 \<longrightarrow> pos mod 8 = 0) \<longrightarrow> pos + len * codec_unit codec \<le> 8 * length sfx \<longrightarrow>
      length sfx * 16 < usize_bound \<longrightarrow> field_at (le_nat sfx) pos (len * codec_unit codec) = v \<longrightarrow>
      piece_denotes d codec \<lparr>pc_stream = sfx, pc_start = pos, pc_units = len\<rparr> s))"

text \<open>The entries of a run as the shard collected them, from entry \<open>i\<close> on.\<close>

fun coded_keys :: "dict \<Rightarrow> codec \<Rightarrow> collected \<Rightarrow> nat \<Rightarrow> bytes \<Rightarrow> bytes list \<Rightarrow> pairs \<Rightarrow> bool" where
  "coded_keys d codec c i prev (k # ks) (p # ps) \<longleftrightarrow> fst p = lcp prev k \<and>
     puts d codec (put_suffix codec c i) (snd p) (drop (lcp prev k) k) \<and> coded_keys d codec c (Suc i) k ks ps"
| "coded_keys d codec c i prev ks ps \<longleftrightarrow> ks = [] \<and> ps = []"

lemma coded_keys_length: "coded_keys d codec c i prev ks ps \<Longrightarrow> length ps = length ks"
  by (induction d codec c i prev ks ps rule: coded_keys.induct) auto


definition escape_of :: "(nat \<times> nat) option \<Rightarrow> (nat \<times> nat) \<times> bytes \<Rightarrow> bool" where
  "escape_of d q \<longleftrightarrow> (case q of (p, ch) \<Rightarrow> d = Some p \<and> ch = [] \<or> d = None \<and> ch = varint (fst p) @ varint (snd p))"

text \<open>A cursor over a finished run's suffixes.\<close>

definition over_run :: "codec \<Rightarrow> bits \<Rightarrow> entries \<Rightarrow> bool" where
  "over_run codec bf e \<longleftrightarrow> le_nat (en_sfx e) = bits_nat bf \<and> bits_total bf \<le> 8 * length (en_sfx e) \<and>
    length (en_sfx e) * 16 < usize_bound \<and> en_end_bits e = 8 * length (en_sfx e) \<and> en_unit e = codec_unit codec \<and>
    en_max_units e = 8 * length (en_sfx e) div codec_unit codec"

lemma escape_appends:
  assumes "body_ok codec b" and b1_def: "b1 = (if ch \<noteq> [] then bits_extend (bits_pad b) ch else b)"
  shows "body_ok codec b1" "grows b b1"
    "ch \<noteq> [] \<Longrightarrow> bits_total b1 = 8 * (div_ceil (bits_total b) 8 + length ch)"
    "ch \<noteq> [] \<Longrightarrow> grows b1 bf \<Longrightarrow> field_at (bits_nat bf) (8 * div_ceil (bits_total b) 8) (8 * length ch) = le_nat ch"
proof -
  have ok: "bits_ok b" using assms(1) by (simp add: body_ok_def)
  note pad = pad_appends [OF ok]
  have okp: "bits_ok (bits_pad b)" using pad by (simp add: appends_def)
  note ext = extend_appends [OF okp, of ch]
  show "body_ok codec b1" using assms(1) pad ext by (auto simp: b1_def body_ok_def appends_def)
  show "grows b b1"
    using ok pad ext by (auto simp: b1_def intro: grows_refl grows_trans [OF appends_grows appends_grows])
  show "ch \<noteq> [] \<Longrightarrow> bits_total b1 = 8 * (div_ceil (bits_total b) 8 + length ch)"
    using pad ext by (simp add: b1_def appends_def)
  show "ch \<noteq> [] \<Longrightarrow> grows b1 bf \<Longrightarrow> field_at (bits_nat bf) (8 * div_ceil (bits_total b) 8) (8 * length ch) = le_nat ch"
    using pad ext appended_field [OF okp, of "le_nat ch" "8 * length ch" b1 bf] le_nat_less_power2 [of ch] by (simp add: b1_def)
qed

text \<open>The escape at the head of a suffix is read where it was written.\<close>

lemma escape_read:
  assumes "field_at (le_nat sfx) (8 * k) (8 * length ch) = le_nat ch" "k + length ch \<le> length sfx"
    "ch = varint l @ varint len" "l < usize_bound" "len < usize_bound"
  shows "varint_at sfx k = Some (l, k + varint_len l)" "varint_at sfx (k + varint_len l) = Some (len, k + length ch)"
proof -
  have t: "take (length ch) (drop k sfx) = ch" by (rule bytes_of_field [OF assms(1,2)])
  have d: "drop k sfx = ch @ drop (k + length ch) sfx"
    using append_take_drop_id [of "length ch" "drop k sfx"] t by (simp add: add.commute)
  have "sfx = take k sfx @ drop k sfx" by simp
  then have s: "sfx = take k sfx @ varint l @ varint len @ drop (k + length ch) sfx" unfolding d by (simp add: assms(3))
  have k: "length (take k sfx) = k" using assms(2) by simp
  have b: "l < 2 ^ 64" "len < 2 ^ 64" using assms(4,5) by (simp_all add: usize_bound_def)
  show "varint_at sfx k = Some (l, k + varint_len l)"
    using varint_at_put [OF b(1), of "take k sfx" "varint len @ drop (k + length ch) sfx"] k s by simp
  show "varint_at sfx (k + varint_len l) = Some (len, k + length ch)"
    using varint_at_put [OF b(2), of "take k sfx @ varint l" "drop (k + length ch) sfx"] k s by (simp add: length_varint assms(3))
qed

lemma varint_ne: "varint v \<noteq> []"
  using varint_len_pos [of v] length_varint [of v] by auto

lemma pair_as_next: "next_code r = (code, r') \<Longrightarrow> pair_as frame r' x = pair_as frame r x \<and> rd_is_frame r' = rd_is_frame r"
  by (auto simp: next_code_def pair_as_def)


lemma run_loop_runs:
  assumes "coded_keys d codec c i prev ks ps" "pairs_fit ps" "push_pairs w ps = Some (w', chs)" "body_ok codec b"
    and unit: "1 \<le> codec_unit codec"
  shows "\<exists>bf. run_loop codec c i ps w b = Gives (w', bf) \<and> body_ok codec bf \<and> grows b bf \<and>
    (\<forall>e. over_run codec bf e \<longrightarrow> en_reach e = bits_total b \<longrightarrow>
      list_all2 escape_of (read_pairs (en_codes e) (length ps)) (zip ps chs) \<longrightarrow> run_of (piece_denotes d codec) e prev ks)"
  using assms(1-4)
proof (induction ps arbitrary: i prev ks w chs b)
  case Nil
  have "ks = []" using Nil.prems(1) by (cases ks) auto
  moreover have "w' = w" using Nil.prems(3) by simp
  ultimately show ?case using Nil by (auto simp: over_run_def body_ok_def intro: grows_refl)
next
  case (Cons p ps)
  obtain l len where p: "p = (l, len)" by fastforce
  obtain k ks' where ks: "ks = k # ks'" using Cons.prems(1) by (cases ks) auto
  have l: "l = lcp prev k" and pt: "puts d codec (put_suffix codec c i) len (drop l k)"
    and rest: "coded_keys d codec c (Suc i) k ks' ps" using Cons.prems(1) by (auto simp: ks p)
  have fit: "l < usize_bound" "len < usize_bound" "pairs_fit ps" using Cons.prems(2) by (auto simp: pairs_fit_def p)
  obtain w1 ch chs' where w1: "pw_push w l len [] = Some (w1, ch)" "push_pairs w1 ps = Some (w', chs')" "chs = ch # chs'"
    using Cons.prems(3) by (auto simp: p split: option.splits)
  define b1 where "b1 = (if ch \<noteq> [] then bits_extend (bits_pad b) ch else b)"
  note esc = escape_appends [OF Cons.prems(4) b1_def]
  define u where "u = len * codec_unit codec"
  obtain v where v: "v < 2 ^ u" "\<And>b. body_ok codec b \<Longrightarrow> \<exists>b'. put_suffix codec c i b = Gives b' \<and> body_ok codec b' \<and> appends b v u b'"
    "\<And>sfx pos. (codec_unit codec = 8 \<Longrightarrow> pos mod 8 = 0) \<Longrightarrow> pos + u \<le> 8 * length sfx \<Longrightarrow> length sfx * 16 < usize_bound \<Longrightarrow>
      field_at (le_nat sfx) pos u = v \<Longrightarrow> piece_denotes d codec \<lparr>pc_stream = sfx, pc_start = pos, pc_units = len\<rparr> (drop l k)"
    using pt by (auto simp: puts_def u_def)
  obtain b2 where b2: "put_suffix codec c i b1 = Gives b2" "body_ok codec b2" "appends b1 v u b2"
    using v(2) [OF esc(1)] by blast
  obtain bf where bf: "run_loop codec c (Suc i) ps w1 b2 = Gives (w', bf)" "body_ok codec bf" "grows b2 bf"
    "\<And>e. over_run codec bf e \<Longrightarrow> en_reach e = bits_total b2 \<Longrightarrow>
      list_all2 escape_of (read_pairs (en_codes e) (length ps)) (zip ps chs') \<Longrightarrow> run_of (piece_denotes d codec) e k ks'"
    using Cons.IH [OF rest fit(3) w1(2) b2(2)] by blast
  have g12: "grows b1 bf" using grows_trans [OF appends_grows [OF b2(3)] bf(3)] .
  have g: "grows b bf" using grows_trans [OF esc(2) g12] .
  have total: "bits_total b1 + u \<le> bits_total bf" using b2(3) bf(3) by (auto simp: appends_def grows_def)
  have run: "run_of (piece_denotes d codec) e prev ks"
    if e: "over_run codec bf e" "en_reach e = bits_total b" "list_all2 escape_of (read_pairs (en_codes e) (length (p # ps))) (zip (p # ps) chs)" for e
  proof -
    obtain code r' where nc: "next_code (en_codes e) = (code, r')" by fastforce
    have sfx: "le_nat (en_sfx e) = bits_nat bf" "bits_total bf \<le> 8 * length (en_sfx e)" "length (en_sfx e) * 16 < usize_bound"
      "en_end_bits e = 8 * length (en_sfx e)" "en_unit e = codec_unit codec" "en_max_units e = 8 * length (en_sfx e) div codec_unit codec"
      using e(1) by (simp_all add: over_run_def)
    have hd: "escape_of (pair_as (en_is_frame e) r' code) (p, ch)" and tl: "list_all2 escape_of (read_pairs r' (length ps)) (zip ps chs')"
      using e(3) pair_as_next [OF nc] by (simp_all add: nc w1(3) en_is_frame_def)
    have off: "en_off e = bits_total b" "bits_total b \<le> bits_total b1"
      using e(2) sfx(2,4) g esc(2) by (auto simp: en_off_def grows_def)
    have max: "len \<le> en_max_units e"
      using total sfx(2,6) unit by (simp add: u_def less_eq_div_iff_mult_less_eq)
    have head: "head_within (en_is_frame e) e = (Some (l, len), e\<lparr>en_codes := r', en_reach := bits_total b1\<rparr>)"
    proof (cases "ch = []")
      case True
      then have "pair_as (en_is_frame e) r' code = Some (l, len)" using hd by (auto simp: escape_of_def p varint_ne)
      then show ?thesis using max e(2) True by (simp add: head_within_def nc Let_def b1_def)
    next
      case False
      then have n: "pair_as (en_is_frame e) r' code = None" and ch: "ch = varint l @ varint len" using hd by (auto simp: escape_of_def p)
      define k0 where "k0 = div_ceil (bits_total b) 8"
      have k: "k0 + length ch \<le> length (en_sfx e)" using esc(3) [OF False] total sfx(2) by (simp add: k0_def)
      have "field_at (le_nat (en_sfx e)) (8 * k0) (8 * length ch) = le_nat ch"
        using esc(4) [OF False g12] by (simp add: sfx(1) k0_def)
      note rd = escape_read [OF this k ch fit(1,2)]
      show ?thesis
        using max esc(3) [OF False] rd by (simp add: head_within_def nc Let_def n en_off_def [of "e\<lparr>en_codes := r'\<rparr>"]
            off(1) [unfolded en_off_def] k0_def [symmetric] mult.commute)
    qed
    have fld: "field_at (le_nat (en_sfx e)) (bits_total b1) u = v"
      using appended_field [OF _ b2(3) v(1) bf(3)] esc(1) by (simp add: sfx(1) body_ok_def)
    have align: "codec_unit codec = 8 \<Longrightarrow> bits_total b1 mod 8 = 0" using esc(1) by (simp add: body_ok_def bits_total_def)
    have den: "piece_denotes d codec \<lparr>pc_stream = en_sfx e, pc_start = bits_total b1, pc_units = len\<rparr> (drop l k)"
      by (rule v(3) [OF align order_trans [OF total sfx(2)] sfx(3) fld])
    have reach: "moved (bits_total b1) len (codec_unit codec) = bits_total b2"
      using total sfx(2,3) b2(3) by (simp add: moved_def usize_add_def u_def appends_def)
    define e' where "e' = en_skip len (e\<lparr>en_codes := r', en_reach := bits_total b1\<rparr>)"
    have "run_of (piece_denotes d codec) e' k ks'"
      by (rule bf(4)) (use e(1) tl reach in \<open>simp_all add: e'_def en_skip_def over_run_def\<close>)
    then show ?thesis
      using head den total sfx(2,4) off e(2) by (simp add: ks l e'_def)
  qed
  have "run_loop codec c i (p # ps) w b = Gives (w', bf)" using w1(1) b2(1) bf(1) by (simp add: p b1_def Let_def)
  then show ?case using bf(2) g run by blast
qed


lemma writer_reads_back:
  assumes "code_wf code" "run_in code ps" "pairs_fit ps" "writer_new code ps w = (wr, w')"
  obtains wr' chs where "push_pairs wr ps = Some (wr', chs)" "\<And>rest. reads_back code (pw_finish wr' []) rest ps chs"
proof -
  have "\<exists>wr' chs. push_pairs wr ps = Some (wr', chs) \<and> reads_back code (pw_finish wr' []) rest ps chs" for rest
  proof (cases code)
    case (Frame f)
    show ?thesis using frame_run [of f ps w wr w' rest] assms Frame by metis
  next
    case (Table tw tab)
    show ?thesis using table_run [of tw tab ps w wr w' rest] assms Table by metis
  qed
  then show ?thesis using that by (metis option.inject prod.inject)
qed

lemma reader_of_kind:
  "reader_of code data n = Some (r, sfx) \<Longrightarrow> rd_is_frame r = (case code of Frame _ \<Rightarrow> True | Table _ _ \<Rightarrow> False)"
  by (cases code) (auto simp: reader_of_def reader_at_def Let_def split: option.splits)

text \<open>A run as \<open>write_run\<close> leaves it, and what its readers make of it.\<close>

definition written_run :: "dict \<Rightarrow> codec \<Rightarrow> pair_code \<Rightarrow> bytes \<Rightarrow> bytes \<Rightarrow> bytes list \<Rightarrow> bool" where
  "written_run d codec code run prev ks \<longleftrightarrow> (let e = entries_of code codec run (Suc (length ks)) in
    run_of (piece_denotes d codec) e prev ks \<and> en_count e = length ks \<and> en_reach e = 0 \<and>
    (ks \<noteq> [] \<longrightarrow> en_unit e = codec_unit codec \<and> en_is_frame e = (case code of Frame _ \<Rightarrow> True | Table _ _ \<Rightarrow> False)))"

lemma written_run_Nil: "written_run d codec code [] prev []"
  by (auto simp: written_run_def entries_of_def entries_empty_def Let_def reader_of_def reader_frame_def reader_at_def
      get_from_def split: pair_code.splits option.splits prod.splits)

lemma write_run_written:
  assumes ck: "coded_keys d codec c first prev ks ps" and fit: "pairs_fit ps" and unit: "1 \<le> codec_unit codec" "codec_unit codec \<le> 8"
    and code: "ps \<noteq> [] \<Longrightarrow> code_wf code \<and> run_in code ps"
  obtains run widths' where "write_run code codec c ps first (out, widths) = Gives (out @ run, widths')"
    "length run * 16 < usize_bound \<Longrightarrow> written_run d codec code run prev ks"
proof (cases "ps = []")
  case True
  then have "ks = []" using coded_keys_length [OF ck] by simp
  then show ?thesis using that [of "[]"] written_run_Nil True by (simp add: write_run_def)
next
  case False
  note len = coded_keys_length [OF ck]
  obtain w w' where w: "writer_new code ps widths = (w, w')" by fastforce
  obtain w1 chs where w1: "push_pairs w ps = Some (w1, chs)" "\<And>rest. reads_back code (pw_finish w1 []) rest ps chs"
    using writer_reads_back [OF _ _ fit w] code [OF False] by blast
  have b0: "body_ok codec bits_new" by (simp add: body_ok_def bits_new_def bits_ok_def)
  obtain bf where bf: "run_loop codec c first ps w bits_new = Gives (w1, bf)" "body_ok codec bf"
    "\<And>e. over_run codec bf e \<Longrightarrow> en_reach e = 0 \<Longrightarrow>
      list_all2 escape_of (read_pairs (en_codes e) (length ps)) (zip ps chs) \<Longrightarrow> run_of (piece_denotes d codec) e prev ks"
    using run_loop_runs [OF ck fit w1(1) b0 unit(1)] by auto
  define hdr sfx where "hdr = pw_finish w1 []" and "sfx = fst (bits_drain bf [])"
  have okf: "bits_ok bf" using bf(2) by (simp add: body_ok_def)
  have wr: "write_run code codec c ps first (out, widths) = Gives (out @ hdr @ sfx, w')"
    using bf(1) bits_drain_value(4) [OF okf, of "pw_finish w1 out"] by (simp add: write_run_def False w hdr_def sfx_def pw_finish_def)
  have "written_run d codec code (hdr @ sfx) prev ks" if small: "length (hdr @ sfx) * 16 < usize_bound"
  proof -
    obtain r where r: "reader_of code (hdr @ sfx) (length ps) = Some (r, sfx)"
      "list_all2 escape_of (read_pairs r (length ps)) (zip ps chs)"
      using w1(2) [of sfx] by (auto simp: reads_back_def hdr_def escape_of_def [abs_def] split: option.splits)
    define e where "e = entries_of code codec (hdr @ sfx) (Suc (length ks))"
    have sm: "length sfx * 16 < usize_bound" "length sfx * 8 \<le> usize_max" using small by (simp_all add: usize_max_def)
    have e: "e = \<lparr>en_codes = r, en_sfx = sfx, en_at = 0, en_count = length ks, en_reach = 0, en_end_bits = 8 * length sfx,
        en_max_units = 8 * length sfx div codec_unit codec, en_unit = codec_unit codec\<rparr>"
      using r(1) sm by (simp add: e_def entries_of_def len [symmetric] sat_mul_def mult.commute Let_def)
    have "run_of (piece_denotes d codec) e prev ks"
      using bits_drain_value(1,2) [OF okf] div_ceil_mult_ge [of 8 "bits_total bf"] sm(1) r(2)
      by (intro bf(3)) (simp_all add: e over_run_def sfx_def [symmetric])
    then show ?thesis
      using reader_of_kind [OF r(1)] by (simp add: written_run_def Let_def e_def [symmetric]) (simp add: e en_is_frame_def)
  qed
  then show ?thesis using that [OF wr] by simp
qed

end
