(* ===== verification/Collect_Facts.thy ===== *)
theory Collect_Facts
  imports Run_Facts
begin

text \<open>
  What a shard collects is what it writes: every suffix lies in the arenas under the raw, the
  symbol-coded and the packed form alike, and the runs of a block are its restarts and its microblocks.
\<close>

subsection \<open>A suffix under each codec\<close>

lemma bytes_piece:
  assumes "pos mod 8 = 0" "pos + length bs * 8 \<le> 8 * length sfx" "field_at (le_nat sfx) pos (length bs * 8) = le_nat bs"
  shows "piece_in \<lparr>pc_stream = sfx, pc_start = pos, pc_units = length bs\<rparr>"
    "piece_bytes \<lparr>pc_stream = sfx, pc_start = pos, pc_units = length bs\<rparr> = bs"
proof -
  define k where "k = pos div 8"
  have k: "pos = 8 * k" using mult_div_mod_eq [of 8 pos] assms(1) by (simp add: k_def)
  then have b: "k + length bs \<le> length sfx" using assms(2) by simp
  show "piece_in \<lparr>pc_stream = sfx, pc_start = pos, pc_units = length bs\<rparr>" using assms(1) b by (simp add: piece_in_def k_def)
  have "field_at (le_nat sfx) (8 * k) (8 * length bs) = le_nat bs" using assms(3) by (simp add: k mult.commute)
  then show "piece_bytes \<lparr>pc_stream = sfx, pc_start = pos, pc_units = length bs\<rparr> = bs"
    using bytes_of_field [OF _ b] b by (simp add: piece_bytes_def get_range_def Let_def k_def [symmetric])
qed

lemma puts_bytes:
  assumes "codec_unit codec = 8" "\<And>b. f b = Gives (bits_extend b cs)"
    and "\<And>sfx pos. length sfx * 16 < usize_bound \<Longrightarrow> piece_in \<lparr>pc_stream = sfx, pc_start = pos, pc_units = length cs\<rparr> \<Longrightarrow>
      piece_bytes \<lparr>pc_stream = sfx, pc_start = pos, pc_units = length cs\<rparr> = cs \<Longrightarrow>
      piece_denotes d codec \<lparr>pc_stream = sfx, pc_start = pos, pc_units = length cs\<rparr> s"
  shows "puts d codec f (length cs) s"
  unfolding puts_def assms(1)
proof (intro exI [of _ "le_nat cs"] conjI allI impI)
  show "le_nat cs < 2 ^ (length cs * 8)" using le_nat_less_power2 [of cs] by (simp add: mult.commute)
  fix b assume "body_ok codec b"
  then have "bits_ok b" "b_used b = 0" using assms(1) by (simp_all add: body_ok_def)
  from extend_appends [OF this, of cs] show "\<exists>b'. f b = Gives b' \<and> body_ok codec b' \<and> appends b (le_nat cs) (length cs * 8) b'"
    by (simp add: assms(2) body_ok_def appends_def mult.commute)
qed (auto intro!: assms(3) bytes_piece)

lemma puts_symbols:
  assumes "table_wf t" "coded_at c i = Gives cs" "stream_ref (symbols_next t) (Suc (length s)) cs = Some s"
  shows "puts d (Symbols t None) (put_suffix (Symbols t None) c i) (length cs) s"
  by (rule puts_bytes) (use assms in \<open>simp_all add: codec_unit_def put_suffix_def piece_denotes_def symbols_denotes_def\<close>)

lemma puts_tiered:
  assumes "table_wf t" "chunks_ok d" "length (t_words t) \<le> unat (sp_symbols sp)" "tier_at c i = Gives cs"
    "stream_ref (tiered_next t sp d) (Suc (length s)) cs = Some s"
  shows "puts d (Symbols t (Some sp)) (put_suffix (Symbols t (Some sp)) c i) (length cs) s"
  by (rule puts_bytes) (use assms in \<open>simp_all add: codec_unit_def put_suffix_def piece_denotes_def tiered_denotes_def\<close>)

lemma field_at_field:
  assumes "k + w \<le> m"
  shows "field_at (field_at n pos m) k w = field_at n (pos + k) w"
proof -
  have "field_at (field_at n pos m) k w = field_at (n div 2 ^ pos mod 2 ^ m + 2 ^ m * (n div 2 ^ pos div 2 ^ m)) k w"
    unfolding field_at_plus [OF assms] by (simp add: field_at_def)
  also have "\<dots> = field_at (n div 2 ^ pos) k w" by simp
  finally show ?thesis by (simp add: field_at_def power_add div_mult2_eq)
qed

lemma field_holds:
  assumes "w \<le> 8" "\<forall>c\<in>set cs. c < 2 ^ w" "pos + w * length cs \<le> 8 * length sfx"
    "field_at (le_nat sfx) pos (w * length cs) = digits w cs"
  shows "holds \<lparr>c_bytes = sfx, c_start = pos, c_width = w, c_len = length cs\<rparr> cs"
  unfolding holds_def
proof (intro conjI allI impI)
  fix i assume i: "i < length cs"
  then have iw: "w * i + w \<le> w * length cs" by (metis Suc_leI add.commute mult_Suc_right mult_le_mono2)
  have "field_at (le_nat sfx) (pos + w * i) w = cs ! i"
    using field_at_field [OF iw, of "le_nat sfx" pos] assms(4) digits_field [OF assms(2) i] by simp
  then show "codes_at \<lparr>c_bytes = sfx, c_start = pos, c_width = w, c_len = length cs\<rparr> i = Some (cs ! i)"
    using codes_at_field [of i "\<lparr>c_bytes = sfx, c_start = pos, c_width = w, c_len = length cs\<rparr>"] i iw assms(1,3) by (simp add: mult.commute)
qed simp

lemma puts_packed:
  assumes wf: "alphabet_wf a" and cov: "covers a s" and raw: "raw_at c i = Gives s"
  shows "puts d (Packed a) (put_suffix (Packed a) c i) (codes_for a s) s"
proof -
  define w cs where "w = a_width a" and "cs = codes_of a s"
  have "tables_ok w (a_one a) (a_two a)" using wf by (simp add: alphabet_wf_def w_def)
  note w = tables_sizes(1,2) [OF this]
  have cs: "\<forall>c\<in>set cs. c < 2 ^ w" "length cs = codes_for a s"
    using codes_of_less [OF wf] by (simp_all add: cs_def w_def length_codes_of)
  show ?thesis
    unfolding puts_def
  proof (intro exI [of _ "digits w cs"] conjI allI impI)
    have u: "codes_for a s * codec_unit (Packed a) = w * length cs" by (simp add: codec_unit_def w_def [symmetric] cs(2) mult.commute)
    show "digits w cs < 2 ^ (codes_for a s * codec_unit (Packed a))" unfolding u by (rule digits_less [OF cs(1)])
    show "\<exists>b'. put_suffix (Packed a) c i b = Gives b' \<and> body_ok (Packed a) b' \<and> appends b (digits w cs) (codes_for a s * codec_unit (Packed a)) b'"
      if b: "body_ok (Packed a) b" for b
    proof -
      have ap: "appends b (digits w cs) (w * length cs) (push_all w cs b)"
        using push_all_appends [OF _ cs(1)] b w by (simp add: body_ok_def)
      moreover have "b_used (push_all w cs b) = 0" if "w = 8"
      proof -
        have "b_used b = 0" using b that by (simp add: body_ok_def codec_unit_def w_def)
        then have "(8 * length (b_out (push_all w cs b)) + b_used (push_all w cs b)) mod 8 = 0"
          using ap that by (simp add: appends_def bits_total_def)
        then show ?thesis using ap by (simp add: appends_def bits_ok_def)
      qed
      ultimately show ?thesis
        unfolding u using raw by (simp add: put_suffix_def encode_into_def encode_codes cs_def w_def body_ok_def appends_def codec_unit_def Let_def)
    qed
    show "piece_denotes d (Packed a) \<lparr>pc_stream = sfx, pc_start = pos, pc_units = codes_for a s\<rparr> s"
      if h: "pos + codes_for a s * codec_unit (Packed a) \<le> 8 * length sfx" "length sfx * 16 < usize_bound"
        "field_at (le_nat sfx) pos (codes_for a s * codec_unit (Packed a)) = digits w cs" for sfx pos
      using field_holds [OF w(2) cs(1), of pos sfx] h cs wf cov unfolding u
      by (simp add: piece_denotes_def packed_denotes_def piece_codes_def cs_def w_def)
  qed
qed

end
