(* ===== verification/Order_Facts.thy ===== *)
theory Order_Facts
  imports Sample_Facts Collect_Facts
begin

text \<open>
  Positions in an ascending list: how many elements are not above a probe, read off the list, off its
  chunks, by a bisection over the heads of the chunks and by a gallop over equal samples.
\<close>

subsection \<open>Counting up to a probe\<close>

definition at_most :: "'a::linorder \<Rightarrow> 'a list \<Rightarrow> nat" where
  "at_most p xs = length (takeWhile (\<lambda>x. x \<le> p) xs)"

definition below :: "'a::linorder \<Rightarrow> 'a list \<Rightarrow> nat" where
  "below p xs = length (takeWhile (\<lambda>x. x < p) xs)"

lemma at_most_le: "at_most p xs \<le> length xs"
  by (simp add: at_most_def length_takeWhile_le)

lemma below_le: "below p xs \<le> length xs"
  by (simp add: below_def length_takeWhile_le)

lemma at_most_simps [simp]: "at_most p [] = 0" "at_most p (x # xs) = (if x \<le> p then Suc (at_most p xs) else 0)"
  by (simp_all add: at_most_def)

lemma below_simps [simp]: "below p [] = 0" "below p (x # xs) = (if x < p then Suc (below p xs) else 0)"
  by (simp_all add: below_def)

lemma less_at_most_iff: "sorted xs \<Longrightarrow> i < length xs \<Longrightarrow> i < at_most p xs \<longleftrightarrow> xs ! i \<le> p"
proof (induction xs arbitrary: i)
  case (Cons x xs)
  then show ?case by (cases i) (auto intro: order_trans)
qed simp

lemma less_below_iff: "sorted xs \<Longrightarrow> i < length xs \<Longrightarrow> i < below p xs \<longleftrightarrow> xs ! i < p"
proof (induction xs arbitrary: i)
  case (Cons x xs)
  then show ?case by (cases i) (auto intro: le_less_trans)
qed simp

lemma at_most_eqI:
  assumes "sorted xs" "l \<le> length xs" "\<And>i. i < l \<Longrightarrow> xs ! i \<le> p" "l < length xs \<Longrightarrow> p < xs ! l"
  shows "at_most p xs = l"
proof (rule antisym)
  show "l \<le> at_most p xs"
  proof (cases l)
    case (Suc k)
    then show ?thesis using less_at_most_iff [OF assms(1), of k p] assms(2,3) by auto
  qed simp
  show "at_most p xs \<le> l"
  proof (rule ccontr)
    assume "\<not> at_most p xs \<le> l"
    then show False using less_at_most_iff [OF assms(1), of l p] assms(4) at_most_le [of p xs] by simp
  qed
qed

lemma at_most_drop:
  assumes "sorted xs" "n < length xs" "xs ! n \<le> p"
  shows "at_most p xs = n + at_most p (drop n xs)"
proof (rule at_most_eqI [OF assms(1)])
  let ?n = "at_most p (drop n xs)"
  have sd: "sorted (drop n xs)" using assms(1) by (simp add: sorted_wrt_drop)
  show "n + ?n \<le> length xs" using at_most_le [of p "drop n xs"] assms(2) by simp
  show "xs ! i \<le> p" if "i < n + ?n" for i
  proof (cases "i \<le> n")
    case True
    then have "xs ! i \<le> xs ! n" using assms(1,2) by (intro sorted_nth_mono)
    then show ?thesis using assms(3) by simp
  next
    case False
    then have "i - n < ?n" "i - n < length (drop n xs)" using that at_most_le [of p "drop n xs"] by simp_all
    then show ?thesis using less_at_most_iff [OF sd, of "i - n" p] False by simp
  qed
  show "p < xs ! (n + ?n)" if l: "n + ?n < length xs"
  proof -
    have "\<not> ?n < ?n" by simp
    then have "\<not> drop n xs ! ?n \<le> p" using less_at_most_iff [OF sd, of ?n p] l by simp
    then show ?thesis using l by (simp add: not_le)
  qed
qed

lemma below_at_most:
  "sorted_wrt (<) xs \<Longrightarrow> below p xs = (if p \<in> set xs then at_most p xs - 1 else at_most p xs)"
proof (induction xs)
  case (Cons x xs)
  consider "x < p" | "x = p" | "p < x" by (metis less_linear)
  then show ?case
  proof cases
    case 1
    then have "p \<in> set xs \<Longrightarrow> at_most p xs \<noteq> 0"
      using less_at_most_iff [OF strict_sorted_imp_sorted, of xs 0 p] Cons.prems by (cases xs) auto
    then show ?thesis using 1 Cons by auto
  next
    case 2
    then show ?thesis using Cons.prems by (cases xs) auto
  qed (use Cons.prems in auto)
qed simp

lemma hit_at_most:
  assumes "sorted_wrt (<) xs" "at_most p xs = Suc i"
  shows "p \<in> set xs \<longleftrightarrow> xs ! i = p"
proof
  have s: "sorted xs" using assms(1) by (rule strict_sorted_imp_sorted)
  have i: "i < length xs" using at_most_le [of p xs] assms(2) by simp
  show "p \<in> set xs" if "xs ! i = p" using that nth_mem [OF i] by simp
  show "xs ! i = p" if mem: "p \<in> set xs"
  proof -
    obtain k where k: "k < length xs" "xs ! k = p" using mem by (auto simp: in_set_conv_nth)
    have "k \<le> i" using less_at_most_iff [OF s k(1), of p] k(2) assms(2) by simp
    moreover have "xs ! i \<le> p" using less_at_most_iff [OF s i, of p] assms(2) by simp
    moreover have "k < i \<Longrightarrow> xs ! k < xs ! i" using assms(1) i by (simp add: sorted_wrt_iff_nth_less)
    ultimately show ?thesis using k(2) by (metis leD le_neq_implies_less)
  qed
qed

subsection \<open>Chunks of an ascending list\<close>

lemma chunks_unfold: "0 < n \<Longrightarrow> xs \<noteq> [] \<Longrightarrow> chunks n xs = take n xs # chunks n (drop n xs)"
  by (simp add: chunks.simps)

lemma chunks_nonempty: "c \<in> set (chunks n xs) \<Longrightarrow> c \<noteq> []"
proof (induction n xs rule: chunks.induct)
  case (1 n xs)
  then show ?case by (subst (asm) (2) chunks.simps) (auto split: if_splits)
qed

lemma hd_chunks: "0 < n \<Longrightarrow> xs \<noteq> [] \<Longrightarrow> hd (chunks n xs) = take n xs"
  by (simp add: chunks_unfold)

lemma chunks_eq_Nil [simp]: "chunks n xs = [] \<longleftrightarrow> n = 0 \<or> xs = []"
  by (simp add: chunks.simps)

lemma hd_drop_conv: "n < length xs \<Longrightarrow> hd (drop n xs) = xs ! n"
  by (rule hd_drop_conv_nth)

text \<open>A chunk is its slice of the list, and the heads are a sub-list.\<close>

lemma nth_chunk:
  assumes "0 < n" "j < length (chunks n xs)"
  shows "length (chunks n xs ! j) = min n (length xs - j * n)" "j * n < length xs"
    "i < length (chunks n xs ! j) \<Longrightarrow> chunks n xs ! j ! i = xs ! (j * n + i)" "hd (chunks n xs ! j) = xs ! (j * n)"
proof -
  note c = nth_chunks [OF assms]
  have ne: "chunks n xs ! j \<noteq> []" using chunks_nonempty nth_mem [OF assms(2)] by blast
  show lt: "j * n < length xs" using ne by (simp add: c)
  show "length (chunks n xs ! j) = min n (length xs - j * n)" by (simp add: c)
  show "i < length (chunks n xs ! j) \<Longrightarrow> chunks n xs ! j ! i = xs ! (j * n + i)" using lt by (simp add: c)
  show "hd (chunks n xs ! j) = xs ! (j * n)" using lt assms(1) by (simp add: c hd_conv_nth)
qed

lemma chunk_sorted:
  assumes "sorted_wrt (<) xs" "0 < n" "j < length (chunks n xs)"
  shows "sorted_wrt (<) (chunks n xs ! j)"
  unfolding nth_chunks [OF assms(2,3)] using assms(1) by (simp add: sorted_wrt_take sorted_wrt_drop)

lemma chunk_heads_sorted:
  assumes "sorted_wrt (<) xs" "0 < n"
  shows "sorted_wrt (<) (map hd (chunks n xs))"
  unfolding sorted_wrt_iff_nth_less
proof (intro allI impI)
  fix i j assume ij: "i < j" "j < length (map hd (chunks n xs))"
  then have "i * n < j * n" "j * n < length xs" using assms(2) nth_chunk(2) [of n j xs] by simp_all
  then have "xs ! (i * n) < xs ! (j * n)" using assms(1) by (simp add: sorted_wrt_iff_nth_less)
  then show "map hd (chunks n xs) ! i < map hd (chunks n xs) ! j" using ij nth_chunk(4) [OF assms(2), of i xs] nth_chunk(4) [OF assms(2), of j xs] by simp
qed

text \<open>Which chunk a probe falls in, and where in it.\<close>

lemma at_most_chunks:
  assumes "sorted_wrt (<) xs" "0 < n" "xs \<noteq> []" "hd xs \<le> p"
  obtains q where "at_most p (map hd (chunks n xs)) = Suc q" "q < length (chunks n xs)" "hd (chunks n xs ! q) \<le> p"
    "at_most p xs = q * n + at_most p (chunks n xs ! q)" "q * n + at_most p (chunks n xs ! q) \<le> length xs"
proof -
  let ?hs = "map hd (chunks n xs)"
  have sh: "sorted ?hs" using chunk_heads_sorted [OF assms(1,2)] by (rule strict_sorted_imp_sorted)
  have s: "sorted xs" using assms(1) by (rule strict_sorted_imp_sorted)
  have ne: "?hs \<noteq> []" using assms(2,3) by simp
  have "?hs ! 0 \<le> p" using assms(2-4) ne by (simp add: nth_chunk(4) hd_conv_nth)
  then have "0 < at_most p ?hs" using less_at_most_iff [OF sh, of 0 p] ne by simp
  then obtain q where q: "at_most p ?hs = Suc q" using gr0_conv_Suc by blast
  have ql: "q < length (chunks n xs)" using at_most_le [of p ?hs] q by simp
  have hq: "hd (chunks n xs ! q) \<le> p" using less_at_most_iff [OF sh, of q p] q ql by simp
  note c = nth_chunk [OF assms(2) ql]
  let ?c = "chunks n xs ! q"
  have sc: "sorted ?c" using chunk_sorted [OF assms(1,2) ql] by (rule strict_sorted_imp_sorted)
  define k where "k = at_most p ?c"
  have k: "k \<le> length ?c" "q * n + k \<le> length xs" using at_most_le [of p ?c] c(1,2) by (auto simp: k_def)
  have k0: "0 < k"
    using hq less_at_most_iff [OF sc, of 0 p] chunks_nonempty [OF nth_mem [OF ql]] by (simp add: k_def hd_conv_nth)
  have "at_most p xs = q * n + k"
  proof (rule at_most_eqI [OF s k(2)])
    fix i assume i: "i < q * n + k"
    have e: "xs ! (q * n + (k - 1)) \<le> p"
      using c(3) [of "k - 1"] less_at_most_iff [OF sc, of "k - 1" p] k k0 by (simp add: k_def)
    have "xs ! i \<le> xs ! (q * n + (k - 1))" using i k k0 s by (intro sorted_nth_mono) simp_all
    then show "xs ! i \<le> p" using e by (rule order_trans)
  next
    assume l: "q * n + k < length xs"
    show "p < xs ! (q * n + k)"
    proof (cases "k < length ?c")
      case True
      then show ?thesis using c(3) [OF True] less_at_most_iff [OF sc True, of p] by (simp add: k_def)
    next
      case False
      then have kn: "k = n" using k c(1) l by auto
      have "Suc q < length (chunks n xs)"
        using less_length_chunks [OF assms(2), of "Suc q * n" xs] l kn assms(2) by simp
      then show ?thesis
        using less_at_most_iff [OF sh, of "Suc q" p] q nth_chunk(4) [OF assms(2), of "Suc q" xs] kn by (simp add: add.commute)
    qed
  qed
  then show thesis using that [OF q ql hq] k(2) by (simp add: k_def)
qed

end
