(* ===== verification/Route_Facts.thy ===== *)
theory Route_Facts
  imports Order_Facts
begin

text \<open>
  Routing a probe to a block: the bisection of the heads, the gallop over a run of equal samples, the
  prefix every head shares and the search of the samples together count the heads that are not above
  the probe.
\<close>

subsection \<open>Bisecting the heads\<close>

lemma head_boundary_finds:
  assumes "\<And>b. b < length heads \<Longrightarrow> di_head d b = Gives (heads ! b)" "sorted heads"
    and "l \<le> at_most probe heads" "at_most probe heads \<le> r" "r \<le> length heads"
  shows "head_boundary d probe l r = Gives (at_most probe heads)"
  using assms
proof (induction d probe l r rule: head_boundary.induct)
  case (1 d probe l r)
  show ?case
  proof (cases "l < r")
    case True
    define m where "m = l + (r - l) div 2"
    have m: "l \<le> m" "m < r" "m < length heads" using True 1(7) by (auto simp: m_def)
    have h: "di_head d m = Gives (heads ! m)" using 1(3) m(3) by simp
    show ?thesis
    proof (cases "heads ! m \<le> probe")
      case t: True
      then have "m + 1 \<le> at_most probe heads" using less_at_most_iff [OF 1(4) m(3), of probe] by (simp add: Suc_le_eq)
      then have "head_boundary d probe (m + 1) r = Gives (at_most probe heads)"
        using 1(1) [OF True m_def h t 1(3,4) _ 1(6,7)] by simp
      then show ?thesis using True t h by (subst head_boundary.simps) (simp add: m_def [symmetric] Let_def)
    next
      case f: False
      then have "at_most probe heads \<le> m" using less_at_most_iff [OF 1(4) m(3), of probe] by simp
      then have "head_boundary d probe l m = Gives (at_most probe heads)"
        using 1(2) [OF True m_def h f 1(3,4,5)] m by simp
      then show ?thesis using True f h by (subst head_boundary.simps) (simp add: m_def [symmetric] Let_def)
    qed
  qed (use 1 in \<open>simp add: head_boundary.simps\<close>)
qed

subsection \<open>The end of a run of equal samples\<close>

lemma gallop_bounds:
  assumes "gallop samples s hi step = (hi', step')" "sorted samples" "hi \<le> at_most s samples" "0 < step"
    "below s samples < hi"
  shows "hi' \<le> at_most s samples \<and> at_most s samples < hi' + step'"
  using assms
proof (induction samples s hi step rule: gallop.induct)
  case (1 samples s hi step)
  let ?at = "hi + step - 1"
  show ?case
  proof (cases "get_at samples ?at = Some s")
    case True
    then have at: "?at < length samples" "samples ! ?at = s" by (simp_all add: get_at_Some_iff)
    then have "?at < at_most s samples" using less_at_most_iff [OF 1(3) at(1), of s] by simp
    moreover have "gallop samples s (hi + step) (step * 2) = (hi', step')"
      using 1(2,5) True by (subst (asm) gallop.simps) simp
    ultimately show ?thesis using 1(1) [of] True 1(3,5,6) by simp
  next
    case False
    then have e: "hi' = hi" "step' = step" using 1(2) by (auto simp: gallop.simps)
    have "\<not> ?at < at_most s samples"
    proof
      assume lt: "?at < at_most s samples"
      then have l: "?at < length samples" using at_most_le [of s samples] by simp
      have "samples ! ?at \<le> s" using less_at_most_iff [OF 1(3) l] lt by simp
      moreover have "\<not> ?at < below s samples" using 1(5,6) by linarith
      then have "\<not> samples ! ?at < s" using less_below_iff [OF 1(3) l, of s] by simp
      ultimately show False using False l by (simp add: get_at_Some_iff)
    qed
    then show ?thesis using e 1(4,5) by simp
  qed
qed

lemma at_most_take_drop:
  assumes "sorted xs" "h \<le> at_most s xs" "at_most s xs \<le> e" "e \<le> length xs"
  shows "at_most s (take (e - h) (drop h xs)) = at_most s xs - h"
proof (rule at_most_eqI)
  show "sorted (take (e - h) (drop h xs))" using assms(1) by (simp add: sorted_wrt_take sorted_wrt_drop)
  show "at_most s xs - h \<le> length (take (e - h) (drop h xs))" using assms by simp
  fix i assume i: "i < at_most s xs - h"
  then have "h + i < at_most s xs" "h + i < length xs" using assms(3,4) by simp_all
  then show "take (e - h) (drop h xs) ! i \<le> s"
    using i assms less_at_most_iff [OF assms(1), of "h + i" s] by simp
next
  assume "at_most s xs - h < length (take (e - h) (drop h xs))"
  then have "at_most s xs < length xs" using assms by simp
  then show "s < take (e - h) (drop h xs) ! (at_most s xs - h)"
    using assms less_at_most_iff [OF assms(1), of "at_most s xs" s] \<open>at_most s xs - h < _\<close> by simp
qed

lemma past_equal_finds:
  assumes "sorted samples" "lo = below s samples"
  shows "past_equal samples lo s = at_most s samples"
proof (cases "get_at samples lo = Some s")
  case False
  have "at_most s samples = lo"
  proof (rule at_most_eqI [OF assms(1)])
    show "lo \<le> length samples" by (simp add: assms(2) below_le)
    show "samples ! i \<le> s" if "i < lo" for i
      using that less_below_iff [OF assms(1), of i s] below_le [of s samples] assms(2) by simp
    show "s < samples ! lo" if "lo < length samples"
      using that less_below_iff [OF assms(1) that, of s] False assms(2) by (auto simp: get_at_Some_iff)
  qed
  then show ?thesis using False by (simp add: past_equal_def)
next
  case True
  then have lo: "lo < length samples" "samples ! lo = s" by (simp_all add: get_at_Some_iff)
  have hi0: "lo + 1 \<le> at_most s samples" using less_at_most_iff [OF assms(1) lo(1), of s] lo(2) by simp
  obtain hi step where g: "gallop samples s (lo + 1) 1 = (hi, step)" by fastforce
  have b: "hi \<le> at_most s samples" "at_most s samples < hi + step"
    using gallop_bounds [OF g assms(1) hi0] assms(2) by simp_all
  have "at_most s (take (min (hi + step - 1) (length samples) - hi) (drop hi samples)) = at_most s samples - hi"
    using b at_most_le [of s samples] by (intro at_most_take_drop assms(1)) simp_all
  then show ?thesis using True g b by (simp add: past_equal_def partition_point_def at_most_def [symmetric] Let_def)
qed

subsection \<open>The prefix every head shares\<close>

lemma less_by_prefix: "take n a < take n b \<Longrightarrow> a < b" for a b :: bytes
proof (induction n arbitrary: a b)
  case (Suc n)
  then show ?case by (cases a; cases b) auto
qed simp

lemma le_short_less: "length p < n \<Longrightarrow> p \<le> take n b \<Longrightarrow> n \<le> length b \<Longrightarrow> p < b" for p b :: bytes
proof (induction n arbitrary: p b)
  case (Suc n)
  then show ?case by (cases p; cases b) auto
qed simp

lemma short_less_le: "take n b < p \<Longrightarrow> length p < n \<Longrightarrow> n \<le> length b \<Longrightarrow> b < p" for p b :: bytes
proof (induction n arbitrary: p b)
  case (Suc n)
  then show ?case by (cases p; cases b) auto
qed simp

lemma at_most_all: "\<forall>x\<in>set xs. x \<le> p \<Longrightarrow> at_most p xs = length xs"
  by (induction xs) auto

lemma at_most_none: "\<forall>x\<in>set xs. p < x \<Longrightarrow> at_most p xs = 0"
  by (cases xs) (auto simp: not_le)

lemma place_prefix_sound:
  assumes "\<forall>h\<in>set heads. g \<le> length h \<and> take g h = pre"
  shows "case place_prefix pre (length heads) probe of Some l \<Rightarrow> l = at_most probe heads
    | None \<Rightarrow> take (length pre) probe = pre"
proof (cases "heads = []")
  case True
  then show ?thesis
    by (auto simp: place_prefix_def get_range_def split: option.splits cmp.splits if_splits)
next
  case False
  then obtain h where "h \<in> set heads" by (cases heads) auto
  then have g: "length pre = g" using assms by auto
  show ?thesis
  proof (cases "g \<le> length probe")
    case True
    define front where "front = take g probe"
    have r: "get_range probe 0 (length pre) = Some front" using True g by (simp add: get_range_def front_def)
    have "h < probe" if "pre < front" "h \<in> set heads" for h
      by (rule less_by_prefix [of g]) (use that assms front_def in auto)
    moreover have "probe < h" if "front < pre" "h \<in> set heads" for h
      by (rule less_by_prefix [of g]) (use that assms front_def in auto)
    ultimately have "pre < front \<Longrightarrow> at_most probe heads = length heads" "front < pre \<Longrightarrow> at_most probe heads = 0"
      by (blast intro: at_most_all at_most_none less_imp_le)+
    then show ?thesis
      using r g by (simp add: place_prefix_def cmp_of_def) (auto simp: front_def not_less_iff_gr_or_eq)
  next
    case short: False
    then have r: "get_range probe 0 (length pre) = None" using g by (simp add: get_range_def)
    have "probe < h" if "probe \<le> pre" "h \<in> set heads" for h
      by (rule le_short_less [of _ g]) (use that assms short in auto)
    moreover have "h < probe" if "\<not> probe \<le> pre" "h \<in> set heads" for h
      by (rule short_less_le [of g]) (use that assms short in \<open>auto simp: not_le\<close>)
    ultimately have "\<not> probe \<le> pre \<Longrightarrow> at_most probe heads = length heads" "probe \<le> pre \<Longrightarrow> at_most probe heads = 0"
      by (blast intro: at_most_all at_most_none less_imp_le)+
    then show ?thesis using r by (simp add: place_prefix_def)
  qed
qed

subsection \<open>The samples\<close>

text \<open>What the search of the samples says of the heads they were taken from.\<close>

lemma samples_place:
  assumes "sorted heads" "\<forall>h\<in>set heads. take g h = take g probe" "samples = map (\<lambda>h. sample_at h g) heads" "s = sample_at probe g"
  shows "sorted samples" "below s samples \<le> at_most probe heads" "at_most probe heads \<le> at_most s samples"
proof -
  have mono: "sample_at a g \<le> sample_at b g" if "a \<in> set heads" "b \<in> set heads" "a \<le> b" for a b
    using that assms(2) by (intro sample_mono) auto
  show srt: "sorted samples"
    unfolding assms(3) sorted_iff_nth_mono using assms(1) by (auto intro!: mono simp: sorted_iff_nth_mono)
  show "below s samples \<le> at_most probe heads"
  proof (rule ccontr)
    assume "\<not> ?thesis"
    then have lt: "at_most probe heads < below s samples" by simp
    then have l: "at_most probe heads < length heads" using below_le [of s samples] assms(3) by simp
    have "samples ! at_most probe heads < s" using less_below_iff [OF srt, of "at_most probe heads" s] lt l assms(3) by simp
    then have "heads ! at_most probe heads < probe"
      using l assms(2-4) by (intro sample_less [of g]) simp_all
    then show False using less_at_most_iff [OF assms(1) l, of probe] by simp
  qed
  show "at_most probe heads \<le> at_most s samples"
  proof (rule ccontr)
    assume "\<not> ?thesis"
    then have lt: "at_most s samples < at_most probe heads" by simp
    then have l: "at_most s samples < length heads" using at_most_le [of probe heads] by simp
    have "s < samples ! at_most s samples" using less_at_most_iff [OF srt, of "at_most s samples" s] l assms(3) by simp
    then have "probe < heads ! at_most s samples"
      using l assms(2-4) by (intro sample_less [of g]) simp_all
    then show False using less_at_most_iff [OF assms(1) l, of probe] lt by simp
  qed
qed

lemma below_at_most_miss:
  "sorted xs \<Longrightarrow> get_at xs (below s xs) \<noteq> Some s \<Longrightarrow> at_most s xs = below s xs" for xs :: "u64 list"
  using past_equal_finds [of xs "below s xs" s] by (simp add: past_equal_def)

end
