(* ===== verification/Tie_Facts.thy ===== *)
theory Tie_Facts
  imports Route_Facts
begin

text \<open>
  What the tries of \<^verbatim>\<open>src/ties.rs\<close> answer: a descent ends, and the boundary it gives lies where a search
  of every head of the run would put it, whether the probe shares the prefixes it was descended past or
  left them on the way.
\<close>

subsection \<open>Where the boundary of a run lies\<close>

text \<open>The heads of the run below \<open>a\<close> are not above the probe, those from \<open>c\<close> on are.\<close>

definition bracket :: "bytes list \<Rightarrow> bytes \<Rightarrow> nat \<Rightarrow> nat \<Rightarrow> nat \<Rightarrow> nat \<Rightarrow> bool" where
  "bracket hs probe lo hi a c \<longleftrightarrow> lo \<le> a \<and> a \<le> c \<and> c \<le> hi \<and>
    (\<forall>b. lo \<le> b \<and> b < a \<longrightarrow> hs ! b \<le> probe) \<and> (\<forall>b. c \<le> b \<and> b < hi \<longrightarrow> probe < hs ! b)"

lemma bracket_trans: "bracket hs probe lo hi a c \<Longrightarrow> bracket hs probe a c a' c' \<Longrightarrow> bracket hs probe lo hi a' c'"
  by (auto simp: bracket_def) (meson not_le order_trans le_less_trans)+

lemma bracket_step:
  assumes "bracket hs probe lo hi b (Suc b)" "l = (if probe < hs ! b then b else Suc b)"
  shows "bracket hs probe lo hi l l"
  using assms by (auto simp: bracket_def not_less less_Suc_eq) (metis le_antisym not_less_eq_eq)

lemma bracket_at_most:
  assumes "bracket hs probe 0 (length hs) l l" "sorted hs"
  shows "l = at_most probe hs"
  using assms by (intro at_most_eqI [symmetric]) (auto simp: bracket_def)

lemma bracket_at_most_within:
  assumes "bracket hs probe 0 (length hs) a c" "sorted hs"
  shows "a \<le> at_most probe hs" "at_most probe hs \<le> c"
proof -
  have len: "at_most probe hs \<le> length hs" by (rule at_most_le)
  show "a \<le> at_most probe hs"
  proof (rule ccontr)
    assume "\<not> a \<le> at_most probe hs"
    then have l: "at_most probe hs < length hs" "hs ! at_most probe hs \<le> probe" using assms(1) by (auto simp: bracket_def)
    then show False using less_at_most_iff [OF assms(2) l(1), of probe] by simp
  qed
  show "at_most probe hs \<le> c"
  proof (rule ccontr)
    assume "\<not> at_most probe hs \<le> c"
    then have l: "c < length hs" "probe < hs ! c" "c < at_most probe hs" using assms(1) len by (auto simp: bracket_def)
    then show False using less_at_most_iff [OF assms(2) l(1), of probe] by simp
  qed
qed

subsection \<open>Comparing past a shared prefix\<close>

lemma get_at_Cons [simp]: "get_at (x # xs) 0 = Some x" "get_at (x # xs) (Suc i) = get_at xs i" "get_at [] i = None"
  by (simp_all add: get_at_def)

lemma head_below_empty: "head_below [] h 0 \<longleftrightarrow> [] < h"
  by (cases h) (auto simp: head_below_def)

lemma head_below_iff: "head_below probe h (lcp probe h) \<longleftrightarrow> probe < h"
proof (induction probe h rule: lcp.induct)
  case (1 x xs y ys)
  then show ?case by (cases "x = y") (simp_all add: head_below_def)
qed (simp_all add: head_below_empty, simp add: head_below_def split: option.splits)

text \<open>Heads that share a prefix the probe does not are all on the side of it that one of them is on.\<close>

lemma off_prefix:
  "take p h = take p h' \<Longrightarrow> p \<le> length h \<Longrightarrow> p \<le> length h' \<Longrightarrow> lcp probe h < p \<Longrightarrow>
    (probe < h \<longleftrightarrow> probe < h') \<and> probe \<noteq> h'" for probe h h' :: bytes
proof (induction p arbitrary: probe h h')
  case (Suc p)
  obtain y ys y' ys' where hs: "h = y # ys" "h' = y' # ys'" using Suc.prems(2,3) by (auto simp: Suc_le_length_iff)
  then have h: "h = y # ys" "h' = y # ys'" using Suc.prems(1) by simp_all
  show ?case
  proof (cases probe)
    case (Cons x xs)
    show ?thesis
    proof (cases "x = y")
      case True
      then have "(xs < ys \<longleftrightarrow> xs < ys') \<and> xs \<noteq> ys'" using Suc.prems Cons h by (intro Suc.IH) simp_all
      then show ?thesis using True Cons h by simp
    qed (simp add: Cons h)
  qed (simp add: h)
qed simp

definition heads_share :: "bytes list \<Rightarrow> nat \<Rightarrow> nat \<Rightarrow> nat \<Rightarrow> bool" where
  "heads_share hs p lo hi \<longleftrightarrow> (\<forall>b. lo \<le> b \<and> b < hi \<longrightarrow> p \<le> length (hs ! b) \<and> take p (hs ! b) = take p (hs ! lo))"

lemma off_prefix_bracket:
  assumes "heads_share hs p lo hi" "lo \<le> at" "at < hi"
    "lcp probe (hs ! at) < p" "l = (if probe < hs ! at then lo else hi)"
  shows "bracket hs probe lo hi l l"
proof -
  have "(probe < hs ! at \<longleftrightarrow> probe < hs ! b) \<and> probe \<noteq> hs ! b" if "lo \<le> b" "b < hi" for b
  proof (rule off_prefix [where p = p])
    show "take p (hs ! at) = take p (hs ! b)" using assms(1-3) that by (metis heads_share_def)
    show "p \<le> length (hs ! at)" "p \<le> length (hs ! b)" using assms(1-3) that unfolding heads_share_def by blast+
  qed (rule assms(4))
  then have side: "lo \<le> b \<Longrightarrow> b < hi \<Longrightarrow> (probe < hs ! at \<longrightarrow> probe < hs ! b) \<and> (\<not> probe < hs ! at \<longrightarrow> hs ! b \<le> probe)" for b
    by (metis not_less)
  have "lo \<le> hi" using assms(2,3) by simp
  then show ?thesis using side assms(5) by (cases "probe < hs ! at") (auto simp add: bracket_def)
qed

subsection \<open>A trie over the heads\<close>

text \<open>An edge: its word, the blocks it covers, and the node they are or one of the two marks.\<close>

type_synonym tie_span = "u64 \<times> nat \<times> nat \<times> nat"

fun chained :: "nat \<Rightarrow> nat \<Rightarrow> tie_span list \<Rightarrow> bool" where
  "chained a hi [] \<longleftrightarrow> a = hi"
| "chained a hi ((w, s, e, k) # es) \<longleftrightarrow> s = a \<and> s < e \<and> chained e hi es"

definition words_of :: "tie_span list \<Rightarrow> u64 list" where "words_of es = map fst es"
definition span_starts :: "tie_span list \<Rightarrow> nat list" where "span_starts es = map (\<lambda>(w, s, e, k). s) es"
definition span_kids :: "tie_span list \<Rightarrow> nat list" where "span_kids es = map (\<lambda>(w, s, e, k). k) es"

text \<open>The node whose edges are \<open>es\<close>.\<close>

definition node_at :: "ties \<Rightarrow> nat \<Rightarrow> nat \<Rightarrow> nat \<Rightarrow> nat \<Rightarrow> tie_span list \<Rightarrow> bool" where
  "node_at t i p lo hi es \<longleftrightarrow> i < length (ts_nodes t) \<and> es \<noteq> [] \<and> chained lo hi es \<and> sorted_wrt (<) (words_of es) \<and>
    (\<exists>first. ts_nodes t ! i = \<lparr>tn_p = p, tn_first = first, tn_count = length es, tn_hi = hi\<rparr> \<and>
      take (length es) (drop first (ts_words t)) = words_of es \<and> take (length es) (drop first (ts_starts t)) = span_starts es \<and>
      take (length es) (drop first (ts_kids t)) = span_kids es)"

text \<open>Every head an edge covers has the edge's word at the prefix.\<close>

definition spans_hold :: "bytes list \<Rightarrow> nat \<Rightarrow> tie_span list \<Rightarrow> bool" where
  "spans_hold hs p es \<longleftrightarrow> (\<forall>w s e k b. (w, s, e, k) \<in> set es \<and> s \<le> b \<and> b < e \<longrightarrow> sample_at (hs ! b) p = w)"

inductive trie_ok :: "ties \<Rightarrow> bytes list \<Rightarrow> nat \<Rightarrow> nat \<Rightarrow> nat \<Rightarrow> nat \<Rightarrow> bool" for t :: ties and hs :: "bytes list" where
  node: "node_at t i p lo hi es \<Longrightarrow> heads_share hs p lo hi \<Longrightarrow>
    spans_hold hs p es \<Longrightarrow>
    (\<And>w s e k. (w, s, e, k) \<in> set es \<Longrightarrow> k = LEAF \<and> e = Suc s \<or> k = FLAT \<or> (k \<noteq> LEAF \<and> k \<noteq> FLAT \<and> (\<exists>p'\<ge>p. trie_ok t hs k p' s e))) \<Longrightarrow>
    trie_ok t hs i p lo hi"

lemma chained_in:
  "chained a hi es \<Longrightarrow> (w, s, e, k) \<in> set es \<Longrightarrow> a \<le> s \<and> s < e \<and> e \<le> hi"
proof (induction a hi es rule: chained.induct)
  case (2 a hi w' s' e' k' es)
  have "e' \<le> hi" using 2(2) by (induction e' hi es rule: chained.induct) auto
  then show ?case using 2 by auto
qed simp

lemma chained_le: "chained a hi es \<Longrightarrow> a \<le> hi"
  by (induction a hi es rule: chained.induct) auto

lemma chained_nth_end:
  "chained a hi es \<Longrightarrow> j < length es \<Longrightarrow> es ! j = (w, s, e, k) \<Longrightarrow>
    e = (if Suc j < length es then span_starts es ! Suc j else hi)"
proof (induction a hi es arbitrary: j rule: chained.induct)
  case (2 a hi w' s' e' k' es)
  show ?case
  proof (cases j)
    case 0
    then show ?thesis using 2 by (cases es) (auto simp: span_starts_def)
  next
    case (Suc i)
    then show ?thesis using 2(1) [of i] 2(2-4) by (simp add: span_starts_def)
  qed
qed simp

text \<open>What a position among the edges says of the blocks on either side of it.\<close>

lemma chained_before: "chained a hi es \<Longrightarrow> j < length es \<Longrightarrow> a \<le> b \<Longrightarrow> b < span_starts es ! j \<Longrightarrow>
    \<exists>i w s e k. i < j \<and> es ! i = (w, s, e, k) \<and> s \<le> b \<and> b < e"
proof (induction a hi es arbitrary: j rule: chained.induct)
  case (2 a hi w s e k es)
  obtain i where j: "j = Suc i" using 2(2,4,5) by (cases j) (auto simp: span_starts_def)
  show ?case
  proof (cases "b < e")
    case True
    then show ?thesis using 2(2,4) j by - (rule exI [of _ 0], simp)
  next
    case False
    then have "\<exists>i' w s e k. i' < i \<and> es ! i' = (w, s, e, k) \<and> s \<le> b \<and> b < e"
      using 2(1) [of i] 2(2,3,5) j by (simp add: span_starts_def)
    then obtain i' w s e k where "i' < i" "es ! i' = (w, s, e, k)" "s \<le> b" "b < e" by blast
    then show ?thesis using j by - (rule exI [of _ "Suc i'"], simp)
  qed
qed simp

lemma chained_from: "chained a hi es \<Longrightarrow> j \<le> length es \<Longrightarrow> (if j < length es then span_starts es ! j else hi) \<le> b \<Longrightarrow> b < hi \<Longrightarrow>
    \<exists>i w s e k. j \<le> i \<and> i < length es \<and> es ! i = (w, s, e, k) \<and> s \<le> b \<and> b < e"
proof (induction a hi es arbitrary: j rule: chained.induct)
  case (2 a hi w s e k es)
  show ?case
  proof (cases "b < e")
    case True
    show ?thesis
    proof (cases j)
      case 0
      then show ?thesis using True 2(2,4) by - (rule exI [of _ 0], simp add: span_starts_def)
    next
      case (Suc i)
      then have "e \<le> (if i < length es then span_starts es ! i else hi)"
      proof (cases "i < length es")
        case True
        obtain w' s' e' k' where i: "es ! i = (w', s', e', k')" by (cases "es ! i")
        then show ?thesis using 2(2) True chained_in [of e hi es] nth_mem [OF True] by (simp add: span_starts_def)
      next
        case False
        then show ?thesis using 2(2) chained_le [of e hi es] by simp
      qed
      then show ?thesis using True 2(4) Suc by (simp add: span_starts_def split: if_splits)
    qed
  next
    case False
    define i where "i = j - 1"
    have ih: "(if i < length es then span_starts es ! i else hi) \<le> b"
    proof (cases j)
      case 0
      then show ?thesis using False 2(2,5) i_def by (cases es) (auto simp: span_starts_def)
    next
      case (Suc i')
      then show ?thesis using 2(4) by (simp add: i_def span_starts_def split: if_splits)
    qed
    obtain i' w s e k where "i \<le> i'" "i' < length es" "es ! i' = (w, s, e, k)" "s \<le> b" "b < e"
    proof -
      have "chained e hi es" "i \<le> length es" using 2(2,3) by (simp_all add: i_def)
      then show thesis using 2(1) [of i] 2(5) ih that by blast
    qed
    then show ?thesis by - (rule exI [of _ "Suc i'"], auto simp: i_def)
  qed
qed simp

subsection \<open>One node of a descent\<close>

lemma node_edge:
  assumes "node_at t i p lo hi es" "n = ts_nodes t ! i"
  shows "tie_edge t n probe = (below (sample_at probe p) (words_of es), get_at (words_of es) (below (sample_at probe p) (words_of es)) = Some (sample_at probe p))"
    "tn_p n = p" "tn_count n = length es" "tn_hi n = hi"
    "j < length es \<Longrightarrow> ts_starts t ! (tn_first n + j) = span_starts es ! j" "j < length es \<Longrightarrow> ts_kids t ! (tn_first n + j) = span_kids es ! j"
proof -
  obtain first where n: "n = \<lparr>tn_p = p, tn_first = first, tn_count = length es, tn_hi = hi\<rparr>"
    and sl: "take (length es) (drop first (ts_words t)) = words_of es" "take (length es) (drop first (ts_starts t)) = span_starts es"
      "take (length es) (drop first (ts_kids t)) = span_kids es"
    using assms by (auto simp: node_at_def)
  show "tie_edge t n probe = (below (sample_at probe p) (words_of es), get_at (words_of es) (below (sample_at probe p) (words_of es)) = Some (sample_at probe p))"
    by (simp add: tie_edge_def n sl Let_def partition_point_def below_def)
  show "tn_p n = p" "tn_count n = length es" "tn_hi n = hi" by (simp_all add: n)
  have sliced: "xs ! (first + j) = ys ! j" if "take (length es) (drop first xs) = ys" "length ys = length es" "j < length es" for xs ys :: "nat list" and j
  proof -
    have "length es \<le> length xs - first" using that(1,2) by (metis length_drop length_take min.cobounded1)
    then show ?thesis using that by auto
  qed
  show "j < length es \<Longrightarrow> ts_starts t ! (tn_first n + j) = span_starts es ! j" "j < length es \<Longrightarrow> ts_kids t ! (tn_first n + j) = span_kids es ! j"
    using sliced [OF sl(2)] sliced [OF sl(3)] by (simp_all add: n span_starts_def span_kids_def)
qed

text \<open>Where the probe shares the prefix of a node, the node's words place it.\<close>

lemma edge_sides:
  assumes node: "node_at t i p lo hi es" and share: "heads_share hs p lo hi"
    and smp: "spans_hold hs p es"
    and at: "lo \<le> at" "at < hi" "p \<le> lcp probe (hs ! at)"
    and e: "i' < length es" "es ! i' = (w, s, e, k)" "s \<le> b" "b < e"
  shows "w < sample_at probe p \<Longrightarrow> hs ! b \<le> probe" "sample_at probe p < w \<Longrightarrow> probe < hs ! b"
proof -
  have mem: "(w, s, e, k) \<in> set es" using e(1,2) by (metis nth_mem)
  have "lo \<le> s \<and> e \<le> hi" using node chained_in [OF _ mem] by (auto simp: node_at_def)
  then have b: "lo \<le> b" "b < hi" using e(3,4) by simp_all
  have "take p probe = take p (hs ! at)"
    using arg_cong [OF lcp_take [of probe "hs ! at"], of "take p"] at(3) by simp
  moreover have "take p (hs ! at) = take p (hs ! b)" using share at(1,2) b by (metis heads_share_def)
  ultimately have tk: "take p (hs ! b) = take p probe" by simp
  have w: "sample_at (hs ! b) p = w" using smp mem e(3,4) by (auto simp: spans_hold_def)
  show "hs ! b \<le> probe" if "w < sample_at probe p" using sample_less [OF tk] that w by simp
  show "probe < hs ! b" if "sample_at probe p < w" using sample_less [OF tk [symmetric]] that w by simp
qed

lemma edge_brackets:
  assumes node: "node_at t i p lo hi es" and share: "heads_share hs p lo hi"
    and smp: "spans_hold hs p es"
    and at: "lo \<le> at" "at < hi" "p \<le> lcp probe (hs ! at)"
    and j: "j = below (sample_at probe p) (words_of es)"
  shows "get_at (words_of es) j \<noteq> Some (sample_at probe p) \<Longrightarrow>
      bracket hs probe lo hi (if j < length es then span_starts es ! j else hi) (if j < length es then span_starts es ! j else hi)"
    "get_at (words_of es) j = Some (sample_at probe p) \<Longrightarrow> es ! j = (w, s, e, k) \<Longrightarrow> bracket hs probe lo hi s e"
proof -
  note sides = edge_sides [OF node share smp at]
  have ch: "chained lo hi es" and srt: "sorted_wrt (<) (words_of es)" using node by (simp_all add: node_at_def)
  have len: "length (words_of es) = length es" "length (span_starts es) = length es" by (simp_all add: words_of_def span_starts_def)
  have jl: "j \<le> length es" using below_le [of "sample_at probe p" "words_of es"] by (simp add: j len)
  have word: "words_of es ! i' = w'" if "i' < length es" "es ! i' = (w', s', e', k')" for i' w' s' e' k' using that by (simp add: words_of_def)
  have less: "words_of es ! i' < sample_at probe p \<longleftrightarrow> i' < j" if "i' < length es" for i'
    using less_below_iff [OF strict_sorted_imp_sorted [OF srt], of i' "sample_at probe p"] that len by (simp add: j)
  define l where "l = (if j < length es then span_starts es ! j else hi)"
  have low: "hs ! b \<le> probe" if "lo \<le> b" "b < l" for b
  proof -
    have "\<exists>i w s e k. i < j \<and> es ! i = (w, s, e, k) \<and> s \<le> b \<and> b < e"
    proof (cases "j < length es")
      case True
      then show ?thesis using chained_before [OF ch True that(1)] that(2) by (simp add: l_def)
    next
      case False
      then have e: "j = length es" "b < hi" using jl that(2) by (simp_all add: l_def)
      have "(if 0 < length es then span_starts es ! 0 else hi) = lo" using ch by (cases es) (auto simp: span_starts_def)
      then show ?thesis using chained_from [OF ch, of 0 b] that(1) e by auto
    qed
    then obtain i w s e k where i: "i < j" "es ! i = (w, s, e, k)" "s \<le> b" "b < e" by blast
    then have il: "i < length es" using jl by simp
    show ?thesis using sides(1) [OF il i(2-4)] less [OF il] word [OF il i(2)] i(1) by simp
  qed
  have high: "probe < hs ! b" if b: "(if m < length es then span_starts es ! m else hi) \<le> b" "b < hi" and m: "m \<le> length es" "j \<le> m"
    "\<And>i'. m \<le> i' \<Longrightarrow> i' < length es \<Longrightarrow> words_of es ! i' \<noteq> sample_at probe p" for m b
  proof -
    obtain i w s e k where i: "m \<le> i" "i < length es" "es ! i = (w, s, e, k)" "s \<le> b" "b < e"
      using chained_from [OF ch m(1) b] by blast
    have "\<not> words_of es ! i < sample_at probe p" using less [OF i(2)] i(1) m(2) by simp
    then have "sample_at probe p < w" using m(3) [OF i(1,2)] word [OF i(2,3)] by simp
    then show ?thesis using sides(2) [OF i(2-5)] by simp
  qed
  have lb: "lo \<le> l \<and> l \<le> hi"
    using chained_in [OF ch] nth_mem [of j es] chained_le [OF ch] by (cases "es ! j") (fastforce simp: l_def span_starts_def)
  show "bracket hs probe lo hi (if j < length es then span_starts es ! j else hi) (if j < length es then span_starts es ! j else hi)"
    if ne: "get_at (words_of es) j \<noteq> Some (sample_at probe p)"
  proof -
    have "words_of es ! i' \<noteq> sample_at probe p" if i': "j \<le> i'" "i' < length es" for i'
    proof (cases "i' = j")
      case True
      then show ?thesis using ne i' len by (simp add: get_at_def)
    next
      case False
      have "\<not> words_of es ! j < sample_at probe p" using less [of j] i' by simp
      moreover have "words_of es ! j < words_of es ! i'" using srt False i' len by (simp add: sorted_wrt_iff_nth_less)
      ultimately show ?thesis by auto
    qed
    then show ?thesis using lb low high [of j] jl unfolding bracket_def l_def [symmetric] by auto
  qed
  show "bracket hs probe lo hi s e" if eq: "get_at (words_of es) j = Some (sample_at probe p)" "es ! j = (w, s, e, k)"
  proof -
    have jl: "j < length es" and wj: "words_of es ! j = sample_at probe p" using eq(1) len by (simp_all add: get_at_Some_iff)
    have s: "span_starts es ! j = s" using jl eq(2) by (simp add: span_starts_def)
    have e: "e = (if Suc j < length es then span_starts es ! Suc j else hi)" by (rule chained_nth_end [OF ch jl eq(2)])
    have "words_of es ! i' \<noteq> sample_at probe p" if "Suc j \<le> i'" "i' < length es" for i'
    proof -
      have "words_of es ! j < words_of es ! i'" using srt that len by (simp add: sorted_wrt_iff_nth_less)
      then show ?thesis using wj by auto
    qed
    then have "\<forall>b. e \<le> b \<and> b < hi \<longrightarrow> probe < hs ! b" using high [of "Suc j"] jl e by auto
    moreover have "lo \<le> s \<and> s < e \<and> e \<le> hi" using chained_in [OF ch nth_mem [OF jl, unfolded eq(2)]] by simp
    ultimately show ?thesis using low jl by (simp add: bracket_def l_def s)
  qed
qed

subsection \<open>The descent\<close>

definition stop_right :: "bytes list \<Rightarrow> bytes \<Rightarrow> nat \<Rightarrow> nat \<Rightarrow> nat \<Rightarrow> tie_end \<Rightarrow> bool" where
  "stop_right hs probe lo hi at stop \<longleftrightarrow> (case stop of EndAt l \<Rightarrow> bracket hs probe lo hi l l
    | EndLeaf b \<Rightarrow> b = at \<and> bracket hs probe lo hi b (Suc b) | EndFlat a c \<Rightarrow> bracket hs probe lo hi a c)"

definition descent_right :: "ties \<Rightarrow> bytes list \<Rightarrow> bytes \<Rightarrow> nat \<Rightarrow> nat \<Rightarrow> nat \<Rightarrow> nat \<Rightarrow> tie_node \<Rightarrow> tie_end \<Rightarrow> nat \<Rightarrow> bool" where
  "descent_right t hs probe i p lo hi node stop at \<longleftrightarrow> lo \<le> at \<and> at < hi \<and> p \<le> tn_p node \<and>
    (tn_p node \<le> lcp probe (hs ! at) \<longrightarrow> stop_right hs probe lo hi at stop) \<and>
    (lcp probe (hs ! at) < tn_p node \<longrightarrow> p \<le> lcp probe (hs ! at) \<longrightarrow> (\<forall>lo0 hi0. \<exists>l r x.
      tie_correct t probe (lcp probe (hs ! at)) (ts_nodes t ! i) lo0 hi0 = Some (l, r) \<and>
      x = (if probe < hs ! at then l else r) \<and> bracket hs probe lo hi x x))"

lemma stop_right_within:
  "bracket hs probe lo hi s e \<Longrightarrow> stop_right hs probe s e at stop \<Longrightarrow> stop_right hs probe lo hi at stop"
  by (auto simp: stop_right_def intro: bracket_trans split: tie_end.splits)

lemma trie_ok_node: "trie_ok t hs i p lo hi \<Longrightarrow> tn_p (ts_nodes t ! i) = p \<and> heads_share hs p lo hi"
  by (auto elim!: trie_ok.cases simp: node_at_def)

lemma descends:
  "trie_ok t hs i p lo hi \<Longrightarrow> \<exists>node stop at. tie_descend t probe (ts_nodes t ! i) = Some (node, stop, at) \<and>
    descent_right t hs probe i p lo hi node stop at"
proof (induction rule: trie_ok.induct)
  case (node i p lo hi es)
  let ?w = "sample_at probe p" and ?n = "ts_nodes t ! i"
  define j where "j = below ?w (words_of es)"
  note nd = node_edge [OF node.hyps(1) refl]
  have ch: "chained lo hi es" "es \<noteq> []" using node.hyps(1) by (simp_all add: node_at_def)
  have len: "length (words_of es) = length es" by (simp add: words_of_def)
  have lohi: "lo < hi" using ch chained_in [OF ch(1), of "fst (hd es)"] chained_le by (cases es) fastforce+
  have first: "ts_starts t ! tn_first ?n = lo" using nd(5) [of 0] ch by (cases es) (auto simp: span_starts_def)
  have edge: "tie_edge t ?n probe = (j, get_at (words_of es) j = Some ?w)" using nd(1) [of probe] by (simp add: j_def)
  note brackets = edge_brackets [OF node.hyps(1-3) _ _ _ j_def]
  show ?case
  proof (cases "get_at (words_of es) j = Some ?w")
    case False
    define l where "l = (if j < length es then span_starts es ! j else hi)"
    define at where "at = (if lo < l then l - 1 else lo)"
    have lb: "l \<le> hi"
      using chained_in [OF ch(1)] nth_mem [of j es] by (cases "es ! j") (fastforce simp: l_def span_starts_def)
    have at: "lo \<le> at" "at < hi" using lohi lb by (auto simp: at_def)
    have "tie_descend t probe ?n = Some (?n, EndAt l, at)"
      using False nd(3,4) nd(5) [of j] first by (subst tie_descend.simps) (simp add: edge Let_def l_def at_def)
    moreover have "descent_right t hs probe i p lo hi ?n (EndAt l) at"
      using at brackets(1) [OF at _ False] nd(2) by (simp add: descent_right_def stop_right_def l_def)
    ultimately show ?thesis by blast
  next
    case True
    then have jl: "j < length es" using len by (simp add: get_at_Some_iff)
    obtain w s e k where ej: "es ! j = (w, s, e, k)" by (cases "es ! j")
    have mem: "(w, s, e, k) \<in> set es" using nth_mem [OF jl] ej by simp
    have in_run: "lo \<le> s" "s < e" "e \<le> hi" using chained_in [OF ch(1) mem] by simp_all
    have at: "ts_starts t ! (tn_first ?n + j) = s" "ts_kids t ! (tn_first ?n + j) = k"
      using nd(5,6) [OF jl] jl ej by (simp_all add: span_starts_def span_kids_def)
    have stop: "tie_end_of t ?n j = e"
      using chained_nth_end [OF ch(1) jl ej] nd(3,4) nd(5) [of "Suc j"] by (simp add: tie_end_of_def)
    note step = tie_descend.simps [of t probe ?n, unfolded edge] and brk = brackets(2) [OF _ _ _ True ej]
    consider (leaf) "k = LEAF" "e = Suc s" | (flat) "k = FLAT" "k \<noteq> LEAF" | (kid) p' where "k \<noteq> LEAF" "k \<noteq> FLAT" "p \<le> p'" "trie_ok t hs k p' s e"
      "\<exists>node stop at. tie_descend t probe (ts_nodes t ! k) = Some (node, stop, at) \<and> descent_right t hs probe k p' s e node stop at"
      using node.IH [OF mem] by (auto simp: LEAF_def FLAT_def)
    then show ?thesis
    proof cases
      case leaf
      have "tie_descend t probe ?n = Some (?n, EndLeaf s, s)" by (subst step) (simp add: True at leaf)
      moreover have "descent_right t hs probe i p lo hi ?n (EndLeaf s) s"
        using in_run brk [of s] nd(2) leaf by (simp add: descent_right_def stop_right_def)
      ultimately show ?thesis by blast
    next
      case flat
      have "tie_descend t probe ?n = Some (?n, EndFlat s e, s)" using flat(2) by (subst step) (simp add: True at flat(1) stop)
      moreover have "descent_right t hs probe i p lo hi ?n (EndFlat s e) s"
        using in_run brk [of s] nd(2) by (simp add: descent_right_def stop_right_def)
      ultimately show ?thesis by blast
    next
      case kid
      obtain node stp b where kd: "tie_descend t probe (ts_nodes t ! k) = Some (node, stp, b)" "descent_right t hs probe k p' s e node stp b"
        using kid(5) by blast
      have b: "s \<le> b" "b < e" "p' \<le> tn_p node" using kd(2) by (simp_all add: descent_right_def)
      have b': "lo \<le> b" "b < hi" using b in_run by simp_all
      let ?shared = "lcp probe (hs ! b)"
      have "tie_descend t probe ?n = Some (node, stp, b)" by (subst step) (simp add: True at kid(1,2) kd(1))
      moreover have right: "stop_right hs probe lo hi b stp" if "tn_p node \<le> ?shared"
        using stop_right_within [OF brk [OF b']] kd(2) that kid(3) b(3) by (simp add: descent_right_def)
      moreover have corr: "\<exists>l r x. tie_correct t probe ?shared ?n lo0 hi0 = Some (l, r) \<and> x = (if probe < hs ! b then l else r) \<and> bracket hs probe lo hi x x"
        if out: "?shared < tn_p node" "p \<le> ?shared" for lo0 hi0
      proof -
        have c: "tie_correct t probe ?shared ?n lo0 hi0 = tie_correct t probe ?shared (ts_nodes t ! k) s e"
          using out(2) nd(2) by (subst tie_correct.simps) (simp add: edge True at stop kid(1,2) Let_def)
        show ?thesis
        proof (cases "p' \<le> ?shared")
          case True
          then obtain l r x where "tie_correct t probe ?shared (ts_nodes t ! k) s e = Some (l, r)" "x = (if probe < hs ! b then l else r)"
            "bracket hs probe s e x x" using kd(2) out(1) unfolding descent_right_def by blast
          then show ?thesis using c bracket_trans [OF brk [OF b' out(2)], of x x]
            by (intro exI [of _ l] exI [of _ r] exI [of _ x]) simp
        next
          case False
          note kn = trie_ok_node [OF kid(4)]
          have "tie_correct t probe ?shared (ts_nodes t ! k) s e = Some (s, e)"
            using False kn by (subst tie_correct.simps) simp
          moreover have "bracket hs probe s e (if probe < hs ! b then s else e) (if probe < hs ! b then s else e)"
            using off_prefix_bracket [of hs p' s e b probe] kn b False by simp
          ultimately show ?thesis using c bracket_trans [OF brk [OF b' out(2)]] by auto
        qed
      qed
      moreover have "descent_right t hs probe i p lo hi node stp b"
        unfolding descent_right_def using b' kid(3) b(3) by (intro conjI impI allI right corr) simp_all
      ultimately show ?thesis by blast
    qed
  qed
qed

subsection \<open>The boundary\<close>

lemma boundary_brackets:
  assumes ok: "trie_ok t hs root p lo hi" and head: "\<And>b. lo \<le> b \<Longrightarrow> b < hi \<Longrightarrow> head b = Gives (hs ! b)"
    and flat: "\<And>a c. bracket hs probe lo hi a c \<Longrightarrow> \<exists>l. flat a c = Gives l \<and> bracket hs probe lo hi l l"
  shows "\<exists>l known. ties_boundary t root probe head flat = Gives (l, known) \<and> bracket hs probe lo hi l l \<and>
    (\<forall>m n. known = Some (m, n) \<longrightarrow> lo < l \<and> l \<le> hi \<and> m = lcp (hs ! (l - 1)) probe \<and> n = length (hs ! (l - 1)))"
proof -
  obtain node stop at where d: "tie_descend t probe (ts_nodes t ! root) = Some (node, stop, at)" "descent_right t hs probe root p lo hi node stop at"
    using descends [OF ok] by blast
  have at: "lo \<le> at" "at < hi" using d(2) by (simp_all add: descent_right_def)
  note rn = trie_ok_node [OF ok]
  let ?shared = "lcp probe (hs ! at)"
  have fin: "\<exists>l known. ties_boundary t root probe head flat = Gives (l, known) \<and> bracket hs probe lo hi l l \<and>
    (\<forall>m n. known = Some (m, n) \<longrightarrow> lo < l \<and> l \<le> hi \<and> m = lcp (hs ! (l - 1)) probe \<and> n = length (hs ! (l - 1)))"
    if "ties_boundary t root probe head flat = Gives (l, if l = at + 1 then Some (?shared, length (hs ! at)) else None)"
      "bracket hs probe lo hi l l" for l
    using that at by (auto simp: bracket_def lcp_comm)
  show ?thesis
  proof (cases "?shared < tn_p node")
    case False
    then have stop: "stop_right hs probe lo hi at stop" using d(2) by (simp add: descent_right_def)
    obtain l where st: "(case stop of EndAt l \<Rightarrow> Gives l | EndLeaf b \<Rightarrow> Gives (b + (if \<not> probe < hs ! at then 1 else 0)) | EndFlat a c \<Rightarrow> flat a c) = Gives l"
      "bracket hs probe lo hi l l"
    proof (cases stop)
      case (EndLeaf b)
      then show thesis using stop that bracket_step [of hs probe lo hi b]
        by (cases "probe < hs ! at") (auto simp: stop_right_def)
    qed (use stop that flat in \<open>auto simp: stop_right_def\<close>)
    have "ties_boundary t root probe head flat = Gives (l, if l = at + 1 then Some (?shared, length (hs ! at)) else None)"
      by (simp only: ties_boundary_def d(1) option.case prod.case head [OF at] bind_outcome.simps Let_def lcp_bytes_eq
          head_below_iff False if_False st(1))
    then show ?thesis using fin st(2) by blast
  next
    case True
    obtain l r where c: "tie_correct t probe ?shared (ts_nodes t ! root) lo hi = Some (l, r)"
      "bracket hs probe lo hi (if probe < hs ! at then l else r) (if probe < hs ! at then l else r)"
    proof (cases "p \<le> ?shared")
      case True
      then obtain l r x where "tie_correct t probe ?shared (ts_nodes t ! root) lo hi = Some (l, r)" "x = (if probe < hs ! at then l else r)"
        "bracket hs probe lo hi x x" using d(2) \<open>?shared < tn_p node\<close> unfolding descent_right_def by blast
      then show thesis using that by simp
    next
      case False
      then have "tie_correct t probe ?shared (ts_nodes t ! root) lo hi = Some (lo, hi)"
        using rn by (subst tie_correct.simps) simp
      then show thesis using that off_prefix_bracket [of hs p lo hi at probe] rn at False by simp
    qed
    have "ts_starts t ! tn_first (ts_nodes t ! root) = lo \<and> tn_hi (ts_nodes t ! root) = hi"
      using ok
    proof (cases rule: trie_ok.cases)
      case (node es)
      then show ?thesis using node_edge(4) [OF node(1) refl] node_edge(5) [OF node(1) refl, of 0] by (cases es) (auto simp: span_starts_def node_at_def)
    qed
    then have "ties_boundary t root probe head flat = Gives (if probe < hs ! at then l else r,
        if (if probe < hs ! at then l else r) = at + 1 then Some (?shared, length (hs ! at)) else None)"
      by (simp only: ties_boundary_def d(1) option.case prod.case head [OF at] bind_outcome.simps Let_def lcp_bytes_eq
          head_below_iff True if_True c(1))
    then show ?thesis using fin c(2) by blast
  qed
qed

end
