(* ===== verification/Shard_Facts.thy ===== *)
theory Shard_Facts
  imports Order_Facts
begin

text \<open>
  What a shard collects, and the codec and header codes it settles on: every suffix lies in the arenas
  raw and symbol-coded, the pairs are those of the codec that won, and both header codes cover the runs
  they were chosen on.
\<close>

subsection \<open>The runs of a block\<close>

text \<open>The entries of a run after the key \<open>prev\<close>: what each key shares with the one before, and the rest.\<close>

fun entries_after :: "bytes \<Rightarrow> bytes list \<Rightarrow> (nat \<times> bytes) list" where
  "entries_after prev [] = []"
| "entries_after prev (k # ks) = (lcp prev k, drop (lcp prev k) k) # entries_after k ks"

lemma length_entries_after [simp]: "length (entries_after prev ks) = length ks"
  by (induction prev ks rule: entries_after.induct) simp_all

type_synonym key_run = "bytes \<times> bytes list"

definition block_runs :: "nat \<Rightarrow> bytes list \<Rightarrow> key_run list" where
  "block_runs micro bk = (hd bk, map hd (tl (chunks micro bk))) # map (\<lambda>c. (hd c, tl c)) (chunks micro bk)"

abbreviation run_entries :: "key_run \<Rightarrow> (nat \<times> bytes) list" where
  "run_entries r \<equiv> entries_after (fst r) (snd r)"

definition runs_entries :: "key_run list \<Rightarrow> (nat \<times> bytes) list" where
  "runs_entries rs = concat (map run_entries rs)"

lemma runs_entries_simps [simp]:
  "runs_entries [] = []" "runs_entries (r # rs) = run_entries r @ runs_entries rs"
  "runs_entries (rs @ rs') = runs_entries rs @ runs_entries rs'"
  by (simp_all add: runs_entries_def)

subsection \<open>Arenas\<close>

text \<open>Where each of a list of pieces ends when they lie end to end.\<close>

fun ends_from :: "nat \<Rightarrow> bytes list \<Rightarrow> nat list" where
  "ends_from at [] = []"
| "ends_from at (x # xs) = (at + length x) # ends_from (at + length x) xs"

lemma length_ends_from [simp]: "length (ends_from at xs) = length xs"
  by (induction at xs rule: ends_from.induct) simp_all

lemma ends_from_append: "ends_from at (xs @ ys) = ends_from at xs @ ends_from (at + length (concat xs)) ys"
  by (induction at xs rule: ends_from.induct) (simp_all add: add.assoc)

lemma nth_ends_from: "i < length xs \<Longrightarrow> ends_from at xs ! i = at + length (concat (take (Suc i) xs))"
proof (induction at xs arbitrary: i rule: ends_from.induct)
  case (2 at x xs)
  then show ?case by (cases i) simp_all
qed simp

lemma arena_at_nth:
  assumes "i < length xs"
  shows "arena_at (concat xs) (ends_from 0 xs) i = Gives (xs ! i)"
proof -
  have start: "(if i = 0 then 0 else ends_from 0 xs ! (i - 1)) = length (concat (take i xs))"
    using assms by (cases i) (simp_all add: nth_ends_from)
  have xs: "concat xs = concat (take i xs) @ xs ! i @ concat (drop (Suc i) xs)"
    using id_take_nth_drop [OF assms] by (metis concat.simps(2) concat_append)
  have e: "ends_from 0 xs ! i = length (concat (take i xs)) + length (xs ! i)"
    using assms by (simp add: nth_ends_from take_Suc_conv_app_nth)
  have "length (concat (take i xs)) + length (xs ! i) \<le> length (concat xs)" by (subst xs) simp
  moreover have "take (length (xs ! i)) (drop (length (concat (take i xs))) (concat xs)) = xs ! i" by (subst xs) simp
  ultimately show ?thesis
    unfolding arena_at_def start e Let_def using assms by simp
qed

subsection \<open>Collecting\<close>

text \<open>A suffix under a symbol table.\<close>

definition code_under :: "fsst_table \<Rightarrow> bytes \<Rightarrow> bytes" where
  "code_under t s = the (fsst_encode_into (encoder_of t) s [])"

lemma code_under:
  assumes "table_wf t"
  shows "fsst_encode_into (encoder_of t) s [] = Some (code_under t s)" "length (code_under t s) \<le> 2 * length s"
    "stream_ref (symbols_next t) (Suc (length s)) (code_under t s) = Some s"
proof -
  obtain cs where cs: "fsst_encode_into (encoder_of t) s [] = Some cs" "length cs \<le> 2 * length s"
    "\<And>cap. \<exists>k. min cap (length s) \<le> k \<and> k < cap + 8 \<and> fsst_ref t cap cs = Some (take k s)"
    using fsst_encode_ok [OF assms, of s "[]"] by auto
  then have e: "code_under t s = cs" by (simp add: code_under_def)
  show "fsst_encode_into (encoder_of t) s [] = Some (code_under t s)" "length (code_under t s) \<le> 2 * length s"
    using cs e by simp_all
  obtain k where "length s \<le> k" "fsst_ref t (Suc (length s)) cs = Some (take k s)" using cs(3) [of "Suc (length s)"] by auto
  then show "stream_ref (symbols_next t) (Suc (length s)) (code_under t s) = Some s" by (simp add: symbols_ref e)
qed

text \<open>The entries a shard has collected, and the lengths of its runs and of its blocks.\<close>

definition collects :: "fsst_table \<Rightarrow> collected \<Rightarrow> (nat \<times> bytes) list \<Rightarrow> nat list \<Rightarrow> nat list \<Rightarrow> bool" where
  "collects t c es runs per \<longleftrightarrow> co_lcps c = map fst es \<and> co_raw c = concat (map snd es) \<and> co_raw_ends c = ends_from 0 (map snd es) \<and>
    co_coded c = concat (map (code_under t \<circ> snd) es) \<and> co_coded_ends c = ends_from 0 (map (code_under t \<circ> snd) es) \<and>
    co_freq c = byte_freq (concat (map snd es)) \<and> co_runs c = runs \<and> co_per_block c = per"

lemma length_count_bytes [simp]: "length (count_bytes raw freq) = length freq"
  unfolding count_bytes_def by (induction raw arbitrary: freq) simp_all

lemma count_bytes_freq: "count_bytes raw (byte_freq s) = byte_freq (s @ raw)"
proof (induction raw arbitrary: s)
  case (Cons b raw)
  have "(byte_freq s)[unat b := byte_freq s ! unat b + 1] = byte_freq (s @ [b])"
  proof (rule nth_equalityI)
    fix i assume "i < length ((byte_freq s)[unat b := byte_freq s ! unat b + 1])"
    then have i: "i < 256" by (simp add: byte_freq_def)
    have "of_nat i = b \<longleftrightarrow> unat b = i" using i by (auto simp: unat_of_nat)
    then show "(byte_freq s)[unat b := byte_freq s ! unat b + 1] ! i = byte_freq (s @ [b]) ! i"
      using i unat_u8_less [of b] by (cases "of_nat i = b") (auto simp: byte_freq_def nth_list_update)
  qed (simp add: byte_freq_def)
  then show ?case using Cons [of "s @ [b]"] by (simp add: count_bytes_def)
qed (simp add: count_bytes_def)

lemma collects_new: "collects t co_new [] [] []"
  by (simp add: collects_def co_new_def byte_freq_def map_replicate_const)

lemma collects_open: "collects t c es runs per \<Longrightarrow> collects t (co_open c) es (runs @ [0]) per"
  by (simp add: collects_def co_open_def)

lemma co_push_collects:
  assumes "table_wf t" "collects t c es (runs @ [n]) per"
  obtains c' where "co_push prev key (encoder_of t) c = Gives c'"
    "collects t c' (es @ [(lcp prev key, drop (lcp prev key) key)]) (runs @ [Suc n]) per"
proof -
  define raw where "raw = drop (lcp prev key) key"
  define c' where "c' = c\<lparr>co_lcps := co_lcps c @ [lcp prev key], co_raw := co_raw c @ raw,
         co_raw_ends := co_raw_ends c @ [length (co_raw c @ raw)], co_freq := count_bytes raw (co_freq c),
         co_coded := co_coded c @ code_under t raw, co_coded_ends := co_coded_ends c @ [length (co_coded c @ code_under t raw)],
         co_runs := bump_last (co_runs c)\<rparr>"
  have "co_push prev key (encoder_of t) c = Gives c'"
    using assms(2) code_under(1) [OF assms(1), of raw]
    by (simp add: co_push_def lcp_bytes_eq Let_def raw_def [symmetric] c'_def collects_def)
  moreover have "collects t c' (es @ [(lcp prev key, raw)]) (runs @ [Suc n]) per"
    using assms(2) by (simp add: collects_def c'_def ends_from_append count_bytes_freq bump_last_def)
  ultimately show thesis using that by (simp add: raw_def)
qed

lemma push_windows_collects:
  assumes "table_wf t" "collects t c es (runs @ [n]) per"
  shows "\<exists>c'. push_windows (encoder_of t) (k # ks) c = Gives c' \<and>
    collects t c' (es @ entries_after k ks) (runs @ [n + length ks]) per"
  using assms(2)
proof (induction ks arbitrary: k c es n)
  case (Cons b ks)
  obtain c' where c': "co_push k b (encoder_of t) c = Gives c'"
    "collects t c' (es @ [(lcp k b, drop (lcp k b) b)]) (runs @ [Suc n]) per"
    by (rule co_push_collects [OF assms(1) Cons.prems])
  then show ?case using Cons.IH [OF c'(2), of b] by simp
qed simp

lemma push_micros_collects:
  assumes "table_wf t" "collects t c es runs per" "\<forall>ks\<in>set kss. ks \<noteq> []"
  shows "\<exists>c'. push_micros (encoder_of t) kss c = Gives c' \<and>
    collects t c' (es @ runs_entries (map (\<lambda>c. (hd c, tl c)) kss)) (runs @ map (\<lambda>c. length (tl c)) kss) per"
  using assms(2,3)
proof (induction kss arbitrary: c es runs)
  case (Cons ks kss)
  have "\<exists>c'. push_windows (encoder_of t) (hd ks # tl ks) (co_open c) = Gives c' \<and>
    collects t c' (es @ entries_after (hd ks) (tl ks)) (runs @ [0 + length (tl ks)]) per"
    by (rule push_windows_collects [OF assms(1) collects_open [OF Cons.prems(1)]])
  then obtain c' where c': "push_windows (encoder_of t) ks (co_open c) = Gives c'"
    "collects t c' (es @ entries_after (hd ks) (tl ks)) (runs @ [length (tl ks)]) per"
    using Cons.prems(2) by auto
  then show ?case using Cons.IH [OF c'(2)] Cons.prems(2) by simp
qed simp

lemma collect_block_collects:
  assumes "table_wf t" "collects t c es runs per" "bk \<noteq> []" "0 < micro"
  obtains c' where "collect_block bk micro (encoder_of t) c = Gives c'"
    "collects t c' (es @ runs_entries (block_runs micro bk)) (runs @ map (length \<circ> snd) (block_runs micro bk))
      (per @ [length (block_runs micro bk)])"
proof -
  define cs where "cs = chunks micro bk"
  have cs: "cs \<noteq> []" "hd (hd cs) = hd bk" using assms(3,4) by (simp_all add: cs_def chunks_unfold hd_take)
  then have heads: "map hd cs = hd bk # map hd (tl cs)" by (cases cs) simp_all
  obtain c1 where c1: "push_windows (encoder_of t) (map hd cs) (co_open c) = Gives c1"
    "collects t c1 (es @ entries_after (hd bk) (map hd (tl cs))) (runs @ [length (tl cs)]) per"
    using push_windows_collects [OF assms(1) collects_open [OF assms(2)], of "hd bk" "map hd (tl cs)"] heads by auto
  have ne: "\<forall>ks\<in>set cs. ks \<noteq> []" using chunks_nonempty by (auto simp: cs_def)
  obtain c2 where c2: "push_micros (encoder_of t) cs c1 = Gives c2"
    "collects t c2 ((es @ entries_after (hd bk) (map hd (tl cs))) @ runs_entries (map (\<lambda>c. (hd c, tl c)) cs))
      ((runs @ [length (tl cs)]) @ map (\<lambda>c. length (tl c)) cs) per"
    using push_micros_collects [OF assms(1) c1(2) ne] by blast
  have n: "length (block_runs micro bk) = 1 + div_ceil (length bk) micro"
    using assms(4) by (simp add: block_runs_def length_chunks)
  have "collect_block bk micro (encoder_of t) c = Gives (c2\<lparr>co_per_block := co_per_block c2 @ [1 + div_ceil (length bk) micro]\<rparr>)"
    using assms(3) c1(1) c2(1) by (simp add: collect_block_def cs_def)
  then show thesis
    using that c2(2) n by (simp add: collects_def block_runs_def cs_def comp_def)
qed

subsection \<open>Pairs and codecs\<close>

definition unit_count :: "codec \<Rightarrow> bytes \<Rightarrow> nat" where
  "unit_count codec s = (case codec of Symbols t _ \<Rightarrow> length (code_under t s) | Packed a \<Rightarrow> codes_for a s)"

definition pairs_of :: "codec \<Rightarrow> (nat \<times> bytes) list \<Rightarrow> pairs" where
  "pairs_of codec es = map (\<lambda>(l, s). (l, unit_count codec s)) es"

lemma length_pairs_of [simp]: "length (pairs_of codec es) = length es"
  by (simp add: pairs_of_def)

lemma pairs_of_append [simp]: "pairs_of codec (es @ es') = pairs_of codec es @ pairs_of codec es'"
  by (simp add: pairs_of_def)

text \<open>The codecs a shard with these entries may take where the blob has no phrases.\<close>

definition codec_fits :: "fsst_table \<Rightarrow> (nat \<times> bytes) list \<Rightarrow> codec \<Rightarrow> bool" where
  "codec_fits t es codec \<longleftrightarrow> table_wf t \<and>
    (codec = Symbols t None \<or> (\<exists>a. codec = Packed a \<and> alphabet_wf a \<and> covers a (concat (map snd es))))"

lemma map_outcome_Gives: "(\<And>x. x \<in> set xs \<Longrightarrow> f x = Gives (g x)) \<Longrightarrow> map_outcome f xs = Gives (map g xs)"
  by (induction xs) simp_all

lemma collects_at:
  assumes "collects t c es runs per" "i < length es"
  shows "co_lcps c ! i = fst (es ! i)" "raw_at c i = Gives (snd (es ! i))" "coded_at c i = Gives (code_under t (snd (es ! i)))"
  using assms arena_at_nth [of i "map snd es"] arena_at_nth [of i "map (code_under t \<circ> snd) es"]
  by (simp_all add: collects_def raw_at_def coded_at_def)

lemma co_pairs_collects:
  assumes "collects t c es runs per" "codec_fits t es codec"
  shows "co_pairs codec c = Gives (pairs_of codec es)"
proof -
  have "bind_outcome (units_at codec c i) (\<lambda>u. Gives (co_lcps c ! i, u)) = Gives (pairs_of codec es ! i)" if i: "i < length es" for i
    using collects_at [OF assms(1) i] assms(2) i
    by (auto simp: codec_fits_def units_at_def pairs_of_def unit_count_def case_prod_unfold)
  then have "co_pairs codec c = Gives (map (\<lambda>i. pairs_of codec es ! i) [0..<co_entries c])"
    unfolding co_pairs_def using assms(1) by (intro map_outcome_Gives) (simp add: co_entries_def collects_def)
  also have "map (\<lambda>i. pairs_of codec es ! i) [0..<co_entries c] = pairs_of codec es"
    using map_nth [of "pairs_of codec es"] assms(1) by (simp add: co_entries_def collects_def)
  finally show ?thesis .
qed

lemma covers_part: "covers a (concat ss) \<Longrightarrow> s \<in> set ss \<Longrightarrow> covers a s"
  by (auto simp: covers_def)

text \<open>Every suffix of the shard is put as the units its pair names.\<close>

lemma puts_collected:
  assumes c: "collects t c es runs per" "i < length es" and codec: "codec_fits t es codec"
  shows "puts d codec (put_suffix codec c i) (unit_count codec (snd (es ! i))) (snd (es ! i))"
proof -
  note at = collects_at [OF c]
  from codec consider "codec = Symbols t None" "table_wf t" | a where "codec = Packed a" "alphabet_wf a" "covers a (concat (map snd es))"
    by (auto simp: codec_fits_def)
  then show ?thesis
  proof cases
    case 1
    then show ?thesis using puts_symbols [OF 1(2) at(3) code_under(3) [OF 1(2)]] by (simp add: unit_count_def)
  next
    case 2
    have "covers a (snd (es ! i))" using covers_part [OF 2(3)] c(2) by simp
    then show ?thesis using puts_packed [OF 2(2) _ at(2)] 2(1) by (simp add: unit_count_def)
  qed
qed

lemma coded_keys_collected:
  assumes c: "collects t c es runs per" and codec: "codec_fits t es codec"
    and es: "take (length ks) (drop i es) = entries_after prev ks"
  shows "coded_keys d codec c i prev ks (pairs_of codec (entries_after prev ks))"
  using es
proof (induction ks arbitrary: i prev)
  case Nil
  then show ?case by (simp add: pairs_of_def)
next
  case (Cons k ks)
  have i: "i < length es"
  proof (rule ccontr)
    assume "\<not> i < length es"
    then show False using Cons.prems by simp
  qed
  then have "drop i es = es ! i # drop (Suc i) es" by (simp add: Cons_nth_drop_Suc)
  then have e: "es ! i = (lcp prev k, drop (lcp prev k) k)" "take (length ks) (drop (Suc i) es) = entries_after k ks"
    using Cons.prems by simp_all
  show ?case
    using Cons.IH [OF e(2)] puts_collected [OF c i codec, of d] e(1) by (simp add: pairs_of_def)
qed

subsection \<open>Groups\<close>

lemma cut_runs_concat: "cut_runs (map length pss) (concat pss) = pss"
  by (induction pss) simp_all

lemma split_groups_concat:
  "\<forall>b\<in>set bss. b \<noteq> [] \<Longrightarrow> split_groups (map length bss) (concat bss) = (concat (map tl bss), map hd bss)"
proof (induction bss)
  case (Cons b bss)
  then obtain r b' where "b = r # b'" by (cases b) auto
  then show ?case using Cons by simp
qed simp

text \<open>The pairs of the blocks of a shard: a list of blocks, each the list of its runs.\<close>

definition block_pairs :: "codec \<Rightarrow> nat \<Rightarrow> bytes list list \<Rightarrow> pairs list list" where
  "block_pairs codec micro bks = map (\<lambda>bk. map (\<lambda>r. pairs_of codec (run_entries r)) (block_runs micro bk)) bks"

definition shard_entries :: "nat \<Rightarrow> bytes list list \<Rightarrow> (nat \<times> bytes) list" where
  "shard_entries micro bks = runs_entries (concat (map (block_runs micro) bks))"

definition shard_collects :: "fsst_table \<Rightarrow> collected \<Rightarrow> nat \<Rightarrow> bytes list list \<Rightarrow> bool" where
  "shard_collects t c micro bks \<longleftrightarrow> collects t c (shard_entries micro bks)
    (map (length \<circ> snd) (concat (map (block_runs micro) bks))) (map (length \<circ> block_runs micro) bks)"

lemma concat_block_pairs: "concat (concat (block_pairs codec micro bks)) = pairs_of codec (shard_entries micro bks)"
proof -
  have "concat (map (\<lambda>r. pairs_of codec (run_entries r)) rs) = pairs_of codec (runs_entries rs)" for rs
    by (induction rs) (simp_all add: pairs_of_def)
  from this [of "concat (map (block_runs micro) bks)"] show ?thesis
    by (simp add: block_pairs_def shard_entries_def map_concat comp_def)
qed

lemma co_groups_collected:
  assumes "shard_collects t c micro bks"
  shows "co_groups c (pairs_of codec (shard_entries micro bks)) =
    (concat (map tl (block_pairs codec micro bks)), map hd (block_pairs codec micro bks))"
proof -
  let ?pss = "concat (block_pairs codec micro bks)"
  have runs: "co_runs c = map length ?pss" and per: "co_per_block c = map length (block_pairs codec micro bks)"
    using assms by (simp_all add: shard_collects_def collects_def block_pairs_def map_concat comp_def)
  have "cut_runs (co_runs c) (pairs_of codec (shard_entries micro bks)) = ?pss"
    unfolding runs concat_block_pairs [symmetric] by (rule cut_runs_concat)
  moreover have "\<forall>b\<in>set (block_pairs codec micro bks). b \<noteq> []" by (simp add: block_pairs_def block_runs_def)
  ultimately show ?thesis unfolding co_groups_def per by (simp add: split_groups_concat)
qed

subsection \<open>Settling\<close>

text \<open>What a settled shard writes under: a codec its entries fit, and header codes that cover every run.\<close>

definition codes_cover :: "codec \<Rightarrow> pair_code \<times> pair_code \<Rightarrow> nat \<Rightarrow> bytes list list \<Rightarrow> bool" where
  "codes_cover codec codes micro bks \<longleftrightarrow> (\<forall>bk\<in>set bks. \<forall>j<length (block_runs micro bk).
    let ps = pairs_of codec (run_entries (block_runs micro bk ! j)); code = (if j = 0 then snd codes else fst codes)
    in ps \<noteq> [] \<longrightarrow> code_wf code \<and> run_in code ps)"

lemma co_price_covers:
  assumes "shard_collects t c micro bks" "codec_fits t (shard_entries micro bks) codec"
  obtains n codes where "co_price codec c = Gives (n, codes)" "codes_cover codec codes micro bks"
proof -
  define bss where "bss = block_pairs codec micro bks"
  have ps: "co_pairs codec c = Gives (pairs_of codec (shard_entries micro bks))"
    using co_pairs_collects assms by (simp add: shard_collects_def)
  have g: "co_groups c (pairs_of codec (shard_entries micro bks)) = (concat (map tl bss), map hd bss)"
    unfolding bss_def by (rule co_groups_collected [OF assms(1)])
  obtain n where n: "co_price codec c = Gives (n, fst (choose_cost (concat (map tl bss))), fst (choose_cost (map hd bss)))"
    using ps g by (simp add: co_price_def Let_def)
  moreover have "codes_cover codec (fst (choose_cost (concat (map tl bss))), fst (choose_cost (map hd bss))) micro bks"
    unfolding codes_cover_def Let_def
  proof (intro ballI allI impI)
    fix bk j assume bk: "bk \<in> set bks" and j: "j < length (block_runs micro bk)"
    define b where "b = map (\<lambda>r. pairs_of codec (run_entries r)) (block_runs micro bk)"
    have b: "b \<in> set bss" "length b = length (block_runs micro bk)" using bk by (auto simp: bss_def block_pairs_def b_def)
    have bj: "pairs_of codec (run_entries (block_runs micro bk ! j)) = b ! j" using j by (simp add: b_def)
    assume ne: "pairs_of codec (run_entries (block_runs micro bk ! j)) \<noteq> []"
    show "code_wf (if j = 0 then snd (fst (choose_cost (concat (map tl bss))), fst (choose_cost (map hd bss)))
         else fst (fst (choose_cost (concat (map tl bss))), fst (choose_cost (map hd bss)))) \<and>
       run_in (if j = 0 then snd (fst (choose_cost (concat (map tl bss))), fst (choose_cost (map hd bss)))
         else fst (fst (choose_cost (concat (map tl bss))), fst (choose_cost (map hd bss))))
        (pairs_of codec (run_entries (block_runs micro bk ! j)))"
    proof (cases j)
      case 0
      then have "b ! 0 = hd b" using j b(2) by (cases b) auto
      then have "b ! j \<in> set (map hd bss)" using b(1) 0 by simp
      then show ?thesis using choose_cost_covers [of "b ! j" "map hd bss"] ne bj 0 by simp
    next
      case (Suc k)
      then have "b ! j \<in> set (tl b)" using j b(2) by (cases b) auto
      then have "b ! j \<in> set (concat (map tl bss))" using b(1) by auto
      then show ?thesis using choose_cost_covers [of "b ! j" "concat (map tl bss)"] ne bj Suc by simp
    qed
  qed
  ultimately show thesis using that by blast
qed

lemma settle_plain_settles:
  assumes c: "shard_collects t c micro bks" and t: "table_wf t"
  obtains codec codes where "settle_plain t c = Gives (codec, codes, pairs_of codec (shard_entries micro bks))"
    "codec_fits t (shard_entries micro bks) codec" "codes_cover codec codes micro bks"
proof -
  let ?es = "shard_entries micro bks"
  have s: "codec_fits t ?es (Symbols t None)" using t by (simp add: codec_fits_def)
  obtain n codes where n: "co_price (Symbols t None) c = Gives (n, codes)" "codes_cover (Symbols t None) codes micro bks"
    by (rule co_price_covers [OF c s])
  have freq: "co_freq c = byte_freq (concat (map snd ?es))" using c by (simp add: shard_collects_def collects_def)
  have pairs: "co_pairs codec c = Gives (pairs_of codec ?es)" if "codec_fits t ?es codec" for codec
    using co_pairs_collects [OF _ that] c by (simp add: shard_collects_def)
  show thesis
  proof (cases "alphabet_of (co_freq c)")
    case None
    then show ?thesis using that [OF _ s n(2)] n(1) pairs [OF s] by (simp add: settle_plain_def)
  next
    case (Some p)
    obtain a bits where a: "alphabet_of (co_freq c) = Some (a, bits)" using Some by (cases p) auto
    have p: "codec_fits t ?es (Packed a)"
      using alphabet_of_covers [of "concat (map snd ?es)"] a freq t by (simp add: codec_fits_def)
    obtain m pcodes where m: "co_price (Packed a) c = Gives (m, pcodes)" "codes_cover (Packed a) pcodes micro bks"
      by (rule co_price_covers [OF c p])
    show ?thesis
    proof (cases "m < n")
      case True
      then show ?thesis using that [OF _ p m(2)] a n(1) m(1) pairs [OF p] by (simp add: settle_plain_def)
    next
      case False
      then show ?thesis using that [OF _ s n(2)] a n(1) m(1) pairs [OF s] by (simp add: settle_plain_def)
    qed
  qed
qed

end
