(* ===== verification/Write_Facts.thy ===== *)
theory Write_Facts
  imports Shard_Facts
begin

text \<open>
  The blocks a shard writes: each run reads back, each lies where the starts say, and the bytes are
  bounded by the keys they were written from.
\<close>

subsection \<open>How long a run is\<close>

lemma varint_len_le: "v < 2 ^ (7 * Suc k) \<Longrightarrow> varint_len v \<le> Suc k"
proof (induction k arbitrary: v)
  case 0
  then show ?case by (subst varint_len.simps) simp
next
  case (Suc k)
  have "v div 128 < 2 ^ (7 * Suc k)" using Suc.prems by (intro div_less_iff_less_mult [THEN iffD2]) (simp_all add: power_add)
  then show ?case using Suc.IH [of "v div 128"] by (subst varint_len.simps) simp
qed

lemma usize_varint_len: "v < usize_bound \<Longrightarrow> varint_len v \<le> 10"
  using varint_len_le [of v 9] by (simp add: usize_bound_def)

lemma push_escape: "pw_push w l len [] = Some (w', ch) \<Longrightarrow> ch = [] \<or> ch = varint l @ varint len"
proof -
  assume "pw_push w l len [] = Some (w', ch)"
  then obtain code where "pair_code_of w l len [] = Some (code, ch)"
    by (cases "pair_code_of w l len []"; cases "flush_bytes (pw_out w) (pw_bits w OR push_bit (pw_used w)
      (of_nat (fst (the (pair_code_of w l len []))))) (pw_used w + pw_width w)") (auto simp: pw_push_def)
  then show ?thesis
    using put_varint_append [of "varint l" "[]" len]
    by (auto simp: pair_code_of_def Let_def split: prod.splits option.splits if_splits)
qed

lemma header_bound:
  assumes "code_wf code" "reader_of code data n = Some (r, sfx)"
  shows "header_bytes r \<le> 8 + 4 * n"
proof -
  have le: "div_ceil (at + n * w) 8 \<le> 8 + 4 * n" if "at \<le> 56" "w \<le> 30" for at w
  proof -
    have "n * w \<le> n * 30" using that(2) by (rule mult_le_mono2)
    then have "at + n * w \<le> (8 + 4 * n) * 8" using that(1) by (simp only: distrib_right)
    then show ?thesis by (simp only: div_ceil_le_iff)
  qed
  show ?thesis
  proof (cases code)
    case (Frame f)
    have "frames_bits f \<le> 56" using assms(1) by (auto simp: Frame code_wf_def frames_wf_def frames_shape_def frames_bits_def PROLOGUE_MAX_def)
    then show ?thesis
      using assms(2) le by (auto simp: Frame reader_of_def reader_frame_def reader_at_def header_bytes_def FRAME_MAX_def Let_def split: if_splits)
  next
    case (Table w ps)
    then show ?thesis
      using assms le [of 0 w] by (auto simp: code_wf_def reader_of_def reader_at_def header_bytes_def TABLE_MAX_def Let_def)
  qed
qed

lemma run_loop_bits:
  assumes "coded_keys d codec c i prev ks ps" "pairs_fit ps" "body_ok codec b" "run_loop codec c i ps w b = Gives (w', bf)"
  shows "bits_total bf \<le> bits_total b + 168 * length ps + codec_unit codec * sum_list (map snd ps)"
  using assms
proof (induction ps arbitrary: i prev ks w b)
  case (Cons p ps)
  obtain l len where p: "p = (l, len)" by fastforce
  obtain k ks' where ks: "ks = k # ks'" using Cons.prems(1) by (cases ks) auto
  have pt: "puts d codec (put_suffix codec c i) len (drop (lcp prev k) k)" and rest: "coded_keys d codec c (Suc i) k ks' ps"
    using Cons.prems(1) by (simp_all add: ks p)
  have fit: "l < usize_bound" "len < usize_bound" "pairs_fit ps" using Cons.prems(2) by (auto simp: pairs_fit_def p)
  obtain w1 ch where w1: "pw_push w l len [] = Some (w1, ch)" using Cons.prems(4) by (auto simp: p split: option.splits)
  define b1 where "b1 = (if ch \<noteq> [] then bits_extend (bits_pad b) ch else b)"
  note esc = escape_appends [OF Cons.prems(3) b1_def]
  have b1: "bits_total b1 \<le> bits_total b + 168"
  proof (cases "ch = []")
    case False
    have "length ch \<le> 20"
      using push_escape [OF w1] usize_varint_len [OF fit(1)] usize_varint_len [OF fit(2)] False by (auto simp: length_varint)
    then show ?thesis using esc(3) [OF False] div_ceil_less [of 8 "bits_total b"] by simp
  qed (simp add: b1_def)
  obtain b2 where b2: "put_suffix codec c i b1 = Gives b2" "body_ok codec b2" "bits_total b2 = bits_total b1 + len * codec_unit codec"
    using pt esc(1) by (auto simp: puts_def appends_def)
  have "run_loop codec c (Suc i) ps w1 b2 = Gives (w', bf)" using Cons.prems(4) w1 b2(1) by (simp add: p b1_def [symmetric] Let_def)
  from Cons.IH [OF rest fit(3) b2(2) this] show ?case using b1 b2(3) by (simp add: p algebra_simps)
qed simp

lemma write_run_bounded:
  assumes ck: "coded_keys d codec c first prev ks ps" and fit: "pairs_fit ps" and unit: "1 \<le> codec_unit codec" "codec_unit codec \<le> 8"
    and code: "ps \<noteq> [] \<Longrightarrow> code_wf code \<and> run_in code ps" and wr: "write_run code codec c ps first (out, widths) = Gives (out @ run, widths')"
  shows "length run \<le> 9 + 25 * length ps + sum_list (map snd ps)"
proof (cases "ps = []")
  case True
  then show ?thesis using wr by (simp add: write_run_def)
next
  case False
  obtain w wd where w: "writer_new code ps widths = (w, wd)" by fastforce
  obtain w1 chs where w1: "push_pairs w ps = Some (w1, chs)" "\<And>rest. reads_back code (pw_finish w1 []) rest ps chs"
    using writer_reads_back [OF _ _ fit w] code [OF False] by blast
  have b0: "body_ok codec bits_new" "bits_total bits_new = 0" by (simp_all add: body_ok_def bits_new_def bits_ok_def bits_total_def)
  obtain bf where bf: "run_loop codec c first ps w bits_new = Gives (w1, bf)" "body_ok codec bf"
    using run_loop_runs [OF ck fit w1(1) b0(1) unit(1)] by blast
  have okf: "bits_ok bf" using bf(2) by (simp add: body_ok_def)
  have "length (pw_finish w1 []) \<le> 8 + 4 * length ps"
    using w1(2) [of "[]"] header_bound [of code "pw_finish w1 [] @ []" "length ps"] code [OF False]
    by (fastforce simp: reads_back_def split: option.splits)
  moreover have "length run = length (pw_finish w1 []) + length (fst (bits_drain bf []))"
    using wr bf(1) bits_drain_value(4) [OF okf, of "pw_finish w1 out"] by (simp add: write_run_def False w pw_finish_def)
  moreover have "length (fst (bits_drain bf [])) = div_ceil (bits_total bf) 8" by (rule bits_drain_value(2) [OF okf])
  moreover have "bits_total bf \<le> 168 * length ps + codec_unit codec * sum_list (map snd ps)"
    using run_loop_bits [OF ck fit b0(1) bf(1)] b0(2) by simp
  moreover have "codec_unit codec * sum_list (map snd ps) \<le> 8 * sum_list (map snd ps)" using unit(2) by (rule mult_le_mono1)
  moreover have "div_ceil (bits_total bf) 8 * 8 < bits_total bf + 8" by (rule div_ceil_less) simp
  ultimately show ?thesis by linarith
qed

subsection \<open>How many units a suffix takes\<close>

lemma codec_fits_unit: "codec_fits t es codec \<Longrightarrow> 1 \<le> codec_unit codec \<and> codec_unit codec \<le> 8"
  using tables_sizes(1,2) by (auto simp: codec_fits_def codec_unit_def alphabet_wf_def)

lemma codes_for_le: "alphabet_wf a \<Longrightarrow> codes_for a s \<le> 10 * length s"
proof -
  assume "alphabet_wf a"
  then have "1 \<le> a_width a" using tables_sizes(1) by (auto simp: alphabet_wf_def)
  then have "div_ceil 8 (a_width a) \<le> 8" by (simp add: div_ceil_le_iff)
  then have "(let c = a_code a ! unat b in if c = NO_CODE then raw_codes (a_width a) else if drop_bit 15 c = 1 then 2 else 1) \<le> 10" for b :: u8
    by (simp add: raw_codes_def Let_def)
  then show ?thesis
    unfolding codes_for_def by (induction s) (auto simp: add_mono simp del: Let_def intro: order_trans [OF add_mono])
qed

lemma unit_count_le: "codec_fits t es codec \<Longrightarrow> unit_count codec s \<le> 10 * length s"
  using codes_for_le [of _ s] code_under(2) [of t s] by (auto simp: codec_fits_def unit_count_def)

text \<open>The bytes a run may take, by its keys.\<close>

definition run_room :: "bytes list \<Rightarrow> nat" where
  "run_room ks = sum_list (map (\<lambda>k. 34 + 10 * length k) ks)"

lemma pairs_room:
  assumes "codec_fits t es codec"
  shows "9 * length ks + 25 * length ks + sum_list (map snd (pairs_of codec (entries_after prev ks))) \<le> run_room ks"
proof (induction ks arbitrary: prev)
  case (Cons k ks)
  have "unit_count codec (drop (lcp prev k) k) \<le> 10 * length k"
    using unit_count_le [OF assms, of "drop (lcp prev k) k"] by simp
  then show ?case using Cons.IH [of k] by (simp add: pairs_of_def run_room_def)
qed (simp add: pairs_of_def run_room_def)

lemma pairs_of_fit:
  assumes "codec_fits t es codec" "\<forall>k\<in>set ks. 10 * length k < usize_bound"
  shows "pairs_fit (pairs_of codec (entries_after prev ks))"
  using assms(2)
proof (induction ks arbitrary: prev)
  case (Cons k ks)
  have "unit_count codec (drop (lcp prev k) k) \<le> 10 * length k" "lcp prev k \<le> 10 * length k"
    using unit_count_le [OF assms(1), of "drop (lcp prev k) k"] lcp_le(2) [of prev k] by simp_all
  then have "unit_count codec (drop (lcp prev k) k) < usize_bound" "lcp prev k < usize_bound"
    using Cons.prems by (simp_all add: le_less_trans)
  then show ?case using Cons.IH [of k] Cons.prems by (simp add: pairs_of_def pairs_fit_def)
qed (simp add: pairs_of_def pairs_fit_def)

subsection \<open>The runs of a block\<close>

text \<open>Where each of a list of pieces starts when they lie end to end.\<close>

fun starts_of :: "nat \<Rightarrow> bytes list \<Rightarrow> nat list" where
  "starts_of at [] = []"
| "starts_of at (x # xs) = at # starts_of (at + length x) xs"

lemma length_starts_of [simp]: "length (starts_of at xs) = length xs"
  by (induction at xs rule: starts_of.induct) simp_all

lemma starts_of_append: "starts_of at (xs @ ys) = starts_of at xs @ starts_of (at + length (concat xs)) ys"
  by (induction at xs rule: starts_of.induct) (simp_all add: add.assoc)

lemma nth_starts_of: "i < length xs \<Longrightarrow> starts_of at xs ! i = at + length (concat (take i xs))"
proof (induction at xs arbitrary: i rule: starts_of.induct)
  case (2 at x xs)
  then show ?case by (cases i) simp_all
qed simp

lemma starts_of_shift: "starts_of (k + at) xs = map ((+) k) (starts_of at xs)"
  by (induction at xs rule: starts_of.induct) (simp_all add: add.assoc)

text \<open>The runs of a block as written: each reads back, in no more room than its keys give it.\<close>

definition run_bytes :: "dict \<Rightarrow> codec \<Rightarrow> pair_code \<Rightarrow> key_run \<Rightarrow> bytes \<Rightarrow> bool" where
  "run_bytes d codec code r rb \<longleftrightarrow> length rb \<le> run_room (snd r) \<and>
    (length rb * 16 < usize_bound \<longrightarrow> written_run d codec code rb (fst r) (snd r))"

definition keys_small :: "bytes list \<Rightarrow> bool" where
  "keys_small ks \<longleftrightarrow> (\<forall>k\<in>set ks. 10 * length k < usize_bound)"

definition runs_covered :: "codec \<Rightarrow> pair_code \<times> pair_code \<Rightarrow> nat \<Rightarrow> key_run list \<Rightarrow> bool" where
  "runs_covered codec codes k rl \<longleftrightarrow> (\<forall>j<length rl. keys_small (snd (rl ! j)) \<and>
    (let ps = pairs_of codec (run_entries (rl ! j)); code = (if k + j = 0 then snd codes else fst codes)
     in ps \<noteq> [] \<longrightarrow> code_wf code \<and> run_in code ps))"

lemma write_runs_writes:
  assumes c: "collects t c es runs per" and codec: "codec_fits t es codec"
    and sh: "sh = \<lparr>sh_collected = c, sh_pairs = pairs_of codec es, sh_codec = codec, sh_codes = codes\<rparr>"
  shows "runs_covered codec codes k rl \<Longrightarrow> take (length (runs_entries rl)) (drop first es) = runs_entries rl \<Longrightarrow>
    first + length (runs_entries rl) \<le> length es \<Longrightarrow>
    \<exists>rbs w'. write_runs sh at (map (\<lambda>r. length (snd r)) rl) k first block starts w =
        Gives (block @ concat rbs, starts @ (if k = 0 then tl else (\<lambda>x. x)) (starts_of (at + length block) rbs), w', first + length (runs_entries rl)) \<and>
      length rbs = length rl \<and> (\<forall>j<length rl. run_bytes d codec (if k + j = 0 then snd codes else fst codes) (rl ! j) (rbs ! j))"
proof (induction rl arbitrary: k first block starts w)
  case (Cons r rl)
  obtain prev ks where r: "r = (prev, ks)" by fastforce
  define ps where "ps = pairs_of codec (entries_after prev ks)"
  define code where "code = (if k = 0 then snd codes else fst codes)"
  have small: "keys_small ks" and cov: "ps \<noteq> [] \<Longrightarrow> code_wf code \<and> run_in code ps"
    using Cons.prems(1) by (auto simp: runs_covered_def Let_def r ps_def code_def dest!: spec [of _ 0])
  have rest: "runs_covered codec codes (Suc k) rl"
    using Cons.prems(1) unfolding runs_covered_def by (auto dest: spec [of _ "Suc _"])
  have le: "first + length ks \<le> length es" using Cons.prems(3) by (simp add: r)
  have "take (length ks + length (runs_entries rl)) (drop first es) = entries_after prev ks @ runs_entries rl"
    using Cons.prems(2) by (simp add: r)
  then have "take (length ks) (drop first es) @ take (length (runs_entries rl)) (drop (first + length ks) es) = entries_after prev ks @ runs_entries rl"
    by (simp add: take_add add.commute)
  moreover have "length (take (length ks) (drop first es)) = length (entries_after prev ks)" using le by simp
  ultimately have e: "take (length ks) (drop first es) = entries_after prev ks"
    "take (length (runs_entries rl)) (drop (first + length ks) es) = runs_entries rl"
    using append_eq_append_conv by blast+
  have tp: "take (length ks) (drop first (pairs_of codec es)) = ps"
    using e(1) by (simp add: pairs_of_def ps_def take_map drop_map)
  note ck = coded_keys_collected [OF c codec e(1), of d, folded ps_def]
  have fit: "pairs_fit ps" using pairs_of_fit [OF codec] small by (simp add: ps_def keys_small_def)
  note unit = codec_fits_unit [OF codec]
  obtain rb w1 where wr: "write_run code codec c ps first (block, w) = Gives (block @ rb, w1)"
    "length rb * 16 < usize_bound \<Longrightarrow> written_run d codec code rb prev ks"
    using write_run_written [OF ck fit _ _ cov] unit by metis
  have "length rb \<le> 9 + 25 * length ps + sum_list (map snd ps)"
    using write_run_bounded [OF ck fit _ _ cov wr(1)] unit by simp
  moreover have "rb = []" if "ks = []" using wr(1) that by (simp add: write_run_def ps_def pairs_of_def)
  moreover have "9 \<le> 9 * length ks" if "ks \<noteq> []" using that by (cases ks) simp_all
  ultimately have "length rb \<le> run_room ks"
    using pairs_room [OF codec, of ks prev] by (cases "ks = []") (simp_all add: ps_def)
  then have rb: "run_bytes d codec code r rb" using wr(2) by (simp add: run_bytes_def r)
  have le': "(first + length ks) + length (runs_entries rl) \<le> length es" using Cons.prems(3) by (simp add: r)
  obtain rbs w' where ih: "write_runs sh at (map (\<lambda>r. length (snd r)) rl) (Suc k) (first + length ks) (block @ rb)
      (if k > 0 then starts @ [at + length block] else starts) w1 =
        Gives ((block @ rb) @ concat rbs, (if k > 0 then starts @ [at + length block] else starts) @ starts_of (at + length (block @ rb)) rbs,
          w', (first + length ks) + length (runs_entries rl))"
    "length rbs = length rl" "\<And>j. j < length rl \<Longrightarrow> run_bytes d codec (fst codes) (rl ! j) (rbs ! j)"
    using Cons.IH [OF rest e(2) le', of "block @ rb" "if k > 0 then starts @ [at + length block] else starts" w1]
    by (auto simp: comp_def)
  have "write_runs sh at (map (\<lambda>r. length (snd r)) (r # rl)) k first block starts w =
      Gives (block @ concat (rb # rbs), starts @ (if k = 0 then tl else (\<lambda>x. x)) (starts_of (at + length block) (rb # rbs)), w',
        first + length (runs_entries (r # rl)))"
    using ih(1) wr(1) le tp by (auto simp: sh r code_def Let_def add.assoc)
  moreover have "run_bytes d codec (if k + j = 0 then snd codes else fst codes) ((r # rl) ! j) ((rb # rbs) ! j)" if "j < length (r # rl)" for j
    using that rb ih(3) by (cases j) (auto simp: code_def)
  ultimately show ?case using ih(2) by (intro exI [of _ "rb # rbs"] exI [of _ w']) simp
qed simp

subsection \<open>The blocks of a shard\<close>

definition block_bytes :: "dict \<Rightarrow> codec \<Rightarrow> pair_code \<times> pair_code \<Rightarrow> nat \<Rightarrow> bytes list \<Rightarrow> bytes list \<Rightarrow> bool" where
  "block_bytes d codec codes micro bk rbs \<longleftrightarrow> length rbs = length (block_runs micro bk) \<and>
    (\<forall>j<length rbs. run_bytes d codec (if j = 0 then snd codes else fst codes) (block_runs micro bk ! j) (rbs ! j))"

fun micro_starts :: "nat \<Rightarrow> bytes list list \<Rightarrow> nat list" where
  "micro_starts at [] = []"
| "micro_starts at (rbs # BS) = tl (starts_of at rbs) @ micro_starts (at + length (concat rbs)) BS"

lemma micro_starts_append: "micro_starts at (A @ B) = micro_starts at A @ micro_starts (at + length (concat (map concat A))) B"
  by (induction at A rule: micro_starts.induct) (simp_all add: add.assoc)

lemma chunk_subset: "c \<in> set (chunks n xs) \<Longrightarrow> set c \<subseteq> set xs"
proof (induction n xs rule: chunks.induct)
  case (1 n xs)
  show ?case
  proof (cases "n = 0 \<or> xs = []")
    case False
    then have "c = take n xs \<or> c \<in> set (chunks n (drop n xs))" using 1(2) by (subst (asm) chunks.simps) auto
    then show ?thesis using 1(1) [OF False] set_take_subset [of n xs] set_drop_subset [of n xs] by auto
  qed (use 1(2) in \<open>auto simp: chunks.simps\<close>)
qed

lemma block_runs_keys: "r \<in> set (block_runs micro bk) \<Longrightarrow> set (snd r) \<subseteq> set bk"
proof -
  assume r: "r \<in> set (block_runs micro bk)"
  have hd: "hd c \<in> set bk" if "c \<in> set (chunks micro bk)" for c
    using chunk_subset [OF that] chunks_nonempty [OF that] by (metis hd_in_set subsetD)
  have tl: "set (tl c) \<subseteq> set bk" if "c \<in> set (chunks micro bk)" for c
    using chunk_subset [OF that] chunks_nonempty [OF that] by (cases c) auto
  have part: "c \<in> set (chunks micro bk)" if "c \<in> set (tl (chunks micro bk))" for c
    using that by (cases "chunks micro bk") simp_all
  from r show ?thesis using hd subsetD [OF tl] part by (auto simp: block_runs_def)
qed

end
