(* ===== verification/Part_Facts.thy ===== *)
theory Part_Facts
  imports Write_Facts
begin

text \<open>
  What a range of shards encodes to: the blocks of every shard as written, where each of them and each
  of their runs starts, and the codec and header codes they were written under.
\<close>

subsection \<open>The blocks of a shard\<close>

lemma block_runs_small: "keys_small bk \<Longrightarrow> r \<in> set (block_runs micro bk) \<Longrightarrow> keys_small (snd r)"
  using block_runs_keys by (fastforce simp: keys_small_def)

lemma block_covered:
  assumes "codes_cover codec codes micro bks" "bk \<in> set bks" "keys_small bk"
  shows "runs_covered codec codes 0 (block_runs micro bk)"
  using assms block_runs_small [OF assms(3) nth_mem] by (auto simp: runs_covered_def codes_cover_def)

lemma write_blocks_writes:
  assumes c: "collects t c es runs per" and codec: "codec_fits t es codec"
    and sh: "sh = \<lparr>sh_collected = c, sh_pairs = pairs_of codec es, sh_codec = codec, sh_codes = codes\<rparr>"
  shows "codes_cover codec codes micro bks \<Longrightarrow> (\<forall>bk\<in>set bks. keys_small bk) \<Longrightarrow>
    take (length (shard_entries micro bks)) (drop first es) = shard_entries micro bks \<Longrightarrow> first + length (shard_entries micro bks) \<le> length es \<Longrightarrow>
    \<exists>BS w'. write_blocks sh (map (\<lambda>bk. length (block_runs micro bk)) bks) (map (\<lambda>r. length (snd r)) (concat (map (block_runs micro) bks))) first at w pt =
        Gives (at + length (concat (map concat BS)), w', pt\<lparr>pt_blocks := pt_blocks pt @ starts_of at (map concat BS),
          pt_micros := pt_micros pt @ micro_starts at BS, pt_data := pt_data pt @ concat (map concat BS)\<rparr>) \<and>
      list_all2 (block_bytes d codec codes micro) bks BS"
proof (induction bks arbitrary: first at w pt)
  case (Cons bk bks)
  have split: "shard_entries micro (bk # bks) = runs_entries (block_runs micro bk) @ shard_entries micro bks"
    by (simp add: shard_entries_def)
  define n where "n = length (runs_entries (block_runs micro bk))"
  have cov: "runs_covered codec codes 0 (block_runs micro bk)" using block_covered [OF Cons.prems(1)] Cons.prems(2) by simp
  have rest: "codes_cover codec codes micro bks" using Cons.prems(1) by (simp add: codes_cover_def)
  have le: "first + n + length (shard_entries micro bks) \<le> length es" using Cons.prems(4) by (simp add: split n_def)
  have "take n (drop first es) @ take (length (shard_entries micro bks)) (drop (first + n) es) =
      runs_entries (block_runs micro bk) @ shard_entries micro bks"
    using Cons.prems(3) by (simp only: split length_append take_add drop_drop n_def add.commute [of first "length (runs_entries (block_runs micro bk))"])
  moreover have "length (take n (drop first es)) = length (runs_entries (block_runs micro bk))" using le by (simp add: n_def)
  ultimately have e: "take n (drop first es) = runs_entries (block_runs micro bk)"
    "take (length (shard_entries micro bks)) (drop (first + n) es) = shard_entries micro bks"
    using append_eq_append_conv by blast+
  obtain rbs w1 where w: "write_runs sh at (map (\<lambda>r. length (snd r)) (block_runs micro bk)) 0 first [] [] w =
      Gives (concat rbs, tl (starts_of at rbs), w1, first + n)"
    and rbs: "block_bytes d codec codes micro bk rbs"
    using write_runs_writes [OF c codec sh cov, of first at "[]" "[]" w d] e(1) le by (auto simp: n_def block_bytes_def)
  have small: "\<forall>bk\<in>set bks. keys_small bk" using Cons.prems(2) by simp
  define pt1 where "pt1 = pt\<lparr>pt_blocks := pt_blocks pt @ [at], pt_micros := pt_micros pt @ tl (starts_of at rbs), pt_data := pt_data pt @ concat rbs\<rparr>"
  obtain BS w' where ih: "write_blocks sh (map (\<lambda>bk. length (block_runs micro bk)) bks)
      (map (\<lambda>r. length (snd r)) (concat (map (block_runs micro) bks))) (first + n) (at + length (concat rbs)) w1 pt1 =
      Gives (at + length (concat rbs) + length (concat (map concat BS)), w', pt1\<lparr>pt_blocks := pt_blocks pt1 @ starts_of (at + length (concat rbs)) (map concat BS),
        pt_micros := pt_micros pt1 @ micro_starts (at + length (concat rbs)) BS, pt_data := pt_data pt1 @ concat (map concat BS)\<rparr>)"
    "list_all2 (block_bytes d codec codes micro) bks BS"
    using Cons.IH [OF rest small e(2) le, of "at + length (concat rbs)" w1 pt1] by blast
  show ?case
    using w ih rbs by (intro exI [of _ "rbs # BS"] exI [of _ w']) (simp add: add.assoc pt1_def)
qed simp

subsection \<open>Collecting a shard\<close>

lemma shard_collects_new: "shard_collects t co_new micro []"
  using collects_new by (simp add: shard_collects_def shard_entries_def)

lemma collect_blocks_collects:
  assumes "table_wf t" "0 < micro"
  shows "shard_collects t c micro bks0 \<Longrightarrow> \<forall>bk\<in>set bks. bk \<noteq> [] \<Longrightarrow>
    \<exists>c'. collect_blocks micro (encoder_of t) bks c pt = Gives (c', pt\<lparr>pt_heads := pt_heads pt @ concat (map hd bks),
        pt_head_ends := pt_head_ends pt @ ends_from (length (pt_heads pt)) (map hd bks)\<rparr>) \<and>
      shard_collects t c' micro (bks0 @ bks)"
proof (induction bks arbitrary: c bks0 pt)
  case (Cons bk bks)
  have bk: "bk \<noteq> []" using Cons.prems(2) by simp
  obtain c1 where c1: "collect_block bk micro (encoder_of t) c = Gives c1"
    "collects t c1 (shard_entries micro bks0 @ runs_entries (block_runs micro bk))
      (map (length \<circ> snd) (concat (map (block_runs micro) bks0)) @ map (length \<circ> snd) (block_runs micro bk))
      (map (length \<circ> block_runs micro) bks0 @ [length (block_runs micro bk)])"
    using collect_block_collects [OF assms(1) _ bk assms(2)] Cons.prems(1) unfolding shard_collects_def by metis
  have "shard_collects t c1 micro (bks0 @ [bk])" using c1(2) by (simp add: shard_collects_def shard_entries_def)
  from Cons.IH [OF this, of "pt\<lparr>pt_heads := pt_heads pt @ hd bk, pt_head_ends := pt_head_ends pt @ [length (pt_heads pt @ hd bk)]\<rparr>"]
  show ?case using c1(1) Cons.prems(2) by (auto simp: Let_def)
qed simp

subsection \<open>A part\<close>

text \<open>A part that holds these blocks, each written as these runs.\<close>

definition part_holds :: "dict \<Rightarrow> nat \<Rightarrow> nat \<Rightarrow> bytes list list \<Rightarrow> bytes list list \<Rightarrow> part \<Rightarrow> bool" where
  "part_holds d micro shard bks BS pt \<longleftrightarrow> length BS = length bks \<and> pt_heads pt = concat (map hd bks) \<and>
    pt_head_ends pt = ends_from 0 (map hd bks) \<and> pt_blocks pt = starts_of 0 (map concat BS) \<and> pt_micros pt = micro_starts 0 BS \<and>
    pt_data pt = concat (map concat BS) \<and> length (pt_codes pt) = div_ceil (length bks) shard \<and>
    length (pt_codecs pt) = div_ceil (length bks) shard \<and>
    (\<forall>b<length bks. block_bytes d (pt_codecs pt ! (b div shard)) (pt_codes pt ! (b div shard)) micro (bks ! b) (BS ! b))"

lemma part_holds_new: "part_holds d micro shard [] [] part_new"
  by (simp add: part_holds_def part_new_def div_ceil_def)

lemma div_ceil_append: "0 < n \<Longrightarrow> n dvd a \<Longrightarrow> div_ceil (a + b) n = div_ceil a n + div_ceil b n"
proof (elim dvdE)
  fix k assume n: "0 < n" and k: "a = n * k"
  have "(n * k + b) div n = k + b div n" "(n * k + b) mod n = b mod n" "n * k div n = k" "n * k mod n = 0" using n by simp_all
  then show "div_ceil (a + b) n = div_ceil a n + div_ceil b n" by (simp only: div_ceil_def k refl if_True add_0_right add_0_left add.assoc)
qed

lemma less_div_ceil: "0 < n \<Longrightarrow> b < a \<Longrightarrow> b div n < div_ceil a n"
proof (rule ccontr)
  assume *: "0 < n" "b < a" "\<not> b div n < div_ceil a n"
  then have "a \<le> b div n * n" using div_ceil_le_iff [OF *(1), of a "b div n"] by simp
  then show False using div_times_less_eq_dividend [of b n] *(2) by linarith
qed

lemma nth_append_div:
  assumes "0 < n" "n dvd a" "length xs = div_ceil a n" "a \<le> b"
  shows "(xs @ ys) ! (b div n) = ys ! ((b - a) div n)"
proof -
  obtain k where k: "a = n * k" using assms(2) by (rule dvdE)
  have len: "length xs = k" using assms(1,3) by (simp add: div_ceil_def k)
  have "b div n = k + (b - a) div n"
  proof -
    have "b div n = ((b - a) + k * n) div n" using assms(4) k by (simp add: mult.commute)
    then show ?thesis using assms(1) by simp
  qed
  then show ?thesis by (simp add: nth_append len)
qed

lemma nth_append_div_less:
  "0 < n \<Longrightarrow> length xs = div_ceil a n \<Longrightarrow> b < a \<Longrightarrow> (xs @ ys) ! (b div n) = xs ! (b div n)" for n :: nat
  using less_div_ceil [of n b a] by (simp add: nth_append)

text \<open>Blocks appended to a part that holds whole shards.\<close>

lemma part_holds_append:
  assumes p: "part_holds d micro shard bks BS pt" and shard: "0 < shard" "shard dvd length bks"
    and BS: "length BS' = length bks'" "length codes = div_ceil (length bks') shard" "length codecs = div_ceil (length bks') shard"
      "\<forall>b<length bks'. block_bytes d (codecs ! (b div shard)) (codes ! (b div shard)) micro (bks' ! b) (BS' ! b)"
    and pt': "pt' = \<lparr>pt_heads = pt_heads pt @ concat (map hd bks'),
      pt_head_ends = pt_head_ends pt @ ends_from (length (pt_heads pt)) (map hd bks'),
      pt_blocks = pt_blocks pt @ starts_of (length (pt_data pt)) (map concat BS'),
      pt_micros = pt_micros pt @ micro_starts (length (pt_data pt)) BS', pt_data = pt_data pt @ concat (map concat BS'),
      pt_codes = pt_codes pt @ codes, pt_codecs = pt_codecs pt @ codecs\<rparr>"
  shows "part_holds d micro shard (bks @ bks') (BS @ BS') pt'"
proof -
  have "block_bytes d ((pt_codecs pt @ codecs) ! (b div shard)) ((pt_codes pt @ codes) ! (b div shard)) micro ((bks @ bks') ! b) ((BS @ BS') ! b)"
    if b: "b < length (bks @ bks')" for b
  proof (cases "b < length bks")
    case True
    then show ?thesis using p less_div_ceil [OF shard(1) True] by (simp add: part_holds_def nth_append)
  next
    case False
    then have le: "length bks \<le> b" by simp
    have "length (pt_codecs pt) = div_ceil (length bks) shard" "length (pt_codes pt) = div_ceil (length bks) shard"
      using p by (simp_all add: part_holds_def)
    note d = nth_append_div [OF shard this(1) le] nth_append_div [OF shard this(2) le]
    show ?thesis using p b BS False unfolding d by (simp add: part_holds_def nth_append)
  qed
  then show ?thesis
    using p BS shard by (simp add: part_holds_def pt' ends_from_append starts_of_append micro_starts_append div_ceil_append)
qed

subsection \<open>Encoding shards\<close>

lemma chunks_take_drop:
  assumes "0 < n"
  shows "chunks n xs = chunks n (take (k * n) xs) @ chunks n (drop (k * n) xs)"
proof (induction k arbitrary: xs)
  case 0
  then show ?case by (simp add: chunks.simps)
next
  case (Suc k)
  show ?case
  proof (cases "xs = []")
    case False
    have "chunks n xs = take n xs # chunks n (drop n xs)" using assms False by (simp add: chunks_unfold)
    moreover have "chunks n (take (Suc k * n) xs) = take n xs # chunks n (take (k * n) (drop n xs))"
    proof -
      have "take (Suc k * n) xs \<noteq> []" using assms False by simp
      moreover have "take n (take (Suc k * n) xs) = take n xs" by simp
      moreover have "drop n (take (Suc k * n) xs) = take (k * n) (drop n xs)" by (simp add: drop_take)
      ultimately show ?thesis using chunks_unfold [of n "take (Suc k * n) xs"] assms by simp
    qed
    moreover have "drop (Suc k * n) xs = drop (k * n) (drop n xs)" by (simp add: add.commute)
    ultimately show ?thesis using Suc.IH [of "drop n xs"] by simp
  qed (simp add: chunks.simps)
qed

lemma shard_writes:
  assumes t: "table_wf t" and micro: "0 < micro" and bks: "\<forall>bk\<in>set bks. bk \<noteq> [] \<and> keys_small bk"
    and pt1: "pt1 = pt\<lparr>pt_heads := pt_heads pt @ concat (map hd bks),
        pt_head_ends := pt_head_ends pt @ ends_from (length (pt_heads pt)) (map hd bks)\<rparr>"
  shows "\<exists>c BS codec codes ps w'. collect_blocks micro (encoder_of t) bks co_new pt = Gives (c, pt1) \<and>
    settle_plain t c = Gives (codec, codes, ps) \<and>
    shard_write \<lparr>sh_collected = c, sh_pairs = ps, sh_codec = codec, sh_codes = codes\<rparr> at w pt1 =
      Gives (at + length (concat (map concat BS)), w', pt1\<lparr>pt_blocks := pt_blocks pt @ starts_of at (map concat BS),
          pt_micros := pt_micros pt @ micro_starts at BS, pt_data := pt_data pt @ concat (map concat BS)\<rparr>) \<and>
    list_all2 (block_bytes d codec codes micro) bks BS"
proof -
  obtain c where c: "collect_blocks micro (encoder_of t) bks co_new pt = Gives (c, pt1)" "shard_collects t c micro bks"
    using collect_blocks_collects [OF t micro shard_collects_new, of bks pt] bks by (auto simp: pt1)
  obtain codec codes where s: "settle_plain t c = Gives (codec, codes, pairs_of codec (shard_entries micro bks))"
    "codec_fits t (shard_entries micro bks) codec" "codes_cover codec codes micro bks"
    by (rule settle_plain_settles [OF c(2) t])
  have small: "\<forall>bk\<in>set bks. keys_small bk" using bks by blast
  have e: "take (length (shard_entries micro bks)) (drop 0 (shard_entries micro bks)) = shard_entries micro bks"
    "0 + length (shard_entries micro bks) \<le> length (shard_entries micro bks)" by simp_all
  have coll: "collects t c (shard_entries micro bks) (map (length \<circ> snd) (concat (map (block_runs micro) bks))) (map (length \<circ> block_runs micro) bks)"
    using c(2) by (simp add: shard_collects_def)
  have sizes: "co_per_block c = map (\<lambda>bk. length (block_runs micro bk)) bks"
    "co_runs c = map (\<lambda>r. length (snd r)) (concat (map (block_runs micro) bks))"
    using coll by (simp_all add: collects_def comp_def)
  define sh where "sh = \<lparr>sh_collected = c, sh_pairs = pairs_of codec (shard_entries micro bks), sh_codec = codec, sh_codes = codes\<rparr>"
  obtain BS w' where BS: "write_blocks sh (map (\<lambda>bk. length (block_runs micro bk)) bks)
      (map (\<lambda>r. length (snd r)) (concat (map (block_runs micro) bks))) 0 at w pt1 =
      Gives (at + length (concat (map concat BS)), w', pt1\<lparr>pt_blocks := pt_blocks pt1 @ starts_of at (map concat BS),
          pt_micros := pt_micros pt1 @ micro_starts at BS, pt_data := pt_data pt1 @ concat (map concat BS)\<rparr>)"
    "list_all2 (block_bytes d codec codes micro) bks BS"
    using write_blocks_writes [OF coll s(2) sh_def s(3) small e, of at w pt1 d] by blast
  then have "shard_write sh at w pt1 = Gives (at + length (concat (map concat BS)), w', pt1\<lparr>pt_blocks := pt_blocks pt @ starts_of at (map concat BS),
          pt_micros := pt_micros pt @ micro_starts at BS, pt_data := pt_data pt @ concat (map concat BS)\<rparr>)"
    by (simp add: shard_write_def sh_def sizes) (simp add: pt1)
  then show ?thesis using c(1) s(1) BS(2) unfolding sh_def by blast
qed

lemma part_holds_lists: "part_holds d micro shard bks BS pt \<Longrightarrow> length BS = length bks"
  by (simp add: part_holds_def)

lemma encode_shards_holds:
  assumes tables: "tables \<noteq> []" "\<forall>t\<in>set tables. table_wf t" and sizes: "0 < block" "0 < micro" "0 < shard"
  shows "part_holds d micro shard bks BS pt \<Longrightarrow> shard dvd length bks \<Longrightarrow> at = length (pt_data pt) \<Longrightarrow> keys_small keys \<Longrightarrow>
    \<exists>pt' BS'. encode_shards block micro tables s (chunks (shard * block) keys) at w pt = Gives pt' \<and>
      part_holds d micro shard (bks @ chunks block keys) (BS @ BS') pt'"
proof (induction "chunks (shard * block) keys" arbitrary: keys s at w pt bks BS)
  case Nil
  then have "keys = []" using sizes by (auto simp: chunks.simps split: if_splits)
  then show ?case using Nil.prems by (intro exI [of _ pt] exI [of _ "[]"]) (simp add: chunks.simps)
next
  case (Cons span spans)
  have ne: "keys \<noteq> []" using Cons.hyps(2) by (auto simp: chunks.simps)
  then have span: "span = take (shard * block) keys" "spans = chunks (shard * block) (drop (shard * block) keys)"
    using Cons.hyps(2) sizes by (simp_all add: chunks_unfold)
  define t where "t = tables ! min s (length tables - 1)"
  have "min s (length tables - 1) < length tables" using tables(1) by (cases tables) auto
  then have t: "table_wf t" using tables(2) nth_mem by (auto simp: t_def)
  define bks' where "bks' = chunks block span"
  have split: "chunks block keys = bks' @ chunks block (drop (shard * block) keys)"
    unfolding bks'_def span(1) by (rule chunks_take_drop [OF sizes(1)])
  have bks': "\<forall>bk\<in>set bks'. bk \<noteq> [] \<and> keys_small bk"
  proof
    fix bk assume bk: "bk \<in> set bks'"
    have "bk \<noteq> []" using bk chunks_nonempty unfolding bks'_def by blast
    moreover have "set bk \<subseteq> set keys"
      using chunk_subset [of bk block span] bk set_take_subset [of "shard * block" keys] by (auto simp: bks'_def span(1))
    ultimately show "bk \<noteq> [] \<and> keys_small bk" using Cons.prems(4) by (auto simp: keys_small_def)
  qed
  define pt1 where "pt1 = pt\<lparr>pt_heads := pt_heads pt @ concat (map hd bks'),
        pt_head_ends := pt_head_ends pt @ ends_from (length (pt_heads pt)) (map hd bks')\<rparr>"
  obtain c B codec codes ps w' where wr: "collect_blocks micro (encoder_of t) bks' co_new pt = Gives (c, pt1)"
    "settle_plain t c = Gives (codec, codes, ps)"
    "shard_write \<lparr>sh_collected = c, sh_pairs = ps, sh_codec = codec, sh_codes = codes\<rparr> at w pt1 =
      Gives (at + length (concat (map concat B)), w', pt1\<lparr>pt_blocks := pt_blocks pt @ starts_of at (map concat B),
          pt_micros := pt_micros pt @ micro_starts at B, pt_data := pt_data pt @ concat (map concat B)\<rparr>)"
    "list_all2 (block_bytes d codec codes micro) bks' B"
    using shard_writes [OF t sizes(2) bks' pt1_def, of at w d] by blast
  define pt2 where "pt2 = pt1\<lparr>pt_blocks := pt_blocks pt @ starts_of at (map concat B),
          pt_micros := pt_micros pt @ micro_starts at B, pt_data := pt_data pt @ concat (map concat B),
          pt_codes := pt_codes pt @ [codes], pt_codecs := pt_codecs pt @ [codec]\<rparr>"
  have len: "length bks' = div_ceil (min (length keys) (shard * block)) block"
    using sizes by (simp add: bks'_def span(1) length_chunks)
  have le: "length bks' \<le> shard" using sizes by (simp add: len div_ceil_le_iff)
  have pos: "0 < length bks'" using ne sizes by (simp add: bks'_def span(1))
  have one: "div_ceil (length bks') shard = 1" "b < length bks' \<Longrightarrow> b div shard = 0" for b
    using le pos by (cases "length bks' = shard"; simp add: div_ceil_def)+
  have holds: "part_holds d micro shard (bks @ bks') (BS @ B) pt2"
    by (rule part_holds_append [OF Cons.prems(1) sizes(3) Cons.prems(2), of B bks' "[codes]" "[codec]"])
       (use wr(4) one Cons.prems(3) in \<open>auto simp: list_all2_conv_all_nth pt2_def pt1_def\<close>)
  have same: "pt_codes pt1 = pt_codes pt" "pt_codecs pt1 = pt_codecs pt" by (simp_all add: pt1_def)
  have step0: "encode_shards block micro tables s (span # spans) at w pt =
      encode_shards block micro tables (Suc s) spans (at + length (concat (map concat B))) w' pt2"
    using wr(1-3) tables(1) by (simp add: Let_def t_def [unfolded One_nat_def, symmetric] bks'_def [symmetric] pt2_def same)
  note step = step0 [unfolded Cons.hyps(2)]
  show ?case
  proof (cases "drop (shard * block) keys = []")
    case True
    have "chunks n ([] :: bytes list) = []" for n by simp
    then have e: "spans = []" "chunks block keys = bks'" unfolding span(2) split True by simp_all
    have "encode_shards block micro tables s (chunks (shard * block) keys) at w pt = Gives pt2"
      unfolding step e(1) by simp
    then show ?thesis using holds unfolding e(2) by blast
  next
    case False
    then have "min (length keys) (shard * block) = shard * block" by simp
    then have "length bks' = shard" using sizes by (simp add: len div_ceil_def)
    then have d: "shard dvd length (bks @ bks')" using Cons.prems(2) by simp
    have at: "at + length (concat (map concat B)) = length (pt_data pt2)" using Cons.prems(3) by (simp add: pt2_def)
    have small: "keys_small (drop (shard * block) keys)" using Cons.prems(4) by (auto simp: keys_small_def dest: in_set_dropD)
    obtain pt' BS' where ih: "encode_shards block micro tables (Suc s) (chunks (shard * block) (drop (shard * block) keys))
        (at + length (concat (map concat B))) w' pt2 = Gives pt'"
      "part_holds d micro shard ((bks @ bks') @ chunks block (drop (shard * block) keys)) ((BS @ B) @ BS') pt'"
      using Cons.hyps(1) [OF span(2) holds d at small, of "Suc s" w'] by blast
    have "encode_shards block micro tables s (chunks (shard * block) keys) at w pt = Gives pt'"
      unfolding step span(2) by (rule ih(1))
    moreover have "part_holds d micro shard (bks @ chunks block keys) (BS @ B @ BS') pt'" using ih(2) by (simp add: split)
    ultimately show ?thesis by blast
  qed
qed

lemma encode_range_holds:
  assumes "tables \<noteq> []" "\<forall>t\<in>set tables. table_wf t" "0 < block" "0 < micro" "0 < shard" "keys_small keys"
  shows "\<exists>pt BS. encode_range keys block micro tables shard first = Gives pt \<and> part_holds d micro shard (chunks block keys) BS pt"
  using encode_shards_holds [OF assms(1-5) part_holds_new _ _ assms(6), where d = d and s = "first div shard" and w = widths_default and at = 0]
  by (simp add: encode_range_def part_new_def)

end
