(* ===== verification/Word_Route.thy ===== *)
theory Word_Route
  imports Order_Facts Paircode_Facts
begin

text \<open>
  Two samples told apart: their first differing byte is where the keys they were taken from part, unless
  the lower key may have ended before it. This is what lets a route word stand for its restart.
\<close>

subsection \<open>Leading bytes of a number\<close>

lemma div_add_small: "r < m \<Longrightarrow> (q * m + r) div m = q" for q r m :: nat
  by simp

lemma be_nat_div: "be_nat (i + k) bs div 256 ^ k = be_nat i bs"
proof (induction i arbitrary: bs)
  case 0
  then show ?case using be_nat_less [of k bs] by simp
next
  case (Suc i)
  show ?case
  proof (cases bs)
    case (Cons b l)
    have "unat b * 256 ^ (i + k) + be_nat (i + k) l = be_nat (i + k) l + (unat b * 256 ^ i) * 256 ^ k" by (simp add: power_add)
    then have "be_nat (Suc i + k) bs div 256 ^ k = unat b * 256 ^ i + be_nat (i + k) l div 256 ^ k"
      by (simp only: Cons be_nat.simps add_Suc div_mult_self1 power_not_zero zero_neq_numeral) simp
    then show ?thesis using Suc [of l] by (simp add: Cons)
  qed simp
qed

lemma be_nat_mod0: "length bs \<le> i \<Longrightarrow> be_nat (i + k) bs mod 256 ^ k = 0"
proof (induction i arbitrary: bs)
  case (Suc i)
  then show ?case by (cases bs) (auto simp: power_add mod_eq_0_iff_dvd)
qed simp

lemma be_nat_eq_take: "i \<le> length a \<Longrightarrow> i \<le> length b \<Longrightarrow> be_nat i a = be_nat i b \<Longrightarrow> take i a = take i b"
proof (induction i arbitrary: a b)
  case (Suc i)
  obtain x a' where a: "a = x # a'" using Suc.prems(1) by (cases a) auto
  obtain y b' where b: "b = y # b'" using Suc.prems(2) by (cases b) auto
  note ab = a b
  have e: "unat x * 256 ^ i + be_nat i a' = unat y * 256 ^ i + be_nat i b'" using Suc.prems(3) unfolding ab be_nat.simps .
  have "(unat x * 256 ^ i + be_nat i a') div 256 ^ i = unat x" by (rule div_add_small [OF be_nat_less])
  moreover have "(unat y * 256 ^ i + be_nat i b') div 256 ^ i = unat y" by (rule div_add_small [OF be_nat_less])
  ultimately have xy: "unat x = unat y" unfolding e by (rule trans [OF sym])
  have "be_nat i a' = be_nat i b'" using e unfolding xy by (rule add_left_imp_eq)
  then have "take i a' = take i b'" using Suc.IH [of a' b'] Suc.prems(1,2) ab by simp
  moreover have "x = y" using xy by (simp only: word_unat_eq_iff)
  ultimately show ?case by (simp add: ab)
qed simp

lemma be_nat_Suc: "be_nat (Suc i) bs = be_nat i bs * 256 + (if i < length bs then unat (bs ! i) else 0)"
proof (induction i arbitrary: bs)
  case 0
  then show ?case by (cases bs) simp_all
next
  case (Suc i)
  show ?case
  proof (cases bs)
    case (Cons b bs')
    have "be_nat (Suc (Suc i)) bs = unat b * 256 ^ Suc i + be_nat (Suc i) bs'" by (simp only: Cons be_nat.simps)
    then show ?thesis using Suc [of bs'] Cons by simp
  qed simp
qed

subsection \<open>Leading and trailing zeros\<close>

lemma nat_xor_zero_iff: "a XOR b = 0 \<longleftrightarrow> a = b" for a b :: nat
  by (auto simp: bit_eq_iff bit_xor_iff)

lemma leading_zeros_bytes:
  assumes "x \<noteq> y" "i = leading_zeros (x XOR y) div 8"
  shows "i < 8" "unat x div 256 ^ (8 - i) = unat y div 256 ^ (8 - i)" "unat x div 256 ^ (7 - i) \<noteq> unat y div 256 ^ (7 - i)"
proof -
  define z n where "z = unat (x XOR y)" and "n = bits_of z"
  have z: "z = unat x XOR unat y" by (simp add: z_def unsigned_xor_eq)
  have "z \<noteq> 0" using assms(1) by (simp add: z nat_xor_zero_iff word_unat_eq_iff)
  then have z0: "0 < z" by simp
  have "z < 2 ^ 64" using unsigned_less [of "x XOR y"] by (simp add: z_def)
  then have n: "n \<le> 64" by (simp add: n_def bits_of_le)
  have zn: "2 ^ (n - 1) \<le> z" "z < 2 ^ n" using bits_of_eq [OF z0] by (simp_all add: n_def)
  have n0: "0 < n" using zn(2) z0 by (cases n) auto
  have i: "i = (64 - n) div 8" by (simp add: assms(2) leading_zeros_def n_def z_def)
  show i8: "i < 8" using i n0 by linarith
  have b: "n \<le> 8 * (8 - i)" "8 * (7 - i) \<le> n - 1" using i n n0 by linarith+
  have dz: "unat x div 256 ^ k = unat y div 256 ^ k \<longleftrightarrow> z < 2 ^ (8 * k)" for k
  proof -
    have "unat x div 256 ^ k = unat y div 256 ^ k \<longleftrightarrow> drop_bit (8 * k) z = 0"
      by (simp add: z power_256 drop_bit_xor nat_xor_zero_iff flip: drop_bit_eq_div)
    then show ?thesis by (simp add: drop_bit_eq_div div_eq_0_iff)
  qed
  show "unat x div 256 ^ (8 - i) = unat y div 256 ^ (8 - i)"
    unfolding dz using zn(2) power_increasing [OF b(1), of "2::nat"] by linarith
  show "unat x div 256 ^ (7 - i) \<noteq> unat y div 256 ^ (7 - i)"
    unfolding dz using zn(1) power_increasing [OF b(2), of "2::nat"] by linarith
qed

text \<open>A word whose last nonzero byte is not before byte \<open>i\<close> was taken from a key at least as long.\<close>

lemma trailing_zeros_mod:
  assumes "unat w mod 2 ^ k = 0" "k \<le> 64"
  shows "k \<le> trailing_zeros w"
proof -
  have "\<not> bit w j" if "j < k" for j
  proof -
    have "take_bit k (unat w) = 0" using assms(1) by (simp add: take_bit_eq_mod)
    then have "\<not> bit (take_bit k (unat w)) j" by simp
    then show ?thesis using that by (simp add: bit_take_bit_iff bit_unsigned_iff)
  qed
  then have "takeWhile (\<lambda>j. \<not> bit w j) ([0..<k] @ [k..<64]) = [0..<k] @ takeWhile (\<lambda>j. \<not> bit w j) [k..<64]"
    by (subst takeWhile_append2) auto
  moreover have "[0..<64] = [0..<k] @ [k..<64]" using assms(2) upt_add_eq_append [of 0 k "64 - k"] by simp
  ultimately show ?thesis by (simp add: trailing_zeros_def)
qed

lemma may_end_before_length:
  assumes "\<not> may_end_before (sample_at key g) i" "i \<le> 8"
  shows "i \<le> length (drop g key)"
proof (rule ccontr)
  assume short: "\<not> i \<le> length (drop g key)"
  define w where "w = sample_at key g"
  have "length (drop g key) \<le> i - 1" "0 < i" using short by simp_all
  then have "be_nat (i - 1 + (9 - i)) (drop g key) mod 256 ^ (9 - i) = 0" by (intro be_nat_mod0)
  then have m: "unat w mod 2 ^ (8 * (9 - i)) = 0" using \<open>0 < i\<close> assms(2) by (simp add: w_def unat_sample_at power_256)
  have "8 * (9 - i) \<le> (if w = 0 then 64 else trailing_zeros w)"
  proof (cases "w = 0")
    case False
    have "8 * (9 - i) \<le> 64" using \<open>0 < i\<close> by linarith
    then show ?thesis using trailing_zeros_mod [OF m] False by simp
  qed (use \<open>0 < i\<close> in simp)
  then have "9 - i \<le> (if w = 0 then 64 else trailing_zeros w) div 8" by linarith
  then show False using assms(1) \<open>0 < i\<close> assms(2)
    by (simp only: may_end_before_def w_def [symmetric])
qed

subsection \<open>Where two keys part\<close>

lemma lcp_eqI:
  fixes a b :: bytes
  assumes "take n a = take n b" "n \<le> length a" "n \<le> length b" "n < length a \<Longrightarrow> n < length b \<Longrightarrow> a ! n \<noteq> b ! n"
  shows "lcp a b = n"
proof -
  have "lcp (drop n a) (drop n b) = 0"
  proof (cases "n < length a \<and> n < length b")
    case True
    then have "drop n a = a ! n # drop (Suc n) a" "drop n b = b ! n # drop (Suc n) b" by (simp_all add: Cons_nth_drop_Suc)
    then show ?thesis using assms(4) True by simp
  qed (use assms(2,3) in auto)
  then show ?thesis using lcp_from(1) [OF assms(1-3)] by simp
qed

lemma route_word_parts:
  assumes o': "take g key = take g probe" "g \<le> length key" "g \<le> length probe"
    and less: "sample_at key g < sample_at probe g"
    and i: "i = leading_zeros (sample_at key g XOR sample_at probe g) div 8"
    and ends: "\<not> may_end_before (sample_at key g) i"
  shows "lcp key probe = g + i"
proof -
  let ?a = "drop g key" and ?b = "drop g probe"
  have ne: "sample_at key g \<noteq> sample_at probe g" using less by auto
  note lz = leading_zeros_bytes [OF ne i]
  have d: "be_nat 8 bs div 256 ^ (8 - k) = be_nat k bs" if "k \<le> 8" for k and bs :: bytes
    using be_nat_div [of k "8 - k" bs] that by simp
  have same: "be_nat i ?a = be_nat i ?b" using lz(1,2) d [of i] by (simp add: unat_sample_at)
  have "7 - i = 8 - Suc i" by simp
  then have diff: "be_nat (Suc i) ?a \<noteq> be_nat (Suc i) ?b" using lz(1,3) d [of "Suc i"] by (simp add: unat_sample_at)
  have "be_nat (Suc i) ?a \<le> be_nat (Suc i) ?b"
    using less d [of "Suc i"] lz(1) div_le_mono [of "be_nat 8 ?a" "be_nat 8 ?b" "256 ^ (8 - Suc i)"]
    by (simp add: word_less_nat_alt unat_sample_at)
  then have lt: "(if i < length ?a then unat (?a ! i) else 0) < (if i < length ?b then unat (?b ! i) else 0)"
    using diff same by (simp add: be_nat_Suc)
  then have lb: "i < length ?b" by (simp split: if_splits)
  have la: "i \<le> length ?a" using may_end_before_length [OF ends] lz(1) by simp
  have "take i ?a = take i ?b" using be_nat_eq_take [OF la _ same] lb by simp
  then have "lcp ?a ?b = i"
    using la lb lt by (intro lcp_eqI) auto
  then show ?thesis using lcp_from(1) [OF o'] by simp
qed

end
