(* ===== verification/Micro_Facts.thy ===== *)
theory Micro_Facts
  imports Route_Facts Word_Route
begin

text \<open>
  Routing a probe to a microblock: the restart words are the samples of the restarts past the bytes they
  all share, and the word below the probe says both which restart is the last one not above it and how
  many bytes the two share.
\<close>

subsection \<open>Entries of a written run\<close>

lemma run_head:
  assumes "run_of denotes e prev (k # ks)" "en_at e < en_count e"
  obtains len e1 where "en_head e = (Some (lcp prev k, len), e1)" "denotes (at_off e1 len) (drop (lcp prev k) k)"
    "run_of denotes (en_skip len e1) k ks" "en_at e1 = Suc (en_at e)" "en_count e1 = en_count e"
    "en_end_bits e1 = en_end_bits e" "en_unit e1 = en_unit e" "en_is_frame e1 = en_is_frame e"
proof -
  obtain len e' where h: "head_within (en_is_frame e) e = (Some (lcp prev k, len), e')"
    and den: "denotes \<lparr>pc_stream = en_sfx e, pc_start = en_reach e', pc_units = len\<rparr> (drop (lcp prev k) k)"
    and reach: "en_reach e' \<le> en_end_bits e" and rest: "run_of denotes (en_skip len e') k ks"
    using assms(1) by auto
  note keeps = head_within_keeps [OF h]
  define e1 where "e1 = e'\<lparr>en_at := Suc (en_at e), en_count := en_count e\<rparr>"
  have head: "en_head e = (Some (lcp prev k, len), e1)"
    using assms(2) head_within_at [where frame = "en_is_frame e" and e = e and n = "Suc (en_at e)" and m = "en_count e"] h
    by (simp add: en_head_def head_as_def e1_def)
  have pc: "at_off e1 len = \<lparr>pc_stream = en_sfx e, pc_start = en_reach e', pc_units = len\<rparr>"
    using keeps reach by (simp add: at_off_def e1_def en_off_def)
  have skip: "en_skip len e1 = (en_skip len e')\<lparr>en_at := Suc (en_at e), en_count := en_count e\<rparr>"
    by (simp add: en_skip_def e1_def)
  show thesis
    using that [OF head] den rest run_of_at [where e = "en_skip len e'" and denotes = denotes] keeps
    by (simp add: pc skip) (simp add: e1_def en_is_frame_def)
qed

lemma en_skip_keeps [simp]: "en_at (en_skip len e) = en_at e" "en_count (en_skip len e) = en_count e"
  "en_end_bits (en_skip len e) = en_end_bits e" "en_unit (en_skip len e) = en_unit e" "en_is_frame (en_skip len e) = en_is_frame e"
  by (simp_all add: en_skip_def en_is_frame_def)

lemma pass_loop_run:
  assumes "run_of denotes e prev ks" "n \<le> length ks" "en_at e + n \<le> en_count e"
  obtains e' where "pass_loop n e = Some e'" "run_of denotes e' ((prev # ks) ! n) (drop n ks)" "en_count e' = en_count e"
    "en_unit e' = en_unit e" "en_is_frame e' = en_is_frame e"
proof -
  have "\<exists>e'. pass_loop n e = Some e' \<and> run_of denotes e' ((prev # ks) ! n) (drop n ks) \<and> en_count e' = en_count e \<and>
      en_unit e' = en_unit e \<and> en_is_frame e' = en_is_frame e"
    using assms
  proof (induction n arbitrary: e prev ks)
    case (Suc n)
    then obtain k ks' where ks: "ks = k # ks'" by (cases ks) auto
    have run: "run_of denotes e prev (k # ks')" and at: "en_at e < en_count e"
      using Suc.prems by (simp_all add: ks del: run_of.simps)
    obtain len e1 where e1: "en_head e = (Some (lcp prev k, len), e1)" "run_of denotes (en_skip len e1) k ks'"
      "en_at e1 = Suc (en_at e)" "en_count e1 = en_count e" "en_unit e1 = en_unit e" "en_is_frame e1 = en_is_frame e"
      by (rule run_head [OF run at])
    show ?case using Suc.IH [OF e1(2)] Suc.prems e1 by (simp add: ks)
  qed simp
  then show thesis using that by blast
qed

text \<open>A run passed to its entry \<open>n\<close> is the run from there on.\<close>

lemma en_pass_run:
  assumes "run_of denotes e prev ks" "en_count e = length ks" "en_at e = 0" "n \<le> length ks"
  shows "run_of denotes (en_pass n e) ((prev # ks) ! n) (drop n ks)" "en_count (en_pass n e) = length ks - n"
    "en_unit (en_pass n e) = en_unit e" "en_is_frame (en_pass n e) = en_is_frame e"
proof -
  obtain e' where e': "pass_loop n e = Some e'" "run_of denotes e' ((prev # ks) ! n) (drop n ks)" "en_count e' = en_count e"
    "en_unit e' = en_unit e" "en_is_frame e' = en_is_frame e"
    by (rule pass_loop_run [OF assms(1,4)]) (use assms in simp_all)
  have p: "en_pass n e = e'\<lparr>en_at := 0, en_count := en_count e - n\<rparr>" using e'(1,3) by (simp add: en_pass_def)
  show "run_of denotes (en_pass n e) ((prev # ks) ! n) (drop n ks)"
    using run_of_at [where e = e' and denotes = denotes and n = 0] e'(2) by (simp add: p)
  show "en_count (en_pass n e) = length ks - n" "en_unit (en_pass n e) = en_unit e" "en_is_frame (en_pass n e) = en_is_frame e"
    using e' assms(2) by (simp_all add: p en_is_frame_def)
qed

subsection \<open>What every restart shares\<close>

fun least_share :: "nat \<Rightarrow> bytes \<Rightarrow> bytes list \<Rightarrow> nat" where
  "least_share s prev [] = s"
| "least_share s prev (k # ks) = least_share (min s (lcp prev k)) k ks"

lemma least_share_shared:
  "s \<le> length prev \<Longrightarrow> least_share s prev ks \<le> s \<and>
    (\<forall>k\<in>set ks. least_share s prev ks \<le> length k \<and> take (least_share s prev ks) k = take (least_share s prev ks) prev)"
proof (induction ks arbitrary: s prev)
  case (Cons k ks)
  define m where "m = min s (lcp prev k)"
  have "m \<le> length k" using lcp_le(2) [of prev k] by (simp add: m_def)
  note ih = Cons.IH [OF this]
  define l where "l = least_share m k ks"
  have l: "l \<le> m" using ih by (simp add: l_def)
  then have "take l (take (lcp prev k) k) = take l (take (lcp prev k) prev)" by (simp only: lcp_take)
  then have "take l k = take l prev" using l by (simp add: m_def min_def split: if_splits)
  then show ?case using ih l lcp_le(2) [of prev k] by (auto simp: m_def [symmetric] l_def [symmetric]) (auto simp: m_def)
qed simp

lemma restart_shares_run:
  assumes "run_of denotes e prev ks" "en_at e + length ks \<le> en_count e"
  obtains e' where "restart_shares (length ks) e s = Some (e', least_share s prev ks)" "en_reach e' \<le> en_end_bits e'"
proof -
  have "\<exists>e'. restart_shares (length ks) e s = Some (e', least_share s prev ks) \<and> en_reach e' \<le> en_end_bits e'"
    using assms
  proof (induction ks arbitrary: e prev s)
    case (Cons k ks)
    have at: "en_at e < en_count e" using Cons.prems(2) by simp
    obtain len e1 where e1: "en_head e = (Some (lcp prev k, len), e1)" "run_of denotes (en_skip len e1) k ks"
      "en_at e1 = Suc (en_at e)" "en_count e1 = en_count e"
      by (rule run_head [OF Cons.prems(1) at])
    show ?case using Cons.IH [OF e1(2)] Cons.prems(2) e1 by simp
  qed simp
  then show thesis using that by blast
qed

subsection \<open>The words\<close>

lemma be_nat_take: "be_nat n (take n bs) = be_nat n bs"
  by (induction n bs rule: be_nat.induct) simp_all

lemma sample_at_take: "take (g + 8) a = take (g + 8) b \<Longrightarrow> sample_at a g = sample_at b g"
proof -
  assume t: "take (g + 8) a = take (g + 8) b"
  have "take 8 (drop g a) = take 8 (drop g b)" using arg_cong [OF t, of "drop g"] by (simp add: drop_take)
  then have "unat (sample_at a g) = unat (sample_at b g)" by (metis unat_sample_at be_nat_take)
  then show ?thesis by (simp only: word_unat_eq_iff)
qed

lemma cut_short: "min cap (length (u @ r)) \<le> length u \<Longrightarrow> take cap (u @ r) = take cap u"
  by (cases "cap \<le> length u") (auto simp: min_def split: if_splits)

context codec_run
begin

text \<open>A restart decoded only as far as its word has that word.\<close>

lemma restart_samples_run:
  assumes "run_of denotes e prev ks" "en_at e + length ks \<le> en_count e" "take (s + 8) cur = take (s + 8) prev"
  shows "restart_samples d codec (length ks) e cur s = Gives (map (\<lambda>k. sample_at k s) ks)"
  using assms
proof (induction ks arbitrary: e prev cur)
  case (Cons k ks)
  have at: "en_at e < en_count e" using Cons.prems(2) by simp
  obtain len e1 where e1: "en_head e = (Some (lcp prev k, len), e1)" "denotes (at_off e1 len) (drop (lcp prev k) k)"
    "run_of denotes (en_skip len e1) k ks" "en_at e1 = Suc (en_at e)" "en_count e1 = en_count e"
    by (rule run_head [OF Cons.prems(1) at])
  define l where "l = lcp prev k"
  have lp: "l \<le> length prev" "l \<le> length k" "take l k = take l prev" by (simp_all add: l_def lcp_le lcp_take)
  have ih: "restart_samples d codec (length ks) (en_skip len e1) cur' s = Gives (map (\<lambda>k. sample_at k s) ks)"
    if "take (s + 8) cur' = take (s + 8) k" for cur'
    using Cons.IH [OF e1(3) _ that] Cons.prems(2) e1(4,5) by simp
  have piece: "en_piece len e1 = (at_off e1 len, en_skip len e1)" by (simp add: en_piece_def)
  show ?case
  proof (cases "l < s + 8")
    case True
    obtain u r where u: "drop l k = u @ r" "codec_decode d codec (at_off e1 len) (take l cur) (s + 8 - l) = Gives (take l cur @ u)"
      "min (s + 8 - l) (length (drop l k)) \<le> length u"
      using decoded [OF e1(2), where cap = "s + 8 - l" and out = "take l cur"] unfolding l_def by blast
    have "take l (take (s + 8) cur) = take l (take (s + 8) prev)" by (simp only: Cons.prems(3))
    then have tl: "take l cur = take l k" using True lp(3) by (simp add: min_def)
    then have lc: "l \<le> length cur" using lp(2) by (metis length_take min.absorb2 min.cobounded1)
    have k: "k = take l k @ u @ r" using append_take_drop_id [of l k] u(1) by simp
    have "take (s + 8) k = take (s + 8) (take l k @ u @ r)" using k by simp
    also have "\<dots> = take l k @ take (s + 8 - l) (u @ r)" using True lp(2) by (simp add: take_append)
    also have "take (s + 8 - l) (u @ r) = take (s + 8 - l) u" using u(1,3) by (intro cut_short) simp
    also have "take l k @ take (s + 8 - l) u = take (s + 8) (take l cur @ u)" using True lp(2) tl by (simp add: take_append)
    finally have cur': "take (s + 8) (take l cur @ u) = take (s + 8) k" by simp
    have "piece_units (at_off e1 len) (codec_unit codec) = len" using measured [OF e1(2)] by (simp add: at_off_def)
    then show ?thesis
      using e1(1) True lc u(2) ih [OF cur'] sample_at_take [OF cur'] by (simp add: piece l_def [symmetric] not_less)
  next
    case False
    have "take (s + 8) (take l k) = take (s + 8) (take l prev)" by (simp only: lp(3))
    then have cur': "take (s + 8) cur = take (s + 8) k" using False Cons.prems(3) by (simp add: min_def)
    then show ?thesis
      using e1(1) False ih [OF cur'] sample_at_take [OF cur'] by (simp add: piece l_def [symmetric])
  qed
qed simp

end

lemma restart_words_run:
  assumes run: "written_run (di_phrases d) codec code data head ks" and srt: "sorted (head # ks)"
    and s: "s = least_share (length head) head ks"
  shows "restart_words d codec code data (Suc (length ks)) head (length ks) = Gives (s, map (\<lambda>k. sample_at k s) ks)"
proof -
  define e where "e = entries_of code codec data (Suc (length ks))"
  have e: "run_of (piece_denotes (di_phrases d) codec) e head ks" "en_count e = length ks" "en_at e = 0"
    using run by (simp_all add: written_run_def Let_def e_def entries_of_def entries_empty_def split: option.splits)
  obtain e' where e': "restart_shares (length ks) e (length head) = Some (e', s)" "en_reach e' \<le> en_end_bits e'"
    using restart_shares_run [OF e(1)] e(2,3) s by auto
  have ws: "restart_samples (di_phrases d) codec (length ks) e head s = Gives (map (\<lambda>k. sample_at k s) ks)"
    using coded.restart_samples_run [OF e(1)] e(2,3) by simp
  have sh: "\<forall>k\<in>set ks. take s k = take s head" using least_share_shared [of "length head" head ks] s by simp
  have "sorted (map (\<lambda>k. sample_at k s) ks)"
    unfolding sorted_map by (rule sorted_wrt_mono_rel [of _ "(\<le>)"]) (use sh srt in \<open>auto intro: sample_mono\<close>)
  then show ?thesis using e' ws by (simp add: restart_words_def e_def [symmetric])
qed

end
