(* ===== verification/Locate_Facts.thy ===== *)
theory Locate_Facts
  imports Micro_Facts
begin

text \<open>
  What an index over a list of keys is, and what \<^verbatim>\<open>locate\<close> answers on one: the rank of the first key not
  below the probe and whether that key is the probe, whichever way the probe is routed.
\<close>

subsection \<open>An index over keys\<close>

definition block_written :: "dict_index \<Rightarrow> nat \<Rightarrow> bytes list \<Rightarrow> bool" where
  "block_written d b bk \<longleftrightarrow> (let cs = chunks (di_micro d) bk; codes = codes_of_block d b; codec = codec_of d b in
    di_head d b = Gives (hd bk) \<and> (\<exists>base. offsets_at (di_blocks d) b = Gives base \<and>
      (\<exists>r. restart_data_at d b base = Gives r \<and>
        written_run (di_phrases d) codec (snd codes) r (hd bk) (map hd (tl cs))) \<and>
      (\<forall>j<length cs. \<exists>m. micro_data_at d b j base = Gives m \<and>
        written_run (di_phrases d) codec (fst codes) m (hd (cs ! j)) (tl (cs ! j)))))"

definition heads_of :: "dict_index \<Rightarrow> bytes list \<Rightarrow> bytes list" where
  "heads_of d keys = map hd (chunks (di_block d) keys)"

text \<open>Where a run of tied samples has a trie, it places the probe as the heads do.\<close>

definition ties_right :: "dict_index \<Rightarrow> bytes list \<Rightarrow> bool" where
  "ties_right d heads \<longleftrightarrow> (\<forall>probe. (\<forall>h\<in>set heads. take (di_g d) h = take (di_g d) probe) \<longrightarrow>
    get_at (di_samples d) (below (sample_at probe (di_g d)) (di_samples d) + MIN_RUN - 1) = Some (sample_at probe (di_g d)) \<longrightarrow>
    (\<exists>r. tie_boundary d probe (below (sample_at probe (di_g d)) (di_samples d)) = Gives r \<and>
      (\<forall>l known. r = Some (l, known) \<longrightarrow> l = at_most probe heads \<and>
        (\<forall>m n. known = Some (m, n) \<longrightarrow> 0 < l \<and> m = lcp (heads ! (l - 1)) probe \<and> n = length (heads ! (l - 1))))))"

definition index_ok :: "dict_index \<Rightarrow> bytes list \<Rightarrow> bool" where
  "index_ok d keys \<longleftrightarrow> sorted_wrt (<) keys \<and> di_n d = length keys \<and> 0 < di_block d \<and> 0 < di_micro d \<and>
    di_per d = div_ceil (di_block d) (di_micro d) \<and> (\<forall>k\<in>set keys. length k < usize_bound) \<and>
    di_samples d = map (\<lambda>h. sample_at h (di_g d)) (heads_of d keys) \<and>
    (\<forall>h\<in>set (heads_of d keys). di_g d \<le> length h \<and> take (di_g d) h = take (di_g d) (hd (heads_of d keys))) \<and>
    ties_right d (heads_of d keys) \<and>
    (\<forall>b<length (chunks (di_block d) keys). block_written d b (chunks (di_block d) keys ! b)) \<and>
    (\<forall>ws. di_mroute d = Some ws \<longrightarrow> micro_route d = Gives ws)"

subsection \<open>Its blocks and microblocks\<close>

lemma index_basics:
  assumes "index_ok d keys"
  shows "sorted_wrt (<) keys" "di_n d = length keys" "0 < di_block d" "0 < di_micro d"
    "di_per d = div_ceil (di_block d) (di_micro d)" "\<And>k. k \<in> set keys \<Longrightarrow> length k < usize_bound"
    "blocks_len d = length (chunks (di_block d) keys)"
    "b < length (chunks (di_block d) keys) \<Longrightarrow> block_written d b (chunks (di_block d) keys ! b)"
  using assms by (simp_all add: index_ok_def blocks_len_def heads_of_def)

lemma div_ceil_pos: "0 < a \<Longrightarrow> 0 < b \<Longrightarrow> 0 < div_ceil a b"
  using div_ceil_le_iff [of b a 0] by simp

text \<open>The sizes the accessors compute are those of the chunks.\<close>

definition index_shape :: "dict_index \<Rightarrow> bytes list \<Rightarrow> bool" where
  "index_shape d keys \<longleftrightarrow> di_n d = length keys \<and> 0 < di_block d \<and> 0 < di_micro d \<and>
    di_per d = div_ceil (di_block d) (di_micro d) \<and> blocks_len d = length (chunks (di_block d) keys)"

lemma shape_sizes:
  assumes "index_shape d keys" "b < length (chunks (di_block d) keys)" and bk: "bk = chunks (di_block d) keys ! b"
  shows "count_in d b = length bk" "micros_in d b = length (chunks (di_micro d) bk)"
    "j < length (chunks (di_micro d) bk) \<Longrightarrow> micro_count d b j = length (chunks (di_micro d) bk ! j)"
    "0 < micros_in d b" "micros_in d b \<le> di_per d" "b + 1 < length (chunks (di_block d) keys) \<Longrightarrow> micros_in d b = di_per d"
proof -
  have B: "di_n d = length keys" "0 < di_block d" "0 < di_micro d" "di_per d = div_ceil (di_block d) (di_micro d)"
    "blocks_len d = length (chunks (di_block d) keys)"
    using assms(1) by (simp_all add: index_shape_def)
  note c = nth_chunk [OF B(2) assms(2)]
  show cnt: "count_in d b = length bk" using c(1) B(1) by (simp add: count_in_def bk min.commute)
  have full: "length bk = di_block d" if l: "b + 1 < blocks_len d"
  proof -
    have "(b + 1) * di_block d < length keys" using nth_chunk(2) [OF B(2), of "b + 1" keys] l B(5) by simp
    then show ?thesis using c(1) by (simp add: bk)
  qed
  show m: "micros_in d b = length (chunks (di_micro d) bk)"
    using full cnt B(3,4) by (simp add: micros_in_def length_chunks)
  show "micro_count d b j = length (chunks (di_micro d) bk ! j)" if "j < length (chunks (di_micro d) bk)"
    using nth_chunk(1) [OF B(3) that] cnt by (simp add: micro_count_def min.commute)
  have "bk \<noteq> []" using chunks_nonempty nth_mem [OF assms(2)] by (simp add: bk)
  then show "0 < micros_in d b" using m B(3) by simp
  have "length bk \<le> di_block d" using c(1) by (simp add: bk)
  then show "micros_in d b \<le> di_per d" using m B(3,4) by (simp add: length_chunks div_ceil_mono)
  show "micros_in d b = di_per d" if "b + 1 < length (chunks (di_block d) keys)"
    using that full m B(3-5) by (simp add: length_chunks)
qed

lemma index_ok_shape: "index_ok d keys \<Longrightarrow> index_shape d keys"
  unfolding index_shape_def using index_basics(2-5,7) by blast

lemmas index_sizes = shape_sizes [OF index_ok_shape]

lemma index_restart_bound:
  assumes "index_ok d keys" "b < length (chunks (di_block d) keys)" "bk = chunks (di_block d) keys ! b"
  shows "\<forall>k\<in>set (map hd (chunks (di_micro d) bk)). length k < usize_bound"
proof
  note B = index_basics [OF assms(1)]
  fix k assume "k \<in> set (map hd (chunks (di_micro d) bk))"
  then obtain j where j: "j < length (chunks (di_micro d) bk)" "k = hd (chunks (di_micro d) bk ! j)" by (auto simp: in_set_conv_nth)
  then have "k = bk ! (j * di_micro d)" "j * di_micro d < length bk" using nth_chunk(2,4) [OF B(4)] by simp_all
  then have "k \<in> set bk" by simp
  moreover have "set bk \<subseteq> set keys" using nth_chunks [OF B(3) assms(2)] by (simp add: assms(3)) (meson in_set_dropD in_set_takeD subsetI)
  ultimately show "length k < usize_bound" using B(6) by blast
qed

subsection \<open>The scan of a written run\<close>

lemma scan_run_finds:
  assumes "run_of (piece_denotes dd codec) e prev ks" "en_count e = length ks" "ks \<noteq> [] \<Longrightarrow> en_unit e = codec_unit codec"
    "sorted_wrt (<) (prev # ks)" "prev < probe" "matched = lcp prev probe"
  shows "scan_run dd codec e (Suc (length ks)) probe matched =
    (let m = at_most probe ks; k = (prev # ks) ! m in (m, lcp k probe, k = probe))"
proof (cases "ks = []")
  case True
  then show ?thesis
    using assms by (simp add: scan_run_def scan_as_def scan_with_def scan_from.simps)
next
  case False
  have u: "cmp_unit (cmp_for dd codec) = codec_unit codec"
    by (cases codec) (auto simp: cmp_for_def cmp_unit_def codec_unit_def split: option.splits)
  show ?thesis
    using coded.scan_finds [OF assms(1) refl refl refl _ assms(4-6), of 1 "Suc (length ks)"] assms(2,3) False
    by (simp add: scan_run_def scan_as_def scan_with_def u at_most_def Let_def)
qed

subsection \<open>Routing to a microblock\<close>

text \<open>What the words of a block say: none, or the samples of the restarts past the bytes they share.\<close>

definition group_right :: "nat \<Rightarrow> bytes list \<Rightarrow> u64 list \<Rightarrow> bool" where
  "group_right per rs grp \<longleftrightarrow> length grp = per \<and> (grp ! 0 = NO_ROUTE \<or>
    (\<exists>s. s = least_share (length (hd rs)) (hd rs) (tl rs) \<and>
      grp = of_nat s # map (\<lambda>k. sample_at k s) (tl rs) @ replicate (per - length rs) (- 1)))"

lemma word_max_not_less: "\<not> (- 1 :: u64) < w"
  by (simp add: not_less)

lemma below_padded:
  "sorted ws \<Longrightarrow> below s (ws @ replicate k (- 1)) = below s ws" for ws :: "u64 list"
proof (induction ws)
  case Nil
  then show ?case by (cases k) (simp_all add: word_max_not_less)
qed auto

lemma partition_below: "partition_point (\<lambda>x. x < s) ws = below s ws"
  by (simp add: partition_point_def below_def)

lemma micro_routed_sound:
  assumes grp: "\<And>ws. di_mroute d = Some ws \<Longrightarrow> \<exists>grp. get_range ws (b * di_per d) ((b + 1) * di_per d) = Some grp \<and> group_right (di_per d) rs grp"
    and rs: "rs \<noteq> []" "sorted_wrt (<) rs" "length rs \<le> di_per d" "\<forall>k\<in>set rs. length k < usize_bound"
    and probe: "hd rs < probe" "matched = lcp (hd rs) probe"
    and r: "micro_routed d b (length rs) probe matched = (frm, shared, tied)"
  shows "frm < length rs" "rs ! frm < probe" "shared = lcp (rs ! frm) probe" "tied \<or> at_most probe rs = Suc frm"
proof -
  define head ks where "head = hd rs" and "ks = tl rs"
  have rs_eq: "rs = head # ks" using rs(1) by (simp add: head_def ks_def)
  have srt: "sorted rs" using rs(2) by (rule strict_sorted_imp_sorted)
  have whole: "frm < length rs \<and> rs ! frm < probe \<and> shared = lcp (rs ! frm) probe \<and> (tied \<or> at_most probe rs = Suc frm)"
    if "(frm, shared, tied) = (0, matched, True)"
    using that probe by (simp add: rs_eq)
  define s where "s = least_share (length head) head ks"
  have s: "s \<le> length head" "\<And>k. k \<in> set rs \<Longrightarrow> s \<le> length k \<and> take s k = take s head"
    using least_share_shared [of "length head" head ks] by (auto simp: s_def rs_eq)
  define words where "words = map (\<lambda>k. sample_at k s) ks"
  have "frm < length rs \<and> rs ! frm < probe \<and> shared = lcp (rs ! frm) probe \<and> (tied \<or> at_most probe rs = Suc frm)"
  proof (cases "di_mroute d")
    case None
    then show ?thesis using r whole by (simp add: micro_routed_def Let_def)
  next
    case (Some ws)
    obtain g where g: "get_range ws (b * di_per d) ((b + 1) * di_per d) = Some g" "group_right (di_per d) rs g" using grp [OF Some] by blast
    show ?thesis
    proof (cases "g ! 0 = NO_ROUTE")
      case True
      then show ?thesis using r whole g(1) by (simp add: micro_routed_def Let_def Some)
    next
      case route: False
      then have ge: "g = of_nat s # words @ replicate (di_per d - length rs) (- 1)"
        using g(2) by (simp add: group_right_def s_def words_def head_def ks_def)
      have "s < 2 ^ 64" using s(1) rs(4) by (auto simp: rs_eq usize_bound_def)
      then have us: "unat (of_nat s :: u64) = s" by (simp add: unat_of_nat take_bit_eq_mod)
      show ?thesis
      proof (cases "matched < s")
        case True
        let ?last = "rs ! (length rs - 1)"
        have res: "frm = length rs - 1" "shared = matched" "\<not> tied"
          using r True route g(1) by (auto simp: micro_routed_def Let_def Some ge us)
        have all: "lcp k probe = matched \<and> k < probe" if "k \<in> set rs" for k
        proof -
          have "s \<le> lcp head k" using s(2) [OF that] s(1) less_lcp_iff [of "s - 1" head k] by (cases s) auto
          then have "lcp head probe < lcp head k" using True probe(2) by (simp add: head_def)
          from lcp_third [OF this] show ?thesis
            using probe by (auto simp: lcp_comm head_def) (metis cmp_of_simps(3))
        qed
        have "at_most probe rs = length rs" by (rule at_most_all) (use all in \<open>auto intro: less_imp_le\<close>)
        then show ?thesis using res all [of ?last] rs(1) by simp
      next
        case sh: False
        have tp: "take s probe = take s head"
        proof -
          have "take s (take matched head) = take s (take matched probe)" using lcp_take [of head probe] probe(2) by (simp add: head_def)
          then show ?thesis using sh by (simp add: min_def)
        qed
        have lp: "s \<le> length probe" using sh lcp_le(2) [of head probe] probe(2) by (simp add: head_def)
        define w j where "w = sample_at probe s" and "j = below w words"
        have sw: "sorted words"
          unfolding words_def sorted_map
        proof (rule sorted_wrt_mono_rel [of _ "(\<le>)"])
          show "sorted ks" using srt by (simp add: rs_eq)
          show "sample_at x s \<le> sample_at y s" if "x \<in> set ks" "y \<in> set ks" "x \<le> y" for x y
            using that s(2) [of x] s(2) [of y] by (intro sample_mono) (simp_all add: rs_eq)
        qed
        have j: "partition_point (\<lambda>x. x < w) (words @ replicate (di_per d - length rs) (- 1)) = j"
          by (simp add: partition_below below_padded [OF sw] j_def)
        have jl: "j \<le> length ks" using below_le [of w words] by (simp add: j_def words_def)
        define t where "t = (get_at (words @ replicate (di_per d - length rs) (- 1)) j = Some w)"
        have at: "at_most probe rs = Suc j" if "\<not> t" "rs ! j < probe"
        proof (rule at_most_eqI [OF srt])
          show "Suc j \<le> length rs" using jl by (simp add: rs_eq)
          show "rs ! i \<le> probe" if "i < Suc j" for i
          proof -
            have "rs ! i \<le> rs ! j" using that jl srt by (intro sorted_nth_mono) (simp_all add: rs_eq)
            then show ?thesis using \<open>rs ! j < probe\<close> by simp
          qed
          show "probe < rs ! Suc j" if "Suc j < length rs"
          proof -
            have jk: "j < length ks" using that by (simp add: rs_eq)
            have "\<not> j < below w words" by (simp add: j_def)
            then have "\<not> words ! j < w" using less_below_iff [OF sw, of j w] jk by (simp add: words_def)
            moreover have "words ! j \<noteq> w" using \<open>\<not> t\<close> jk by (simp add: t_def get_at_Some_iff words_def nth_append)
            ultimately have "w < sample_at (ks ! j) s" using jk by (simp add: words_def)
            then show ?thesis
              using jk s(2) [of "ks ! j"] tp by (intro sample_less [of s]) (simp_all add: w_def rs_eq)
          qed
        qed
        show ?thesis
        proof (cases j)
          case 0
          then have "(frm, shared, tied) = (0, matched, t)"
            using r sh route g(1) j by (simp add: micro_routed_def Let_def Some ge us w_def t_def)
          then show ?thesis using at probe 0 by (auto simp: rs_eq less_imp_le)
        next
          case (Suc i')
          then have i': "i' < length ks" using jl by simp
          define key where "key = ks ! i'"
          have key: "rs ! j = key" "key \<in> set rs" using Suc i' by (simp_all add: rs_eq key_def)
          have kw: "(words @ replicate (di_per d - length rs) (- 1)) ! i' = sample_at key s"
            using i' by (simp add: words_def nth_append key_def)
          have "i' < below w words" using Suc by (simp add: j_def)
          then have lt: "sample_at key s < w" using less_below_iff [OF sw, of i' w] i' by (simp add: words_def key_def)
          define i where "i = leading_zeros (sample_at key s XOR w) div 8"
          have res: "(frm, shared, tied) = (if may_end_before (sample_at key s) i then (0, matched, True) else (j, s + i, t))"
            using r sh route g(1) j Suc kw by (auto simp: micro_routed_def Let_def Some ge us w_def [symmetric] t_def i_def split: if_splits)
          show ?thesis
          proof (cases "may_end_before (sample_at key s) i")
            case True
            then show ?thesis using whole res by simp
          next
            case False
            have ts: "take s key = take s probe" using s(2) [OF key(2)] tp by simp
            have "lcp key probe = s + i"
              by (rule route_word_parts [OF ts _ lp]) (use s(2) [OF key(2)] lt i_def False in \<open>simp_all add: w_def\<close>)
            moreover have "key < probe" using sample_less [OF ts] lt by (simp add: w_def)
            moreover have "frm = j" "shared = s + i" "tied = t" using res False by simp_all
            moreover have "j < length rs" using jl by (simp add: rs_eq)
            ultimately show ?thesis using at by (auto simp: key(1))
          qed
        qed
      qed
    qed
  qed
  then show "frm < length rs" "rs ! frm < probe" "shared = lcp (rs ! frm) probe" "tied \<or> at_most probe rs = Suc frm" by simp_all
qed

lemma get_range_concat:
  "concat_outcome f bs = Gives ws \<Longrightarrow> (\<And>b x. b \<in> set bs \<Longrightarrow> f b = Gives x \<Longrightarrow> length x = n) \<Longrightarrow> i < length bs \<Longrightarrow>
    \<exists>x. f (bs ! i) = Gives x \<and> get_range ws (i * n) ((i + 1) * n) = Some x"
proof (induction bs arbitrary: ws i)
  case (Cons b bs)
  obtain x xs where x: "f b = Gives x" "concat_outcome f bs = Gives xs" "ws = x @ xs"
    using Cons.prems(1) by (auto simp: bind_outcome_Gives_iff)
  have n: "length x = n" by (rule Cons.prems(2) [OF _ x(1)]) simp
  show ?case
  proof (cases i)
    case 0
    then show ?thesis using x n by (simp add: get_range_def)
  next
    case (Suc k)
    have "\<exists>y. f (bs ! k) = Gives y \<and> get_range xs (k * n) ((k + 1) * n) = Some y"
      by (rule Cons.IH [OF x(2)]) (use Cons.prems Suc in auto)
    then show ?thesis using n by (auto simp: Suc x(3) get_range_def split: if_splits)
  qed
qed simp

text \<open>The restarts of every block are sampled, or the group says it has none.\<close>

lemma micro_group_right:
  assumes ok: "index_ok d keys" and c: "c < length (chunks (di_block d) keys)"
  shows "\<exists>grp. micro_group d c = Gives grp \<and> group_right (di_per d) (map hd (chunks (di_micro d) (chunks (di_block d) keys ! c))) grp"
proof -
  note B = index_basics [OF ok]
  let ?bk = "chunks (di_block d) keys ! c"
  define cs where "cs = chunks (di_micro d) ?bk"
  note sz = index_sizes [OF ok c refl]
  have bk: "?bk \<noteq> []" using chunks_nonempty nth_mem [OF c] by blast
  have cs: "cs \<noteq> []" "length cs = micros_in d c" "length cs \<le> di_per d" using sz bk B(4) by (simp_all add: cs_def)
  have hd_cs: "hd (map hd cs) = hd ?bk" using bk B(4) by (simp add: cs_def chunks_unfold hd_take)
  show ?thesis
  proof (cases "micros_in d c < 2")
    case True
    have "group_right (di_per d) (map hd cs) (NO_ROUTE # replicate (di_per d - 1) (- 1))"
      using cs sz(4) by (simp add: group_right_def)
    then show ?thesis using True by (simp add: micro_group_def Let_def cs_def)
  next
    case False
    obtain base r where w: "di_head d c = Gives (hd ?bk)" "offsets_at (di_blocks d) c = Gives base" "restart_data_at d c base = Gives r"
      "written_run (di_phrases d) (codec_of d c) (snd (codes_of_block d c)) r (hd ?bk) (map hd (tl cs))"
      using B(8) [OF c] by (auto simp: block_written_def Let_def cs_def)
    have rd: "restart_data d c = Gives r" using w(2,3) by (simp add: restart_data_def)
    have heads: "map hd cs = hd ?bk # map hd (tl cs)" using hd_cs cs(1) by (cases cs) simp_all
    have "sorted (map hd cs)"
      unfolding cs_def by (rule strict_sorted_imp_sorted, rule chunk_heads_sorted [OF chunk_sorted [OF B(1,3) c] B(4)])
    then have srt: "sorted (hd ?bk # map hd (tl cs))" by (simp only: heads)
    have len: "length (map hd (tl cs)) = micros_in d c - 1" using cs by simp
    then have "Suc (length (map hd (tl cs))) = micros_in d c" using False by simp
    then have "micro_group d c = Gives (of_nat (least_share (length (hd ?bk)) (hd ?bk) (map hd (tl cs))) #
        map (\<lambda>k. sample_at k (least_share (length (hd ?bk)) (hd ?bk) (map hd (tl cs)))) (map hd (tl cs)) @ replicate (di_per d - micros_in d c) (- 1))"
      using False restart_words_run [OF w(4) srt refl] len by (simp add: micro_group_def Let_def rd w(1))
    moreover have "Suc (micros_in d c - Suc 0 + di_per d - micros_in d c) = di_per d" using cs sz(4) by linarith
    ultimately show ?thesis
      using cs hd_cs by (simp add: group_right_def cs_def [symmetric] map_tl)
  qed
qed

lemma micro_route_right:
  assumes ok: "index_ok d keys" and ws: "di_mroute d = Some ws" and b: "b < length (chunks (di_block d) keys)"
    and rs: "rs = map hd (chunks (di_micro d) (chunks (di_block d) keys ! b))" and r: "1 < length rs"
  shows "\<exists>grp. get_range ws (b * di_per d) ((b + 1) * di_per d) = Some grp \<and> group_right (di_per d) rs grp"
proof -
  note B = index_basics [OF ok]
  have mr: "micro_route d = Gives ws" using ok ws by (simp add: index_ok_def)
  have ne: "di_per d \<noteq> 1" using index_sizes(2,5) [OF ok b refl] r by (simp add: rs)
  have group: "group_right (di_per d) (map hd (chunks (di_micro d) (chunks (di_block d) keys ! c))) grp"
    if "c < length (chunks (di_block d) keys)" "micro_group d c = Gives grp" for c grp
    using micro_group_right [OF ok that(1)] that(2) by auto
  have "\<exists>x. micro_group d ([0..<blocks_len d] ! b) = Gives x \<and> get_range ws (b * di_per d) ((b + 1) * di_per d) = Some x"
  proof (rule get_range_concat)
    show "concat_outcome (micro_group d) [0..<blocks_len d] = Gives ws" using mr ne by (simp add: micro_route_def)
    show "length x = di_per d" if "c \<in> set [0..<blocks_len d]" "micro_group d c = Gives x" for c x
      using group that B(7) by (simp add: group_right_def)
    show "b < length [0..<blocks_len d]" using b B(7) by simp
  qed
  then show ?thesis using group [OF b] b B(7) by (auto simp: rs)
qed

text \<open>The microblock route can always be built.\<close>

lemma concat_outcome_gives: "(\<And>b. b \<in> set bs \<Longrightarrow> \<exists>x. f b = Gives x) \<Longrightarrow> \<exists>ws. concat_outcome f bs = Gives ws"
proof (induction bs)
  case (Cons b bs)
  obtain x where "f b = Gives x" using Cons.prems [of b] by auto
  moreover obtain ws where "concat_outcome f bs = Gives ws" using Cons.IH Cons.prems by auto
  ultimately show ?case by simp
qed simp

lemma micro_route_gives:
  assumes "index_ok d keys"
  shows "\<exists>ws. micro_route d = Gives ws"
proof -
  have "\<exists>x. micro_group d b = Gives x" if "b \<in> set [0..<blocks_len d]" for b
    using micro_group_right [OF assms, of b] that index_basics(7) [OF assms] by auto
  then have "\<exists>ws. concat_outcome (micro_group d) [0..<blocks_len d] = Gives ws" by (intro concat_outcome_gives)
  then show ?thesis by (simp add: micro_route_def)
qed

subsection \<open>Locating a probe\<close>

text \<open>What \<^verbatim>\<open>locate\<close> answers: the rank of the first key not below the probe, and whether it is the probe.\<close>

definition located :: "bytes list \<Rightarrow> bytes \<Rightarrow> nat \<times> bool" where
  "located keys probe = (below probe keys, probe \<in> set keys)"

lemma located_at:
  assumes "sorted_wrt (<) keys" "at_most probe keys = Suc i"
  shows "located keys probe = (i + (if keys ! i = probe then 0 else 1), keys ! i = probe)"
  using below_at_most [OF assms(1), of probe] hit_at_most [OF assms] assms(2) by (simp add: located_def)

lemma located_none:
  assumes "sorted_wrt (<) keys" "at_most probe keys = 0"
  shows "located keys probe = (0, False)"
proof -
  have "\<not> k \<le> probe" if k: "k \<in> set keys" for k
  proof -
    obtain i where i: "i < length keys" "keys ! i = k" using k by (auto simp: in_set_conv_nth)
    then show ?thesis using less_at_most_iff [OF strict_sorted_imp_sorted [OF assms(1)] i(1), of probe] assms(2) by simp
  qed
  then show ?thesis using below_at_most [OF assms(1), of probe] assms(2) by (auto simp: located_def)
qed

text \<open>Where a probe above a block's head and below the next one lies in that block.\<close>

lemma block_position:
  assumes ok: "index_ok d keys" and b: "Suc b = at_most probe (heads_of d keys)" "b < length (chunks (di_block d) keys)"
    and bk: "bk = chunks (di_block d) keys ! b" and probe: "hd bk \<le> probe" and cs: "cs = chunks (di_micro d) bk"
  obtains q k0 ks where "at_most probe (map hd cs) = Suc q" "q < length cs" "cs ! q = k0 # ks" "k0 \<le> probe"
    "located keys probe = (b * di_block d + q * di_micro d + at_most probe ks +
      (if (k0 # ks) ! at_most probe ks = probe then 0 else 1), (k0 # ks) ! at_most probe ks = probe)"
proof -
  note B = index_basics [OF ok]
  have bk_ne: "bk \<noteq> []" using chunks_nonempty nth_mem [OF b(2)] by (simp add: bk)
  have bks: "sorted_wrt (<) bk" using chunk_sorted [OF B(1,3) b(2)] by (simp add: bk)
  have keys_ne: "keys \<noteq> []" using b(2) by auto
  obtain q where q: "at_most probe (map hd cs) = Suc q" "q < length cs" "hd (cs ! q) \<le> probe"
    "at_most probe bk = q * di_micro d + at_most probe (cs ! q)"
    unfolding cs by (rule at_most_chunks [OF bks B(4) bk_ne probe])
  have hk: "hd keys \<le> probe"
  proof -
    have "sorted (heads_of d keys)" using chunk_heads_sorted [OF B(1,3)] by (simp add: heads_of_def strict_sorted_imp_sorted)
    then have "heads_of d keys ! 0 \<le> probe"
      using less_at_most_iff [of "heads_of d keys" 0 probe] b keys_ne B(3) by (simp add: heads_of_def)
    then show ?thesis using keys_ne B(3) nth_chunk(4) [OF B(3), of 0 keys] by (simp add: heads_of_def hd_conv_nth)
  qed
  obtain b' where b': "at_most probe (map hd (chunks (di_block d) keys)) = Suc b'"
    "at_most probe keys = b' * di_block d + at_most probe (chunks (di_block d) keys ! b')"
    using at_most_chunks [OF B(1,3) keys_ne hk] by metis
  have "b' = b" using b(1) b'(1) by (simp add: heads_of_def)
  then have total: "at_most probe keys = b * di_block d + (q * di_micro d + at_most probe (cs ! q))" using b'(2) q(4) by (simp add: bk)
  define k0 ks where "k0 = hd (cs ! q)" and "ks = tl (cs ! q)"
  have cq: "cs ! q = k0 # ks" using chunks_nonempty [of "cs ! q"] nth_mem [OF q(2)] by (simp add: k0_def ks_def cs)
  define k where "k = at_most probe ks"
  have tot: "at_most probe keys = Suc (b * di_block d + q * di_micro d + k)" using total q(3) by (simp add: cq k_def)
  have cq_len: "k < length (cs ! q)" using at_most_le [of probe ks] by (simp add: cq k_def)
  have "(k0 # ks) ! k = bk ! (q * di_micro d + k)" "q * di_micro d + k < length bk"
    using nth_chunk(1-3) [OF B(4) q(2) [unfolded cs]] cq_len by (simp_all add: cs [symmetric] cq) linarith
  moreover from this(2) have "bk ! (q * di_micro d + k) = keys ! (b * di_block d + (q * di_micro d + k))"
    using nth_chunk(3) [OF B(3) b(2)] by (simp add: bk)
  ultimately have "(k0 # ks) ! k = keys ! (b * di_block d + q * di_micro d + k)" by (simp add: add.assoc)
  then show thesis
    using that [OF q(1,2) cq] q(3) located_at [OF B(1) tot] by (simp add: k0_def k_def)
qed

text \<open>The restart run, passed to a restart below the probe, gives the last restart not above it.\<close>

lemma restart_scan:
  assumes w: "written_run dd codec code r (hd rs) (tl rs)" and rs: "rs \<noteq> []" "sorted_wrt (<) rs"
    and f: "frm < length rs" "rs ! frm < probe" and q: "at_most probe rs = Suc q"
  shows "frm \<le> q" "scan_run dd codec (en_pass frm (entries_of code codec r (length rs))) (length rs - frm) probe (lcp (rs ! frm) probe) =
    (q - frm, lcp (rs ! q) probe, rs ! q = probe)"
proof -
  define e where "e = entries_of code codec r (length rs)"
  have rs_eq: "rs = hd rs # tl rs" using rs(1) by simp
  have len: "Suc (length (tl rs)) = length rs" using rs(1) by simp
  have e: "run_of (piece_denotes dd codec) e (hd rs) (tl rs)" "en_count e = length (tl rs)"
    "en_at e = 0" "tl rs \<noteq> [] \<Longrightarrow> en_unit e = codec_unit codec"
    using w len by (simp_all add: written_run_def Let_def e_def) (simp add: entries_of_def entries_empty_def Let_def split: option.splits)
  have fl: "frm \<le> length (tl rs)" using f(1) len by simp
  note ps = en_pass_run [OF e(1-3) fl]
  define rest where "rest = drop frm (tl rs)"
  have dr: "drop frm rs = rs ! frm # rest" using f(1) by (simp add: Cons_nth_drop_Suc [symmetric] rest_def drop_Suc)
  have srt: "sorted_wrt (<) (rs ! frm # rest)" using rs(2) dr sorted_wrt_drop by metis
  have cnt: "length rs - frm = Suc (length rest)" using fl len by (simp add: rest_def)
  have "at_most probe rs = frm + at_most probe (drop frm rs)"
    by (rule at_most_drop [OF strict_sorted_imp_sorted [OF rs(2)] f(1)]) (use f(2) in simp)
  then have fq: "frm + at_most probe rest = q" using q f(2) by (simp add: dr less_imp_le)
  then show "frm \<le> q" by simp
  have nth: "(rs ! frm # rest) ! at_most probe rest = rs ! q" using f(1) fq by (simp add: dr [symmetric])
  have "scan_run dd codec (en_pass frm e) (Suc (length rest)) probe (lcp (rs ! frm) probe) =
      (let m = at_most probe rest; k = (rs ! frm # rest) ! m in (m, lcp k probe, k = probe))"
  proof (rule scan_run_finds)
    show "en_unit (en_pass frm e) = codec_unit codec" if "rest \<noteq> []"
    proof -
      have "tl rs \<noteq> []" using that by (simp only: rest_def) (metis drop_Nil)
      then show ?thesis using ps(3) e(4) by simp
    qed
  qed (use ps srt f(2) in \<open>simp_all add: rest_def rs_eq [symmetric]\<close>)
  then show "scan_run dd codec (en_pass frm (entries_of code codec r (length rs))) (length rs - frm) probe (lcp (rs ! frm) probe) =
    (q - frm, lcp (rs ! q) probe, rs ! q = probe)"
    using fq by (simp add: cnt e_def [symmetric] nth Let_def)
qed

text \<open>The block whose head is the last one below the probe holds the answer.\<close>

lemma locate_past_finds:
  assumes ok: "index_ok d keys" and b: "Suc b = at_most probe (heads_of d keys)" "b < length (chunks (di_block d) keys)"
    and bk: "bk = chunks (di_block d) keys ! b" and probe: "hd bk < probe" "matched = lcp (hd bk) probe"
  shows "locate_past d b probe matched = Gives (located keys probe)"
proof -
  note B = index_basics [OF ok] and sz = index_sizes [OF ok b(2) bk]
  define cs rs where "cs = chunks (di_micro d) bk" and "rs = map hd cs"
  define codec codes where "codec = codec_of d b" and "codes = codes_of_block d b"
  have bk_ne: "bk \<noteq> []" using chunks_nonempty nth_mem [OF b(2)] by (simp add: bk)
  have bks: "sorted_wrt (<) bk" using chunk_sorted [OF B(1,3) b(2)] by (simp add: bk)
  have cs: "cs \<noteq> []" "length cs = micros_in d b" using sz(2) bk_ne B(4) by (simp_all add: cs_def)
  have rs: "rs \<noteq> []" "hd rs = hd bk" "tl rs = map hd (tl cs)" "length rs = micros_in d b" "sorted_wrt (<) rs"
    using cs bk_ne B(4) chunk_heads_sorted [OF bks B(4)] by (simp_all add: rs_def cs_def chunks_unfold hd_take map_tl)
  obtain base r where w: "offsets_at (di_blocks d) b = Gives base" "restart_data_at d b base = Gives r"
    "written_run (di_phrases d) codec (snd codes) r (hd rs) (tl rs)"
    "\<And>j. j < length cs \<Longrightarrow> \<exists>m. micro_data_at d b j base = Gives m \<and> written_run (di_phrases d) codec (fst codes) m (hd (cs ! j)) (tl (cs ! j))"
    using B(8) [OF b(2)] by (auto simp: block_written_def Let_def cs_def codec_def codes_def bk rs(2,3))
  obtain q k0 ks where q: "at_most probe rs = Suc q" "q < length cs" "cs ! q = k0 # ks" "k0 \<le> probe"
    "located keys probe = (b * di_block d + q * di_micro d + at_most probe ks +
      (if (k0 # ks) ! at_most probe ks = probe then 0 else 1), (k0 # ks) ! at_most probe ks = probe)"
    unfolding rs_def by (rule block_position [OF ok b bk less_imp_le [OF probe(1)] cs_def])
  have rq: "rs ! q = k0" using q(2,3) by (simp add: rs_def)
  obtain m where m: "micro_data_at d b q base = Gives m" "written_run (di_phrases d) codec (fst codes) m k0 ks"
    using w(4) [OF q(2)] q(3) by auto
  have mc: "micro_count d b q = Suc (length ks)" using sz(3) [of q] q(2,3) by (simp add: cs_def)
  have sq: "sorted_wrt (<) (k0 # ks)" using chunk_sorted [OF bks B(4), of q] q(2,3) by (simp add: cs_def)
  have scan: "scan_run (di_phrases d) codec (entries_of (fst codes) codec m (Suc (length ks))) (Suc (length ks)) probe (lcp k0 probe)
      = (let k = at_most probe ks in (k, lcp ((k0 # ks) ! k) probe, (k0 # ks) ! k = probe))" if "k0 < probe"
    using scan_run_finds [of "di_phrases d" codec "entries_of (fst codes) codec m (Suc (length ks))" k0 ks probe, OF _ _ _ sq that refl] m(2)
    by (simp add: written_run_def Let_def)
  \<comment> \<open>once the restart is known, the microblock answers\<close>
  have finish: "(case x of Inl r \<Rightarrow> Gives r | Inr (j, matched) \<Rightarrow> bind_outcome (micro_data_at d b j base) (\<lambda>data.
            let count = micro_count d b j; e = entries_of (fst codes) codec data count
            in case scan_run (di_phrases d) codec e count probe matched of (k, _, hit) \<Rightarrow>
              Gives (b * di_block d + j * di_micro d + k + (if hit then 0 else 1), hit))) = Gives (located keys probe)"
    if "x = (if k0 = probe then Inl (b * di_block d + q * di_micro d, True) else Inr (q, lcp k0 probe))" for x
  proof (cases "k0 = probe")
    case True
    have "at_most probe ks = 0" using sq by (cases ks) (auto simp: True [symmetric] not_le)
    then show ?thesis using q(5) True by (simp add: that)
  next
    case False
    then show ?thesis using scan q(4) by (simp add: that m(1) mc q(5) Let_def)
  qed
  show ?thesis
  proof (cases "micros_in d b > 1")
    case False
    then have "q = 0" using q(2) cs(2) by simp
    then have "k0 = hd bk" using rs(1,2) rq by (simp add: hd_conv_nth)
    then have x: "Inr (0, matched) = (if k0 = probe then Inl (b * di_block d + q * di_micro d, True) else Inr (q, lcp k0 probe))"
      using probe \<open>q = 0\<close> by auto
    show ?thesis
      using False w(1) finish [OF x]
      by (simp add: locate_past_def Let_def codec_def [symmetric] codes_def [symmetric])
  next
    case True
    obtain frm shared tied where fst: "micro_routed d b (micros_in d b) probe matched = (frm, shared, tied)" by (metis prod_cases3)
    have grp: "\<exists>grp. get_range ws (b * di_per d) ((b + 1) * di_per d) = Some grp \<and> group_right (di_per d) rs grp" if "di_mroute d = Some ws" for ws
      using micro_route_right [OF ok that b(2)] True rs(4) by (simp add: rs_def cs_def bk)
    have f: "frm < length rs" "rs ! frm < probe" "shared = lcp (rs ! frm) probe" "tied \<or> at_most probe rs = Suc frm"
      using micro_routed_sound [OF grp rs(1,5) _ _ _ _ fst [folded rs(4)]] rs(2,4) sz(5) probe index_restart_bound [OF ok b(2) bk]
      by (simp_all add: rs_def cs_def)
    show ?thesis
    proof (cases tied)
      case False
      then have "frm = q" using f(4) q(1) by simp
      then have x: "Inr (frm, shared) = (if k0 = probe then Inl (b * di_block d + q * di_micro d, True) else Inr (q, lcp k0 probe))"
        using f(2,3) rq by auto
      show ?thesis
        using True False w(1) finish [OF x]
        by (simp add: locate_past_def Let_def codec_def [symmetric] codes_def [symmetric] fst)
    next
      case tied: True
      note sc = restart_scan [OF w(3) rs(1,5) f(1,2) q(1), unfolded rq rs(4)]
      show ?thesis
        using True tied w(1,2) sc f(3) finish [OF refl]
        by (simp add: locate_past_def Let_def codec_def [symmetric] codes_def [symmetric] fst split: if_splits)
    qed
  qed
qed

lemma lcp_same: "lcp a a = length a"
  by (induction a) simp_all

lemma lcp_whole: "lcp a b = length a \<and> lcp a b = length b \<longleftrightarrow> a = b"
  using lcp_take [of a b] by (auto simp: lcp_same)

text \<open>The heads of an index, their order and what the routing knows of them.\<close>

lemma index_heads:
  assumes "index_ok d keys"
  shows "length (heads_of d keys) = blocks_len d" "sorted (heads_of d keys)" "sorted_wrt (<) (heads_of d keys)"
    "\<And>b. b < length (heads_of d keys) \<Longrightarrow> di_head d b = Gives (heads_of d keys ! b)"
    "di_samples d = map (\<lambda>h. sample_at h (di_g d)) (heads_of d keys)"
    "\<And>h. h \<in> set (heads_of d keys) \<Longrightarrow> di_g d \<le> length h \<and> take (di_g d) h = take (di_g d) (hd (heads_of d keys))"
proof -
  note B = index_basics [OF assms]
  show "length (heads_of d keys) = blocks_len d" using B(7) by (simp add: heads_of_def)
  show s: "sorted_wrt (<) (heads_of d keys)" using chunk_heads_sorted [OF B(1,3)] by (simp add: heads_of_def)
  then show "sorted (heads_of d keys)" by (rule strict_sorted_imp_sorted)
  show "di_head d b = Gives (heads_of d keys ! b)" if "b < length (heads_of d keys)" for b
    using B(8) [of b] that by (simp add: heads_of_def block_written_def Let_def)
  show "di_samples d = map (\<lambda>h. sample_at h (di_g d)) (heads_of d keys)"
    "\<And>h. h \<in> set (heads_of d keys) \<Longrightarrow> di_g d \<le> length h \<and> take (di_g d) h = take (di_g d) (hd (heads_of d keys))"
    using assms by (auto simp: index_ok_def)
qed

text \<open>The block boundary, by the shared prefix, by the samples, by a trie or by the heads.\<close>

definition known_right :: "bytes list \<Rightarrow> bytes \<Rightarrow> nat \<Rightarrow> (nat \<times> nat) option \<Rightarrow> bool" where
  "known_right heads probe l known \<longleftrightarrow> l = at_most probe heads \<and> (\<forall>m n. known = Some (m, n) \<longrightarrow>
    0 < l \<and> m = lcp (heads ! (l - 1)) probe \<and> n = length (heads ! (l - 1)))"

lemma known_right_None: "l = at_most probe heads \<Longrightarrow> known_right heads probe l None"
  by (simp add: known_right_def)

lemma sample_boundary_places:
  assumes ok: "index_ok d keys" and tp: "\<forall>h\<in>set (heads_of d keys). take (di_g d) h = take (di_g d) probe"
  shows "\<exists>l known. sample_boundary d probe (sample_at probe (di_g d)) = Gives (l, known) \<and> known_right (heads_of d keys) probe l known"
proof -
  note H = index_heads [OF ok]
  define heads s samples where "heads = heads_of d keys" and "s = sample_at probe (di_g d)" and "samples = di_samples d"
  note sp = samples_place [OF H(2) tp H(5) s_def, folded heads_def samples_def]
  have hb: "head_boundary d probe (below s samples) (past_equal samples (below s samples) s) = Gives (at_most probe heads)"
    unfolding past_equal_finds [OF sp(1) refl, of s]
  proof (rule head_boundary_finds)
    show "di_head d b = Gives (heads ! b)" if "b < length heads" for b using H(4) that by (simp add: heads_def)
    show "sorted heads" using H(2) by (simp add: heads_def)
    show "at_most s samples \<le> length heads" using at_most_le [of s samples] H(5) by (simp add: samples_def heads_def)
  qed (rule sp(2), rule sp(3))
  have kr: "known_right heads probe (at_most probe heads) None" by (simp add: known_right_def)
  have sb: "sample_boundary d probe s = (if get_at samples (below s samples) \<noteq> Some s then Gives (below s samples, None)
    else bind_outcome (if get_at samples (below s samples + MIN_RUN - 1) = Some s then tie_boundary d probe (below s samples) else Gives None)
      (\<lambda>placed. case placed of Some r \<Rightarrow> Gives r | None \<Rightarrow> Gives (at_most probe heads, None)))"
    by (simp add: sample_boundary_def Let_def partition_below samples_def [symmetric] hb cong: option.case_cong)
  have "\<exists>l known. sample_boundary d probe s = Gives (l, known) \<and> known_right heads probe l known"
  proof (cases "get_at samples (below s samples) = Some s \<and> get_at samples (below s samples + MIN_RUN - 1) = Some s")
    case True
    have "ties_right d heads" using ok by (simp add: index_ok_def heads_def)
    then obtain r where r: "tie_boundary d probe (below s samples) = Gives r"
      "\<forall>l known. r = Some (l, known) \<longrightarrow> known_right heads probe l known"
      unfolding ties_right_def known_right_def using tp True by (simp only: heads_def s_def samples_def) blast
    then show ?thesis using True kr sb by (cases r) auto
  next
    case False
    show ?thesis
    proof (cases "get_at samples (below s samples) = Some s")
      case True
      then show ?thesis using False kr sb by simp
    next
      case miss: False
      then have "at_most probe heads = below s samples" using below_at_most_miss [OF sp(1)] sp(2,3) by simp
      then show ?thesis using miss kr sb by simp
    qed
  qed
  then show ?thesis by (simp only: heads_def s_def)
qed

lemma route_places:
  assumes ok: "index_ok d keys" and ne: "keys \<noteq> []"
  shows "\<exists>l known. bind_outcome (route d probe) (\<lambda>r. case r of Inr s \<Rightarrow> sample_boundary d probe s | Inl l \<Rightarrow> Gives (l, None)) = Gives (l, known) \<and>
    known_right (heads_of d keys) probe l known"
proof -
  note B = index_basics [OF ok] and H = index_heads [OF ok]
  define heads g where "heads = heads_of d keys" and "g = di_g d"
  have heads: "heads \<noteq> []" using ne B(3) by (simp add: heads_def heads_of_def)
  then have h0: "hd heads = heads ! 0" "heads ! 0 \<in> set heads" by (simp_all add: hd_conv_nth)
  define pre where "pre = take g (heads ! 0)"
  have pre_hd: "pre = take g (hd heads)" unfolding pre_def h0(1) ..
  have pre: "\<forall>h\<in>set heads. g \<le> length h \<and> take g h = pre"
    unfolding pre_hd heads_def g_def by (rule ballI) (rule H(6))
  have lp: "length pre = g" using bspec [OF pre h0(2)] by (simp add: pre_def)
  have d0: "di_head d 0 = Gives (heads ! 0)" using H(4) [of 0] heads by (simp add: heads_def)
  have sample: "\<exists>l known. sample_boundary d probe (sample_at probe g) = Gives (l, known) \<and> known_right heads probe l known" if "take g probe = pre"
  proof -
    have "\<forall>h\<in>set heads. take g h = take g probe" using pre unfolding that by blast
    then show ?thesis unfolding heads_def g_def by (rule sample_boundary_places [OF ok])
  qed
  have "\<exists>l known. bind_outcome (route d probe) (\<lambda>r. case r of Inr s \<Rightarrow> sample_boundary d probe s | Inl l \<Rightarrow> Gives (l, None)) = Gives (l, known) \<and>
    known_right heads probe l known"
  proof (cases "g > 0")
    case False
    then have "take g probe = pre" by (simp add: pre_def)
    from sample [OF this] show ?thesis using False by (simp add: route_def g_def)
  next
    case True
    have tk: "take (min g (length (heads ! 0))) (heads ! 0) = pre" using bspec [OF pre h0(2)] by (simp add: pre_def)
    have rt: "route d probe = Gives (case place_prefix pre (length heads) probe of Some l \<Rightarrow> Inl l | None \<Rightarrow> Inr (sample_at probe g))"
      using True tk d0 H(1) by (simp add: route_def g_def heads_def cong: option.case_cong)
    note ps = place_prefix_sound [OF pre, of probe]
    show ?thesis
    proof (cases "place_prefix pre (length heads) probe")
      case None
      then have "take g probe = pre" using ps lp by simp
      from sample [OF this] show ?thesis using None by (simp add: rt)
    next
      case (Some l)
      then show ?thesis using ps by (simp add: rt known_right_None)
    qed
  qed
  then show ?thesis by (simp only: heads_def)
qed

lemma locate_in_finds:
  assumes ok: "index_ok d keys" and l: "l = at_most probe (heads_of d keys)" and ne: "keys \<noteq> []"
  shows "locate_in d l probe = Gives (located keys probe)"
    "0 < l \<Longrightarrow> matched = lcp (heads_of d keys ! (l - 1)) probe \<Longrightarrow> heads_of d keys ! (l - 1) \<noteq> probe \<Longrightarrow>
      locate_past d (l - 1) probe matched = Gives (located keys probe)"
    "0 < l \<Longrightarrow> heads_of d keys ! (l - 1) = probe \<Longrightarrow> located keys probe = ((l - 1) * di_block d, True)"
proof -
  note B = index_basics [OF ok] and H = index_heads [OF ok]
  define heads where "heads = heads_of d keys"
  note H = H [folded heads_def]
  have pos: "l - 1 < length heads \<and> heads ! (l - 1) \<le> probe \<and> l - 1 < length (chunks (di_block d) keys) \<and>
      hd (chunks (di_block d) keys ! (l - 1)) = heads ! (l - 1)" if "0 < l"
    using that at_most_le [of probe heads] less_at_most_iff [OF H(2), of "l - 1" probe] l B(7) H(1)
    by (simp add: heads_def [symmetric]) (simp add: heads_def heads_of_def)
  show past: "locate_past d (l - 1) probe matched = Gives (located keys probe)"
    if "0 < l" "matched = lcp (heads_of d keys ! (l - 1)) probe" "heads_of d keys ! (l - 1) \<noteq> probe" for matched
  proof -
    note q = pos [OF that(1)]
    have "heads ! (l - 1) < probe" using q that(3) by (auto simp: heads_def intro: le_neq_trans)
    then show ?thesis using q that(1,2) l by (intro locate_past_finds [OF ok _ _ refl]) (simp_all add: heads_def)
  qed
  show here: "located keys probe = ((l - 1) * di_block d, True)" if z: "0 < l" "heads_of d keys ! (l - 1) = probe"
  proof -
    note p = pos [OF z(1)]
    have i: "(l - 1) * di_block d < length keys" "keys ! ((l - 1) * di_block d) = probe"
      using nth_chunk(2,4) [OF B(3), of "l - 1" keys] p z(2) by (simp_all add: heads_def)
    have "at_most probe keys = Suc ((l - 1) * di_block d)"
    proof (rule at_most_eqI [OF strict_sorted_imp_sorted [OF B(1)]])
      show "keys ! j \<le> probe" if "j < Suc ((l - 1) * di_block d)" for j
        using that i B(1) strict_sorted_imp_sorted [OF B(1)] sorted_nth_mono [of keys j "(l - 1) * di_block d"] by simp
      show "probe < keys ! Suc ((l - 1) * di_block d)" if "Suc ((l - 1) * di_block d) < length keys"
        using that i B(1) sorted_wrt_nth_less [OF B(1), of "(l - 1) * di_block d" "Suc ((l - 1) * di_block d)"] by simp
    qed (use i in simp)
    then show ?thesis using located_at [OF B(1)] i(2) by simp
  qed
  show "locate_in d l probe = Gives (located keys probe)"
  proof (cases "l = 0")
    case True
    have "at_most probe keys = 0"
    proof (rule ccontr)
      assume "at_most probe keys \<noteq> 0"
      then have "keys ! 0 \<le> probe" using less_at_most_iff [OF strict_sorted_imp_sorted [OF B(1)], of 0 probe] ne by simp
      moreover have "heads ! 0 = keys ! 0" "0 < length heads" using nth_chunk(4) [OF B(3), of 0 keys] ne B(3) by (simp_all add: heads_def heads_of_def)
      ultimately show False using less_at_most_iff [OF H(2), of 0 probe] True l by (simp add: heads_def)
    qed
    then show ?thesis using located_none [OF B(1)] True by (simp add: locate_in_def)
  next
    case False
    define h m where "h = heads ! (l - 1)" and "m = lcp h probe"
    have dh: "di_head d (l - 1) = Gives h" using H(4) pos False by (simp add: h_def)
    have eq: "m = length h \<and> m = length probe \<longleftrightarrow> h = probe"
      using lcp_whole [of h probe] by (simp add: m_def)
    show ?thesis
    proof (cases "h = probe")
      case True
      then show ?thesis using False dh here eq by (simp add: locate_in_def lcp_bytes_eq Let_def m_def h_def heads_def)
    next
      case ne: False
      then show ?thesis
        using False dh past eq by (auto simp: locate_in_def lcp_bytes_eq Let_def m_def h_def heads_def)
    qed
  qed
qed

lemma locate_finds:
  assumes ok: "index_ok d keys"
  shows "locate d probe = Gives (located keys probe)"
proof (cases "keys = []")
  case True
  then show ?thesis using index_basics(2) [OF ok] by (simp add: locate_def located_def)
next
  case False
  obtain l known where r: "bind_outcome (route d probe) (\<lambda>r. case r of Inr s \<Rightarrow> sample_boundary d probe s | Inl l \<Rightarrow> Gives (l, None)) = Gives (l, known)"
    "l = at_most probe (heads_of d keys)"
    "\<forall>m n. known = Some (m, n) \<longrightarrow> 0 < l \<and> m = lcp (heads_of d keys ! (l - 1)) probe \<and> n = length (heads_of d keys ! (l - 1))"
    using route_places [OF ok False, of probe] by (auto simp: known_right_def)
  have n: "di_n d \<noteq> 0" using index_basics(2) [OF ok] False by simp
  note fin = locate_in_finds [OF ok r(2) False]
  have lc: "locate d probe = (case known of Some (matched, len) \<Rightarrow>
        if matched = len \<and> matched = length probe then Gives ((l - 1) * di_block d, True) else locate_past d (l - 1) probe matched
      | None \<Rightarrow> locate_in d l probe)"
    using n r(1) by (auto simp: locate_def bind_outcome_Gives_iff)
  show ?thesis
  proof (cases known)
    case None
    then show ?thesis using lc fin(1) by simp
  next
    case (Some p)
    obtain m n where p: "p = (m, n)" by fastforce
    define h where "h = heads_of d keys ! (l - 1)"
    have k: "0 < l" "m = lcp h probe" "n = length h" using r(3) by (simp_all add: Some p h_def)
    have "m = n \<and> m = length probe \<longleftrightarrow> h = probe" using lcp_whole [of h probe] k by simp
    then show ?thesis using lc fin(2,3) k by (simp add: Some p h_def)
  qed
qed

end
