(* ===== verification/Build_Facts.thy ===== *)
theory Build_Facts
  imports Build Part_Facts Locate_Facts
begin

text \<open>
  A build reads back: the joined parts hold every block of the keys, the packed arrays give each block
  and microblock where its bytes lie, and the index they make is one over the keys.
\<close>

subsection \<open>Joining the parts\<close>

lemma ends_from_shift: "ends_from (k + at) xs = map ((+) k) (ends_from at xs)"
  by (induction at xs rule: ends_from.induct) (simp_all add: add.assoc)

lemma micro_starts_shift: "micro_starts (k + at) BS = map ((+) k) (micro_starts at BS)"
  by (induction at BS rule: micro_starts.induct) (simp_all add: starts_of_shift map_tl add.assoc)

lemma part_join_holds:
  assumes "part_holds d micro shard bks BS all" "0 < shard" "shard dvd length bks" "part_holds d micro shard bks' BS' pt"
  shows "part_holds d micro shard (bks @ bks') (BS @ BS') (part_join all pt)"
proof (rule part_holds_append [OF assms(1-3)])
  show "length BS' = length bks'" "length (pt_codes pt) = div_ceil (length bks') shard" "length (pt_codecs pt) = div_ceil (length bks') shard"
    "\<forall>b<length bks'. block_bytes d (pt_codecs pt ! (b div shard)) (pt_codes pt ! (b div shard)) micro (bks' ! b) (BS' ! b)"
    using assms(4) by (simp_all add: part_holds_def)
  show "part_join all pt = \<lparr>pt_heads = pt_heads all @ concat (map hd bks'),
      pt_head_ends = pt_head_ends all @ ends_from (length (pt_heads all)) (map hd bks'),
      pt_blocks = pt_blocks all @ starts_of (length (pt_data all)) (map concat BS'),
      pt_micros = pt_micros all @ micro_starts (length (pt_data all)) BS', pt_data = pt_data all @ concat (map concat BS'),
      pt_codes = pt_codes all @ pt_codes pt, pt_codecs = pt_codecs all @ pt_codecs pt\<rparr>"
    using assms(4) ends_from_shift [of "length (pt_heads all)" 0 "map hd bks'"] starts_of_shift [of "length (pt_data all)" 0 "map concat BS'"]
      micro_starts_shift [of "length (pt_data all)" 0 BS']
    by (simp add: part_holds_def part_join_def Let_def)
qed

lemma keys_small_drop: "keys_small keys \<Longrightarrow> keys_small (drop n keys)"
  by (auto simp: keys_small_def dest: in_set_dropD)

lemma keys_small_take: "keys_small keys \<Longrightarrow> keys_small (take n keys)"
  by (auto simp: keys_small_def dest: in_set_takeD)

text \<open>Ranges of whole shards, encoded apart and joined, hold what the keys of all of them hold.\<close>

lemma ranges_hold:
  assumes tables: "tables \<noteq> []" "\<forall>t\<in>set tables. table_wf t" and sizes: "0 < block" "0 < micro" "0 < shard" "0 < k"
  shows "part_holds d micro shard bks BS all \<Longrightarrow> shard dvd length bks \<Longrightarrow> keys_small keys \<Longrightarrow>
    \<exists>parts BS'. map_outcome (\<lambda>(c, range). encode_range range block micro tables shard (f c))
        (enumerate c (chunks (k * shard * block) keys)) = Gives parts \<and>
      part_holds d micro shard (bks @ chunks block keys) (BS @ BS') (foldl part_join all parts)"
proof (induction "chunks (k * shard * block) keys" arbitrary: keys c all bks BS)
  case Nil
  then have "keys = []" using sizes by (auto simp: chunks.simps split: if_splits)
  then show ?case using Nil.prems by (intro exI [of _ "[]"]) (simp add: chunks.simps)
next
  case (Cons range ranges)
  let ?n = "k * shard * block"
  have "keys \<noteq> []" using Cons.hyps(2) by (auto simp: chunks.simps)
  then have range: "range = take ?n keys" "ranges = chunks ?n (drop ?n keys)"
    using Cons.hyps(2) sizes by (simp_all add: chunks_unfold)
  obtain pt B where pt: "encode_range range block micro tables shard (f c) = Gives pt" "part_holds d micro shard (chunks block range) B pt"
    using encode_range_holds [OF tables sizes(1-3) keys_small_take [OF Cons.prems(3)], where first = "f c" and d = d, of ?n]
    unfolding range(1) by blast
  have split: "chunks block keys = chunks block range @ chunks block (drop ?n keys)"
    unfolding range(1) by (rule chunks_take_drop [OF sizes(1)])
  have holds: "part_holds d micro shard (bks @ chunks block range) (BS @ B) (part_join all pt)"
    by (rule part_join_holds [OF Cons.prems(1) sizes(3) Cons.prems(2) pt(2)])
  have "\<exists>parts BS'. map_outcome (\<lambda>(c, range). encode_range range block micro tables shard (f c)) (enumerate (Suc c) ranges) = Gives parts \<and>
      part_holds d micro shard (bks @ chunks block keys) (BS @ BS') (foldl part_join (part_join all pt) parts)"
  proof (cases "drop ?n keys = []")
    case True
    have nil: "chunks m ([] :: bytes list) = []" for m by simp
    have "ranges = []" "chunks block keys = chunks block range" unfolding range(2) split True nil by simp_all
    then show ?thesis using holds by (intro exI [of _ "[]"] exI [of _ B]) simp
  next
    case False
    then have "min (length keys) ?n = ?n" by simp
    then have "length (chunks block range) = k * shard" using sizes by (simp add: range(1) length_chunks div_ceil_def)
    then have dvd: "shard dvd length (bks @ chunks block range)" using Cons.prems(2) by simp
    show ?thesis
      using Cons.hyps(1) [OF range(2) holds dvd keys_small_drop [OF Cons.prems(3)], of "Suc c"]
      unfolding range(2) [symmetric] split append_assoc by blast
  qed
  then obtain parts BS' where p: "map_outcome (\<lambda>(c, range). encode_range range block micro tables shard (f c)) (enumerate (Suc c) ranges) = Gives parts"
    "part_holds d micro shard (bks @ chunks block keys) (BS @ BS') (foldl part_join (part_join all pt) parts)" by blast
  show ?case unfolding Cons.hyps(2) [symmetric]
    using pt(1) p by (intro exI [of _ "pt # parts"] exI [of _ BS']) simp
qed

lemma shard_blocks_pos: "0 < shard_blocks_for block"
  by (simp add: shard_blocks_for_def clamp_def)

lemma encode_parts_holds:
  assumes tables: "tables \<noteq> []" "\<forall>t\<in>set tables. table_wf t" and sizes: "0 < block" "0 < micro" "0 < threads" and small: "keys_small keys"
  shows "\<exists>pt BS. encode_parts keys block micro threads tables = Gives pt \<and>
    part_holds d micro (shard_blocks_for block) (chunks block keys) BS pt"
proof (cases "keys = []")
  case True
  then show ?thesis by (intro exI [of _ part_new] exI [of _ "[]"]) (simp add: part_holds_new encode_parts_def Let_def chunks.simps)
next
  case False
  let ?shard = "shard_blocks_for block"
  define nb where "nb = div_ceil (length keys) block"
  define q where "q = div_ceil (div_ceil nb threads) ?shard"
  define run where "run = max (?shard * block * q) 1"
  have "0 < q" using False sizes shard_blocks_pos by (simp add: q_def nb_def div_ceil_pos)
  moreover from this have run: "run = q * ?shard * block" using sizes shard_blocks_pos [of block] by (simp add: run_def mult.commute mult.left_commute)
  ultimately obtain parts BS where parts: "map_outcome (\<lambda>(c, range). encode_range range block micro tables ?shard (c * run div block))
      (enumerate 0 (chunks run keys)) = Gives parts" "part_holds d micro ?shard (chunks block keys) BS (foldl part_join part_new parts)"
    using ranges_hold [OF tables sizes(1,2) shard_blocks_pos _ part_holds_new _ small,
        where d = d and k = q and c = 0 and f = "\<lambda>c. c * run div block" and block4 = block] unfolding run [symmetric] by auto
  have "encode_parts keys block micro threads tables = Gives (foldl part_join part_new parts)"
    using parts(1) by (simp add: encode_parts_def Let_def run_def q_def nb_def)
  then show ?thesis using parts(2) by blast
qed

subsection \<open>The arrays\<close>

lemma unat_of_nat_small: "n < 2 ^ 56 \<Longrightarrow> unat (of_nat n :: u64) = n"
  by (simp add: unat_of_nat)

lemma bit_len_max_le: "\<forall>n\<in>set ns. n < 2 ^ 56 \<Longrightarrow> packed_width_of (map of_nat ns) \<le> 56"
  by (auto simp: packed_width_of_le_iff unat_of_nat_small)

lemma packed_offsets_reads:
  assumes "sorted ns" "\<forall>n\<in>set ns. n < 2 ^ 56"
  obtains f where "packed_offsets ns = Gives f" "\<And>i. i < length ns \<Longrightarrow> offsets_at f i = Gives (of_nat (ns ! i))"
proof -
  define vs where "vs = (map of_nat ns :: u64 list)"
  have "sorted_wrt (\<lambda>a b. (of_nat a :: u64) \<le> of_nat b) ns"
    using assms by (auto intro!: sorted_wrt_mono_rel [OF _ assms(1)] simp: word_le_nat_alt unat_of_nat_small)
  then have srt: "sorted vs" by (simp add: vs_def sorted_wrt_map)
  have small: "\<forall>v\<in>set vs. unat v < 2 ^ 56" using assms(2) by (auto simp: vs_def unat_of_nat_small)
  have "width_of vs SHIFT \<le> 56"
    unfolding width_of_le_iff
  proof
    fix c assume c: "c \<in> set (chunks (2 ^ SHIFT) vs)"
    then have "c \<noteq> []" "set c \<subseteq> set vs" using chunks_nonempty chunk_subset by blast+
    then have "last c \<in> set vs" "hd c \<le> last c"
      using sorted_hd_last(2) [of c "hd c"] sorted_chunk [OF srt c] by auto
    then show "unat (last c - hd c) < 2 ^ 56" using small by (metis order_le_less_trans unat_sub diff_le_self)
  qed
  then have "width_of vs SHIFT \<le> MAX_WIDTH" by (simp add: MAX_WIDTH_def)
  from pack_reads_back [OF srt order_refl this] obtain bases deltas where p: "pack vs SHIFT (width_of vs SHIFT) = Gives (bases, deltas)"
    "\<forall>i<length vs. offsets_at \<lparr>o_bases = bases, o_deltas = deltas, o_width = width_of vs SHIFT, o_shift = SHIFT\<rparr> i = Gives (vs ! i)"
    by blast
  show thesis
    by (rule that [of "\<lparr>o_bases = bases, o_deltas = deltas, o_width = width_of vs SHIFT, o_shift = SHIFT\<rparr>"])
       (use p in \<open>simp_all add: packed_offsets_def Let_def vs_def [symmetric]\<close>, simp add: vs_def)
qed

lemma packed_micros_reads:
  assumes "\<forall>n\<in>set ns. n < 2 ^ 56"
  obtains f where "packed_micros ns = Gives f" "\<And>i. i < length ns \<Longrightarrow> packed_at f i = Gives (of_nat (ns ! i))"
proof -
  have w: "packed_width_of (map of_nat ns) \<le> MAX_WIDTH" using bit_len_max_le [OF assms] by (simp add: MAX_WIDTH_def)
  obtain ds where "packed_pack (map of_nat ns) (packed_width_of (map of_nat ns)) = Gives ds"
    "\<forall>i<length ns. packed_at \<lparr>p_deltas = ds, p_width = packed_width_of (map of_nat ns)\<rparr> i = Gives (of_nat (ns ! i))"
    using packed_pack_reads [OF order_refl w] by auto
  then show thesis using that by (auto simp: packed_micros_def Let_def)
qed

subsection \<open>Pieces of a concatenation\<close>

lemma concat_piece:
  assumes "i < length xs"
  shows "get_range (concat xs) (length (concat (take i xs))) (length (concat (take (Suc i) xs))) = Some (xs ! i)"
proof -
  have xs: "concat xs = concat (take i xs) @ xs ! i @ concat (drop (Suc i) xs)"
    using id_take_nth_drop [OF assms] by (metis concat.simps(2) concat_append)
  show ?thesis by (subst xs) (simp add: get_range_def take_Suc_conv_app_nth [OF assms])
qed

lemma piece_within:
  assumes "get_range xs s e = Some ys" "get_range ys a b = Some zs"
  shows "get_range xs (s + a) (s + b) = Some zs"
  using assms by (auto simp: get_range_def min_def take_drop add.commute split: if_splits)

lemma length_concat_take_le: "length (concat (take i xs)) \<le> length (concat xs)"
  by (metis append_take_drop_id concat_append le_add1 length_append)

subsection \<open>The room the blocks take\<close>

lemma run_room_simps [simp]:
  "run_room [] = 0" "run_room (k # ks) = 34 + 10 * length k + run_room ks" "run_room (xs @ ys) = run_room xs + run_room ys"
  by (simp_all add: run_room_def)

lemma run_room_concat: "run_room (concat cs) = sum_list (map run_room cs)"
  by (induction cs) simp_all

lemma concat_of_chunks: "0 < n \<Longrightarrow> concat (chunks n xs) = xs"
proof (induction n xs rule: chunks.induct)
  case (1 n xs)
  then show ?case by (cases "xs = []") (simp_all add: chunks_unfold)
qed

lemma run_room_runs:
  assumes "bk \<noteq> []" "0 < micro"
  shows "sum_list (map (run_room \<circ> snd) (block_runs micro bk)) \<le> run_room bk"
proof -
  define cs where "cs = chunks micro bk"
  have ne: "cs \<noteq> []" "\<forall>c\<in>set cs. c \<noteq> []" using assms chunks_nonempty by (auto simp: cs_def)
  have tails: "run_room (map hd ds) + sum_list (map (run_room \<circ> tl) ds) = sum_list (map run_room ds)" if "\<forall>c\<in>set ds. c \<noteq> []" for ds
    using that
  proof (induction ds)
    case (Cons c ds)
    then obtain k ks where "c = k # ks" by (cases c) auto
    then show ?case using Cons by simp
  qed simp
  have "run_room (map hd (tl cs)) \<le> run_room (map hd cs)" using ne(1) by (cases cs) simp_all
  then have "run_room (map hd (tl cs)) + sum_list (map (run_room \<circ> tl) cs) \<le> run_room (concat cs)"
    using tails [OF ne(2)] by (simp add: run_room_concat)
  then show ?thesis using assms(2) by (simp add: block_runs_def cs_def [symmetric] comp_def concat_of_chunks [of micro bk, folded cs_def])
qed

lemma block_room:
  assumes "block_bytes d codec codes micro bk rbs" "bk \<noteq> []" "0 < micro"
  shows "length (concat rbs) \<le> run_room bk"
proof -
  have len: "length rbs = length (block_runs micro bk)" and le: "\<And>j. j < length rbs \<Longrightarrow> length (rbs ! j) \<le> run_room (snd (block_runs micro bk ! j))"
    using assms(1) by (auto simp: block_bytes_def run_bytes_def)
  have "sum_list (map length rbs) \<le> sum_list (map (run_room \<circ> snd) (block_runs micro bk))"
    using len le by (intro sum_list_mono2) (simp_all)
  then show ?thesis using run_room_runs [OF assms(2,3)] by (simp add: length_concat)
qed

lemma part_room:
  assumes "part_holds d micro shard bks BS pt" "\<forall>bk\<in>set bks. bk \<noteq> []" "0 < micro"
  shows "length (pt_data pt) \<le> run_room (concat bks)" "length (pt_heads pt) \<le> run_room (concat bks)"
proof -
  have "length (concat (BS ! i)) \<le> run_room (bks ! i)" if "i < length bks" for i
    using assms that block_room [of d "pt_codecs pt ! (i div shard)" "pt_codes pt ! (i div shard)" micro "bks ! i" "BS ! i"]
    by (simp add: part_holds_def)
  then have "sum_list (map length (map concat BS)) \<le> sum_list (map run_room bks)"
    using assms(1) by (intro sum_list_mono2) (auto simp: part_holds_def)
  then show "length (pt_data pt) \<le> run_room (concat bks)"
    using assms(1) by (simp add: part_holds_def length_concat run_room_concat)
  have "length (concat (map hd ds)) \<le> run_room (concat ds)" if "\<forall>c\<in>set ds. c \<noteq> []" for ds
    using that
  proof (induction ds)
    case (Cons c ds)
    then obtain k ks where "c = k # ks" by (cases c) auto
    then show ?case using Cons by simp
  qed simp
  then show "length (pt_heads pt) \<le> run_room (concat bks)" using assms(1,2) by (simp add: part_holds_def)
qed

subsection \<open>Where the microblocks start\<close>

lemma length_tl_starts [simp]: "length (tl (starts_of at rbs)) = length rbs - 1"
  by (cases rbs) simp_all

lemma nth_micro_starts:
  "b < length BS \<Longrightarrow> (\<And>b'. b' < b \<Longrightarrow> length (BS ! b') = Suc per) \<Longrightarrow> Suc j < length (BS ! b) \<Longrightarrow>
    b * per + j < length (micro_starts at BS) \<and>
    micro_starts at BS ! (b * per + j) = at + length (concat (take b (map concat BS))) + length (concat (take (Suc j) (BS ! b)))"
proof (induction BS arbitrary: at b)
  case (Cons rbs BS)
  show ?case
  proof (cases b)
    case 0
    then have "j < length (tl (starts_of at rbs))" using Cons.prems(3) by simp
    moreover from this have "tl (starts_of at rbs) ! j = starts_of at rbs ! Suc j" by (rule nth_tl)
    ultimately show ?thesis using 0 Cons.prems(3) by (simp add: nth_append nth_starts_of)
  next
    case (Suc b1)
    have full: "length rbs = Suc per" using Cons.prems(2) [of 0] Suc by simp
    have "b1 < length BS" "\<And>b'. b' < b1 \<Longrightarrow> length (BS ! b') = Suc per" "Suc j < length (BS ! b1)"
      using Cons.prems(1,3) Cons.prems(2) [of "Suc _"] Suc by simp_all
    from Cons.IH [OF this, of "at + length (concat rbs)"]
    have ih: "b1 * per + j < length (micro_starts (at + length (concat rbs)) BS)"
      "micro_starts (at + length (concat rbs)) BS ! (b1 * per + j) =
        at + length (concat rbs) + length (concat (take b1 (map concat BS))) + length (concat (take (Suc j) (BS ! b1)))" by blast+
    have i: "b * per + j = length (tl (starts_of at rbs)) + (b1 * per + j)" using full Suc by simp
    show ?thesis unfolding i by (simp add: ih Suc nth_append)
  qed
qed simp

text \<open>The starts a blob stores: each microblock's inside its own block.\<close>

lemma nth_rebased:
  assumes "b < length BS" "\<And>b'. b' < b \<Longrightarrow> length (BS ! b') = Suc per" "Suc j < length (BS ! b)" "j < per"
  shows "b * per + j < length (rebase_micros (micro_starts 0 BS) (starts_of 0 (map concat BS)) per)"
    "rebase_micros (micro_starts 0 BS) (starts_of 0 (map concat BS)) per ! (b * per + j) = length (concat (take (Suc j) (BS ! b)))"
proof -
  note m = nth_micro_starts [OF assms(1-3), of 0]
  have "(b * per + j) div per = b" using assms(4) by (simp add: div_mult_self3 div_nat_eqI)
  moreover have "starts_of 0 (map concat BS) ! b = length (concat (take b (map concat BS)))" using assms(1) by (simp add: nth_starts_of)
  ultimately show "b * per + j < length (rebase_micros (micro_starts 0 BS) (starts_of 0 (map concat BS)) per)"
    "rebase_micros (micro_starts 0 BS) (starts_of 0 (map concat BS)) per ! (b * per + j) = length (concat (take (Suc j) (BS ! b)))"
    using m by (simp_all add: rebase_micros_def nth_enumerate_eq)
qed

end
