(* ===== verification/Built_Facts.thy ===== *)
theory Built_Facts
  imports Build_Facts
begin

text \<open>
  The index made of a part is one over the keys the part holds: every head, block and microblock reads
  back from the packed arrays, and the samples are those of the heads.
\<close>

subsection \<open>Reading a part\<close>

definition reads_part :: "dict_index \<Rightarrow> bytes list \<Rightarrow> part \<Rightarrow> bool" where
  "reads_part d keys pt \<longleftrightarrow> index_shape d keys \<and> 0 < di_shard d \<and> (\<forall>b. shard_of d b = b div di_shard d) \<and>
    di_heads d = pt_heads pt \<and> di_data d = pt_data pt \<and> di_phrases d = dict_of [] \<and>
    (keys \<noteq> [] \<longrightarrow> di_codecs d = pt_codecs pt \<and> di_codes d = pt_codes pt) \<and>
    (\<forall>b<length (pt_head_ends pt). offsets_at (di_head_ends d) b = Gives (of_nat (pt_head_ends pt ! b))) \<and>
    (\<forall>b<length (pt_blocks pt). offsets_at (di_blocks d) b = Gives (of_nat (pt_blocks pt ! b))) \<and>
    (di_per d \<noteq> 1 \<longrightarrow> (\<forall>i<length (rebase_micros (pt_micros pt) (pt_blocks pt) (di_per d)).
      packed_at (di_micros d) i = Gives (of_nat (rebase_micros (pt_micros pt) (pt_blocks pt) (di_per d) ! i))))"

definition held_by :: "dict_index \<Rightarrow> bytes list \<Rightarrow> bytes list list \<Rightarrow> part \<Rightarrow> bool" where
  "held_by d keys BS pt \<longleftrightarrow> reads_part d keys pt \<and> run_room keys < 2 ^ 56 \<and>
    part_holds (dict_of []) (di_micro d) (di_shard d) (chunks (di_block d) keys) BS pt"

lemma held_basics:
  assumes "held_by d keys BS pt"
  shows "index_shape d keys" "part_holds (dict_of []) (di_micro d) (di_shard d) (chunks (di_block d) keys) BS pt"
    "0 < di_block d" "0 < di_micro d" "blocks_len d = length (chunks (di_block d) keys)" "length BS = length (chunks (di_block d) keys)"
    "length (pt_data pt) < 2 ^ 56" "length (pt_heads pt) < 2 ^ 56"
    "pt_data pt = concat (map concat BS)" "pt_blocks pt = starts_of 0 (map concat BS)" "pt_micros pt = micro_starts 0 BS"
proof -
  show sh: "index_shape d keys" and pt: "part_holds (dict_of []) (di_micro d) (di_shard d) (chunks (di_block d) keys) BS pt"
    using assms by (simp_all add: held_by_def reads_part_def)
  then show pos: "0 < di_block d" "0 < di_micro d" and "blocks_len d = length (chunks (di_block d) keys)"
    by (simp_all add: index_shape_def)
  show "length BS = length (chunks (di_block d) keys)" "pt_data pt = concat (map concat BS)" "pt_blocks pt = starts_of 0 (map concat BS)"
    "pt_micros pt = micro_starts 0 BS" using pt by (simp_all add: part_holds_def)
  have "\<forall>bk\<in>set (chunks (di_block d) keys). bk \<noteq> []" using chunks_nonempty by blast
  from part_room [OF pt this pos(2)] show "length (pt_data pt) < 2 ^ 56" "length (pt_heads pt) < 2 ^ 56"
    using assms pos(1) by (simp_all add: held_by_def concat_of_chunks)
qed

lemma head_reads:
  assumes "held_by d keys BS pt" "b < length (chunks (di_block d) keys)"
  shows "di_head d b = Gives (hd (chunks (di_block d) keys ! b))"
proof -
  define xs where "xs = map hd (chunks (di_block d) keys)"
  note B = held_basics [OF assms(1)]
  have heads: "di_heads d = concat xs" "pt_head_ends pt = ends_from 0 xs"
    using assms(1) by (simp_all add: held_by_def reads_part_def part_holds_def xs_def)
  have ends: "offsets_at (di_head_ends d) i = Gives (of_nat (length (concat (take (Suc i) xs))))" if "i < length xs" for i
    using assms(1) that by (simp add: held_by_def reads_part_def heads nth_ends_from)
  have small: "unat (of_nat (length (concat (take i xs))) :: u64) = length (concat (take i xs))" for i
    using length_concat_take_le [of i xs] B(8) assms(1) by (intro unat_of_nat_small) (simp add: held_by_def reads_part_def heads)
  have b: "b < length xs" using assms(2) by (simp add: xs_def)
  have piece: "range_or_empty (concat xs) (length (concat (take b xs))) (length (concat (take (Suc b) xs))) = xs ! b"
    by (simp only: range_or_empty_def concat_piece [OF b] option.case)
  show ?thesis
  proof (cases b)
    case 0
    then show ?thesis
      using ends [of 0] piece small [of 1] b by (simp add: di_head_def head_of_def heads(1)) (simp add: xs_def)
  next
    case (Suc k)
    then have "offsets_pair (di_head_ends d) k = Gives (of_nat (length (concat (take b xs))), of_nat (length (concat (take (Suc b) xs))))"
      using offsets_pair_at ends [of k] ends [of b] b by simp
    then show ?thesis
      using piece Suc b by (simp add: di_head_def head_of_def heads(1) small) (simp add: xs_def)
  qed
qed

lemma block_codes:
  assumes "held_by d keys BS pt" "b < length (chunks (di_block d) keys)"
  shows "codec_of d b = pt_codecs pt ! (b div di_shard d)" "codes_of_block d b = pt_codes pt ! (b div di_shard d)"
    "di_phrases d = dict_of []"
proof -
  have "keys \<noteq> []" using assms(2) by (auto simp: chunks.simps)
  moreover have "b div di_shard d < div_ceil (length (chunks (di_block d) keys)) (di_shard d)"
    using assms by (intro less_div_ceil) (simp_all add: held_by_def reads_part_def)
  ultimately show "codec_of d b = pt_codecs pt ! (b div di_shard d)" "codes_of_block d b = pt_codes pt ! (b div di_shard d)"
    "di_phrases d = dict_of []"
    using assms by (simp_all add: held_by_def reads_part_def part_holds_def codec_of_def codes_of_block_def get_at_def)
qed

subsection \<open>A block and its microblocks\<close>

text \<open>Where block \<open>b\<close> starts, and how far into it run \<open>i\<close> does.\<close>

definition block_at :: "bytes list list \<Rightarrow> nat \<Rightarrow> nat" where
  "block_at BS b = length (concat (take b (map concat BS)))"

definition run_at :: "bytes list list \<Rightarrow> nat \<Rightarrow> nat \<Rightarrow> nat" where
  "run_at BS b i = length (concat (take i (BS ! b)))"

lemma run_piece:
  assumes "held_by d keys BS pt" "b < length BS" "i < length (BS ! b)"
  shows "range_or_empty (di_data d) (block_at BS b + run_at BS b i) (block_at BS b + run_at BS b (Suc i)) = BS ! b ! i"
    "block_at BS b + run_at BS b (Suc i) < 2 ^ 56" "block_at BS b + run_at BS b i < 2 ^ 56"
proof -
  note B = held_basics [OF assms(1)]
  have data: "di_data d = concat (map concat BS)" using assms(1) B(9) by (simp add: held_by_def reads_part_def)
  have "get_range (concat (map concat BS)) (block_at BS b) (length (concat (take (Suc b) (map concat BS)))) = Some (concat (BS ! b))"
    using concat_piece [of b "map concat BS"] assms(2) by (simp add: block_at_def)
  moreover have "get_range (concat (BS ! b)) (run_at BS b i) (run_at BS b (Suc i)) = Some (BS ! b ! i)"
    using concat_piece [OF assms(3)] by (simp add: run_at_def)
  ultimately have r: "get_range (concat (map concat BS)) (block_at BS b + run_at BS b i) (block_at BS b + run_at BS b (Suc i)) = Some (BS ! b ! i)"
    by (rule piece_within)
  then show "range_or_empty (di_data d) (block_at BS b + run_at BS b i) (block_at BS b + run_at BS b (Suc i)) = BS ! b ! i"
    by (simp add: range_or_empty_def data)
  have "block_at BS b + run_at BS b i \<le> block_at BS b + run_at BS b (Suc i)" "block_at BS b + run_at BS b (Suc i) \<le> length (pt_data pt)"
    using r by (auto simp: get_range_def B(9) split: if_splits)
  then show "block_at BS b + run_at BS b (Suc i) < 2 ^ 56" "block_at BS b + run_at BS b i < 2 ^ 56" using B(7) by linarith+
qed

lemma held_block:
  assumes "held_by d keys BS pt" "b < length (chunks (di_block d) keys)" and bk: "bk = chunks (di_block d) keys ! b"
  shows "block_bytes (di_phrases d) (codec_of d b) (codes_of_block d b) (di_micro d) bk (BS ! b)"
    "length (BS ! b) = Suc (micros_in d b)" "\<And>b'. b' < b \<Longrightarrow> length (BS ! b') = Suc (di_per d)" "bk \<noteq> []"
proof -
  note B = held_basics [OF assms(1)]
  have bytes: "block_bytes (dict_of []) (codec_of d i) (codes_of_block d i) (di_micro d) (chunks (di_block d) keys ! i) (BS ! i)"
    if "i < length (chunks (di_block d) keys)" for i
    using B(2) that by (simp add: part_holds_def block_codes [OF assms(1) that])
  have len: "length (BS ! i) = Suc (micros_in d i)" if "i < length (chunks (di_block d) keys)" for i
    using bytes [OF that] shape_sizes(2) [OF B(1) that refl] by (simp add: block_bytes_def block_runs_def)
  show "block_bytes (di_phrases d) (codec_of d b) (codes_of_block d b) (di_micro d) bk (BS ! b)"
    using bytes [OF assms(2)] by (simp add: bk block_codes [OF assms(1,2)])
  show "length (BS ! b) = Suc (micros_in d b)" by (rule len [OF assms(2)])
  show "length (BS ! b') = Suc (di_per d)" if "b' < b" for b'
    using len [of b'] shape_sizes(6) [OF B(1) _ refl, of b'] that assms(2) by simp
  show "bk \<noteq> []" using chunks_nonempty nth_mem [OF assms(2)] by (simp add: bk)
qed

lemma base_reads:
  assumes "held_by d keys BS pt" "b < length BS"
  shows "offsets_at (di_blocks d) b = Gives (of_nat (block_at BS b))"
  using assms held_basics(10) [OF assms(1)] by (simp add: held_by_def reads_part_def block_at_def nth_starts_of)

text \<open>The start of a microblock, inside its block.\<close>

lemma micro_reads:
  assumes h: "held_by d keys BS pt" and b: "b < length BS" and j: "j < micros_in d b" and per: "di_per d \<noteq> 1"
  shows "packed_at (di_micros d) (b * di_per d + j) = Gives (of_nat (run_at BS b (Suc j)))"
proof -
  note B = held_basics [OF h]
  have b': "b < length (chunks (di_block d) keys)" using b B(6) by simp
  have "j < di_per d" using j shape_sizes(5) [OF B(1) b' refl] by simp
  then show ?thesis
    using nth_rebased [OF b, of "di_per d" j] held_block(2,3) [OF h b' refl] j h per
    by (simp add: held_by_def reads_part_def B(10,11) run_at_def)
qed

text \<open>An index whose blocks are one microblock keeps no starts: its one run begins where the block does.\<close>

lemma one_micro:
  assumes h: "held_by d keys BS pt" and b: "b < length BS" and per: "di_per d = 1"
  shows "micros_in d b = 1" "BS ! b ! 0 = []"
proof -
  note B = held_basics [OF h]
  have b': "b < length (chunks (di_block d) keys)" using b B(6) by simp
  note sz = shape_sizes [OF B(1) b' refl]
  show one: "micros_in d b = 1" using sz(4,5) per by simp
  define cs where "cs = chunks (di_micro d) (chunks (di_block d) keys ! b)"
  have "length cs = 1" using one sz(2) by (simp add: cs_def)
  then have "tl cs = []" by (cases cs) simp_all
  then show "BS ! b ! 0 = []"
    using held_block(1,2) [OF h b' refl] by (auto simp: block_bytes_def block_runs_def run_bytes_def cs_def [symmetric] dest!: spec [of _ 0])
qed

lemma run_at_0 [simp]: "run_at BS b 0 = 0"
  by (simp add: run_at_def)

lemma unat_block_run:
  "block_at BS b + x < 2 ^ 56 \<Longrightarrow> unat (of_nat (block_at BS b) + of_nat x :: u64) = block_at BS b + x"
  using unat_of_nat_small [of "block_at BS b + x"] by (simp only: of_nat_add)

lemma restart_reads:
  assumes h: "held_by d keys BS pt" and b: "b < length BS"
  shows "restart_data_at d b (of_nat (block_at BS b)) = Gives (BS ! b ! 0)"
proof -
  note B = held_basics [OF h]
  have b': "b < length (chunks (di_block d) keys)" using b B(6) by simp
  note sz = shape_sizes [OF B(1) b' refl]
  have len: "0 < length (BS ! b)" using held_block(2) [OF h b' refl] by simp
  note piece = run_piece [OF h b len]
  show ?thesis
  proof (cases "di_per d = 1")
    case True
    then have "run_at BS b (Suc 0) = 0" using one_micro(2) [OF h b] len by (cases "BS ! b") (simp_all add: run_at_def)
    then show ?thesis using piece True unat_of_nat_small [of "block_at BS b"] by (simp add: restart_data_at_def)
  next
    case False
    then show ?thesis
      using micro_reads [OF h b sz(4)] piece unat_block_run [of BS b "run_at BS b (Suc 0)"] unat_of_nat_small [of "block_at BS b"]
      by (simp add: restart_data_at_def)
  qed
qed

lemma block_at_Suc: "b < length BS \<Longrightarrow> block_at BS (Suc b) = block_at BS b + length (concat (BS ! b))"
  by (simp add: block_at_def take_Suc_conv_app_nth)

lemma block_end_reads:
  assumes h: "held_by d keys BS pt" and b: "b < length BS"
  shows "block_end d b = Gives (block_at BS b + length (concat (BS ! b)))"
proof -
  note B = held_basics [OF h]
  have le: "block_at BS (Suc b) \<le> length (pt_data pt)" using length_concat_take_le [of "Suc b" "map concat BS"] by (simp add: block_at_def B(9))
  show ?thesis
  proof (cases "Suc b < length BS")
    case True
    then show ?thesis
      using base_reads [OF h, of "Suc b"] B(5-7) le unat_of_nat_small [of "block_at BS (Suc b)"] block_at_Suc [OF b]
      by (simp add: block_end_def)
  next
    case False
    then have "block_at BS (Suc b) = length (pt_data pt)" using b by (simp add: block_at_def B(9))
    moreover have "di_data d = pt_data pt" using h by (simp add: held_by_def reads_part_def)
    ultimately show ?thesis using False B(5,6) block_at_Suc [OF b] by (simp add: block_end_def)
  qed
qed

lemma micro_data_reads:
  assumes h: "held_by d keys BS pt" and b: "b < length BS" and j: "j < micros_in d b"
  shows "micro_data_at d b j (of_nat (block_at BS b)) = Gives (BS ! b ! Suc j)"
proof -
  note B = held_basics [OF h]
  have b': "b < length (chunks (di_block d) keys)" using b B(6) by simp
  note sz = shape_sizes [OF B(1) b' refl]
  have len: "length (BS ! b) = Suc (micros_in d b)" by (rule held_block(2) [OF h b' refl])
  have "Suc j < length (BS ! b)" using len j by simp
  note piece = run_piece [OF h b this]
  have start: "(if di_per d = 1 then Gives (of_nat (block_at BS b)) else bind_outcome (packed_at (di_micros d) (b * di_per d + j))
      (\<lambda>m. Gives (of_nat (block_at BS b) + m))) = Gives (of_nat (block_at BS b) + of_nat (run_at BS b (Suc j)) :: u64)"
  proof (cases "di_per d = 1")
    case True
    then have "j = 0" "run_at BS b (Suc 0) = 0" using one_micro [OF h b] j len by (simp, cases "BS ! b") (simp_all add: run_at_def)
    then show ?thesis using True by simp
  next
    case False
    then show ?thesis using micro_reads [OF h b j] by simp
  qed
  show ?thesis
  proof (cases "j + 1 < micros_in d b")
    case True
    then have per: "di_per d \<noteq> 1" using sz(5) by simp
    have "packed_pair (di_micros d) (b * di_per d + j) = Gives (of_nat (run_at BS b (Suc j)), of_nat (run_at BS b (Suc (Suc j))))"
      using packed_pair_at micro_reads [OF h b j per] micro_reads [OF h b _ per, of "Suc j"] True by (simp add: add.assoc)
    then show ?thesis using True piece unat_block_run by (simp add: micro_data_at_def)
  next
    case False
    then have "length (BS ! b) = Suc (Suc j)" using j len by simp
    then have "block_end d b = Gives (block_at BS b + run_at BS b (Suc (Suc j)))" by (simp add: block_end_reads [OF h b] run_at_def)
    then show ?thesis using False start piece unat_block_run by (simp add: micro_data_at_def)
  qed
qed

text \<open>Every block of the keys reads back as it was written.\<close>

lemma held_blocks_written:
  assumes h: "held_by d keys BS pt" and b': "b < length (chunks (di_block d) keys)"
  shows "block_written d b (chunks (di_block d) keys ! b)"
proof -
  note B = held_basics [OF h]
  define bk where "bk = chunks (di_block d) keys ! b"
  define cs where "cs = chunks (di_micro d) bk"
  have b: "b < length BS" using b' B(6) by simp
  have m: "micros_in d b = length cs" using shape_sizes(2) [OF B(1) b' bk_def] by (simp add: cs_def)
  note hb = held_block [OF h b' bk_def]
  have run: "written_run (di_phrases d) (codec_of d b) (if i = 0 then snd (codes_of_block d b) else fst (codes_of_block d b))
      (BS ! b ! i) (fst (block_runs (di_micro d) bk ! i)) (snd (block_runs (di_micro d) bk ! i))" if "i < length (BS ! b)" for i
  proof -
    have "length (BS ! b ! i) \<le> run_at BS b (Suc i)" using that by (simp add: run_at_def take_Suc_conv_app_nth)
    then have "length (BS ! b ! i) * 16 < usize_bound" using run_piece(2) [OF h b that] by (simp add: usize_bound_def)
    then show ?thesis using hb(1) that by (simp add: block_bytes_def run_bytes_def)
  qed
  have "di_head d b = Gives (hd bk)" using head_reads [OF h b'] by (simp add: bk_def)
  moreover have "written_run (di_phrases d) (codec_of d b) (snd (codes_of_block d b)) (BS ! b ! 0) (hd bk) (map hd (tl cs))"
    using run [of 0] hb(2) by (simp add: block_runs_def cs_def)
  moreover have "\<exists>m. micro_data_at d b j (of_nat (block_at BS b)) = Gives m \<and>
      written_run (di_phrases d) (codec_of d b) (fst (codes_of_block d b)) m (hd (cs ! j)) (tl (cs ! j))" if "j < length cs" for j
    using micro_data_reads [OF h b, of j] run [of "Suc j"] hb(2) m that by (simp add: block_runs_def cs_def)
  ultimately show ?thesis
    using base_reads [OF h b] restart_reads [OF h b] by (simp add: block_written_def Let_def bk_def [symmetric] cs_def [symmetric])
qed

subsection \<open>The samples\<close>

lemma samples_of_heads: "samples_of (concat xs) (ends_from 0 xs) g = map (\<lambda>h. sample_at h g) xs"
proof (rule nth_equalityI)
  fix i assume "i < length (samples_of (concat xs) (ends_from 0 xs) g)"
  then have i: "i < length xs" by (simp add: samples_of_def)
  have "(0 # ends_from 0 xs) ! i = length (concat (take i xs))" using i by (cases i) (simp_all add: nth_ends_from)
  then show "samples_of (concat xs) (ends_from 0 xs) g ! i = map (\<lambda>h. sample_at h g) xs ! i"
    using concat_piece [OF i] i by (simp add: samples_of_def nth_ends_from get_range_def split: if_splits)
qed (simp add: samples_of_def)

lemma common_head_of_heads:
  assumes "xs \<noteq> []"
  shows "common_head_raw (concat xs) (ends_from 0 xs) = min (lcp (hd xs) (last xs)) (2 ^ 16 - 1)"
proof -
  define n where "n = length xs - 1"
  have n: "n < length xs" "last xs = xs ! n" "xs \<noteq> []" using assms by (simp_all add: n_def last_conv_nth)
  have len: "length xs = Suc n" using assms by (cases xs) (simp_all add: n_def)
  have ends: "ends_from 0 xs \<noteq> []" "hd (ends_from 0 xs) = length (hd xs)" using assms by (cases xs; simp)+
  have lst: "last (ends_from 0 xs) = length (concat (take (Suc n) xs))"
    using ends(1) n(1) nth_ends_from [OF n(1), of 0] by (simp add: last_conv_nth n_def)
  have start: "(if length (ends_from 0 xs) = 1 then 0 else ends_from 0 xs ! (length (ends_from 0 xs) - 2)) = length (concat (take n xs))"
    by (cases n) (simp_all add: len nth_ends_from)
  have "take (length (hd xs)) (concat xs) = hd xs" using assms by (cases xs) simp_all
  moreover have "take (length (concat (take (Suc n) xs)) - length (concat (take n xs))) (drop (length (concat (take n xs))) (concat xs)) = last xs"
    using concat_piece [OF n(1)] n(2) by (simp add: get_range_def split: if_splits)
  ultimately show ?thesis
    using ends(1) by (simp only: common_head_raw_def Let_def start lst ends(2) lcp_bytes_eq if_False)
qed

lemma within_prefix: "p @ x \<le> h \<Longrightarrow> h \<le> p @ y \<Longrightarrow> \<exists>z. h = p @ z" for h :: bytes
proof (induction p arbitrary: h)
  case (Cons c p)
  then obtain c' h' where h: "h = c' # h'" by (cases h) auto
  then have "c' = c" using Cons.prems by auto
  then show ?case using Cons.IH [of h'] Cons.prems h by auto
qed simp

lemma common_head_shared:
  assumes "sorted (xs :: bytes list)" "h \<in> set xs" "g \<le> lcp (hd xs) (last xs)"
  shows "g \<le> length h" "take g h = take g (hd xs)"
proof -
  obtain i where i: "i < length xs" "h = xs ! i" using assms(2) by (auto simp: in_set_conv_nth)
  then have ne: "xs \<noteq> []" by auto
  have ends: "hd xs \<le> h" "h \<le> last xs"
    using sorted_nth_mono [OF assms(1), of 0 i] sorted_nth_mono [OF assms(1), of i "length xs - 1"] i
    by (simp_all add: hd_conv_nth [OF ne] last_conv_nth [OF ne])
  have "take g (hd xs) = take g (last xs)" using arg_cong [OF lcp_take [of "hd xs" "last xs"], of "take g"] assms(3) by simp
  then have "take g (hd xs) @ drop g (last xs) = last xs" by (metis append_take_drop_id)
  then have "take g (hd xs) @ drop g (hd xs) \<le> h" "h \<le> take g (hd xs) @ drop g (last xs)" using ends by (simp_all only: append_take_drop_id)
  then obtain z where z: "h = take g (hd xs) @ z" using within_prefix by blast
  have "length (take g (hd xs)) = g" using assms(3) lcp_le(1) [of "hd xs" "last xs"] by simp
  then show "g \<le> length h" "take g h = take g (hd xs)" by (simp_all add: z)
qed

subsection \<open>The index of a part\<close>

lemma shard_bits_divide:
  assumes "di_shard_bits d = shard_bits_of (di_shard d)"
  shows "shard_of d b = b div di_shard d"
proof (cases "is_power_of_two (di_shard d)")
  case True
  then have "di_shard d = 2 ^ di_shard_bits d" using assms by (simp add: is_power_of_two_def shard_bits_of_def)
  then show ?thesis by (simp add: shard_of_def drop_bit_eq_div)
next
  case False
  then show ?thesis using assms by (simp add: shard_of_def shard_bits_of_def)
qed

lemma sorted_starts: "sorted (starts_of at xs)" "\<forall>x\<in>set (starts_of at xs). at \<le> x"
  by (induction at xs rule: starts_of.induct) fastforce+

lemma sorted_ends: "sorted (ends_from at xs)" "\<forall>x\<in>set (ends_from at xs). at \<le> x"
  by (induction at xs rule: ends_from.induct) fastforce+

lemma starts_bounded: "x \<in> set (starts_of 0 xs) \<Longrightarrow> x \<le> length (concat xs)"
  using length_concat_take_le by (auto simp: in_set_conv_nth nth_starts_of)

lemma ends_bounded: "x \<in> set (ends_from 0 xs) \<Longrightarrow> x \<le> length (concat xs)"
  using length_concat_take_le by (auto simp: in_set_conv_nth nth_ends_from)

lemma micro_starts_bounded: "x \<in> set (micro_starts at BS) \<Longrightarrow> x \<le> at + length (concat (map concat BS))"
proof (induction at BS rule: micro_starts.induct)
  case (2 at rbs BS)
  have "x \<le> at + length (concat rbs)" if "x \<in> set (tl (starts_of at rbs))"
    using that length_concat_take_le list.set_sel(2) [of "starts_of at rbs" x]
    by (cases rbs) (fastforce simp: in_set_conv_nth nth_starts_of)+
  then show ?case using 2 by auto
qed simp

lemma key_room: "k \<in> set keys \<Longrightarrow> 10 * length k < run_room keys"
  by (induction keys) auto

lemma room_keys_small: "run_room keys < 2 ^ 56 \<Longrightarrow> keys_small keys"
  using key_room by (fastforce simp: keys_small_def usize_bound_def)

lemma held_index_ok:
  assumes h: "held_by d keys BS pt" and srt: "sorted_wrt (<) keys"
    and samples: "di_samples d = map (\<lambda>h. sample_at h (di_g d)) (heads_of d keys)"
    and g: "\<forall>h\<in>set (heads_of d keys). di_g d \<le> length h \<and> take (di_g d) h = take (di_g d) (hd (heads_of d keys))"
    and ties: "ties_right d (heads_of d keys)" and route: "di_mroute d = None"
  shows "index_ok d keys"
proof -
  note B = held_basics [OF h]
  have "\<forall>k\<in>set keys. length k < usize_bound"
    using h key_room by (fastforce simp: held_by_def usize_bound_def)
  then show ?thesis
    using B(1) held_blocks_written [OF h] srt samples g ties route by (simp add: index_ok_def index_shape_def)
qed

lemma index_of_part_held:
  assumes holds: "part_holds (dict_of []) micro (shard_blocks_for block) (chunks block keys) BS pt"
    and sizes: "0 < block" "0 < micro" and room: "run_room keys < 2 ^ 56" and tables: "tables \<noteq> []"
    and g: "g = common_head_raw (pt_heads pt) (pt_head_ends pt)"
  shows "\<exists>d. index_of_part (length keys) block micro tables pt = Gives d \<and> held_by d keys BS pt \<and> di_block d = block \<and> di_micro d = micro \<and>
    di_samples d = map (\<lambda>h. sample_at h g) (heads_of d keys) \<and> di_g d = g \<and> di_mroute d = None"
proof -
  let ?bks = "chunks block keys" and ?per = "div_ceil block micro" and ?shard = "shard_blocks_for block"
  have parts: "length BS = length ?bks" "pt_heads pt = concat (map hd ?bks)" "pt_head_ends pt = ends_from 0 (map hd ?bks)"
    "pt_blocks pt = starts_of 0 (map concat BS)" "pt_micros pt = micro_starts 0 BS" "pt_data pt = concat (map concat BS)"
    "length (pt_codes pt) = div_ceil (length ?bks) ?shard"
    using holds by (simp_all add: part_holds_def)
  have "\<forall>bk\<in>set ?bks. bk \<noteq> []" using chunks_nonempty by blast
  note rm = part_room [OF holds this sizes(2)]
  have le: "length (pt_data pt) < 2 ^ 56" "length (pt_heads pt) < 2 ^ 56" using rm room sizes(1) by (simp_all add: concat_of_chunks)
  have bounds: "sorted (pt_head_ends pt)" "\<forall>n\<in>set (pt_head_ends pt). n < 2 ^ 56" "sorted (pt_blocks pt)" "\<forall>n\<in>set (pt_blocks pt). n < 2 ^ 56"
    using sorted_ends(1) sorted_starts(1) order_le_less_trans [OF ends_bounded le(2) [unfolded parts]]
      order_le_less_trans [OF starts_bounded le(1) [unfolded parts]] by (simp_all add: parts)
  obtain ends where ends: "packed_offsets (pt_head_ends pt) = Gives ends"
    "\<And>i. i < length (pt_head_ends pt) \<Longrightarrow> offsets_at ends i = Gives (of_nat (pt_head_ends pt ! i))"
    by (rule packed_offsets_reads [OF bounds(1,2)]) blast
  obtain blocks where blocks: "packed_offsets (pt_blocks pt) = Gives blocks"
    "\<And>i. i < length (pt_blocks pt) \<Longrightarrow> offsets_at blocks i = Gives (of_nat (pt_blocks pt ! i))"
    by (rule packed_offsets_reads [OF bounds(3,4)]) blast
  define ms where "ms = rebase_micros (pt_micros pt) (pt_blocks pt) ?per"
  have "n < 2 ^ 56" if n: "n \<in> set (if ?per = 1 then [] else ms)" for n
  proof -
    have "n \<in> set ms" using n by (simp split: if_splits)
    then obtain i where "i < length (pt_micros pt)" "n = pt_micros pt ! i - pt_blocks pt ! (i div ?per)"
      by (auto simp: ms_def rebase_micros_def in_set_enumerate_eq)
    then show ?thesis using micro_starts_bounded [OF nth_mem, of i 0 BS] le(1) by (simp add: parts)
  qed
  then obtain micros where micros: "packed_micros (if ?per = 1 then [] else ms) = Gives micros"
    "\<And>i. i < length (if ?per = 1 then [] else ms) \<Longrightarrow> packed_at micros i = Gives (of_nat ((if ?per = 1 then [] else ms) ! i))"
    by (rule packed_micros_reads [OF ballI]) blast+
  define cs where "cs = (if pt_codes pt = [] then ([(Frame frames_none, Frame frames_none)], [Symbols (tables ! 0) None]) else (pt_codes pt, pt_codecs pt))"
  define d where "d = \<lparr>di_block = block, di_micro = micro, di_per = ?per, di_n = length keys, di_heads = pt_heads pt, di_head_ends = ends,
        di_samples = samples_of (pt_heads pt) (pt_head_ends pt) g, di_ties = None, di_blocks = blocks, di_micros = micros,
        di_data = pt_data pt, di_codecs = snd cs, di_codes = fst cs, di_shard = ?shard, di_shard_bits = shard_bits_of ?shard,
        di_phrases = dict_of [], di_g = g, di_mroute = None\<rparr>"
  have "index_of_part (length keys) block micro tables pt = Gives d"
    using tables ends(1) blocks(1) micros(1) by (cases "?per = 1") (simp_all add: index_of_part_def Let_def d_def cs_def g ms_def)
  moreover have samples: "di_samples d = map (\<lambda>h. sample_at h g) (heads_of d keys)"
    by (simp add: d_def parts(2,3) samples_of_heads heads_of_def)
  moreover have "held_by d keys BS pt"
  proof -
    have shape: "index_shape d keys"
      using sizes samples by (simp add: index_shape_def blocks_len_def heads_of_def) (simp add: d_def)
    have "pt_codes pt \<noteq> []" if "keys \<noteq> []"
    proof -
      have "0 < div_ceil (length ?bks) ?shard" using that sizes shard_blocks_pos by (intro div_ceil_pos) simp_all
      then show ?thesis using parts(7) by auto
    qed
    then have "keys \<noteq> [] \<Longrightarrow> cs = (pt_codes pt, pt_codecs pt)" by (simp add: cs_def)
    moreover have "shard_of d b = b div di_shard d" for b by (rule shard_bits_divide) (simp add: d_def)
    moreover have "packed_at micros i = Gives (of_nat (ms ! i))" if "?per \<noteq> 1" "i < length ms" for i using micros(2) [of i] that by simp
    ultimately show ?thesis
      using shape holds room ends(2) blocks(2) shard_blocks_pos [of block]
      by (simp add: held_by_def reads_part_def) (simp add: d_def ms_def)
  qed
  ultimately show ?thesis by (intro exI [of _ d]) (simp add: d_def)
qed

end
