(* ===== verification/Tie_Build.thy ===== *)
theory Tie_Build
  imports Tie_Facts Built_Facts
begin

text \<open>
  What \<^verbatim>\<open>Ties::derive\<close> builds: over every run of tied samples a trie of the run's heads, grown breadth
  first; the growing ends, and no node's number reaches the marks of an edge.
\<close>

subsection \<open>The edges of a node\<close>

lemma group_end:
  assumes "sorted words" "a < length words" and c: "c = a + length (takeWhile (\<lambda>w. w = words ! a) (drop a words))"
  shows "a < c" "c \<le> length words" "\<And>b. a \<le> b \<Longrightarrow> b < c \<Longrightarrow> words ! b = words ! a" "c < length words \<Longrightarrow> words ! a < words ! c"
proof -
  let ?tw = "takeWhile (\<lambda>w. w = words ! a) (drop a words)"
  have d: "drop a words = words ! a # drop (Suc a) words" using assms(2) by (simp add: Cons_nth_drop_Suc)
  show "a < c" unfolding c d by simp
  have le: "length ?tw \<le> length (drop a words)" by (rule length_takeWhile_le)
  then show "c \<le> length words" using assms(2) by (simp add: c)
  show "words ! b = words ! a" if "a \<le> b" "b < c" for b
  proof -
    have "?tw ! (b - a) \<in> set ?tw" using that by (intro nth_mem) (simp add: c)
    then have "?tw ! (b - a) = words ! a" using set_takeWhileD by metis
    moreover have "?tw ! (b - a) = drop a words ! (b - a)" using that by (intro takeWhile_nth) (simp add: c)
    ultimately show ?thesis using that(1) le assms(2) by simp
  qed
  show "words ! a < words ! c" if "c < length words"
  proof -
    have "length ?tw < length (drop a words)" using that by (simp add: c)
    from nth_length_takeWhile [OF this] have "words ! c \<noteq> words ! a" using assms(2) by (simp add: c)
    moreover have "words ! a \<le> words ! c" using assms(1) that \<open>a < c\<close> by (intro sorted_nth_mono) simp_all
    ultimately show ?thesis by simp
  qed
qed

definition edge_kid_ok :: "bytes list \<Rightarrow> nat \<Rightarrow> nat \<Rightarrow> tie_task list \<Rightarrow> tie_span \<Rightarrow> bool" where
  "edge_kid_ok run lo depth Q x \<longleftrightarrow> (case x of (w, s, e, k) \<Rightarrow> k = LEAF \<and> e = Suc s \<or> k = FLAT \<or>
    (\<exists>p. (k, p, s, e, depth + 1) \<in> set Q \<and> tie_splits (run ! (s - lo)) (run ! (e - 1 - lo)) = Some p))"

definition task_room :: "tie_task list \<Rightarrow> nat" where
  "task_room Q = sum_list (map (\<lambda>(k, p, s, e, dp). e - s - 1) Q)"

lemma task_room_append: "task_room (Q @ Q') = task_room Q + task_room Q'"
  by (simp add: task_room_def)

text \<open>The edges of a run, and the tasks they open.\<close>

definition spans_grow :: "bytes list \<Rightarrow> u64 list \<Rightarrow> nat \<Rightarrow> nat \<Rightarrow> nat \<Rightarrow> nat \<Rightarrow> tie_span list \<Rightarrow> tie_task list \<Rightarrow> bool" where
  "spans_grow run words lo depth a nodes es Q \<longleftrightarrow> chained (lo + a) (lo + length words) es \<and> sorted_wrt (<) (words_of es) \<and>
    (\<forall>w\<in>set (words_of es). a < length words \<and> words ! a \<le> w) \<and>
    (\<forall>w s e k b. (w, s, e, k) \<in> set es \<and> s \<le> b \<and> b < e \<longrightarrow> words ! (b - lo) = w) \<and>
    (\<forall>x\<in>set es. edge_kid_ok run lo depth Q x) \<and> map fst Q = [nodes..<nodes + length Q] \<and>
    (\<forall>k p s e dp. (k, p, s, e, dp) \<in> set Q \<longrightarrow> s + 2 \<le> e \<and> lo + a \<le> s \<and> e \<le> lo + length words \<and>
      tie_splits (run ! (s - lo)) (run ! (e - 1 - lo)) = Some p) \<and>
    task_room Q + length es \<le> length words - a"

lemma tie_edges_grow:
  assumes "sorted words"
  shows "a \<le> length words \<Longrightarrow> \<exists>es Q. tie_edges run words lo depth a t queue =
    (t\<lparr>ts_nodes := ts_nodes t @ replicate (length Q) tie_node_default, ts_words := ts_words t @ words_of es,
      ts_starts := ts_starts t @ span_starts es, ts_kids := ts_kids t @ span_kids es\<rparr>, queue @ Q) \<and>
    spans_grow run words lo depth a (length (ts_nodes t)) es Q"
  using assms
proof (induction run words lo depth a t queue rule: tie_edges.induct)
  case (1 run words lo depth a t queue)
  show ?case
  proof (cases "a < length words")
    case False
    then show ?thesis using 1(2)
      by (intro exI [of _ "[]"]) (simp add: tie_edges.simps spans_grow_def task_room_def words_of_def span_starts_def span_kids_def)
  next
    case True
    define c where "c = a + length (takeWhile (\<lambda>w. w = words ! a) (drop a words))"
    note c = group_end [OF 1(3) True c_def]
    define split where "split = (if c - a = 1 then None else if depth \<ge> MAX_DEPTH then None else tie_splits (run ! a) (run ! (c - 1)))"
    define kid where "kid = (if c - a = 1 then LEAF else case split of Some p \<Rightarrow> length (ts_nodes t) | None \<Rightarrow> FLAT)"
    define new where "new = (case split of Some p \<Rightarrow> [(length (ts_nodes t), p, lo + a, lo + c, depth + 1)] | None \<Rightarrow> [])"
    define t1 where "t1 = push_edge (words ! a) (lo + a) kid (t\<lparr>ts_nodes := ts_nodes t @ replicate (length new) tie_node_default\<rparr>)"
    have step: "tie_edges run words lo depth a t queue = tie_edges run words lo depth c t1 (queue @ new)"
      using True by (subst tie_edges.simps)
        (simp add: c_def [symmetric] Let_def kid_def new_def split_def t1_def split: option.splits)
    have kid: "(kid, t\<lparr>ts_nodes := ts_nodes t @ replicate (length new) tie_node_default\<rparr>, queue @ new) =
        (if c - a = 1 then (LEAF, t, queue) else if MAX_DEPTH \<le> depth then (FLAT, t, queue)
         else (case tie_splits (run ! a) (run ! (c - 1)) of None \<Rightarrow> (FLAT, t, queue)
           | Some p \<Rightarrow> let kid = length (ts_nodes t) in (kid, t\<lparr>ts_nodes := ts_nodes t @ [tie_node_default]\<rparr>,
               queue @ [(kid, p, lo + a, lo + c, depth + 1)])))"
      by (simp add: kid_def new_def split_def Let_def split: option.splits)
    have "\<exists>es Q. tie_edges run words lo depth c t1 (queue @ new) =
      (t1\<lparr>ts_nodes := ts_nodes t1 @ replicate (length Q) tie_node_default, ts_words := ts_words t1 @ words_of es,
        ts_starts := ts_starts t1 @ span_starts es, ts_kids := ts_kids t1 @ span_kids es\<rparr>, (queue @ new) @ Q) \<and>
      spans_grow run words lo depth c (length (ts_nodes t1)) es Q"
      unfolding t1_def by (rule 1(1) [OF True c_def kid refl refl c(2) 1(3)])
    then obtain es Q where ih: "tie_edges run words lo depth c t1 (queue @ new) =
      (t1\<lparr>ts_nodes := ts_nodes t1 @ replicate (length Q) tie_node_default, ts_words := ts_words t1 @ words_of es,
        ts_starts := ts_starts t1 @ span_starts es, ts_kids := ts_kids t1 @ span_kids es\<rparr>, (queue @ new) @ Q)"
      "spans_grow run words lo depth c (length (ts_nodes t1)) es Q" by blast
    let ?es = "(words ! a, lo + a, lo + c, kid) # es" and ?Q = "new @ Q"
    have "tie_edges run words lo depth a t queue =
      (t\<lparr>ts_nodes := ts_nodes t @ replicate (length ?Q) tie_node_default, ts_words := ts_words t @ words_of ?es,
        ts_starts := ts_starts t @ span_starts ?es, ts_kids := ts_kids t @ span_kids ?es\<rparr>, queue @ ?Q)"
      unfolding step ih(1)
      by (simp add: t1_def push_edge_def words_of_def span_starts_def span_kids_def replicate_add)
    moreover have "spans_grow run words lo depth a (length (ts_nodes t)) ?es ?Q"
    proof -
      note g = ih(2) [unfolded spans_grow_def]
      have nodes: "length (ts_nodes t1) = length (ts_nodes t) + length new" by (simp add: t1_def push_edge_def)
      have less: "words ! a < w" if "w \<in> set (words_of es)" for w using g c(4) that by (meson less_le_trans)
      have here: "words ! (b - lo) = words ! a" if "lo + a \<le> b" "b < lo + c" for b using c(3) [of "b - lo"] that by simp
      have new_in: "lo + a + 2 \<le> lo + c \<and> k = length (ts_nodes t) \<and> s = lo + a \<and> e = lo + c \<and> tie_splits (run ! a) (run ! (c - 1)) = Some p"
        if "(k, p, s, e, dp) \<in> set new" for k p s e dp
        using that c(1) by (auto simp: new_def split_def split: option.splits if_splits)
      have kid_ok: "edge_kid_ok run lo depth ?Q (words ! a, lo + a, lo + c, kid)"
        using c(1) by (auto simp: edge_kid_ok_def kid_def new_def split_def split: option.splits)
      have "edge_kid_ok run lo depth ?Q x" if "edge_kid_ok run lo depth Q x" for x
        using that by (auto simp: edge_kid_ok_def)
      then have kids: "\<forall>x\<in>set ?es. edge_kid_ok run lo depth ?Q x" using kid_ok g by auto
      have room: "task_room new + 1 \<le> c - a" using c(1) by (auto simp: task_room_def new_def split_def split: option.splits)
      have fst_new: "map fst new = [length (ts_nodes t)..<length (ts_nodes t) + length new]"
        by (auto simp: new_def split: option.splits)
      have tasks: "s + 2 \<le> e \<and> lo + a \<le> s \<and> e \<le> lo + length words \<and> tie_splits (run ! (s - lo)) (run ! (e - 1 - lo)) = Some p"
        if "(k, p, s, e, dp) \<in> set ?Q" for k p s e dp
      proof (cases "(k, p, s, e, dp) \<in> set new")
        case True
        then show ?thesis using new_in c(2) by fastforce
      next
        case False
        then have "(k, p, s, e, dp) \<in> set Q" using that by simp
        then have "s + 2 \<le> e \<and> lo + c \<le> s \<and> e \<le> lo + length words \<and> tie_splits (run ! (s - lo)) (run ! (e - 1 - lo)) = Some p"
          using g by blast
        then show ?thesis using c(1) by simp
      qed
      show ?thesis
        unfolding spans_grow_def
      proof (intro conjI)
        show "chained (lo + a) (lo + length words) ?es" using g c(1) by simp
        show "sorted_wrt (<) (words_of ?es)" using g less by (auto simp: words_of_def)
        show "\<forall>w\<in>set (words_of ?es). a < length words \<and> words ! a \<le> w" using True less by (auto simp: words_of_def intro: less_imp_le)
        show "\<forall>w s e k b. (w, s, e, k) \<in> set ?es \<and> s \<le> b \<and> b < e \<longrightarrow> words ! (b - lo) = w" using g here by auto
        show "map fst ?Q = [length (ts_nodes t)..<length (ts_nodes t) + length ?Q]"
          using g fst_new nodes upt_add_eq_append [of "length (ts_nodes t)" "length (ts_nodes t) + length new" "length Q"] by (simp add: add.assoc)
        have "task_room Q + length es \<le> length words - c" using g by blast
        then show "task_room ?Q + length ?es \<le> length words - a" using room c(1,2) by (simp add: task_room_append)
      qed (use kids tasks in blast)+
    qed
    ultimately show ?thesis by blast
  qed
qed

subsection \<open>Growing the tries\<close>

text \<open>What a node's number was given to: the prefix its heads share and the blocks it covers.\<close>

type_synonym tie_range = "nat \<times> nat \<times> nat"

definition range_ok :: "bytes list \<Rightarrow> tie_range \<Rightarrow> bool" where
  "range_ok hs r \<longleftrightarrow> (case r of (p, lo, hi) \<Rightarrow> lo + 2 \<le> hi \<and> hi \<le> length hs \<and> p = lcp (hs ! lo) (hs ! (hi - 1)) \<and>
    sample_at (hs ! lo) p \<noteq> sample_at (hs ! (hi - 1)) p)"

definition kid_in :: "tie_range list \<Rightarrow> tie_range \<Rightarrow> tie_span \<Rightarrow> bool" where
  "kid_in rg r x \<longleftrightarrow> (case r of (p, lo, hi) \<Rightarrow> case x of (w, s, e, k) \<Rightarrow> k = LEAF \<and> e = Suc s \<or> k = FLAT \<or>
    (k \<noteq> LEAF \<and> k \<noteq> FLAT \<and> k < length rg \<and> e - s < hi - lo \<and> (\<exists>p'. rg ! k = (p', s, e))))"

definition node_done :: "ties \<Rightarrow> bytes list \<Rightarrow> tie_range list \<Rightarrow> nat \<Rightarrow> bool" where
  "node_done t hs rg i \<longleftrightarrow> (case rg ! i of (p, lo, hi) \<Rightarrow> \<exists>es. node_at t i p lo hi es \<and> spans_hold hs p es \<and> (\<forall>x\<in>set es. kid_in rg (rg ! i) x))"

lemma range_shares:
  assumes "sorted hs" "range_ok hs (p, lo, hi)"
  shows "heads_share hs p lo hi"
proof -
  define xs where "xs = take (hi - lo) (drop lo hs)"
  have r: "lo + 2 \<le> hi" "hi \<le> length hs" "p = lcp (hs ! lo) (hs ! (hi - 1))" using assms(2) by (simp_all add: range_ok_def)
  have len: "length xs = hi - lo" using r by (simp add: xs_def)
  have nth: "xs ! j = hs ! (lo + j)" if "j < hi - lo" for j using that r by (simp add: xs_def)
  have ne: "xs \<noteq> []" using len r by auto
  have ends: "hd xs = hs ! lo" "last xs = hs ! (hi - 1)"
    using nth [of 0] nth [of "hi - lo - 1"] r len by (simp_all add: hd_conv_nth [OF ne] last_conv_nth [OF ne])
  have srt: "sorted xs" using assms(1) by (simp add: xs_def sorted_wrt_take sorted_wrt_drop)
  have "p \<le> length (hs ! b) \<and> take p (hs ! b) = take p (hs ! lo)" if "lo \<le> b" "b < hi" for b
  proof -
    have "xs ! (b - lo) \<in> set xs" using that len by simp
    then have mem: "hs ! b \<in> set xs" using nth [of "b - lo"] that by simp
    show ?thesis using common_head_shared [OF srt mem, of p] r(3) ends by simp
  qed
  then show ?thesis unfolding heads_share_def by blast
qed

lemma share_lcp: "take p a = take p b \<Longrightarrow> p \<le> length a \<Longrightarrow> p \<le> length b \<Longrightarrow> p \<le> lcp a b"
  using less_lcp_iff [of "p - 1" a b] by (cases p) simp_all

text \<open>When every node is done, every node is a trie over its blocks.\<close>

lemma all_done_trie:
  assumes srt: "sorted hs" and rg: "\<forall>i<length rg. range_ok hs (rg ! i)" and done': "\<forall>i<length rg. node_done t hs rg i"
  shows "i < length rg \<Longrightarrow> rg ! i = (p, lo, hi) \<Longrightarrow> trie_ok t hs i p lo hi"
proof (induction "hi - lo" arbitrary: i p lo hi rule: less_induct)
  case less
  obtain es where es: "node_at t i p lo hi es" "spans_hold hs p es" "\<forall>x\<in>set es. kid_in rg (rg ! i) x"
    using done' less.prems by (auto simp: node_done_def)
  have ri: "range_ok hs (p, lo, hi)" using rg less.prems by metis
  have share: "heads_share hs p lo hi" by (rule range_shares [OF srt ri])
  have "k = LEAF \<and> e = Suc s \<or> k = FLAT \<or> k \<noteq> LEAF \<and> k \<noteq> FLAT \<and> (\<exists>p'\<ge>p. trie_ok t hs k p' s e)" if mem: "(w, s, e, k) \<in> set es" for w s e k
  proof -
    have kid: "kid_in rg (p, lo, hi) (w, s, e, k)" using es(3) mem less.prems by auto
    show ?thesis
    proof (cases "k = LEAF \<and> e = Suc s \<or> k = FLAT")
      case False
      then obtain p' where k: "k \<noteq> LEAF" "k \<noteq> FLAT" "k < length rg" "e - s < hi - lo" "rg ! k = (p', s, e)"
        using kid by (auto simp: kid_in_def)
      have rk: "range_ok hs (p', s, e)" using rg k(3,5) by metis
      have in_run: "lo \<le> s" "s < e" "e \<le> hi" using chained_in [OF _ mem] es(1) by (auto simp: node_at_def)
      have "lo \<le> e - 1" "e - 1 < hi" "s < hi" using in_run by linarith+
      then have both: "p \<le> length (hs ! s) \<and> take p (hs ! s) = take p (hs ! lo)"
        "p \<le> length (hs ! (e - 1)) \<and> take p (hs ! (e - 1)) = take p (hs ! lo)"
        using share in_run(1) unfolding heads_share_def by blast+
      have "p \<le> lcp (hs ! s) (hs ! (e - 1))" by (rule share_lcp) (simp_all only: both)
      then show ?thesis using less.hyps [OF k(4,3,5)] k(1,2) rk by (auto simp: range_ok_def)
    qed blast
  qed
  then show ?case by (intro trie_ok.node [OF es(1) share es(2)])
qed

subsection \<open>One task\<close>

lemma slice_append:
  assumes "take n (drop i xs) = ys" "length ys = n"
  shows "take n (drop i (xs @ zs)) = ys"
proof (cases "n = 0")
  case False
  have "length (take n (drop i xs)) = n" using assms by simp
  then have "i + n \<le> length xs" using False by (auto simp: min_def split: if_splits)
  then show ?thesis using assms(1) by simp
qed (use assms in simp)

lemma node_at_mono:
  assumes "node_at t j p lo hi es" "length (ts_nodes t) \<le> length (ts_nodes t')" "ts_nodes t' ! j = ts_nodes t ! j"
    "ts_words t' = ts_words t @ w" "ts_starts t' = ts_starts t @ s" "ts_kids t' = ts_kids t @ k"
  shows "node_at t' j p lo hi es"
proof -
  have len: "length (words_of es) = length es" "length (span_starts es) = length es" "length (span_kids es) = length es"
    by (simp_all add: words_of_def span_starts_def span_kids_def)
  obtain first where n: "ts_nodes t ! j = \<lparr>tn_p = p, tn_first = first, tn_count = length es, tn_hi = hi\<rparr>"
    and sl: "take (length es) (drop first (ts_words t)) = words_of es" "take (length es) (drop first (ts_starts t)) = span_starts es"
      "take (length es) (drop first (ts_kids t)) = span_kids es"
    using assms(1) by (auto simp: node_at_def)
  note slices = slice_append [OF sl(1) len(1), of w] slice_append [OF sl(2) len(2), of s] slice_append [OF sl(3) len(3), of k]
  show ?thesis
    using assms(1,2) n slices unfolding node_at_def assms(3-6) by auto
qed

definition range_of_task :: "tie_task \<Rightarrow> tie_range" where
  "range_of_task x = (case x of (k, p, s, e, dp) \<Rightarrow> (p, s, e))"

definition task_in :: "tie_range list \<Rightarrow> nat \<Rightarrow> nat \<Rightarrow> tie_task \<Rightarrow> bool" where
  "task_in rg base end x \<longleftrightarrow> (case x of (i, p, lo, hi, dp) \<Rightarrow> i < length rg \<and> rg ! i = (p, lo, hi) \<and> base \<le> lo \<and> hi \<le> end)"

definition grow_inv :: "ties \<Rightarrow> bytes list \<Rightarrow> tie_range list \<Rightarrow> nat set \<Rightarrow> bool" where
  "grow_inv t hs rg P \<longleftrightarrow> length rg = length (ts_nodes t) \<and> length (ts_starts t) = length (ts_words t) \<and>
    length (ts_kids t) = length (ts_words t) \<and> (\<forall>i<length rg. range_ok hs (rg ! i)) \<and>
    (\<forall>i<length rg. i \<in> P \<or> node_done t hs rg i)"

lemma kid_in_mono: "kid_in rg r x \<Longrightarrow> kid_in (rg @ rg') r x"
  by (auto simp: kid_in_def nth_append split: prod.splits)

lemma samples_sorted:
  assumes "sorted hs" "heads_share hs p lo hi" "hi \<le> length hs"
  shows "sorted (map (\<lambda>h. sample_at h p) (map ((!) hs) [lo..<hi]))"
  unfolding sorted_iff_nth_mono
proof (intro allI impI)
  fix i j assume ij: "i \<le> j" "j < length (map (\<lambda>h. sample_at h p) (map ((!) hs) [lo..<hi]))"
  have "lo \<le> lo + i" "lo + i < hi" "lo \<le> lo + j" "lo + j < hi" using ij by simp_all
  then have "take p (hs ! (lo + i)) = take p (hs ! (lo + j))" using assms(2) unfolding heads_share_def by metis
  moreover have "hs ! (lo + i) \<le> hs ! (lo + j)" using assms(1,3) ij by (intro sorted_nth_mono) simp_all
  ultimately show "map (\<lambda>h. sample_at h p) (map ((!) hs) [lo..<hi]) ! i \<le> map (\<lambda>h. sample_at h p) (map ((!) hs) [lo..<hi]) ! j"
    using sample_mono ij by simp
qed

lemma run_slice:
  assumes "base \<le> lo" "lo \<le> hi" "hi \<le> end"
  shows "take (hi - lo) (drop (lo - base) (map ((!) hs) [base..<end])) = map ((!) hs) [lo..<hi]"
  using assms by (intro nth_equalityI) simp_all

text \<open>The words of a node that splits are of two edges at least, and none of them covers it whole.\<close>

lemma spans_split:
  assumes sp: "spans_grow run words lo depth 0 nodes es Q" and hl: "length words = hi - lo" "lo < hi" and ne: "words ! 0 \<noteq> words ! (hi - lo - 1)"
  shows "2 \<le> length es" "(w, s, e, k) \<in> set es \<Longrightarrow> e - s < hi - lo"
proof -
  have ch: "chained lo hi es" using sp hl by (simp add: spans_grow_def)
  have word: "words ! (b - lo) = w" if "(w, s, e, k) \<in> set es" "s \<le> b" "b < e" for w s e k b
    using sp that unfolding spans_grow_def by blast
  show part: "e - s < hi - lo" if mem: "(w, s, e, k) \<in> set es" for w s e k
  proof (rule ccontr)
    assume "\<not> e - s < hi - lo"
    then have "s = lo \<and> e = hi" using chained_in [OF ch mem] by linarith
    then show False using word [OF mem, of lo] word [OF mem, of "hi - 1"] hl ne by auto
  qed
  show "2 \<le> length es"
  proof (cases es)
    case Nil
    then show ?thesis using ch hl by simp
  next
    case (Cons x es')
    obtain w s e k where x: "x = (w, s, e, k)" by (cases x)
    have "es' \<noteq> []" using part [of w s e k] ch Cons x by auto
    then show ?thesis using Cons by (cases es') simp_all
  qed
qed

lemma tie_splits_ok:
  "tie_splits h h' = Some p \<Longrightarrow> p = lcp h h' \<and> sample_at h p \<noteq> sample_at h' p"
  by (auto simp: tie_splits_def Let_def lcp_bytes_eq split: if_splits)

text \<open>A finished task leaves its node done, and its kids numbered and waiting.\<close>

lemma task_done:
  assumes inv: "grow_inv t hs rg P" and srt: "sorted hs" and task: "task_in rg base end (i, p, lo, hi, dp)" and "end": "end \<le> length hs"
    and words: "words = map (\<lambda>h. sample_at h p) run" and run: "run = map ((!) hs) [lo..<hi]"
    and sp: "spans_grow run words lo dp 0 (length (ts_nodes t)) es Q"
    and t': "t' = t\<lparr>ts_words := ts_words t @ words_of es, ts_starts := ts_starts t @ span_starts es, ts_kids := ts_kids t @ span_kids es,
        ts_nodes := (ts_nodes t @ replicate (length Q) tie_node_default)[i := \<lparr>tn_p = p, tn_first = length (ts_words t),
        tn_count = length es, tn_hi = hi\<rparr>]\<rparr>"
    and room: "length rg + (hi - lo) \<le> FLAT + 2"
  shows "grow_inv t' hs (rg @ map range_of_task Q) (set (map fst Q) \<union> (P - {i}))"
    "x \<in> set Q \<Longrightarrow> task_in (rg @ map range_of_task Q) base end x"
    "task_room Q + 2 \<le> hi - lo" "length Q \<le> task_room Q"
proof -
  let ?rg = "rg @ map range_of_task Q"
  have iv: "length rg = length (ts_nodes t)" "length (ts_starts t) = length (ts_words t)" "length (ts_kids t) = length (ts_words t)"
    "\<And>j. j < length rg \<Longrightarrow> range_ok hs (rg ! j)" "\<And>j. j < length rg \<Longrightarrow> j \<in> P \<or> node_done t hs rg j"
    using inv by (auto simp: grow_inv_def)
  have ti: "i < length rg" "rg ! i = (p, lo, hi)" "base \<le> lo" "hi \<le> end" using task by (simp_all add: task_in_def)
  have ri: "range_ok hs (p, lo, hi)" using iv(4) [OF ti(1)] ti(2) by simp
  then have lh: "lo + 2 \<le> hi" "lo < hi" "hi \<le> length hs" by (simp_all add: range_ok_def)
  have wl: "length words = hi - lo" by (simp add: words run)
  have word: "words ! (b - lo) = sample_at (hs ! b) p" if "lo \<le> b" "b < hi" for b using that by (simp add: words run)
  have runb: "run ! (b - lo) = hs ! b" if "lo \<le> b" "b < hi" for b using that by (simp add: run)
  have "words ! 0 \<noteq> words ! (hi - lo - 1)" using ri word [of lo] word [of "hi - 1"] lh by (auto simp: range_ok_def)
  note split = spans_split [OF sp wl lh(2) this]
  have ch: "chained lo hi es" and srtw: "sorted_wrt (<) (words_of es)" and kids: "\<forall>x\<in>set es. edge_kid_ok run lo dp Q x"
    and fstQ: "map fst Q = [length rg..<length rg + length Q]" and rm: "task_room Q + length es \<le> hi - lo"
    using sp wl lh(2) iv(1) by (simp_all add: spans_grow_def)
  have lohi: "lo + length words = hi" using wl lh(2) by simp
  have tasks: "s + 2 \<le> e \<and> lo \<le> s \<and> e \<le> hi \<and> tie_splits (run ! (s - lo)) (run ! (e - 1 - lo)) = Some p"
    if "(k, p, s, e, d) \<in> set Q" for k p s e d
    using sp that unfolding spans_grow_def lohi add_0_right by blast
  show room1: "task_room Q + 2 \<le> hi - lo" using rm split(1) by linarith
  show room2: "length Q \<le> task_room Q"
    using tasks unfolding task_room_def
  proof (induction Q)
    case (Cons x Q)
    obtain k p s e d where x: "x = (k, p, s, e, d)" by (cases x)
    have "s + 2 \<le> e" using Cons.prems [of k p s e d] x by simp
    then have "1 \<le> e - s - 1" by linarith
    moreover have "length Q \<le> (\<Sum>(k, p, s, e, dp)\<leftarrow>Q. e - s - 1)"
    proof (rule Cons.IH)
      fix k p s e d assume "(k, p, s, e, d) \<in> set Q"
      then have "(k, p, s, e, d) \<in> set (x # Q)" by simp
      from Cons.prems [OF this]
      show "s + 2 \<le> e \<and> lo \<le> s \<and> e \<le> hi \<and> tie_splits (run ! (s - lo)) (run ! (e - 1 - lo)) = Some p" .
    qed
    ultimately show ?case by (simp add: x)
  qed simp
  have at: "m < length Q \<Longrightarrow> fst (Q ! m) = length rg + m" for m using arg_cong [OF fstQ, of "\<lambda>xs. xs ! m"] by simp
  have found: "k < length ?rg \<and> k < FLAT \<and> ?rg ! k = (p, s, e)" if mem: "(k, p, s, e, d) \<in> set Q" for k p s e d
  proof -
    obtain m where m: "m < length Q" "Q ! m = (k, p, s, e, d)" using mem by (auto simp: in_set_conv_nth)
    then have "k = length rg + m" using at [of m] by simp
    moreover have "length rg + m < FLAT" using m(1) room room1 room2 by linarith
    ultimately show ?thesis using m by (simp add: range_of_task_def)
  qed
  show "task_in ?rg base end x" if "x \<in> set Q" for x
    using found tasks that ti(3,4) by (cases x) (fastforce simp: task_in_def)
  have newok: "range_ok hs (range_of_task x)" if "x \<in> set Q" for x
  proof -
    obtain k p s e d where x: "x = (k, p, s, e, d)" by (cases x)
    have k: "s + 2 \<le> e" "lo \<le> s" "e \<le> hi" "tie_splits (run ! (s - lo)) (run ! (e - 1 - lo)) = Some p" using tasks that x by auto
    then have "tie_splits (hs ! s) (hs ! (e - 1)) = Some p" using runb [of s] runb [of "e - 1"] by simp
    note ok = tie_splits_ok [OF this]
    have "e \<le> length hs" using k(3) lh(3) by simp
    then show ?thesis using ok k(1) unfolding x range_of_task_def range_ok_def prod.case by blast
  qed
  have node: "node_done t' hs ?rg i"
  proof -
    have len: "length (words_of es) = length es" "length (span_starts es) = length es" "length (span_kids es) = length es"
      by (simp_all add: words_of_def span_starts_def span_kids_def)
    have "node_at t' i p lo hi es"
      using ti(1) iv(1-3) split(1) ch srtw by (auto simp: node_at_def t' len)
    moreover have "spans_hold hs p es"
      unfolding spans_hold_def
    proof (intro allI impI)
      fix w s e k b assume m: "(w, s, e, k) \<in> set es \<and> s \<le> b \<and> b < e"
      then have "words ! (b - lo) = w" using sp unfolding spans_grow_def by blast
      moreover have "lo \<le> b" "b < hi" using chained_in [OF ch, of w s e k] m by auto
      ultimately show "sample_at (hs ! b) p = w" using word by simp
    qed
    moreover have "kid_in ?rg (p, lo, hi) x" if mem: "x \<in> set es" for x
    proof -
      obtain w s e k where x: "x = (w, s, e, k)" by (cases x)
      have ek: "edge_kid_ok run lo dp Q (w, s, e, k)" using kids mem x by blast
      show ?thesis
      proof (cases "k = LEAF \<and> e = Suc s \<or> k = FLAT")
        case False
        then obtain p' where "(k, p', s, e, dp + 1) \<in> set Q" using ek by (auto simp: edge_kid_ok_def)
        from found [OF this] have "k < length ?rg" "k < FLAT" "?rg ! k = (p', s, e)" by blast+
        moreover have "e - s < hi - lo" using split(2) mem x by blast
        moreover have "k \<noteq> LEAF" using calculation(2) by (simp add: LEAF_def FLAT_def)
        ultimately show ?thesis by (simp add: kid_in_def x)
      qed (auto simp: kid_in_def x)
    qed
    ultimately show ?thesis using ti(1,2) by (auto simp: node_done_def nth_append)
  qed
  have old: "node_done t' hs ?rg j" if j: "j < length rg" "j \<noteq> i" "node_done t hs rg j" for j
  proof -
    obtain p lo hi where r: "rg ! j = (p, lo, hi)" by (cases "rg ! j")
    obtain es' where es': "node_at t j p lo hi es'" "spans_hold hs p es'" "\<forall>x\<in>set es'. kid_in rg (rg ! j) x"
      using j(3) by (auto simp: node_done_def r)
    have "ts_nodes t' ! j = ts_nodes t ! j" using j iv(1) by (simp add: t' nth_append)
    then have "node_at t' j p lo hi es'" using node_at_mono [OF es'(1)] by (simp add: t')
    then show ?thesis using es'(2,3) j(1) kid_in_mono by (auto simp: node_done_def r nth_append)
  qed
  show "grow_inv t' hs ?rg (set (map fst Q) \<union> (P - {i}))"
    unfolding grow_inv_def
  proof (intro conjI allI impI)
    show "length ?rg = length (ts_nodes t')" "length (ts_starts t') = length (ts_words t')" "length (ts_kids t') = length (ts_words t')"
      using iv(1-3) by (simp_all add: t' words_of_def span_starts_def span_kids_def)
    show "range_ok hs (?rg ! j)" if "j < length ?rg" for j
      using that iv(4) newok by (simp add: nth_append)
    show "j \<in> set (map fst Q) \<union> (P - {i}) \<or> node_done t' hs ?rg j" if "j < length ?rg" for j
    proof (cases "j < length rg")
      case True
      then show ?thesis using iv(5) [OF True] node old [OF True] by auto
    next
      case False
      then show ?thesis using that fstQ by simp
    qed
  qed
qed

lemma grow_inv_mono: "grow_inv t hs rg P \<Longrightarrow> P \<subseteq> P' \<Longrightarrow> grow_inv t hs rg P'"
  unfolding grow_inv_def by blast

lemma tasks_room:
  assumes "grow_inv t hs rg P" "\<forall>x\<in>set queue. task_in rg base end x"
  shows "length queue \<le> task_room queue"
  using assms(2)
proof (induction queue)
  case (Cons x queue)
  obtain i p lo hi dp where x: "x = (i, p, lo, hi, dp)" by (cases x)
  then have "range_ok hs (p, lo, hi)" using Cons.prems assms(1) by (fastforce simp: task_in_def grow_inv_def)
  then have "1 \<le> hi - lo - 1" by (simp add: range_ok_def) linarith
  then show ?case using Cons by (simp add: task_room_def x)
qed (simp add: task_room_def)

text \<open>The queue empties, and leaves every node done that was waiting in it.\<close>

lemma tie_grow_ends:
  assumes srt: "sorted hs" and "end": "end \<le> length hs" and B: "B \<le> FLAT"
  shows "grow_inv t hs rg (set (map fst queue) \<union> P) \<Longrightarrow> \<forall>x\<in>set queue. task_in rg base end x \<Longrightarrow>
    length rg + task_room queue \<le> B + length queue \<Longrightarrow>
    \<exists>t' rg'. tie_grow base (map ((!) hs) [base..<end]) queue t = Some t' \<and> grow_inv t' hs (rg @ rg') P \<and> ts_roots t' = ts_roots t \<and>
      length (rg @ rg') \<le> B \<and> (\<forall>i<length rg. i \<notin> set (map fst queue) \<longrightarrow> ts_nodes t' ! i = ts_nodes t ! i)"
proof (induction "task_room queue" arbitrary: queue t rg rule: less_induct)
  case less
  show ?case
  proof (cases queue)
    case Nil
    then show ?thesis using less.prems by (intro exI [of _ t] exI [of _ "[]"]) (simp add: tie_grow.simps task_room_def)
  next
    case (Cons x q)
    obtain i p lo hi dp where x: "x = (i, p, lo, hi, dp)" by (cases x)
    have task: "task_in rg base end (i, p, lo, hi, dp)" and tq: "\<forall>x\<in>set q. task_in rg base end x" using less.prems(2) Cons x by simp_all
    have ti: "i < length rg" "rg ! i = (p, lo, hi)" "base \<le> lo" "hi \<le> end" using task by (simp_all add: task_in_def)
    have ri: "range_ok hs (p, lo, hi)" using less.prems(1) ti(1,2) by (metis grow_inv_def)
    then have lh: "lo + 2 \<le> hi" "lo \<le> hi" by (simp_all add: range_ok_def)
    define run where "run = map ((!) hs) [lo..<hi]"
    define words where "words = map (\<lambda>h. sample_at h p) run"
    have "hi \<le> length hs" using ti(4) "end" by simp
    then have srtw: "sorted words" unfolding words_def run_def by (rule samples_sorted [OF srt range_shares [OF srt ri]])
    obtain es Q where te: "tie_edges run words lo dp 0 t q = (t\<lparr>ts_nodes := ts_nodes t @ replicate (length Q) tie_node_default,
        ts_words := ts_words t @ words_of es, ts_starts := ts_starts t @ span_starts es, ts_kids := ts_kids t @ span_kids es\<rparr>, q @ Q)"
      and sp: "spans_grow run words lo dp 0 (length (ts_nodes t)) es Q"
      using tie_edges_grow [OF srtw le0, of run lo dp t q] by blast
    have room0: "task_room queue = (hi - lo - 1) + task_room q" by (simp add: Cons x task_room_def)
    have qr: "length q \<le> task_room q" by (rule tasks_room [OF less.prems(1) tq])
    have B1: "length rg + (hi - lo) \<le> B + 2" using less.prems(3) room0 qr lh Cons by simp
    then have room: "length rg + (hi - lo) \<le> FLAT + 2" using B by simp
    define t2 where "t2 = t\<lparr>ts_words := ts_words t @ words_of es, ts_starts := ts_starts t @ span_starts es, ts_kids := ts_kids t @ span_kids es,
        ts_nodes := (ts_nodes t @ replicate (length Q) tie_node_default)[i := \<lparr>tn_p = p, tn_first = length (ts_words t),
        tn_count = length es, tn_hi = hi\<rparr>]\<rparr>"
    note dn = task_done [OF less.prems(1) srt task "end" words_def run_def sp t2_def room]
    let ?rg = "rg @ map range_of_task Q"
    have step: "tie_grow base (map ((!) hs) [base..<end]) queue t = tie_grow base (map ((!) hs) [base..<end]) (q @ Q) t2"
      using te run_slice [OF ti(3) lh(2) ti(4), of hs]
      by (subst tie_grow.simps) (simp add: Cons x Let_def run_def [symmetric] words_def [symmetric] t2_def words_of_def)
    have inv: "grow_inv t2 hs ?rg (set (map fst (q @ Q)) \<union> P)"
      by (rule grow_inv_mono [OF dn(1)]) (auto simp: Cons x)
    have tasks: "\<forall>x\<in>set (q @ Q). task_in ?rg base end x"
      using tq dn(2) by (auto simp: task_in_def nth_append)
    have bound: "length ?rg + task_room (q @ Q) \<le> B + length (q @ Q)"
      using less.prems(3) room0 dn(3) Cons by (simp add: task_room_append)
    have small: "task_room (q @ Q) < task_room queue" using room0 dn(3) by (simp add: task_room_append)
    obtain t' rg' where ih: "tie_grow base (map ((!) hs) [base..<end]) (q @ Q) t2 = Some t'" "grow_inv t' hs (?rg @ rg') P"
      "ts_roots t' = ts_roots t2" "length (?rg @ rg') \<le> B" "\<forall>i<length ?rg. i \<notin> set (map fst (q @ Q)) \<longrightarrow> ts_nodes t' ! i = ts_nodes t2 ! i"
      using less.hyps [OF small inv tasks bound] by blast
    have "ts_nodes t' ! j = ts_nodes t ! j" if j: "j < length rg" "j \<notin> set (map fst queue)" for j
    proof -
      have "map fst Q = [length (ts_nodes t)..<length (ts_nodes t) + length Q]" and n: "length rg = length (ts_nodes t)"
        using sp less.prems(1) by (simp_all add: spans_grow_def grow_inv_def)
      then have "j \<notin> set (map fst Q)" using j(1) by simp
      then have "ts_nodes t' ! j = ts_nodes t2 ! j" using ih(5) j Cons by auto
      moreover have "j \<noteq> i" using j(2) by (auto simp: Cons x)
      ultimately show ?thesis using j(1) n by (simp add: t2_def nth_append)
    qed
    then show ?thesis using ih step
      by (intro exI [of _ t'] exI [of _ "map range_of_task Q @ rg'"]) (simp add: t2_def)
  qed
qed

subsection \<open>The roots\<close>

definition root_room :: "tie_range list \<Rightarrow> nat \<Rightarrow> nat \<Rightarrow> nat" where
  "root_room rg r n = sum_list (map (\<lambda>j. case rg ! j of (p, lo, hi) \<Rightarrow> hi - lo - 2) [r..<n])"

definition roots_wait :: "ties \<Rightarrow> tie_range list \<Rightarrow> nat \<Rightarrow> nat list \<Rightarrow> bool" where
  "roots_wait t rg r los \<longleftrightarrow> ts_roots t = los \<and> length los \<le> length rg \<and> (\<forall>j<length los. \<exists>p hi. rg ! j = (p, los ! j, hi) \<and>
    (r \<le> j \<longrightarrow> tn_p (ts_nodes t ! j) = p \<and> tn_hi (ts_nodes t ! j) = hi))"

lemma root_room_append: "n \<le> length rg \<Longrightarrow> root_room (rg @ rg') r n = root_room rg r n"
  unfolding root_room_def by (intro arg_cong [where f = sum_list] map_cong) (auto simp: nth_append)

lemma grow_roots_ends:
  assumes srt: "sorted hs"
  shows "grow_inv t hs rg {r..<length los} \<Longrightarrow> r \<le> length los \<Longrightarrow> roots_wait t rg r los \<Longrightarrow>
    length rg + root_room rg r (length los) \<le> FLAT \<Longrightarrow>
    \<exists>t' rg'. grow_roots ((!) hs) [r..<length los] t = Some t' \<and> grow_inv t' hs (rg @ rg') {} \<and> ts_roots t' = los"
proof (induction "length los - r" arbitrary: r t rg)
  case 0
  then have "r = length los" by simp
  then show ?case using 0 by (intro exI [of _ t] exI [of _ "[]"]) (simp add: roots_wait_def)
next
  case (Suc n)
  then have r: "r < length los" by simp
  obtain p hi where rp: "rg ! r = (p, los ! r, hi)" "tn_p (ts_nodes t ! r) = p" "tn_hi (ts_nodes t ! r) = hi"
    using Suc.prems(3) r by (auto simp: roots_wait_def)
  define lo where "lo = los ! r"
  have len: "length los \<le> length rg" and los: "ts_roots t = los" using Suc.prems(3) by (simp_all add: roots_wait_def)
  have "r < length rg" using r len by simp
  then have ri: "range_ok hs (p, lo, hi)" using Suc.prems(1) rp(1) by (metis grow_inv_def lo_def)
  then have lh: "lo + 2 \<le> hi" "hi \<le> length hs" by (simp_all add: range_ok_def)
  have room: "root_room rg r (length los) = (hi - lo - 2) + root_room rg (Suc r) (length los)"
    using r rp(1) by (simp add: root_room_def upt_conv_Cons lo_def)
  define B where "B = length rg + (hi - lo - 2)"
  have BF: "B \<le> FLAT" using Suc.prems(4) room by (simp add: B_def)
  define q :: "tie_task list" where "q = [(r, p, lo, hi, 1)]"
  have inv: "grow_inv t hs rg (set (map fst q) \<union> {Suc r..<length los})"
    using Suc.prems(1) by (rule grow_inv_mono) (auto simp: q_def)
  have task: "\<forall>x\<in>set q. task_in rg lo hi x" using \<open>r < length rg\<close> rp(1) by (simp add: task_in_def lo_def q_def)
  have bound: "length rg + task_room q \<le> B + length q"
    using lh(1) by (simp add: task_room_def B_def q_def)
  obtain t1 rg1 where g: "tie_grow lo (map ((!) hs) [lo..<hi]) q t = Some t1" "grow_inv t1 hs (rg @ rg1) {Suc r..<length los}"
    "ts_roots t1 = ts_roots t" "length (rg @ rg1) \<le> B" "\<forall>i<length rg. i \<notin> set (map fst q) \<longrightarrow> ts_nodes t1 ! i = ts_nodes t ! i"
    using tie_grow_ends [OF srt lh(2) BF inv task bound] by blast
  have wait: "roots_wait t1 (rg @ rg1) (Suc r) los"
    unfolding roots_wait_def
  proof (intro conjI allI impI)
    fix j assume j: "j < length los"
    obtain p hi where rj: "rg ! j = (p, los ! j, hi)" "r \<le> j \<longrightarrow> tn_p (ts_nodes t ! j) = p \<and> tn_hi (ts_nodes t ! j) = hi"
      using Suc.prems(3) j unfolding roots_wait_def by blast
    have "Suc r \<le> j \<longrightarrow> ts_nodes t1 ! j = ts_nodes t ! j" using g(5) j len by (simp add: q_def)
    then show "\<exists>p hi. (rg @ rg1) ! j = (p, los ! j, hi) \<and> (Suc r \<le> j \<longrightarrow> tn_p (ts_nodes t1 ! j) = p \<and> tn_hi (ts_nodes t1 ! j) = hi)"
      using rj j len by (intro exI [of _ p] exI [of _ hi]) (simp add: nth_append)
  qed (use g(3) los len in simp_all)
  have more: "length (rg @ rg1) + root_room (rg @ rg1) (Suc r) (length los) \<le> FLAT"
    using Suc.prems(4) g(4) room by (simp add: root_room_append [OF len] B_def)
  have n: "n = length los - Suc r" using Suc.hyps(2) by simp
  obtain t' rg' where ih: "grow_roots ((!) hs) [Suc r..<length los] t1 = Some t'" "grow_inv t' hs ((rg @ rg1) @ rg') {}" "ts_roots t' = los"
    using Suc.hyps(1) [OF n g(2) _ wait more] r by (metis Suc_leI)
  have "grow_roots ((!) hs) [r..<length los] t = Some t'"
    using g(1) ih(1) rp r los by (simp add: upt_conv_Cons Let_def lo_def q_def)
  then show ?case using ih(2,3) by (intro exI [of _ t'] exI [of _ "rg1 @ rg'"]) simp
qed

lemma tie_run_right:
  assumes "sorted samples" "tie_run samples at = Some (lo, hi)"
  shows "at \<le> lo" "lo + MIN_RUN \<le> hi" "hi \<le> length samples" "hi < length samples \<Longrightarrow> samples ! lo < samples ! hi"
proof -
  show b: "at \<le> lo" "lo + MIN_RUN \<le> hi" "hi \<le> length samples" using tie_run_bounds [OF assms(2)] by simp_all
  let ?tw = "takeWhile (\<lambda>s. s = samples ! lo) (drop (lo + MIN_RUN) samples)"
  have hi: "hi = lo + MIN_RUN + length ?tw" using assms(2) by (auto simp: tie_run_def Let_def)
  show "samples ! lo < samples ! hi" if h: "hi < length samples"
  proof -
    have "length ?tw < length (drop (lo + MIN_RUN) samples)" using h hi by simp
    from nth_length_takeWhile [OF this] have "samples ! hi \<noteq> samples ! lo" using b hi by (simp add: add.assoc)
    moreover have "samples ! lo \<le> samples ! hi" using assms(1) h b by (intro sorted_nth_mono) (simp_all add: MIN_RUN_def)
    ultimately show ?thesis by simp
  qed
qed

text \<open>Every root is a run of blocks whose heads split, and ends where its sample does.\<close>

definition root_ok :: "u64 list \<Rightarrow> bytes list \<Rightarrow> nat \<times> tie_node \<Rightarrow> bool" where
  "root_ok samples hs x \<longleftrightarrow> (case x of (lo, n) \<Rightarrow> range_ok hs (tn_p n, lo, tn_hi n) \<and> lo + MIN_RUN \<le> tn_hi n \<and>
    (tn_hi n < length samples \<longrightarrow> samples ! lo < samples ! tn_hi n))"

lemma tie_roots_ok:
  assumes "sorted samples" "length samples = length hs"
  shows "(\<forall>x\<in>set (tie_roots samples ((!) hs) at). root_ok samples hs x) \<and>
    sum_list (map (\<lambda>(lo, n). tn_hi n - lo) (tie_roots samples ((!) hs) at)) \<le> length samples - at"
  using assms
proof (induction samples "(!) hs" at rule: tie_roots.induct)
  case (1 samples at)
  show ?case
  proof (cases "tie_run samples at")
    case None
    then show ?thesis by (simp add: tie_roots.simps)
  next
    case (Some r)
    obtain lo hi where r: "tie_run samples at = Some (lo, hi)" using Some by (cases r) simp
    note b = tie_run_right [OF 1(2) r]
    have ih: "\<forall>x\<in>set (tie_roots samples ((!) hs) hi). root_ok samples hs x"
      "sum_list (map (\<lambda>(lo, n). tn_hi n - lo) (tie_roots samples ((!) hs) hi)) \<le> length samples - hi"
      using 1(1) [OF r refl 1(2,3)] by simp_all
    have "root_ok samples hs (lo, tie_node_default\<lparr>tn_p := p, tn_hi := hi\<rparr>)" if "tie_splits (hs ! lo) (hs ! (hi - 1)) = Some p" for p
      using tie_splits_ok [OF that] b 1(3) by (auto simp: root_ok_def range_ok_def MIN_RUN_def)
    then show ?thesis
      using ih b r by (subst (1 2) tie_roots.simps) (auto split: option.splits)
  qed
qed

subsection \<open>The tries derived\<close>

definition tries_over :: "u64 list \<Rightarrow> bytes list \<Rightarrow> ties \<Rightarrow> bool" where
  "tries_over samples hs t \<longleftrightarrow> (\<forall>i<length (ts_roots t). \<exists>p hi. trie_ok t hs i p (ts_roots t ! i) hi \<and>
    hi \<le> length hs \<and> (hi < length samples \<longrightarrow> samples ! (ts_roots t ! i) < samples ! hi))"

lemma roots_room:
  assumes "\<forall>x\<in>set roots. root_ok samples hs x"
  shows "sum_list (map (\<lambda>(lo, n). tn_hi n - lo - 2) roots) + 2 * length roots = sum_list (map (\<lambda>(lo, n). tn_hi n - lo) roots)"
  using assms
proof (induction roots)
  case (Cons x roots)
  obtain lo n where x: "x = (lo, n)" by (cases x)
  have "lo + 8 \<le> tn_hi n" using Cons.prems by (simp add: x root_ok_def MIN_RUN_def)
  then show ?case using Cons by (simp add: x)
qed simp

lemma ties_derive_tries:
  assumes "sorted samples" "length samples = length hs" "sorted hs"
  shows "\<exists>r. ties_derive samples ((!) hs) = Some r \<and> (\<forall>t. r = Some t \<longrightarrow> tries_over samples hs t)"
proof (cases "\<not> u32_ok (length samples) \<or> tie_roots samples ((!) hs) 0 = []")
  case True
  then show ?thesis by (auto simp: ties_derive_def Let_def)
next
  case False
  define roots where "roots = tie_roots samples ((!) hs) 0"
  have ok: "\<forall>x\<in>set roots. root_ok samples hs x" and sum: "sum_list (map (\<lambda>(lo, n). tn_hi n - lo) roots) \<le> length samples"
    using tie_roots_ok [OF assms(1,2), of 0] by (simp_all add: roots_def)
  define rg where "rg = map (\<lambda>(lo, n). (tn_p n, lo, tn_hi n)) roots"
  define t0 where "t0 = \<lparr>ts_roots = map fst roots, ts_nodes = map snd roots, ts_words = [], ts_starts = [], ts_kids = []\<rparr>"
  define los where "los = map fst roots"
  have len: "length los = length roots" "length rg = length roots" by (simp_all add: los_def rg_def)
  have nth: "rg ! j = (tn_p (snd (roots ! j)), los ! j, tn_hi (snd (roots ! j)))" if "j < length roots" for j
    using that by (simp add: rg_def los_def case_prod_unfold)
  have rok: "range_ok hs (rg ! j)" if "j < length roots" for j
    using ok nth [OF that] nth_mem [OF that] that by (fastforce simp: root_ok_def los_def)
  have inv: "grow_inv t0 hs rg {0..<length los}"
    using rok len by (simp add: grow_inv_def t0_def)
  have wait: "roots_wait t0 rg 0 los"
    using nth len by (simp add: roots_wait_def t0_def los_def)
  have "root_room rg 0 (length los) = sum_list (map (\<lambda>(lo, n). tn_hi n - lo - 2) roots)"
    unfolding root_room_def len(1)
  proof (rule arg_cong [where f = sum_list], rule nth_equalityI)
    fix j assume "j < length (map (\<lambda>j. case rg ! j of (p, lo, hi) \<Rightarrow> hi - lo - 2) [0..<length roots])"
    then have j: "j < length roots" by simp
    show "map (\<lambda>j. case rg ! j of (p, lo, hi) \<Rightarrow> hi - lo - 2) [0..<length roots] ! j = map (\<lambda>(lo, n). tn_hi n - lo - 2) roots ! j"
      using j nth [OF j] by (simp add: los_def case_prod_unfold)
  qed simp
  then have room: "root_room rg 0 (length los) + 2 * length roots \<le> length samples"
    using roots_room [OF ok] sum by linarith
  have "0 < length roots" using False by (simp add: roots_def)
  moreover have "length samples < 2 ^ 32" using False by (simp add: u32_ok_def)
  ultimately have "length rg + root_room rg 0 (length los) \<le> FLAT"
    using room unfolding FLAT_def len(2) by linarith
  from grow_roots_ends [OF assms(3) inv _ wait this] obtain t rg' where t: "grow_roots ((!) hs) [0..<length los] t0 = Some t"
    "grow_inv t hs (rg @ rg') {}" "ts_roots t = los" by blast
  have "tries_over samples hs t"
    unfolding tries_over_def t(3)
  proof (intro allI impI)
    fix i assume i: "i < length los"
    then have ir: "i < length roots" using len by simp
    have "trie_ok t hs i (tn_p (snd (roots ! i))) (los ! i) (tn_hi (snd (roots ! i)))"
      using all_done_trie [OF assms(3), of "rg @ rg'" t i] t(2) nth [OF ir] len ir by (simp add: grow_inv_def nth_append)
    moreover have "root_ok samples hs (los ! i, snd (roots ! i))" using ok nth_mem [OF ir] ir by (simp add: los_def)
    ultimately show "\<exists>p hi. trie_ok t hs i p (los ! i) hi \<and> hi \<le> length hs \<and> (hi < length samples \<longrightarrow> samples ! (los ! i) < samples ! hi)"
      by (auto simp: root_ok_def range_ok_def)
  qed
  moreover have "ties_derive samples ((!) hs) = Some (Some t)"
    using False t(1) by (simp add: ties_derive_def Let_def roots_def [symmetric] t0_def [symmetric] los_def)
  ultimately show ?thesis by blast
qed

text \<open>The tries place every probe as a search of all the heads does.\<close>

lemma tries_right:
  assumes srt: "sorted hs" and samples: "di_samples d = map (\<lambda>h. sample_at h (di_g d)) hs" "sorted (di_samples d)"
    and heads: "\<And>b. b < length hs \<Longrightarrow> di_head d b = Gives (hs ! b)" and ties: "\<And>t. di_ties d = Some t \<Longrightarrow> tries_over (di_samples d) hs t"
  shows "ties_right d hs"
  unfolding ties_right_def
proof (intro allI impI)
  fix probe
  define s where "s = sample_at probe (di_g d)"
  define lo where "lo = below s (di_samples d)"
  assume tk: "\<forall>h\<in>set hs. take (di_g d) h = take (di_g d) probe"
    and "get_at (di_samples d) (below (sample_at probe (di_g d)) (di_samples d) + MIN_RUN - 1) = Some (sample_at probe (di_g d))"
  then have run: "lo + MIN_RUN - 1 < length hs" "di_samples d ! (lo + MIN_RUN - 1) = s"
    by (simp_all add: get_at_Some_iff lo_def s_def samples(1))
  have len: "length (di_samples d) = length hs" by (simp add: samples(1))
  have lo: "lo < length hs" using run(1) by (simp add: MIN_RUN_def)
  have "\<not> di_samples d ! lo < s" using less_below_iff [OF samples(2), of lo s] lo len by (simp add: lo_def)
  moreover have "di_samples d ! lo \<le> di_samples d ! (lo + MIN_RUN - 1)" using samples(2) run(1) len by (intro sorted_nth_mono) (simp_all add: MIN_RUN_def)
  ultimately have at_lo: "di_samples d ! lo = s" using run(2) by simp
  have smp: "sample_at (hs ! b) (di_g d) = di_samples d ! b" "take (di_g d) (hs ! b) = take (di_g d) probe" if "b < length hs" for b
    using that tk by (simp_all add: samples(1))
  show "\<exists>r. tie_boundary d probe (below (sample_at probe (di_g d)) (di_samples d)) = Gives r \<and>
      (\<forall>l known. r = Some (l, known) \<longrightarrow> l = at_most probe hs \<and>
        (\<forall>m n. known = Some (m, n) \<longrightarrow> 0 < l \<and> m = lcp (hs ! (l - 1)) probe \<and> n = length (hs ! (l - 1))))"
  proof (cases "Option.bind (di_ties d) (\<lambda>t. tie_root t lo)")
    case None
    then show ?thesis by (auto simp: tie_boundary_def lo_def s_def bind_eq_None_conv split: option.splits)
  next
    case (Some i)
    then obtain t where t: "di_ties d = Some t" "tie_root t lo = Some i" by (auto simp: bind_eq_Some_conv)
    then have i: "i < length (ts_roots t)" "ts_roots t ! i = lo"
      using nth_length_takeWhile [of "\<lambda>y. y \<noteq> lo" "ts_roots t"] by (auto simp: tie_root_def search_ascending_def Let_def split: if_splits)
    obtain p hi where tr: "trie_ok t hs i p lo hi" "hi \<le> length hs" "hi < length (di_samples d) \<longrightarrow> s < di_samples d ! hi"
      using ties [OF t(1)] i at_lo unfolding tries_over_def by metis
    have whole: "bracket hs probe 0 (length hs) a c" if "bracket hs probe lo hi a c" for a c
    proof -
      have "hs ! b \<le> probe" if "b < lo" for b
      proof -
        have b: "b < length hs" using that lo by simp
        have "di_samples d ! b < s" using less_below_iff [OF samples(2), of b s] that b len by (simp add: lo_def)
        then show ?thesis using sample_less [OF smp(2) [OF b]] smp(1) [OF b] by (simp add: s_def less_imp_le)
      qed
      moreover have "probe < hs ! b" if b: "hi \<le> b" "b < length hs" for b
      proof -
        have "di_samples d ! hi \<le> di_samples d ! b" using samples(2) b len by (intro sorted_nth_mono) simp_all
        then have "s < di_samples d ! b" using tr(3) b len by auto
        then show ?thesis using sample_less [OF smp(2) [OF b(2), symmetric]] smp(1) [OF b(2)] by (simp add: s_def)
      qed
      ultimately show ?thesis using that tr(2) by (auto simp: bracket_def not_le not_less) (meson not_le)+
    qed
    have flat: "\<exists>l. head_boundary d probe a c = Gives l \<and> bracket hs probe lo hi l l" if br: "bracket hs probe lo hi a c" for a c
    proof -
      note in_range = bracket_at_most_within [OF whole [OF br] srt]
      have "c \<le> length hs" using br tr(2) by (simp add: bracket_def)
      then have hb: "head_boundary d probe a c = Gives (at_most probe hs)"
        using head_boundary_finds [OF heads srt in_range] by blast
      have "hs ! b \<le> probe" if "b < at_most probe hs" for b
        using that at_most_le [of probe hs] less_at_most_iff [OF srt, of b probe] by simp
      moreover have "probe < hs ! b" if "at_most probe hs \<le> b" "b < hi" for b
        using that tr(2) less_at_most_iff [OF srt, of b probe] by (simp add: not_le [symmetric] not_less)
      ultimately have "bracket hs probe lo hi (at_most probe hs) (at_most probe hs)"
        using br in_range unfolding bracket_def by simp
      then show ?thesis using hb by blast
    qed
    obtain l known where b: "ties_boundary t i probe (di_head d) (head_boundary d probe) = Gives (l, known)" "bracket hs probe lo hi l l"
      "\<forall>m n. known = Some (m, n) \<longrightarrow> lo < l \<and> l \<le> hi \<and> m = lcp (hs ! (l - 1)) probe \<and> n = length (hs ! (l - 1))"
      using boundary_brackets [OF tr(1), of "di_head d" probe "head_boundary d probe"] heads tr(2) flat by force
    have "l = at_most probe hs" by (rule bracket_at_most [OF whole [OF b(2)] srt])
    then show ?thesis using b(1,3) t by (auto simp: tie_boundary_def lo_def s_def)
  qed
qed

end
