(* ===== verification/Query_Facts.thy ===== *)
theory Query_Facts
  imports Locate_Facts "HOL-Library.Sublist"
begin

text \<open>
  The queries over an index of ascending keys: a rank gives its key back, and the id, bound, range,
  prefix, successor and predecessor queries answer from the keys alone.
\<close>

subsection \<open>The key at a rank\<close>

lemma climb_written:
  assumes w: "written_run dd codec code run prev ks" and n: "n \<le> length ks" and len: "\<forall>k\<in>set ks. length k < usize_bound"
  shows "climb dd codec code run (Suc (length ks)) n prev = Gives ((prev # ks) ! n)"
proof -
  define e where "e = entries_of code codec run (Suc (length ks))"
  have e: "run_of (piece_denotes dd codec) e prev ks" "en_count e = length ks" "en_reach e = 0"
    "ks \<noteq> [] \<Longrightarrow> en_is_frame e = (case code of Frame _ \<Rightarrow> True | Table _ _ \<Rightarrow> False)"
    using w by (simp_all add: written_run_def Let_def e_def)
  show ?thesis
  proof (cases "ks = []")
    case True
    then have "n = 0" using n by simp
    then show ?thesis using e(3) by (simp add: climb_def climb_as_def e_def Let_def)
  next
    case False
    have "\<forall>k\<in>set ks. length k \<le> usize_max" using len by (auto simp: usize_max_def)
    then show ?thesis using coded.climb_key [OF e_def e(1) e(4) [OF False] n] n e(2) by simp
  qed
qed

lemma key_bytes_into_gives:
  assumes ok: "index_ok d keys"
  shows "key_bytes_into d i = (if i < length keys then Gives (keys ! i) else Refuses)"
proof (cases "i < length keys")
  case False
  then show ?thesis using index_basics(2) [OF ok] by (simp add: key_bytes_into_def)
next
  case True
  note B = index_basics [OF ok]
  define b off j steps where "b = i div di_block d" and "off = i mod di_block d" and "j = off div di_micro d" and "steps = off mod di_micro d"
  have b: "b < length (chunks (di_block d) keys)" using less_length_chunks [OF B(3) True] by (simp add: b_def)
  define bk cs where "bk = chunks (di_block d) keys ! b" and "cs = chunks (di_micro d) bk"
  note sz = index_sizes [OF ok b bk_def]
  have bi: "b * di_block d + off = i" by (simp add: b_def off_def)
  have off: "off < length bk" using nth_chunk(1,2) [OF B(3) b] True B(3) bi by (simp add: bk_def off_def less_diff_conv2)
  have j: "j < length cs" using less_length_chunks [OF B(4) off] by (simp add: j_def cs_def)
  have jo: "j * di_micro d + steps = off" by (simp add: j_def steps_def)
  have st: "steps < length (cs ! j)" using nth_chunk(1,2) [OF B(4), of j bk] j off B(4) jo by (simp add: cs_def steps_def)
  have cj: "cs ! j ! steps = keys ! i"
    using nth_chunk(3) [OF B(4), of j bk steps] j st nth_chunk(3) [OF B(3) b, of off] off jo bi by (simp add: cs_def bk_def)
  have sub: "set bk \<subseteq> set keys" "set (cs ! j) \<subseteq> set bk"
    using nth_chunks [OF B(3) b] nth_chunks [OF B(4), of j bk] j
    by (simp_all add: bk_def cs_def) (meson in_set_dropD in_set_takeD subsetI)+
  obtain base r where w: "di_head d b = Gives (hd bk)" "offsets_at (di_blocks d) b = Gives base" "restart_data_at d b base = Gives r"
    "written_run (di_phrases d) (codec_of d b) (snd (codes_of_block d b)) r (hd bk) (map hd (tl cs))"
    "\<And>j. j < length cs \<Longrightarrow> \<exists>m. micro_data_at d b j base = Gives m \<and>
      written_run (di_phrases d) (codec_of d b) (fst (codes_of_block d b)) m (hd (cs ! j)) (tl (cs ! j))"
    using B(8) [OF b] by (auto simp: block_written_def Let_def cs_def bk_def)
  have cs: "cs \<noteq> []" using j by auto
  have heads: "map hd cs = hd bk # map hd (tl cs)" using cs B(4) by (cases cs) (auto simp: cs_def chunks.simps hd_take split: if_splits)
  have hlen: "\<forall>k\<in>set (map hd (tl cs)). length k < usize_bound"
    using index_restart_bound [OF ok b bk_def] unfolding cs_def [symmetric] heads by simp
  have mi: "micros_in d b = Suc (length (map hd (tl cs)))" using sz(2) cs by (simp add: cs_def)
  have up: "(if j > 0 then climb (di_phrases d) (codec_of d b) (snd (codes_of_block d b)) r (micros_in d b) j (hd bk) else Gives (hd bk)) = Gives (hd (cs ! j))"
  proof -
    have "climb (di_phrases d) (codec_of d b) (snd (codes_of_block d b)) r (micros_in d b) j (hd bk) = Gives (map hd cs ! j)"
      unfolding mi heads by (rule climb_written [OF w(4) _ hlen]) (use j in simp)
    moreover have "j = 0 \<Longrightarrow> hd bk = map hd cs ! j" by (simp add: heads)
    ultimately show ?thesis using j cs by auto
  qed
  obtain m where m: "micro_data_at d b j base = Gives m"
    "written_run (di_phrases d) (codec_of d b) (fst (codes_of_block d b)) m (hd (cs ! j)) (tl (cs ! j))" using w(5) [OF j] by blast
  have cj_eq: "cs ! j = hd (cs ! j) # tl (cs ! j)" using st by (cases "cs ! j") auto
  have mc: "micro_count d b j = Suc (length (tl (cs ! j)))" using sz(3) [of j] j st by (simp add: cs_def)
  have tlen: "\<forall>k\<in>set (tl (cs ! j)). length k < usize_bound"
    using sub B(6) by (metis list.set_sel(2) st subsetD less_zeroE list.size(3))
  have "climb (di_phrases d) (codec_of d b) (fst (codes_of_block d b)) m (micro_count d b j) steps (hd (cs ! j)) = Gives (cs ! j ! steps)"
    unfolding mc
    by (subst cj_eq, rule climb_written [OF m(2) _ tlen]) (use st in simp)
  then show ?thesis
    using True B(2) w(1-3) m(1) up cj
    by (cases "0 < j") (simp_all add: key_bytes_into_def restart_data_def micro_data_def Let_def b_def [symmetric] off_def [symmetric] j_def [symmetric] steps_def [symmetric])
qed

subsection \<open>Ranks\<close>

lemma less_below: "sorted_wrt (<) keys \<Longrightarrow> i < below p keys \<longleftrightarrow> i < length keys \<and> keys ! i < p"
  using less_below_iff [OF strict_sorted_imp_sorted, of keys i p] below_le [of p keys] by auto

lemma below_card: "sorted_wrt (<) keys \<Longrightarrow> below hi keys - below lo keys = card {i. i < length keys \<and> lo \<le> keys ! i \<and> keys ! i < hi}"
proof -
  assume s: "sorted_wrt (<) keys"
  have "{i. i < length keys \<and> lo \<le> keys ! i \<and> keys ! i < hi} = {below lo keys..<below hi keys}"
    using less_below [OF s] by (auto simp: not_less [symmetric] simp del: not_less)
  then show ?thesis by simp
qed

lemma below_nth: "sorted_wrt (<) keys \<Longrightarrow> i < length keys \<Longrightarrow> below (keys ! i) keys = i"
proof -
  assume s: "sorted_wrt (<) keys" and i: "i < length keys"
  have "j < below (keys ! i) keys \<longleftrightarrow> j < i" for j
    using less_below [OF s] i s sorted_wrt_nth_less [OF s, of j i] sorted_wrt_nth_less [OF s, of i j] by (auto simp: not_less) (metis less_asym linorder_neqE_nat order_less_irrefl)
  then show ?thesis by (metis less_irrefl linorder_neqE_nat)
qed

subsection \<open>Prefixes\<close>

lemma between_prefix: "q @ x \<le> k \<Longrightarrow> k < q @ y \<Longrightarrow> \<exists>r. k = q @ r" for q k :: bytes
proof (induction q arbitrary: k)
  case (Cons a q)
  then show ?case by (cases k) auto
qed simp

lemma byte_next: "b \<noteq> 255 \<Longrightarrow> r < b + 1 \<longleftrightarrow> r \<le> b" for b r :: u8
proof -
  assume b: "b \<noteq> 255"
  have "unat b \<noteq> 255"
  proof
    assume "unat b = 255"
    then have "unat b = unat (255 :: u8)" by simp
    then show False using b by (simp only: word_unat_eq_iff)
  qed
  then have "unat b + 1 < 256" using unat_u8_less [of b] by linarith
  then have "unat (b + 1) = unat b + 1" by (simp add: unat_word_ariths)
  then show ?thesis by (simp add: word_less_nat_alt word_le_nat_alt less_Suc_eq_le)
qed

lemma last_below: "(255 :: u8) \<le> x \<longleftrightarrow> x = 255"
proof -
  have "255 \<le> unat x \<longleftrightarrow> unat x = 255" using unat_u8_less [of x] by linarith
  then show ?thesis by (simp add: word_le_nat_alt word_unat_eq_iff)
qed

text \<open>The first key past a prefix, and no such key for bytes of \<open>0xff\<close> only.\<close>

lemma not_extend_le: "\<not> p @ [b] \<le> p" for p :: bytes
  using lex_append_left(2) [of p "[b]" "[]"] by simp

lemma carry_bounds:
  "(case carry (rev p) of None \<Rightarrow> True | Some u \<Rightarrow> k < u) \<and> p \<le> k \<longleftrightarrow> prefix p k"
proof (induction p arbitrary: k rule: rev_induct)
  case (snoc b p)
  show ?case
  proof (cases "b = 255")
    case True
    have "p @ [255] \<le> k \<longleftrightarrow> p \<le> k \<and> p @ [255] \<le> k" by (meson lex_prefix_le order_trans)
    moreover have "p @ [255] \<le> k \<longleftrightarrow> prefix (p @ [255]) k" if pk: "prefix p k"
    proof -
      obtain r where k: "k = p @ r" using pk by (rule prefixE)
      show ?thesis
        using last_below [of "hd r"] by (cases r) (auto simp: k not_extend_le less_imp_le)
    qed
    moreover have "prefix (p @ [255]) k \<Longrightarrow> prefix p k" by (rule append_prefixD)
    ultimately show ?thesis using snoc [of k] True by auto
  next
    case False
    have "k < p @ [b + 1] \<and> p @ [b] \<le> k \<longleftrightarrow> prefix (p @ [b]) k"
    proof
      assume a: "k < p @ [b + 1] \<and> p @ [b] \<le> k"
      then obtain r where k: "k = p @ r" using between_prefix [of p "[b]" k "[b + 1]"] by blast
      show "prefix (p @ [b]) k" using a False by (cases r) (auto simp: k byte_next not_extend_le)
    next
      assume "prefix (p @ [b]) k"
      then obtain r where "k = p @ b # r" by (auto simp: prefix_def)
      then show "k < p @ [b + 1] \<and> p @ [b] \<le> k" using byte_next [OF False, of b] by simp
    qed
    then show ?thesis using False by simp
  qed
qed simp

lemma prefix_range:
  assumes s: "sorted_wrt (<) keys" and e: "e = (case carry (rev p) of None \<Rightarrow> length keys | Some u \<Rightarrow> below u keys)"
  shows "{below p keys..<e} = {i. i < length keys \<and> prefix p (keys ! i)}"
proof -
  have a: "i < e \<longleftrightarrow> i < length keys \<and> (case carry (rev p) of None \<Rightarrow> True | Some u \<Rightarrow> keys ! i < u)" for i
    by (cases "carry (rev p)") (simp_all add: e less_below [OF s])
  have b: "below p keys \<le> i \<longleftrightarrow> p \<le> keys ! i" if "i < length keys" for i
    using less_below [OF s, of i p] that by (simp add: not_less [symmetric])
  have "below p keys \<le> i \<and> i < e \<longleftrightarrow> i < length keys \<and> prefix p (keys ! i)" for i
    using a [of i] b [of i] carry_bounds [where p = p and k = "keys ! i"] by blast
  then show ?thesis by (simp add: set_eq_iff)
qed

subsection \<open>The queries of an index\<close>

lemma index_queries:
  assumes ok: "index_ok d keys"
  shows "di_id d k = Gives (if k \<in> set keys then Some (below k keys) else None)"
    "di_contains d k = Gives (k \<in> set keys)"
    "lower_bound d k = Gives (below k keys)"
    "range_count d lo hi = Gives (card {i. i < length keys \<and> lo \<le> keys ! i \<and> keys ! i < hi})"
    "successor d k = Gives (if below k keys < length keys then Some (keys ! below k keys, below k keys) else None)"
    "predecessor d k = Gives (if at_most k keys = 0 then None else Some (keys ! (at_most k keys - 1), at_most k keys - 1))"
proof -
  note B = index_basics [OF ok] and lf = locate_finds [OF ok] and kb = key_bytes_into_gives [OF ok]
  show "di_id d k = Gives (if k \<in> set keys then Some (below k keys) else None)" by (simp add: di_id_def lf located_def)
  show "di_contains d k = Gives (k \<in> set keys)" by (simp add: di_contains_def lf located_def)
  show lb: "lower_bound d k = Gives (below k keys)" for k by (simp add: lower_bound_def lf located_def)
  show "range_count d lo hi = Gives (card {i. i < length keys \<and> lo \<le> keys ! i \<and> keys ! i < hi})"
    by (simp add: range_count_def lb below_card [OF B(1)])
  show "successor d k = Gives (if below k keys < length keys then Some (keys ! below k keys, below k keys) else None)"
    by (simp add: successor_def lf located_def kb)
  have am: "at_most k keys = (if k \<in> set keys then Suc (below k keys) else below k keys)"
    using below_at_most [OF B(1), of k] less_at_most_iff [OF strict_sorted_imp_sorted [OF B(1)], of _ k]
    by (auto simp: in_set_conv_nth) (metis Suc_pred gr0I less_zeroE order_refl)
  have "below k keys < length keys" if "k \<in> set keys"
    using am that at_most_le [of k keys] by simp
  then show "predecessor d k = Gives (if at_most k keys = 0 then None else Some (keys ! (at_most k keys - 1), at_most k keys - 1))"
    using below_le [of k keys] by (auto simp: predecessor_def lf located_def kb am Let_def)
qed

lemma index_prefixes:
  assumes ok: "index_ok d keys"
  obtains s e where "prefix_id_range d p = Gives (s, e)" "s \<le> e" "{s..<e} = {i. i < length keys \<and> prefix p (keys ! i)}"
    "prefix_count d p = Gives (card {i. i < length keys \<and> prefix p (keys ! i)})"
proof -
  note B = index_basics [OF ok]
  define e where "e = (case carry (rev p) of None \<Rightarrow> length keys | Some u \<Rightarrow> below u keys)"
  have r: "prefix_id_range d p = Gives (below p keys, max e (below p keys))"
    using B(2) by (simp add: prefix_id_range_def locate_finds [OF ok] located_def index_queries(3) [OF ok] e_def split: option.splits)
  have "{below p keys..<max e (below p keys)} = {below p keys..<e}" by auto
  then have i: "{below p keys..<max e (below p keys)} = {i. i < length keys \<and> prefix p (keys ! i)}"
    using prefix_range [OF B(1) e_def] by simp
  show thesis using that [OF r _ i] by (simp add: prefix_count_def r i [symmetric])
qed

end
