(* ===== verification/Dict_Build.thy ===== *)
theory Dict_Build
  imports Tie_Build Query_Facts Fsst_Theorems
begin

text \<open>
  A built index is a well-formed one: the parts encoded range by range and joined, the samples, the
  common head and the tries derived over the heads satisfy all a lookup asks of an index.
\<close>

lemma held_by_ties [simp]: "held_by (d\<lparr>di_ties := t\<rparr>) keys BS pt = held_by d keys BS pt"
  by (simp add: held_by_def reads_part_def index_shape_def blocks_len_def shard_of_def)

lemma heads_of_ties [simp]: "heads_of (d\<lparr>di_ties := t\<rparr>) keys = heads_of d keys"
  by (simp add: heads_of_def)

lemma heads_map: "map ((!) xs) [0..<length xs] = xs"
  by (rule map_nth)

lemma heads_read:
  assumes "held_by d keys BS pt"
  shows "map_outcome (di_head d) [0..<blocks_len d] = Gives (heads_of d keys)"
proof -
  note B = held_basics [OF assms]
  have "map_outcome (di_head d) [0..<blocks_len d] = Gives (map (\<lambda>b. heads_of d keys ! b) [0..<blocks_len d])"
    using B(5) by (intro map_outcome_Gives) (simp add: head_reads [OF assms] heads_of_def)
  then show ?thesis using B(5) heads_map [of "heads_of d keys"] by (simp add: heads_of_def)
qed

lemma head_gives:
  assumes "held_by d keys BS pt" "b < length (heads_of d keys)"
  shows "di_head d b = Gives (heads_of d keys ! b)"
  using assms(2) by (simp add: head_reads [OF assms(1)] heads_of_def)

lemma heads_samples_sorted:
  assumes "sorted hs" "\<forall>h\<in>set hs. take g h = take g (hd hs)"
  shows "sorted (map (\<lambda>h. sample_at h g) hs)"
  using assms(1) unfolding sorted_map
  by (rule sorted_wrt_mono_rel [rotated]) (metis assms(2) sample_mono)

text \<open>The index with its tries is one whose every query is right.\<close>

lemma with_ties_ok:
  assumes h: "held_by d keys BS pt" and srt: "sorted_wrt (<) keys" and g: "di_g d = common_head_raw (pt_heads pt) (pt_head_ends pt)"
    and samples: "di_samples d = map (\<lambda>h. sample_at h (di_g d)) (heads_of d keys)" and route: "di_mroute d = None"
  shows "\<exists>t. with_ties d = Gives (d\<lparr>di_ties := t\<rparr>) \<and> index_ok (d\<lparr>di_ties := t\<rparr>) keys"
proof -
  note B = held_basics [OF h]
  let ?hs = "heads_of d keys"
  have hs: "sorted ?hs" using chunk_heads_sorted [OF srt B(3)] by (simp add: heads_of_def strict_sorted_imp_sorted)
  have parts: "pt_heads pt = concat ?hs" "pt_head_ends pt = ends_from 0 ?hs" using B(2) by (simp_all add: part_holds_def heads_of_def)
  have shared: "di_g d \<le> length x \<and> take (di_g d) x = take (di_g d) (hd ?hs)" if "x \<in> set ?hs" for x
  proof -
    have ne: "?hs \<noteq> []" using that by auto
    have "di_g d \<le> lcp (hd ?hs) (last ?hs)" by (simp add: g parts common_head_of_heads [OF ne])
    from common_head_shared [OF hs that this] show ?thesis by simp
  qed
  have ss: "sorted (di_samples d)" unfolding samples by (rule heads_samples_sorted [OF hs]) (use shared in blast)
  obtain t where t: "ties_derive (di_samples d) ((!) ?hs) = Some t" "\<And>t'. t = Some t' \<Longrightarrow> tries_over (di_samples d) ?hs t'"
    using ties_derive_tries [OF ss _ hs] by (auto simp: samples)
  let ?d = "d\<lparr>di_ties := t\<rparr>"
  have "with_ties d = Gives ?d" by (simp add: with_ties_def heads_read [OF h] t(1))
  moreover have held: "held_by ?d keys BS pt" using h by simp
  have "ties_right ?d ?hs"
  proof (rule tries_right [OF hs])
    show "di_samples ?d = map (\<lambda>h. sample_at h (di_g ?d)) ?hs" using samples by simp
    show "di_head ?d b = Gives (?hs ! b)" if "b < length ?hs" for b using head_gives [OF held] that by simp
  qed (use ss t(2) in simp_all)
  then have "index_ok ?d keys"
    using samples shared route by (intro held_index_ok [OF held srt]) simp_all
  ultimately show ?thesis by blast
qed

text \<open>A build from a vocabulary never fails, whatever the tables, the sizes and the threads.\<close>

lemma vocabulary_builds:
  assumes srt: "sorted_wrt (<) keys" and room: "run_room keys < 2 ^ 56" and sizes: "0 < block" "0 < micro" "0 < threads"
    and tables: "tables \<noteq> []" "\<forall>t\<in>set tables. table_wf t"
  shows "\<exists>d. from_vocabulary keys block micro threads tables = Gives d \<and> index_ok d keys \<and> di_block d = block \<and> di_micro d = micro"
proof -
  obtain pt BS where pt: "encode_parts keys block micro threads tables = Gives pt"
    "part_holds (dict_of []) micro (shard_blocks_for block) (chunks block keys) BS pt"
    using encode_parts_holds [OF tables sizes room_keys_small [OF room]] by blast
  obtain d where d: "index_of_part (length keys) block micro tables pt = Gives d" "held_by d keys BS pt" "di_block d = block" "di_micro d = micro"
    "di_samples d = map (\<lambda>h. sample_at h (di_g d)) (heads_of d keys)" "di_g d = common_head_raw (pt_heads pt) (pt_head_ends pt)" "di_mroute d = None"
    using index_of_part_held [OF pt(2) sizes(1,2) room tables(1) refl] by metis
  obtain t where "with_ties d = Gives (d\<lparr>di_ties := t\<rparr>)" "index_ok (d\<lparr>di_ties := t\<rparr>) keys"
    using with_ties_ok [OF d(2) srt d(6,5,7)] by blast
  then show ?thesis using pt(1) d(1,3,4) sizes by (auto simp: from_vocabulary_def)
qed

subsection \<open>Training the tables\<close>

lemma train_one_gives: "\<exists>t. train_one sample = Gives t \<and> table_wf t"
proof -
  have "trained MAX_SYMBOLS empty_table" by (simp add: trained_def table_wf_def empty_table_def all_reached_def)
  from train_rounds_trained [OF this, of ROUNDS sample] show ?thesis by (auto simp: train_one_def train_def train_to_def trained_def)
qed

definition table_of_sample :: "bytes list \<Rightarrow> fsst_table" where
  "table_of_sample sample = (case train_one sample of Gives t \<Rightarrow> t | _ \<Rightarrow> the_table)"

lemma train_one_eq: "train_one sample = Gives (table_of_sample sample)" and table_of_sample_wf: "table_wf (table_of_sample sample)"
  using train_one_gives [of sample] by (auto simp: table_of_sample_def)

text \<open>However the samples are shared out among threads, the tables are those of the samples in order.\<close>

lemma train_shards_gives:
  assumes "0 < threads"
  shows "train_shards samples threads = Gives (map table_of_sample samples)"
proof -
  have one: "map_outcome train_one ss = Gives (map table_of_sample ss)" for ss
    by (rule map_outcome_Gives) (rule train_one_eq)
  have many: "map_outcome (map_outcome train_one) css = Gives (map (map table_of_sample) css)" for css
    by (rule map_outcome_Gives) (rule one)
  show ?thesis
  proof (cases "samples = []")
    case True
    then show ?thesis by (simp add: train_shards_def chunks.simps)
  next
    case False
    then have "0 < div_ceil (length samples) threads" using assms by (simp add: div_ceil_pos)
    then show ?thesis by (simp add: train_shards_def one many map_concat [symmetric] concat_of_chunks)
  qed
qed

lemma build_pieces_ne [simp]: "build_pieces keys block micro dense \<noteq> []"
  by (simp add: build_pieces_def Let_def)

lemma train_threads_pos: "0 < train_threads threads"
  by (simp add: train_threads_def clamp_def)

end
