(* ===== verification/Tally_Facts.thy ===== *)
theory Tally_Facts
  imports Build_Entry Dict_Build
begin

text \<open>
  What a build decides before it encodes does not depend on its threads: the byte counts and the tally of
  the character code are those of all the keys however they are ranged over the threads, and so is the
  decision to mine.
\<close>

subsection \<open>The byte counts\<close>

definition byte_total :: "bytes list \<Rightarrow> nat" where
  "byte_total keys = sum_list (map length keys)"

definition high_total :: "bytes list \<Rightarrow> nat" where
  "high_total keys = sum_list (map (\<lambda>k. length (filter is_high k)) keys)"

lemma totals_simps [simp]:
  "byte_total [] = 0" "byte_total (k # ks) = length k + byte_total ks" "byte_total (ks @ ls) = byte_total ks + byte_total ls"
  "high_total [] = 0" "high_total (k # ks) = length (filter is_high k) + high_total ks" "high_total (ks @ ls) = high_total ks + high_total ls"
  by (simp_all add: byte_total_def high_total_def)

lemma fold_counts: "fold (\<lambda>k (b, h). (b + of_nat (length k), h + high_bytes k)) ks (b, h) = (b + of_nat (byte_total ks), h + of_nat (high_total ks))"
  by (induction ks arbitrary: b h) (simp_all add: high_bytes_counts add.assoc)

text \<open>However the keys are ranged over the threads, the ranges are the keys in order.\<close>

lemma ranges_parts:
  obtains kss where "concat kss = keys" "\<And>f. in_ranges keys threads f = map f kss"
proof (cases "threads \<le> 1 \<or> length keys \<le> 1")
  case True
  then show thesis using that [of "[keys]"] by (simp add: in_ranges_def)
next
  case False
  then have "0 < div_ceil (length keys) threads" by (intro div_ceil_pos) auto
  then show thesis using False that [of "chunks (div_ceil (length keys) threads) keys"] by (simp add: in_ranges_def concat_of_chunks)
qed

lemma fold_totals:
  "fold (\<lambda>(rb, rh) (b, h). (b + rb, h + rh)) (map (\<lambda>ks. (of_nat (byte_total ks), of_nat (high_total ks))) kss) (b, h) =
    (b + of_nat (byte_total (concat kss)), h + of_nat (high_total (concat kss)) :: u64)"
  by (induction kss arbitrary: b h) (simp_all add: add.assoc)

lemma code_counts_total: "code_counts keys threads = (of_nat (byte_total keys), of_nat (high_total keys))"
proof -
  obtain kss where "concat kss = keys" "\<And>f :: bytes list \<Rightarrow> u64 \<times> u64. in_ranges keys threads f = map f kss" using ranges_parts [of keys threads] by metis
  then show ?thesis using fold_totals [of kss 0 0] by (simp add: code_counts_def fold_counts)
qed

lemma high_le_bytes: "high_total keys \<le> byte_total keys"
  by (induction keys) (simp_all add: add_mono)

lemma bytes_room: "10 * byte_total keys \<le> run_room keys"
  by (induction keys) simp_all

lemma worth_counting_iff:
  assumes "run_room keys < 2 ^ 56"
  shows "(case code_counts keys threads of (b, h) \<Rightarrow> worth_counting b h) \<longleftrightarrow> 4 * byte_total keys \<le> 30 * high_total keys"
proof -
  have b: "byte_total keys < 2 ^ 56" "high_total keys < 2 ^ 56" using assms bytes_room [of keys] high_le_bytes [of keys] by linarith+
  have "unat (of_nat (high_total keys) * 30 :: u64) = 30 * high_total keys" "unat (of_nat (byte_total keys) * 4 :: u64) = 4 * byte_total keys"
    using b unat_of_nat_small [of "30 * high_total keys"] unat_of_nat_small [of "4 * byte_total keys"] by (simp_all add: unat_word_ariths unat_of_nat mult.commute)
  then show ?thesis by (simp add: code_counts_total worth_counting_def word_le_nat_alt)
qed

subsection \<open>The tally\<close>

definition page_of :: "nat list \<Rightarrow> nat \<Rightarrow> u64 list option" where
  "page_of cs p = (if \<exists>c\<in>set cs. c div 256 = p then Some (map (\<lambda>i. of_nat (count_list cs (256 * p + i))) [0..<256]) else None)"

definition tally_of :: "bytes list \<Rightarrow> char_tally" where
  "tally_of keys = \<lparr>ty_bytes = of_nat (byte_total keys), ty_pages = map (page_of (concat (map chars_of keys))) [0..<PAGES]\<rparr>"

lemma pages_new: "map (page_of []) [0..<PAGES] = replicate PAGES None"
proof -
  have "page_of [] = (\<lambda>p. None)" by (simp add: page_of_def fun_eq_iff)
  then show ?thesis by (simp add: map_replicate_const)
qed

lemma tally_new_of: "tally_new = tally_of []"
  by (simp add: tally_new_def tally_of_def pages_new)

text \<open>A page's counts, whether the page was met or not.\<close>

definition page_counts :: "nat list \<Rightarrow> nat \<Rightarrow> u64 list" where
  "page_counts cs p = map (\<lambda>i. of_nat (count_list cs (256 * p + i))) [0..<256]"

lemma page_of_counts: "(case page_of cs p of None \<Rightarrow> replicate 256 0 | Some q \<Rightarrow> q) = page_counts cs p"
proof (cases "\<exists>c\<in>set cs. c div 256 = p")
  case False
  then have "count_list cs (256 * p + i) = 0" if "i < 256" for i
    using that by (intro count_notin) auto
  then show ?thesis using False by (auto simp: page_of_def page_counts_def intro: nth_equalityI)
qed (simp add: page_of_def page_counts_def)

lemma page_counts_snoc: "(page_counts cs p)[c mod 256 := page_counts cs p ! (c mod 256) + 1] = page_counts (cs @ [c]) p" if "p = c div 256"
proof (rule nth_equalityI)
  fix i assume "i < length ((page_counts cs p)[c mod 256 := page_counts cs p ! (c mod 256) + 1])"
  then have i: "i < 256" by (simp add: page_counts_def)
  have "c = 256 * p + c mod 256" unfolding that by simp
  then have "c = 256 * p + i \<longleftrightarrow> c mod 256 = i" by linarith
  then show "(page_counts cs p)[c mod 256 := page_counts cs p ! (c mod 256) + 1] ! i = page_counts (cs @ [c]) p ! i"
    using i by (auto simp: page_counts_def nth_list_update)
qed (simp add: page_counts_def)

lemma count_char_page: "count_char c (map (page_of cs) [0..<PAGES]) = map (page_of (cs @ [c])) [0..<PAGES]"
proof (rule nth_equalityI)
  fix p assume "p < length (count_char c (map (page_of cs) [0..<PAGES]))"
  then have p: "p < PAGES" by (simp add: count_char_def Let_def)
  show "count_char c (map (page_of cs) [0..<PAGES]) ! p = map (page_of (cs @ [c])) [0..<PAGES] ! p"
  proof (cases "p = c div 256")
    case True
    then have "count_char c (map (page_of cs) [0..<PAGES]) ! p = Some (page_counts (cs @ [c]) p)"
      using p page_of_counts [of cs p] page_counts_snoc [of p c cs] by (simp add: count_char_def Let_def)
    then show ?thesis using p True by (simp add: page_of_def page_counts_def)
  next
    case False
    have "256 * p + i \<noteq> c" if "i < 256" for i using that False by auto
    then have "page_of (cs @ [c]) p = page_of cs p" using False by (auto simp: page_of_def)
    then show ?thesis using p False by (simp add: count_char_def Let_def)
  qed
qed (simp add: count_char_def Let_def)

lemma tally_add_of: "tally_add k (tally_of keys) = tally_of (keys @ [k])"
proof -
  have "fold count_char ds (map (page_of cs) [0..<PAGES]) = map (page_of (cs @ ds)) [0..<PAGES]" for cs ds
    by (induction ds arbitrary: cs) (simp_all add: count_char_page del: map_map)
  then show ?thesis by (simp add: tally_add_def tally_of_def del: map_map)
qed

lemma tally_adds: "fold tally_add ks (tally_of keys) = tally_of (keys @ ks)"
  by (induction ks arbitrary: keys) (simp_all add: tally_add_of)

lemma page_merge: "merge_page (page_of as p, page_of bs p) = page_of (as @ bs) p"
proof -
  have none: "page_counts cs p = replicate 256 0" if "\<not> (\<exists>c\<in>set cs. c div 256 = p)" for cs
    using page_of_counts [of cs p] that by (simp add: page_of_def)
  have sum: "page_counts (as @ bs) p = map2 (+) (page_counts as p) (page_counts bs p)"
    by (intro nth_equalityI) (simp_all add: page_counts_def)
  have zero: "map2 (+) xs (replicate 256 0) = xs" "map2 (+) (replicate 256 0) xs = xs" if "length xs = 256" for xs :: "u64 list"
    using that by (auto intro: nth_equalityI)
  have len: "length (page_counts cs p) = 256" for cs by (simp add: page_counts_def)
  show ?thesis
    unfolding page_of_def page_counts_def [symmetric] using sum none [of as] none [of bs] zero len
    by (auto simp: merge_page_def)
qed

lemma tally_merge_of: "tally_merge (tally_of bs) (tally_of as) = tally_of (as @ bs)"
proof -
  have "map merge_page (zip (map f [0..<PAGES]) (map g [0..<PAGES])) = map (\<lambda>p. merge_page (f p, g p)) [0..<PAGES]" for f g
    by (intro nth_equalityI) simp_all
  then show ?thesis by (simp add: tally_merge_def tally_of_def page_merge)
qed

text \<open>Whatever the threads, the code is chosen over the tally of all the keys.\<close>

lemma choose_code_tally:
  "choose_code keys threads = (if worth_counting (of_nat (byte_total keys)) (of_nat (high_total keys)) then tally_choose (tally_of keys) else None)"
proof -
  have t: "fold tally_add ks tally_new = tally_of ks" for ks using tally_adds [of ks "[]"] by (simp add: tally_new_of)
  have m: "fold tally_merge (map tally_of kss) (tally_of ks) = tally_of (ks @ concat kss)" for kss ks
    by (induction kss arbitrary: ks) (simp_all add: tally_merge_of)
  obtain kss where "concat kss = keys" "in_ranges keys threads tally_of = map tally_of kss" using ranges_parts by metis
  then have "fold tally_merge (in_ranges keys threads tally_of) tally_new = tally_of keys"
    using m [of kss "[]"] by (simp add: tally_new_of)
  then show ?thesis by (simp add: choose_code_def code_counts_total t)
qed

text \<open>No code is taken up over no keys, nor over keys of which under four thirtieths of the bytes are past ASCII.\<close>

lemma choose_code_ascii:
  assumes "run_room keys < 2 ^ 56" "30 * high_total keys < 4 * byte_total keys \<or> byte_total keys = 0"
  shows "choose_code keys threads = None"
proof (cases "byte_total keys = 0")
  case True
  then have "concat (map chars_of keys) = []" by (induction keys) simp_all
  then have pages: "ty_pages (tally_of keys) = replicate PAGES None" by (simp add: tally_of_def pages_new del: concat_eq_Nil_conv)
  have "concat (map page_chars (enumerate a (replicate n None))) = []" for a n
    by (induction n arbitrary: a) (simp_all add: page_chars_def)
  then have "tally_choose (tally_of keys) = None"
    unfolding tally_choose_def choose_for_def pages Let_def by simp
  then show ?thesis by (simp add: choose_code_tally)
next
  case False
  then have "\<not> worth_counting (of_nat (byte_total keys)) (of_nat (high_total keys))"
    using worth_counting_iff [OF assms(1)] assms(2) by (simp add: code_counts_total)
  then show ?thesis by (simp add: choose_code_tally)
qed

end
