(* ===== verification/Sort_Facts.thy ===== *)
theory Sort_Facts
  imports Sort Build_Facts "HOL-Library.Multiset"
begin

text \<open>
  The sort of a build is a sort: however the keys are cut into ranges and merged at splitters, the
  result is the sorted list, and without its duplicates the sorted list of the distinct keys.
\<close>

subsection \<open>Ascending already\<close>

lemma range_ascends_iff: "range_ascends prev ks \<longleftrightarrow> sorted_wrt (<) ((case prev of None \<Rightarrow> [] | Some p \<Rightarrow> [p]) @ ks)"
proof (induction ks arbitrary: prev)
  case (Cons k ks)
  then show ?case by (cases prev) (auto intro: less_trans)
qed (simp split: option.split)

lemma less_div_ceil_iff: "0 < n \<Longrightarrow> k < div_ceil a n \<longleftrightarrow> k * n < a"
  using div_ceil_le_iff [of n a k] by linarith

lemma list_all_ranges:
  "list_all P (in_ranges keys threads f) \<longleftrightarrow> (if threads \<le> 1 \<or> length keys \<le> 1 then P (f keys)
    else \<forall>c\<in>set (chunks (div_ceil (length keys) threads) keys). P (f c))"
  by (simp add: in_ranges_def list_all_iff)

lemma chunk_at:
  assumes "0 < n" "i < length xs"
  shows "i div n < length (chunks n xs)" "chunks n xs ! (i div n) ! (i mod n) = xs ! i"
    "Suc (i mod n) < n \<Longrightarrow> Suc i < length xs \<Longrightarrow> Suc (i mod n) < length (chunks n xs ! (i div n)) \<and> chunks n xs ! (i div n) ! Suc (i mod n) = xs ! Suc i"
proof -
  have "i div n * n \<le> i" by simp
  then show j: "i div n < length (chunks n xs)" using assms by (simp add: length_chunks less_div_ceil_iff del: div_times_less_eq_dividend)
  have at: "drop (i div n * n) xs ! m = xs ! (i div n * n + m)" for m
    by (rule nth_drop) (use \<open>i div n * n \<le> i\<close> assms(2) in linarith)
  show "chunks n xs ! (i div n) ! (i mod n) = xs ! i"
    using assms at [of "i mod n"] unfolding nth_chunks [OF assms(1) j] by simp
  show "Suc (i mod n) < length (chunks n xs ! (i div n)) \<and> chunks n xs ! (i div n) ! Suc (i mod n) = xs ! Suc i" if s: "Suc (i mod n) < n" "Suc i < length xs"
  proof -
    have e: "i div n * n + Suc (i mod n) = Suc i" by simp
    then have "Suc (i mod n) < length xs - i div n * n" using s(2) by linarith
    then show ?thesis using s at [of "Suc (i mod n)", unfolded e] unfolding nth_chunks [OF assms(1) j] by simp
  qed
qed

lemma sorted_wrt_nth_SucI: "(\<And>i. Suc i < length xs \<Longrightarrow> xs ! i < xs ! Suc i) \<Longrightarrow> sorted_wrt (<) xs" for xs :: "'a::linorder list"
  by (simp add: sorted_wrt_iff_nth_Suc_transp)

text \<open>Ranges that ascend, each from above the one before it, are keys that ascend.\<close>

lemma strictly_ascending_iff: "strictly_ascending keys threads \<longleftrightarrow> sorted_wrt (<) keys"
proof
  assume s: "sorted_wrt (<) keys"
  define size where "size = max (div_ceil (length keys) (max threads 1)) 1"
  have "range_ascends None c" if "c \<in> set (chunks n keys)" "0 < n" for c n
    using that s chunk_sorted [of keys n] by (auto simp: range_ascends_iff in_set_conv_nth)
  moreover have "0 < div_ceil (length keys) threads" if "\<not> (threads \<le> 1 \<or> length keys \<le> 1)"
    using that by (cases keys) (auto simp: less_div_ceil_iff)
  ultimately have "list_all (\<lambda>above. above) (in_ranges keys threads (range_ascends None))"
    using s by (auto simp: list_all_ranges range_ascends_iff [of None keys])
  moreover have "keys ! (size + k * size - 1) < keys ! (size + k * size)" if "k < div_ceil (length keys - size) size" for k
  proof -
    have "0 < size" by (simp add: size_def)
    moreover from this have "size + k * size < length keys" using that by (simp add: less_div_ceil_iff)
    ultimately show ?thesis using s by (intro sorted_wrt_nth_less [OF s]) simp_all
  qed
  ultimately show "strictly_ascending keys threads"
    unfolding strictly_ascending_def Let_def size_def [symmetric] by (simp add: list_all_iff)
next
  assume a: "strictly_ascending keys threads"
  show "sorted_wrt (<) keys"
  proof (cases "threads \<le> 1 \<or> length keys \<le> 1")
    case True
    then show ?thesis using a by (simp add: strictly_ascending_def Let_def list_all_ranges range_ascends_iff)
  next
    case False
    define size where "size = div_ceil (length keys) threads"
    have pos: "0 < size" using False by (cases keys) (auto simp: size_def less_div_ceil_iff)
    moreover have "max threads 1 = threads" using False by simp
    ultimately have size: "0 < size" "max (div_ceil (length keys) (max threads 1)) 1 = size" by (simp_all add: size_def)
    have "list_all (\<lambda>above. above) (in_ranges keys threads (range_ascends None))" using a by (simp add: strictly_ascending_def Let_def)
    then have c: "\<And>c. c \<in> set (chunks size keys) \<Longrightarrow> sorted_wrt (<) c"
      using False by (simp add: list_all_ranges range_ascends_iff size_def)
    have e: "keys ! (size + k * size - 1) < keys ! (size + k * size)" if "k < div_ceil (length keys - size) size" for k
      using a that unfolding strictly_ascending_def Let_def size(2) by (simp add: list_all_iff)
    show ?thesis
    proof (rule sorted_wrt_nth_SucI)
      fix i assume i: "Suc i < length keys"
      show "keys ! i < keys ! Suc i"
      proof (cases "Suc (i mod size) < size")
        case True
        have "sorted_wrt (<) (chunks size keys ! (i div size))" by (rule c, rule nth_mem, rule chunk_at(1)) (use i size in simp_all)
        then show ?thesis using chunk_at(2,3) [OF size(1), of i keys] True i sorted_wrt_nth_less by fastforce
      next
        case False
        moreover have "i mod size < size" using size by simp
        ultimately have m: "i mod size = size - 1" by linarith
        define k where "k = i div size"
        have "i = k * size + (size - 1)" using m div_mult_mod_eq [of i size] by (simp add: k_def)
        then have k: "size + k * size = Suc i" using size by simp
        have "k < div_ceil (length keys - size) size"
          using i k size(1) by (simp add: less_div_ceil_iff)
        from e [OF this] show ?thesis using k by simp
      qed
    qed
  qed
qed

subsection \<open>Dropping duplicates\<close>

lemma remdups_adj_snoc:
  "remdups_adj (xs @ [y]) = (if xs \<noteq> [] \<and> last xs = y then remdups_adj xs else remdups_adj xs @ [y])"
  by (induction xs rule: remdups_adj.induct) auto

text \<open>The prefix kept is what is left of the keys passed; the keys to come are where they were.\<close>

definition dedup_inv :: "bytes list \<Rightarrow> nat \<Rightarrow> nat \<Rightarrow> bytes list \<Rightarrow> bool" where
  "dedup_inv orig i kept keys \<longleftrightarrow> mset keys = mset orig \<and> kept \<le> i \<and> i \<le> length orig \<and> take kept keys = remdups_adj (take i orig) \<and>
    drop i keys = drop i orig \<and> sorted (take i orig)"

lemma mset_swap_at: "i < length xs \<Longrightarrow> j < length xs \<Longrightarrow> mset (swap i j xs) = mset xs"
  by (simp add: swap_def mset_swap)

lemma dedup_loop_ends:
  "dedup_inv orig i kept keys \<Longrightarrow> dedup_loop i kept keys = (b, keys') \<Longrightarrow>
    mset keys' = mset orig \<and> \<not> b \<and> \<not> sorted orig \<or> b \<and> sorted orig \<and> keys' = remdups_adj orig"
proof (induction i kept keys rule: dedup_loop.induct)
  case (1 i kept keys)
  note inv = 1(3) [unfolded dedup_inv_def]
  have len: "length keys = length orig" using inv by (metis mset_eq_length)
  show ?case
  proof (cases "i < length keys")
    case False
    then have "i = length orig" using inv len by simp
    moreover have "dedup_loop i kept keys = (True, take kept keys)" using False by (simp add: dedup_loop.simps [of i])
    ultimately show ?thesis using 1(4) inv by simp
  next
    case True
    then have i: "i < length orig" "keys ! i = orig ! i"
      using len inv hd_drop_conv_nth [of i keys] hd_drop_conv_nth [of i orig] by simp_all
    have next': "take (Suc i) orig = take i orig @ [orig ! i]" using i by (simp add: take_Suc_conv_app_nth)
    have rest: "drop (Suc i) keys = drop (Suc i) orig" using inv by (metis drop_drop add.commute plus_1_eq_Suc)
    have kept: "kept > 0 \<longleftrightarrow> take i orig \<noteq> []" "kept > 0 \<Longrightarrow> keys ! (kept - 1) = last (take i orig)"
    proof -
      have "kept \<le> i" using inv by simp
      then have lk: "length (take kept keys) = kept" using True by simp
      then show k: "kept > 0 \<longleftrightarrow> take i orig \<noteq> []" using inv by (metis length_greater_0_conv remdups_adj_Nil_iff)
      assume "kept > 0"
      moreover from this have "last (take kept keys) = keys ! (kept - 1)" using lk by (subst last_conv_nth) auto
      moreover have "last (remdups_adj (take i orig)) = last (take i orig)" by (rule last_remdups_adj)
      ultimately show "keys ! (kept - 1) = last (take i orig)" using inv by metis
    qed
    have srt: "sorted (take (Suc i) orig) \<longleftrightarrow> take i orig = [] \<or> last (take i orig) \<le> orig ! i"
      using inv unfolding next' sorted_append
      by (cases "take i orig" rule: rev_cases) (auto simp: sorted_append intro: order_trans)
    consider "kept > 0" "keys ! i < keys ! (kept - 1)" | "kept > 0" "keys ! i = keys ! (kept - 1)"
      | "kept = 0 \<or> keys ! (kept - 1) < keys ! i" by fastforce
    then show ?thesis
    proof cases
      case 1
      then have "dedup_loop i kept keys = (False, keys)" using True by (simp add: dedup_loop.simps [of i])
      moreover have "\<not> sorted (take (Suc i) orig)" using 1 kept srt i by auto
      then have "\<not> sorted orig" using sorted_wrt_take by blast
      ultimately show ?thesis using \<open>dedup_loop i kept keys = (b, keys')\<close> inv by simp
    next
      case 2
      then have "dedup_loop i kept keys = dedup_loop (i + 1) kept keys" using True by (simp add: dedup_loop.simps [of i])
      moreover have "dedup_inv orig (i + 1) kept keys"
        unfolding dedup_inv_def using inv 2 kept i srt rest next' by (simp add: remdups_adj_snoc)
      ultimately show ?thesis using 1(1) True 2 1(4) by simp
    next
      case 3
      let ?keys = "if kept \<noteq> i then swap kept i keys else keys"
      have e: "dedup_loop i kept keys = dedup_loop (i + 1) (kept + 1) ?keys" using 3 True by (subst dedup_loop.simps) auto
      have "take (Suc kept) ?keys = take kept keys @ [keys ! i]"
        using True inv by (auto simp: swap_def take_Suc_conv_app_nth nth_list_update)
      moreover have "remdups_adj (take (Suc i) orig) = remdups_adj (take i orig) @ [orig ! i]"
        unfolding next' using 3 kept i by (auto simp: remdups_adj_snoc)
      moreover have "drop (Suc i) ?keys = drop (Suc i) keys" using inv by (auto simp: swap_def)
      moreover have "mset ?keys = mset keys" using True inv by (auto simp: mset_swap_at)
      ultimately have "dedup_inv orig (i + 1) (kept + 1) ?keys"
        unfolding dedup_inv_def using inv 3 kept i srt rest by auto
      moreover have "\<not> (kept > 0 \<and> keys ! i < keys ! (kept - 1))" "\<not> (kept > 0 \<and> keys ! i = keys ! (kept - 1))" using 3 by auto
      ultimately show ?thesis using 1(2) [OF True] 1(4) unfolding e by blast
    qed
  qed
qed

lemma dedup_ascending_ends:
  "dedup_ascending keys = (b, keys') \<Longrightarrow>
    mset keys' = mset keys \<and> \<not> b \<and> \<not> sorted keys \<or> b \<and> sorted keys \<and> keys' = remdups_adj keys"
  using dedup_loop_ends [of keys 0 0 keys b keys'] by (simp add: dedup_ascending_def dedup_inv_def)

subsection \<open>Merging\<close>

lemma heap_top_None [simp]: "heap_top xs = None \<longleftrightarrow> xs = []"
  by (cases xs) (auto split: option.splits)

lemma heap_top_Some: "heap_top xs = Some x \<Longrightarrow> x \<in> set xs \<and> (\<forall>y\<in>set xs. fst x \<le> fst y)"
proof (induction xs arbitrary: x)
  case (Cons a xs)
  show ?case
  proof (cases "heap_top xs")
    case None
    then show ?thesis using Cons.prems by simp
  next
    case (Some y)
    then show ?thesis using Cons.IH [OF Some] Cons.prems by (force split: if_splits)
  qed
qed simp

text \<open>What is left of each part, and the heads of what is left.\<close>

definition merge_inv :: "bytes list list \<Rightarrow> nat list \<Rightarrow> (bytes \<times> nat) list \<Rightarrow> bytes list list \<Rightarrow> bool" where
  "merge_inv parts next' heads rest \<longleftrightarrow> length rest = length parts \<and> length next' = length parts \<and> distinct heads \<and>
    set heads = {(hd (rest ! r), r) |r. r < length rest \<and> rest ! r \<noteq> []} \<and>
    (\<forall>r<length rest. sorted (rest ! r) \<and> (rest ! r \<noteq> [] \<longrightarrow> drop (next' ! r) (parts ! r) = tl (rest ! r)))"

lemma get_at_drop: "get_at xs n = (case drop n xs of [] \<Rightarrow> None | x # _ \<Rightarrow> Some x)"
  by (auto simp: get_at_def Cons_nth_drop_Suc [symmetric])

lemma drop_next: "drop n xs = x # ys \<Longrightarrow> drop (Suc n) xs = ys"
  by (metis drop_Suc list.sel(3) tl_drop)

lemma mset_concat_pop:
  "r < length rest \<Longrightarrow> rest ! r = k # ks \<Longrightarrow> mset (concat rest) = add_mset k (mset (concat (rest[r := ks])))"
proof (induction rest arbitrary: r)
  case (Cons a rest)
  then show ?case by (cases r) auto
qed simp

lemma merge_slots_sorts:
  assumes "merge_inv parts next' heads rest" "slots = length (concat rest)"
  shows "merge_slots parts slots next' heads = Gives (sort (concat rest))"
  using assms
proof (induction slots arbitrary: next' heads rest)
  case 0
  then have "concat rest = []" by (metis length_0_conv)
  then show ?case by (simp only: merge_slots.simps(1) sort_key_simps(1))
next
  case (Suc slots)
  note inv = Suc.prems(1) [unfolded merge_inv_def]
  have hs: "set heads = {(hd (rest ! r), r) |r. r < length rest \<and> rest ! r \<noteq> []}" using inv by blast
  have "concat rest \<noteq> []" using Suc.prems(2) by (metis length_0_conv nat.distinct(1))
  then obtain r0 where "r0 < length rest" "rest ! r0 \<noteq> []" by (auto simp: in_set_conv_nth)
  then have "heads \<noteq> []" using hs by auto
  then obtain key r where top: "heap_top heads = Some (key, r)" by (cases "heap_top heads") auto
  note t = heap_top_Some [OF top]
  obtain ks where r: "r < length rest" "rest ! r = key # ks" using t hs by (auto simp: neq_Nil_conv)
  have srt: "\<And>q. q < length rest \<Longrightarrow> sorted (rest ! q)" and nxt: "drop (next' ! r) (parts ! r) = ks"
    using inv r by auto
  have least: "key \<le> x" if "x \<in> set (concat rest)" for x
  proof -
    obtain l where "l \<in> set rest" "x \<in> set l" using \<open>x \<in> set (concat rest)\<close> by auto
    then obtain q where q: "q < length rest" "x \<in> set (rest ! q)" by (auto simp: in_set_conv_nth [of l])
    then obtain h hs' where h: "rest ! q = h # hs'" by (cases "rest ! q") auto
    then have "(h, q) \<in> set heads" using q hs by force
    then have "key \<le> h" using t by fastforce
    moreover have "h \<le> x" using srt [OF q(1)] q(2) h by auto
    ultimately show ?thesis by simp
  qed
  define rest' where "rest' = rest[r := ks]"
  have m: "mset (concat rest) = add_mset key (mset (concat rest'))" using mset_concat_pop [OF r] by (simp add: rest'_def)
  have "sort (concat rest) = key # sort (concat rest')"
  proof (rule properties_for_sort)
    have "set (concat rest') \<subseteq> set (concat rest)" using m by (metis set_mset_mset set_mset_add_mset_insert subset_insertI)
    then show "sorted (key # sort (concat rest'))" using least by auto
  qed (simp add: m)
  moreover have len: "slots = length (concat rest')"
  proof -
    have "size (mset (concat rest)) = Suc (size (mset (concat rest')))" unfolding m by simp
    then show ?thesis using Suc.prems(2) by (simp del: length_concat)
  qed
  have at: "rest' ! q = (if q = r then ks else rest ! q)" if "q < length rest" for q using that by (simp add: rest'_def)
  have sks: "sorted ks" using srt [OF r(1)] r(2) by simp
  have kept: "set (remove1 (key, r) heads) = {(hd (rest' ! q), q) |q. q < length rest' \<and> rest' ! q \<noteq> [] \<and> q \<noteq> r}"
  proof -
    have "set (remove1 (key, r) heads) = set heads - {(key, r)}" using inv by (simp add: set_remove1_eq)
    also have "\<dots> = {(hd (rest ! q), q) |q. q < length rest \<and> rest ! q \<noteq> [] \<and> q \<noteq> r}" using r by (auto simp: hs)
    also have "\<dots> = {(hd (rest' ! q), q) |q. q < length rest' \<and> rest' ! q \<noteq> [] \<and> q \<noteq> r}"
      unfolding rest'_def by (rule Collect_cong) auto
    finally show ?thesis .
  qed
  have step: "(case get_at (parts ! r) (next' ! r) of
           Some k \<Rightarrow> merge_slots parts slots (next'[r := next' ! r + 1]) ((k, r) # remove1 (key, r) heads)
         | None \<Rightarrow> merge_slots parts slots next' (remove1 (key, r) heads)) = Gives (sort (concat rest'))"
  proof (cases ks)
    case Nil
    have "merge_inv parts next' (remove1 (key, r) heads) rest'"
      unfolding merge_inv_def
    proof (intro conjI allI impI)
      show "set (remove1 (key, r) heads) = {(hd (rest' ! q), q) |q. q < length rest' \<and> rest' ! q \<noteq> []}"
        unfolding kept using at r Nil by (auto simp: rest'_def)
    qed (use inv at sks Nil in \<open>auto simp: rest'_def nth_list_update\<close>)
    from Suc.IH [OF this len] show ?thesis using nxt Nil by (simp add: get_at_drop)
  next
    case (Cons k ks')
    have "merge_inv parts (next'[r := next' ! r + 1]) ((k, r) # remove1 (key, r) heads) rest'"
      unfolding merge_inv_def
    proof (intro conjI allI impI)
      show "set ((k, r) # remove1 (key, r) heads) = {(hd (rest' ! q), q) |q. q < length rest' \<and> rest' ! q \<noteq> []}"
        using at r Cons by (auto simp: kept) (auto simp: rest'_def)
      show "distinct ((k, r) # remove1 (key, r) heads)" using inv kept by auto
      fix q assume q: "q < length rest'"
      show "sorted (rest' ! q)" using srt sks at q by (auto simp: rest'_def)
      show "drop (next'[r := next' ! r + 1] ! q) (parts ! q) = tl (rest' ! q)" if "rest' ! q \<noteq> []"
        using that inv at q r Cons drop_next [OF nxt [unfolded Cons]] by (cases "q = r") (auto simp: rest'_def)
    qed (use inv in \<open>auto simp: rest'_def\<close>)
    from Suc.IH [OF this len] show ?thesis using nxt Cons by (simp add: get_at_drop)
  qed
  ultimately show ?case using top by simp
qed

lemma merge_into_sorts:
  assumes "\<forall>p\<in>set parts. sorted p"
  shows "merge_into parts (sum_list (map length parts)) = Gives (sort (concat parts))"
proof -
  define hds where "hds = (\<lambda>n ps. concat (map (\<lambda>(r, p). case p of [] \<Rightarrow> [] | k # _ \<Rightarrow> [(k, r)]) (enumerate n ps)) :: (bytes \<times> nat) list)"
  have simps: "hds n [] = []" "hds n (p # ps) = (if p = [] then [] else [(hd p, n)]) @ hds (Suc n) ps" for n p ps
    by (simp_all add: hds_def split: list.split)
  have dist: "distinct (hds n ps) \<and> (\<forall>x\<in>set (hds n ps). n \<le> snd x)" for n ps
  proof (induction ps arbitrary: n)
    case (Cons p ps)
    have "distinct (hds (Suc n) ps)" "\<forall>x\<in>set (hds (Suc n) ps). Suc n \<le> snd x" using Cons [of "Suc n"] by simp_all
    then show ?case by (auto simp: simps)
  qed (simp add: simps)
  have mem: "x \<in> set (hds 0 parts) \<longleftrightarrow> (\<exists>r. x = (hd (parts ! r), r) \<and> r < length parts \<and> parts ! r \<noteq> [])" for x
  proof
    assume "x \<in> set (hds 0 parts)"
    then obtain r p where "(r, p) \<in> set (enumerate 0 parts)" "x \<in> set (case p of [] \<Rightarrow> [] | k # _ \<Rightarrow> [(k, r)])" by (auto simp: hds_def)
    then show "\<exists>r. x = (hd (parts ! r), r) \<and> r < length parts \<and> parts ! r \<noteq> []"
      by (intro exI [of _ r]) (cases p, auto simp: in_set_enumerate_eq)
  next
    assume "\<exists>r. x = (hd (parts ! r), r) \<and> r < length parts \<and> parts ! r \<noteq> []"
    then obtain r where r: "x = (hd (parts ! r), r)" "r < length parts" "parts ! r \<noteq> []" by blast
    then have "(r, parts ! r) \<in> set (enumerate 0 parts)" by (simp add: in_set_enumerate_eq)
    moreover have "x \<in> set (case parts ! r of [] \<Rightarrow> [] | k # _ \<Rightarrow> [(k, r)])" using r by (cases "parts ! r") simp_all
    ultimately show "x \<in> set (hds 0 parts)" unfolding hds_def set_concat set_map by blast
  qed
  have "set (hds 0 parts) = {(hd (parts ! r), r) |r. r < length parts \<and> parts ! r \<noteq> []}"
    using mem by blast
  then have "merge_inv parts (replicate (length parts) 1) (hds 0 parts) parts"
    using dist [of 0 parts] assms unfolding merge_inv_def by (simp add: drop_Suc)
  from merge_slots_sorts [OF this] show ?thesis by (simp add: merge_into_def length_concat hds_def)
qed

subsection \<open>Cutting at splitters\<close>

definition run_slice :: "bytes list \<Rightarrow> nat \<Rightarrow> bytes list \<Rightarrow> bytes list" where
  "run_slice ss j r = take (run_cuts ss r ! (j + 1) - run_cuts ss r ! j) (drop (run_cuts ss r ! j) r)"

lemma cuts_nth:
  "run_cuts ss r ! 0 = 0" "j < length ss \<Longrightarrow> run_cuts ss r ! Suc j = below (ss ! j) r" "run_cuts ss r ! Suc (length ss) = length r"
  by (simp_all add: run_cuts_def nth_append partition_point_def below_def)

lemma below_mono: "p \<le> q \<Longrightarrow> below p xs \<le> below q xs"
  by (induction xs) auto

lemma cuts_mono:
  assumes "sorted ss" "j \<le> length ss"
  shows "run_cuts ss r ! j \<le> run_cuts ss r ! Suc j" "run_cuts ss r ! j \<le> length r"
proof -
  show "run_cuts ss r ! j \<le> length r" using assms(2) below_le by (cases j) (simp_all add: cuts_nth)
  then show "run_cuts ss r ! j \<le> run_cuts ss r ! Suc j"
  proof (cases "j = length ss")
    case False
    then show ?thesis using assms by (cases j) (simp_all add: cuts_nth below_mono sorted_nth_mono)
  qed (simp add: cuts_nth)
qed

text \<open>A run is its slices, end to end; a slice's keys lie between its splitters.\<close>

lemma slices_run:
  assumes "sorted ss"
  shows "j \<le> Suc (length ss) \<Longrightarrow> concat (map (\<lambda>j. run_slice ss j r) [0..<j]) = take (run_cuts ss r ! j) r"
proof (induction j)
  case (Suc j)
  then have "run_cuts ss r ! j \<le> run_cuts ss r ! Suc j" using cuts_mono(1) [OF assms, of j r] by simp
  then have "take (run_cuts ss r ! j) r @ run_slice ss j r = take (run_cuts ss r ! Suc j) r"
    using take_add [of "run_cuts ss r ! j" "run_cuts ss r ! Suc j - run_cuts ss r ! j" r] by (simp add: run_slice_def)
  then show ?case using Suc by simp
qed (simp add: cuts_nth)

lemma slice_between:
  assumes "sorted ss" "sorted r" "x \<in> set (run_slice ss j r)"
  shows "0 < j \<Longrightarrow> j \<le> length ss \<Longrightarrow> ss ! (j - 1) \<le> x" "j < length ss \<Longrightarrow> x < ss ! j"
proof -
  obtain m where m: "m < length (run_slice ss j r)" "x = run_slice ss j r ! m" using assms(3) by (auto simp: in_set_conv_nth)
  define i where "i = run_cuts ss r ! j + m"
  have i: "i < length r" "run_cuts ss r ! j \<le> i" "i < run_cuts ss r ! Suc j" "x = r ! i"
    using m by (auto simp: run_slice_def i_def)
  show "ss ! (j - 1) \<le> x" if "0 < j" "j \<le> length ss"
  proof -
    have "run_cuts ss r ! j = below (ss ! (j - 1)) r" using that cuts_nth(2) [of "j - 1" ss r] by simp
    then show ?thesis using less_below_iff [OF assms(2) i(1), of "ss ! (j - 1)"] i by simp
  qed
  show "x < ss ! j" if "j < length ss"
    using that cuts_nth(2) [of j ss r] less_below_iff [OF assms(2) i(1), of "ss ! j"] i by simp
qed

lemma mset_concat_swap:
  "mset (concat (map (\<lambda>j. concat (map (\<lambda>r. f j r) rs)) js)) = mset (concat (map (\<lambda>r. concat (map (\<lambda>j. f j r) js)) rs))"
proof (induction js)
  case (Cons j js)
  have "mset (concat (map (\<lambda>r. f j r @ concat (map (\<lambda>j. f j r) js)) rs)) =
      mset (concat (map (f j) rs)) + mset (concat (map (\<lambda>r. concat (map (\<lambda>j. f j r) js)) rs))"
    by (induction rs) (simp_all add: ac_simps)
  then show ?case using Cons by simp
qed (induction rs; simp)

lemma sorted_parts:
  assumes "\<And>j. j < n \<Longrightarrow> sorted (p j)" "\<And>i j x y. i < j \<Longrightarrow> j < n \<Longrightarrow> x \<in> set (p i) \<Longrightarrow> y \<in> set (p j) \<Longrightarrow> x \<le> y"
  shows "sorted (concat (map p [0..<n]))"
  using assms
proof (induction n)
  case (Suc n)
  have "sorted (concat (map p [0..<n]))"
  proof (rule Suc.IH)
    show "sorted (p j)" if "j < n" for j using Suc.prems(1) that by simp
    show "x \<le> y" if "i < j" "j < n" "x \<in> set (p i)" "y \<in> set (p j)" for i j x y
      using Suc.prems(2) [of i j x y] that by simp
  qed
  moreover have "\<forall>x\<in>set (concat (map p [0..<n])). \<forall>y\<in>set (p n). x \<le> y" using Suc.prems(2) [of _ n] by auto
  ultimately show ?case using Suc.prems(1) [of n] by (simp add: sorted_append)
qed simp

lemma merge_parts_sorts:
  assumes "\<forall>r\<in>set runs. sorted r"
  shows "merge_parts runs (map (run_cuts ss) runs) js = Gives (concat (map (\<lambda>j. sort (concat (map (run_slice ss j) runs))) js))"
proof (induction js)
  case (Cons j js)
  have "map (\<lambda>(r, c). take (c ! (j + 1) - c ! j) (drop (c ! j) r)) (zip runs (map (run_cuts ss) runs)) = map (run_slice ss j) runs"
    by (simp add: zip_map2 zip_same_conv_map run_slice_def)
  moreover have "\<forall>p\<in>set (map (run_slice ss j) runs). sorted p"
    using assms by (auto simp: run_slice_def intro: sorted_wrt_take sorted_wrt_drop)
  note merge_into_sorts [OF this]
  ultimately show ?case using Cons by (simp add: Let_def)
qed simp

lemma merged_runs:
  assumes runs: "\<forall>r\<in>set runs. sorted r" and ss: "sorted ss" "length ss = n"
  shows "concat (map (\<lambda>j. sort (concat (map (run_slice ss j) runs))) [0..<Suc n]) = sort (concat runs)"
proof (rule properties_for_sort [symmetric])
  have "mset (concat (map (\<lambda>j. sort (concat (map (run_slice ss j) runs))) [0..<Suc n])) =
      mset (concat (map (\<lambda>j. concat (map (run_slice ss j) runs)) [0..<Suc n]))"
    by (induction "[0..<Suc n]") (simp_all add: mset_concat comp_def del: upt_Suc)
  also have "\<dots> = mset (concat (map (\<lambda>r. concat (map (\<lambda>j. run_slice ss j r) [0..<Suc n])) runs))"
    by (rule mset_concat_swap)
  also have "(\<lambda>r. concat (map (\<lambda>j. run_slice ss j r) [0..<Suc n])) = (\<lambda>r. r)"
    using slices_run [OF ss(1), of "Suc n"] by (simp add: fun_eq_iff ss(2) [symmetric] cuts_nth del: upt_Suc)
  finally show "mset (concat (map (\<lambda>j. sort (concat (map (run_slice ss j) runs))) [0..<Suc n])) = mset (concat runs)" by simp
  show "sorted (concat (map (\<lambda>j. sort (concat (map (run_slice ss j) runs))) [0..<Suc n]))"
  proof (rule sorted_parts)
    fix i j x y assume ij: "i < j" "j < Suc n" "x \<in> set (sort (concat (map (run_slice ss i) runs)))" "y \<in> set (sort (concat (map (run_slice ss j) runs)))"
    then obtain r q where r: "r \<in> set runs" "x \<in> set (run_slice ss i r)" and q: "q \<in> set runs" "y \<in> set (run_slice ss j q)" by auto
    have "x < ss ! i" using slice_between(2) [OF ss(1) _ r(2)] runs r(1) ij ss(2) by simp
    moreover have "ss ! i \<le> ss ! (j - 1)" using ij ss by (intro sorted_nth_mono) simp_all
    moreover have "ss ! (j - 1) \<le> y" using slice_between(1) [OF ss(1) _ q(2)] runs q(1) ij ss(2) by simp
    ultimately show "x \<le> y" by (meson less_imp_le order_trans)
  qed simp
qed

lemma splitters_sorted: "sorted sample \<Longrightarrow> sorted (map (\<lambda>j. sample ! (j * length sample div t)) [1..<t])"
proof (cases "sample = []")
  case False
  assume "sorted sample"
  moreover have "j * length sample div t < length sample" if "j < t" for j
    using that False by (simp add: div_less_iff_less_mult)
  note less = this [of "Suc _"]
  ultimately show ?thesis
    by (auto simp: sorted_iff_nth_mono intro!: sorted_nth_mono div_le_mono less [simplified])
qed (auto simp: sorted_iff_nth_mono)

lemma sort_on_sorts: "sort_on keys threads = Gives (sort keys)"
proof -
  define n t where "n = length keys" and "t = max (min threads (isqrt_from n n)) 1"
  show ?thesis
  proof (cases "t = 1")
    case True
    then show ?thesis by (simp add: sort_on_def Let_def t_def n_def)
  next
    case False
    define size where "size = div_ceil n t"
    define runs where "runs = map sort (chunks size keys)"
    define sample where "sample = sort (concat (map (\<lambda>r. map (\<lambda>i. r ! (i * length r div t)) [0..<t]) runs))"
    define ss where "ss = map (\<lambda>j. sample ! (j * length sample div t)) [1..<t]"
    have e: "sort_on keys threads = merge_parts runs (map (run_cuts ss) runs) [0..<t]"
      using False unfolding sort_on_def Let_def n_def [symmetric] t_def [symmetric] size_def [symmetric] runs_def [symmetric]
        sample_def [symmetric] ss_def [symmetric] by simp
    have "n \<noteq> 0"
    proof
      assume "n = 0"
      then have "isqrt_from n n = 0" by simp
      then show False using False by (simp add: t_def)
    qed
    then have "0 < size" using False by (simp add: size_def less_div_ceil_iff t_def)
    then have keys: "concat (chunks size keys) = keys" by (rule concat_of_chunks)
    have "mset (concat (map sort cs)) = mset (concat cs)" for cs :: "bytes list list" by (induction cs) simp_all
    then have m: "mset (concat runs) = mset keys" using keys by (simp only: runs_def)
    have t: "t = Suc (length ss)" using False by (simp add: ss_def t_def)
    have srt: "sorted ss" unfolding ss_def by (rule splitters_sorted) (simp add: sample_def)
    have rs: "\<forall>r\<in>set runs. sorted r" by (simp add: runs_def)
    have "sort (concat runs) = sort keys" by (rule properties_for_sort [symmetric]) (simp_all add: m)
    then show ?thesis unfolding e merge_parts_sorts [OF rs] t merged_runs [OF rs srt refl] by simp
  qed
qed

subsection \<open>Sorted and distinct\<close>

lemma remdups_adj_strict: "sorted xs \<Longrightarrow> sorted_wrt (<) (remdups_adj xs)" for xs :: "'a::linorder list"
  by (induction xs rule: remdups_adj.induct) (auto simp: le_less)

lemma sorted_set_unique: "sorted_wrt (<) xs \<Longrightarrow> set xs = A \<Longrightarrow> xs = sorted_list_of_set A" for xs :: "'a::linorder list"
  using sorted_list_of_set.idem_if_sorted_distinct [of xs] strict_sorted_iff [of xs] by simp

lemma ascending_view: "sorted items \<Longrightarrow> distinct_ascending items threads = (True, sorted_list_of_set (set items))"
proof (cases "sorted_wrt (<) items")
  case True
  then show ?thesis by (simp add: distinct_ascending_def strictly_ascending_iff) (rule sorted_set_unique, simp_all)
next
  case False
  assume s: "sorted items"
  obtain b ks where d: "dedup_ascending items = (b, ks)" by fastforce
  with dedup_ascending_ends [OF d] s have "b" "ks = remdups_adj items" by auto
  moreover have "remdups_adj items = sorted_list_of_set (set items)" by (rule sorted_set_unique [OF remdups_adj_strict [OF s]]) simp
  ultimately show ?thesis using False d by (simp add: distinct_ascending_def strictly_ascending_iff)
qed

lemma unordered_view: "\<not> sorted items \<Longrightarrow> \<exists>ks. distinct_ascending items threads = (False, ks) \<and> mset ks = mset items"
proof -
  assume n: "\<not> sorted items"
  obtain b ks where d: "dedup_ascending items = (b, ks)" by fastforce
  have "\<not> sorted_wrt (<) items" using n strict_sorted_imp_sorted by blast
  then show ?thesis using dedup_ascending_ends [OF d] n d by (auto simp: distinct_ascending_def strictly_ascending_iff)
qed

lemma sort_distinct_sorts: "sort_distinct items threads = Gives (sorted_list_of_set (set items))"
proof (cases "sorted items")
  case True
  then show ?thesis by (simp add: sort_distinct_def ascending_view)
next
  case False
  then obtain ks where k: "distinct_ascending items threads = (False, ks)" "mset ks = mset items" using unordered_view by blast
  obtain b vs where d: "dedup_ascending (sort ks) = (b, vs)" by fastforce
  from dedup_ascending_ends [OF d] have "b" "vs = remdups_adj (sort ks)" by auto
  moreover have "set ks = set items" using k(2) by (metis set_mset_mset)
  then have "remdups_adj (sort ks) = sorted_list_of_set (set items)" by (intro sorted_set_unique remdups_adj_strict) simp_all
  ultimately show ?thesis using k d by (simp add: sort_distinct_def sort_on_sorts)
qed

end
