(* ===== verification/Thread_Facts.thy ===== *)
theory Thread_Facts
  imports Build_Facts
begin

text \<open>
  A build does not depend on its threads: the parts of the ranges, joined, are the part that one pass
  over every shard encodes. Encoding a shard after others moves its offsets on and leaves all else as
  it is, and the scratch tables a run leaves behind are not read by the next.
\<close>

lemma rel_bind:
  assumes "rel_outcome R a b" "\<And>x y. R x y \<Longrightarrow> rel_outcome S (f x) (g y)"
  shows "rel_outcome S (bind_outcome a f) (bind_outcome b g)"
  using assms by (cases a; cases b) auto

lemma rel_refl: "(\<And>x. R x x) \<Longrightarrow> rel_outcome R a a"
  by (cases a) auto

lemma rel_maps: "rel_outcome (\<lambda>x y. x = f y) a b \<Longrightarrow> a = bind_outcome b (\<lambda>y. Gives (f y))"
  by (cases a; cases b) auto

lemma bind_assoc: "bind_outcome (bind_outcome a f) g = bind_outcome a (\<lambda>x. bind_outcome (f x) g)"
  by (cases a) auto

lemma bind_cong_Gives: "(\<And>x. a = Gives x \<Longrightarrow> f x = g x) \<Longrightarrow> bind_outcome a f = bind_outcome a g"
  by (cases a) auto

subsection \<open>A shard after others\<close>

lemma writer_scratch:
  assumes "widths_ok w" "widths_ok w'"
  shows "fst (writer_new code ps w) = fst (writer_new code ps w')" "widths_ok (snd (writer_new code ps w))"
proof -
  obtain a b e w1 where f: "frame_widths ps w = ((a, b, e), w1)" by (metis prod_cases3 surj_pair)
  obtain a' b' e' w1' where f': "frame_widths ps w' = ((a', b', e'), w1')" by (metis prod_cases3 surj_pair)
  note c = frame_widths_choice [OF assms(1) f] and c' = frame_widths_choice [OF assms(2) f']
  show "fst (writer_new code ps w) = fst (writer_new code ps w')"
    using c(2) c'(2) by (auto simp: writer_new_def fit_run_def f f' Let_def split: pair_code.split prod.splits)
  show "widths_ok (snd (writer_new code ps w))"
    using c(1) assms(1) by (auto simp: writer_new_def fit_run_def f Let_def split: pair_code.split prod.splits)
qed

definition both_ok :: "widths \<Rightarrow> widths \<Rightarrow> bool" where
  "both_ok w w' \<longleftrightarrow> widths_ok w \<and> widths_ok w'"

definition same_run :: "bytes \<times> widths \<Rightarrow> bytes \<times> widths \<Rightarrow> bool" where
  "same_run x y \<longleftrightarrow> fst x = fst y \<and> both_ok (snd x) (snd y)"

lemma write_run_scratch:
  assumes "both_ok w w'"
  shows "rel_outcome same_run (write_run code codec c ps first (out, w)) (write_run code codec c ps first (out, w'))"
proof -
  obtain r v where n: "writer_new code ps w = (r, v)" by fastforce
  obtain v' where n': "writer_new code ps w' = (r, v')"
    using writer_scratch(1) [of w w' code ps] assms n unfolding both_ok_def by (metis fst_conv prod.collapse)
  have "both_ok v v'" using writer_scratch(2) [of w w' code ps] writer_scratch(2) [of w' w code ps] assms n n' by (simp add: both_ok_def)
  then show ?thesis using assms unfolding write_run_def prod.case n n'
    by (auto simp: same_run_def intro!: rel_bind [OF rel_refl [where R = "(=)"]])
qed

definition same_runs :: "nat \<Rightarrow> bytes \<times> nat list \<times> widths \<times> nat \<Rightarrow> bytes \<times> nat list \<times> widths \<times> nat \<Rightarrow> bool" where
  "same_runs e x y \<longleftrightarrow> fst x = fst y \<and> fst (snd x) = map ((+) e) (fst (snd y)) \<and>
    both_ok (fst (snd (snd x))) (fst (snd (snd y))) \<and> snd (snd (snd x)) = snd (snd (snd y))"

lemma write_runs_after:
  assumes "both_ok w w'"
  shows "rel_outcome (same_runs e)
    (write_runs sh (e + at) ns k first block (map ((+) e) starts) w) (write_runs sh at ns k first block starts w')"
  using assms
proof (induction ns arbitrary: k first block starts w w')
  case (Cons n ns)
  define st where "st = (if k > 0 then starts @ [at + length block] else starts)"
  have s: "(if k > 0 then map ((+) e) starts @ [e + at + length block] else map ((+) e) starts) = map ((+) e) st" by (simp add: st_def)
  have step: "rel_outcome (same_runs e) ((\<lambda>(block, w). write_runs sh (e + at) ns (Suc k) (first + n) block (map ((+) e) st) w) x)
      ((\<lambda>(block, w). write_runs sh at ns (Suc k) (first + n) block st w) y)" if "same_run x y" for x y
    using that Cons.IH [of "snd x" "snd y" "Suc k" "first + n" "fst y" st] by (simp add: same_run_def case_prod_unfold)
  show ?case
    unfolding write_runs.simps Let_def s st_def [symmetric]
    using rel_bind [OF write_run_scratch [OF Cons.prems] step] by simp
qed (simp add: same_runs_def)

definition same_blocks :: "part \<Rightarrow> nat \<times> widths \<times> part \<Rightarrow> nat \<times> widths \<times> part \<Rightarrow> bool" where
  "same_blocks P x y \<longleftrightarrow> fst x = length (pt_data P) + fst y \<and> both_ok (fst (snd x)) (fst (snd y)) \<and> snd (snd x) = part_join P (snd (snd y))"

lemma part_join_new: "part_join p part_new = p" "part_join part_new q = q"
  by (simp_all add: part_join_def part_new_def Let_def) (simp add: map_idI)

lemma write_blocks_after:
  assumes "both_ok w w'"
  shows "rel_outcome (same_blocks P)
    (write_blocks sh ms runs first (length (pt_data P) + at) w (part_join P q)) (write_blocks sh ms runs first at w' q)"
  using assms
proof (induction ms arbitrary: runs first at w w' q)
  case (Cons m ms)
  let ?e = "length (pt_data P)"
  have step: "rel_outcome (same_blocks P)
      ((\<lambda>(bl, s, w, f). write_blocks sh ms (drop m runs) f (?e + at + length bl) w
        ((part_join P q)\<lparr>pt_blocks := pt_blocks (part_join P q) @ [?e + at],
          pt_micros := pt_micros (part_join P q) @ s, pt_data := pt_data (part_join P q) @ bl\<rparr>)) x)
      ((\<lambda>(bl, s, w, f). write_blocks sh ms (drop m runs) f (at + length bl) w
        (q\<lparr>pt_blocks := pt_blocks q @ [at], pt_micros := pt_micros q @ s, pt_data := pt_data q @ bl\<rparr>)) y)"
    if "same_runs ?e x y" for x y
    using that Cons.IH [of "fst (snd (snd x))" "fst (snd (snd y))" "drop m runs" "snd (snd (snd y))" "at + length (fst y)"
        "q\<lparr>pt_blocks := pt_blocks q @ [at], pt_micros := pt_micros q @ fst (snd y), pt_data := pt_data q @ fst y\<rparr>"]
    by (simp add: same_runs_def case_prod_unfold part_join_def Let_def add.assoc)
  show ?case
    using rel_bind [OF write_runs_after [where starts = "[]", OF Cons.prems] step] by simp
qed (simp add: same_blocks_def)

definition same_heads :: "part \<Rightarrow> collected \<times> part \<Rightarrow> collected \<times> part \<Rightarrow> bool" where
  "same_heads P x y \<longleftrightarrow> fst x = fst y \<and> snd x = part_join P (snd y)"

lemma collect_blocks_after:
  "rel_outcome (same_heads P) (collect_blocks micro enc kss c (part_join P q)) (collect_blocks micro enc kss c q)"
proof (induction kss arbitrary: c q)
  case (Cons ks kss)
  let ?heads = "\<lambda>q. q\<lparr>pt_heads := pt_heads q @ hd ks, pt_head_ends := pt_head_ends q @ [length (pt_heads q @ hd ks)]\<rparr>"
  have heads: "?heads (part_join P q) = part_join P (?heads q)" by (simp add: part_join_def Let_def add.assoc)
  show ?case unfolding collect_blocks.simps Let_def heads
    by (rule rel_bind [OF rel_refl [where R = "(=)"]]) (simp_all add: Cons.IH)
qed (simp add: same_heads_def)

lemma encode_shards_after:
  assumes "both_ok w w'"
  shows "rel_outcome (\<lambda>p q. p = part_join P q) (encode_shards block micro tables s spans (length (pt_data P) + at) w (part_join P q))
    (encode_shards block micro tables s spans at w' q)"
  using assms
proof (induction spans arbitrary: s at w w' q)
  case (Cons span spans)
  show ?case
  proof (cases "tables = []")
    case False
    have codes: "(part_join P q)\<lparr>pt_codes := pt_codes (part_join P q) @ [codes], pt_codecs := pt_codecs (part_join P q) @ [codec]\<rparr>
        = part_join P (q\<lparr>pt_codes := pt_codes q @ [codes], pt_codecs := pt_codecs q @ [codec]\<rparr>)" for q codes codec
      by (simp add: part_join_def Let_def)
    have rest: "rel_outcome (\<lambda>p q. p = part_join P q)
        ((\<lambda>(at, w, pt). encode_shards block micro tables (Suc s) spans at w (pt\<lparr>pt_codes := pt_codes pt @ [codes], pt_codecs := pt_codecs pt @ [codec]\<rparr>)) x)
        ((\<lambda>(at, w, pt). encode_shards block micro tables (Suc s) spans at w (pt\<lparr>pt_codes := pt_codes pt @ [codes], pt_codecs := pt_codecs pt @ [codec]\<rparr>)) y)"
      if "same_blocks P x y" for x y codes codec
      using that Cons.IH by (simp add: same_blocks_def case_prod_unfold codes)
    let ?step = "\<lambda>table at w (c, pt). bind_outcome (settle_plain table c) (\<lambda>(codec, codes, ps).
      bind_outcome (shard_write \<lparr>sh_collected = c, sh_pairs = ps, sh_codec = codec, sh_codes = codes\<rparr> at w pt) (\<lambda>(at, w, pt).
        encode_shards block micro tables (Suc s) spans at w (pt\<lparr>pt_codes := pt_codes pt @ [codes], pt_codecs := pt_codecs pt @ [codec]\<rparr>)))"
    have step: "rel_outcome (\<lambda>p q. p = part_join P q) (?step table (length (pt_data P) + at) w x) (?step table at w' y)"
      if "same_heads P x y" for x y table
      using that unfolding same_heads_def case_prod_unfold shard_write_def
      by (auto intro!: rel_bind [OF rel_refl [where R = "(=)"]] rel_bind [OF write_blocks_after [OF Cons.prems]] rest [unfolded case_prod_unfold])
    show ?thesis
      unfolding encode_shards.simps Let_def using False rel_bind [OF collect_blocks_after step] by simp
  qed simp
qed simp

text \<open>A pass over some shards and then others.\<close>

lemma write_blocks_at:
  "write_blocks sh ms runs first at w pt = Gives (at', w', pt') \<Longrightarrow> at = length (pt_data pt) \<Longrightarrow> widths_ok w \<Longrightarrow>
    at' = length (pt_data pt') \<and> widths_ok w'"
proof (induction ms arbitrary: runs first at w pt)
  case (Cons m ms)
  then obtain bl s v f where r: "write_runs sh at (take m runs) 0 first [] [] w = Gives (bl, s, v, f)"
    "write_blocks sh ms (drop m runs) f (at + length bl) v (pt\<lparr>pt_blocks := pt_blocks pt @ [at], pt_micros := pt_micros pt @ s, pt_data := pt_data pt @ bl\<rparr>)
      = Gives (at', w', pt')"
    by (auto simp: bind_outcome_Gives_iff split: if_splits)
  have "widths_ok v" using write_runs_after [of w w 0 sh at "take m runs" 0 first "[]" "[]"] r(1) Cons.prems(3)
    by (simp add: both_ok_def same_runs_def)
  then show ?case using Cons.IH [OF r(2)] Cons.prems(2) by simp
qed simp

lemma encode_shards_restart:
  assumes "widths_ok w"
  shows "encode_shards block micro tables s spans (length (pt_data p)) w p =
    bind_outcome (encode_shards block micro tables s spans 0 widths_default part_new) (\<lambda>q. Gives (part_join p q))"
  by (rule rel_maps) (use encode_shards_after [of w widths_default p block micro tables s spans 0 part_new] assms in \<open>simp add: both_ok_def part_join_new\<close>)

text \<open>One shard of a pass.\<close>

definition shard_one :: "nat \<Rightarrow> nat \<Rightarrow> fsst_table list \<Rightarrow> nat \<Rightarrow> bytes list \<Rightarrow> nat \<Rightarrow> widths \<Rightarrow> part \<Rightarrow> (nat \<times> widths \<times> part) outcome" where
  "shard_one block micro tables s span at w pt = (if tables = [] then Panics
    else bind_outcome (collect_blocks micro (encoder_of (tables ! min s (length tables - 1))) (chunks block span) co_new pt) (\<lambda>(c, pt).
      bind_outcome (settle_plain (tables ! min s (length tables - 1)) c) (\<lambda>(codec, codes, ps).
      bind_outcome (shard_write \<lparr>sh_collected = c, sh_pairs = ps, sh_codec = codec, sh_codes = codes\<rparr> at w pt) (\<lambda>(at, w, pt).
        Gives (at, w, pt\<lparr>pt_codes := pt_codes pt @ [codes], pt_codecs := pt_codecs pt @ [codec]\<rparr>)))))"

lemma encode_shards_one:
  "encode_shards block micro tables s (span # spans) at w pt =
    bind_outcome (shard_one block micro tables s span at w pt) (\<lambda>(at, w, pt). encode_shards block micro tables (Suc s) spans at w pt)"
  by (simp add: shard_one_def bind_assoc case_prod_unfold Let_def)

lemma collect_blocks_data: "collect_blocks micro enc kss c pt = Gives (c', pt') \<Longrightarrow> pt_data pt' = pt_data pt"
  by (induction kss arbitrary: c pt) (fastforce simp: Let_def bind_outcome_Gives_iff)+

lemma shard_one_at:
  assumes "shard_one block micro tables s span (length (pt_data pt)) w pt = Gives (at', w', pt')" "widths_ok w"
  shows "at' = length (pt_data pt')" "widths_ok w'"
proof -
  obtain c p codec codes ps at1 w1 p1 where c: "collect_blocks micro (encoder_of (tables ! min s (length tables - 1))) (chunks block span) co_new pt = Gives (c, p)"
    and r: "shard_write \<lparr>sh_collected = c, sh_pairs = ps, sh_codec = codec, sh_codes = codes\<rparr> (length (pt_data pt)) w p = Gives (at1, w1, p1)"
    and e: "at' = at1" "w' = w1" "pt_data pt' = pt_data p1"
    using assms(1) by (auto simp: shard_one_def Let_def bind_outcome_Gives_iff split: if_splits)
  show "at' = length (pt_data pt')" "widths_ok w'"
    using write_blocks_at [OF r [unfolded shard_write_def]] collect_blocks_data [OF c] assms(2) e by simp_all
qed

lemma encode_shards_append:
  "widths_ok w \<Longrightarrow> encode_shards block micro tables s (xs @ ys) (length (pt_data pt)) w pt =
    bind_outcome (encode_shards block micro tables s xs (length (pt_data pt)) w pt) (\<lambda>p.
      bind_outcome (encode_shards block micro tables (s + length xs) ys 0 widths_default part_new) (\<lambda>q. Gives (part_join p q)))"
proof (induction xs arbitrary: s w pt)
  case Nil
  then show ?case by (simp add: encode_shards_restart)
next
  case (Cons x xs)
  have "encode_shards block micro tables (Suc s) (xs @ ys) at v p = bind_outcome (encode_shards block micro tables (Suc s) xs at v p) (\<lambda>p.
      bind_outcome (encode_shards block micro tables (s + length (x # xs)) ys 0 widths_default part_new) (\<lambda>q. Gives (part_join p q)))"
    if r: "shard_one block micro tables s x (length (pt_data pt)) w pt = Gives (at, v, p)" for at v p
    using Cons.IH [OF shard_one_at(2) [OF r Cons.prems], of "Suc s" p] shard_one_at(1) [OF r Cons.prems] by simp
  then show ?case
    unfolding append_Cons encode_shards_one bind_assoc by (intro bind_cong_Gives) (auto simp: case_prod_unfold)
qed

subsection \<open>Ranges apart and together\<close>

lemma part_join_assoc: "part_join (part_join a b) c = part_join a (part_join b c)"
  by (simp add: part_join_def Let_def add.assoc comp_def)

lemma ranges_together:
  assumes sizes: "0 < block" "0 < shard" "0 < k" and f: "\<And>c. f c div shard = c * k"
  shows "bind_outcome (map_outcome (\<lambda>(c, range). encode_range range block micro tables shard (f c)) (enumerate c (chunks (k * shard * block) keys)))
      (\<lambda>parts. Gives (foldl part_join p parts)) =
    bind_outcome (encode_shards block micro tables (c * k) (chunks (shard * block) keys) 0 widths_default part_new) (\<lambda>q. Gives (part_join p q))"
proof (induction "chunks (k * shard * block) keys" arbitrary: keys c p)
  case Nil
  then have "keys = []" using sizes by (auto simp: chunks.simps split: if_splits)
  then show ?case by (simp add: chunks.simps part_join_new)
next
  case (Cons range ranges)
  let ?n = "k * shard * block"
  let ?enc = "\<lambda>s xs. encode_shards block micro tables s xs 0 widths_default part_new"
  have ne: "keys \<noteq> []" using Cons.hyps(2) by (auto simp: chunks.simps)
  then have range: "range = take ?n keys" "ranges = chunks ?n (drop ?n keys)"
    using Cons.hyps(2) sizes by (simp_all add: chunks_unfold)
  define xs ys where "xs = chunks (shard * block) (take ?n keys)" and "ys = chunks (shard * block) (drop ?n keys)"
  have split: "chunks (shard * block) keys = xs @ ys"
    using chunks_take_drop [of "shard * block" keys k] sizes by (simp add: xs_def ys_def mult.assoc)
  have len: "ys = [] \<or> length xs = k"
  proof (cases "drop ?n keys = []")
    case False
    then have "min (length keys) ?n = k * (shard * block)" by (simp add: mult.assoc)
    then show ?thesis using sizes by (simp add: xs_def length_chunks div_ceil_def)
  qed (simp add: ys_def chunks.simps)
  have first: "encode_range range block micro tables shard (f c) = ?enc (c * k) xs"
    by (simp add: encode_range_def f range(1) xs_def)
  have rest: "bind_outcome (map_outcome (\<lambda>(c, range). encode_range range block micro tables shard (f c)) (enumerate (Suc c) ranges))
      (\<lambda>parts. Gives (foldl part_join p' parts)) = bind_outcome (?enc (Suc c * k) ys) (\<lambda>q. Gives (part_join p' q))" for p'
    unfolding range(2) ys_def by (rule Cons.hyps(1) [OF range(2)])
  have "bind_outcome (map_outcome (\<lambda>(c, range). encode_range range block micro tables shard (f c)) (enumerate c (range # ranges)))
      (\<lambda>parts. Gives (foldl part_join p parts)) =
    bind_outcome (?enc (c * k) xs) (\<lambda>pt. bind_outcome (?enc (Suc c * k) ys) (\<lambda>q. Gives (part_join (part_join p pt) q)))"
    by (simp add: first bind_assoc rest)
  also have "\<dots> = bind_outcome (bind_outcome (?enc (c * k) xs) (\<lambda>pt. bind_outcome (?enc (c * k + length xs) ys) (\<lambda>q. Gives (part_join pt q))))
      (\<lambda>q. Gives (part_join p q))"
    using len by (auto simp: bind_assoc part_join_assoc add.commute)
  also have "\<dots> = bind_outcome (?enc (c * k) (xs @ ys)) (\<lambda>q. Gives (part_join p q))"
    using encode_shards_append [of widths_default block micro tables "c * k" xs ys part_new] by (simp add: part_new_def [THEN arg_cong [where f = pt_data], simplified])
  finally show ?case unfolding split Cons.hyps(2) [symmetric] .
qed

lemma encode_parts_once:
  assumes sizes: "0 < block" "0 < threads"
  shows "encode_parts keys block micro threads tables = encode_range keys block micro tables (shard_blocks_for block) 0"
proof (cases "keys = []")
  case True
  then show ?thesis by (simp add: encode_parts_def encode_range_def Let_def chunks.simps)
next
  case False
  let ?shard = "shard_blocks_for block"
  define q where "q = div_ceil (div_ceil (div_ceil (length keys) block) threads) ?shard"
  define run where "run = max (?shard * block * q) 1"
  have q: "0 < q" using False sizes shard_blocks_pos by (simp add: q_def div_ceil_pos)
  moreover from this have run: "run = q * ?shard * block" using sizes shard_blocks_pos [of block] by (simp add: run_def mult.commute mult.left_commute)
  have "c * run div block div ?shard = c * q" for c
    using sizes shard_blocks_pos [of block] by (simp add: run mult.assoc [symmetric])
  note together = ranges_together [OF sizes(1) shard_blocks_pos q this, of micro tables 0 keys part_new]
  have "bind_outcome a (\<lambda>q. Gives (part_join part_new q)) = a" for a by (cases a) (simp_all add: part_join_new)
  then have one: "bind_outcome (map_outcome (\<lambda>(c, range). encode_range range block micro tables ?shard (c * run div block)) (enumerate 0 (chunks run keys)))
      (\<lambda>parts. Gives (foldl part_join part_new parts)) = encode_range keys block micro tables ?shard 0"
    using together by (simp add: encode_range_def run [symmetric])
  show ?thesis
    unfolding one [symmetric] encode_parts_def Let_def by (simp only: run_def q_def)
qed

text \<open>What is built does not depend on the threads it was built on.\<close>

lemma from_vocabulary_threads:
  "0 < threads \<Longrightarrow> from_vocabulary keys block micro threads tables = from_vocabulary keys block micro 1 tables"
  by (cases "block = 0") (simp_all add: from_vocabulary_def encode_parts_once)

end
