(* ===== verification/Dict_Theorems.thy ===== *)
theory Dict_Theorems
  imports Dict_Build Thread_Facts
begin

text \<open>
  What the dictionary promises, from the keys to the answers: any index built over sorted distinct keys
  answers every query as the sorted list of the keys would.
\<close>

subsection \<open>Routing the microblocks\<close>

lemma route_fields [simp]:
  "di_head (d\<lparr>di_mroute := m\<rparr>) = di_head d" "heads_of (d\<lparr>di_mroute := m\<rparr>) keys = heads_of d keys"
  "codec_of (d\<lparr>di_mroute := m\<rparr>) = codec_of d" "codes_of_block (d\<lparr>di_mroute := m\<rparr>) = codes_of_block d"
  "blocks_len (d\<lparr>di_mroute := m\<rparr>) = blocks_len d" "micros_in (d\<lparr>di_mroute := m\<rparr>) = micros_in d"
  "restart_data_at (d\<lparr>di_mroute := m\<rparr>) = restart_data_at d" "micro_data_at (d\<lparr>di_mroute := m\<rparr>) = micro_data_at d"
  by (simp_all add: fun_eq_iff di_head_def heads_of_def codec_of_def codes_of_block_def shard_of_def blocks_len_def micros_in_def count_in_def
    restart_data_at_def micro_data_at_def block_end_def cong: option.case_cong)

lemma head_boundary_route [simp]: "head_boundary (d\<lparr>di_mroute := m\<rparr>) p l r = head_boundary d p l r"
proof (induction d p l r rule: head_boundary.induct)
  case (1 d probe l r)
  show ?case
  proof (cases "l < r")
    case True
    have "(if h \<le> probe then head_boundary (d\<lparr>di_mroute := m\<rparr>) probe (l + (r - l) div 2 + 1) r else head_boundary (d\<lparr>di_mroute := m\<rparr>) probe l (l + (r - l) div 2)) =
        (if h \<le> probe then head_boundary d probe (l + (r - l) div 2 + 1) r else head_boundary d probe l (l + (r - l) div 2))"
      if "di_head d (l + (r - l) div 2) = Gives h" for h
      using 1 True that by auto
    then show ?thesis
      using True by (subst (1 2) head_boundary.simps) (simp add: Let_def cong: bind_outcome_cong)
  next
    case False
    then show ?thesis by (subst (1 2) head_boundary.simps) simp
  qed
qed

lemma route_tie [simp]: "tie_boundary (d\<lparr>di_mroute := m\<rparr>) = tie_boundary d"
proof -
  have hb: "head_boundary (d\<lparr>di_mroute := m\<rparr>) p = head_boundary d p" for p by (rule ext, rule ext) simp
  have ties: "di_ties (d\<lparr>di_mroute := m\<rparr>) = di_ties d" by simp
  show ?thesis by (rule ext, rule ext) (unfold tie_boundary_def route_fields(1) hb ties, rule refl)
qed

lemma route_ties [simp]: "ties_right (d\<lparr>di_mroute := m\<rparr>) hs = ties_right d hs"
  by (simp add: ties_right_def)

lemma route_written [simp]: "block_written (d\<lparr>di_mroute := m\<rparr>) b ks = block_written d b ks"
  by (simp add: block_written_def Let_def)

lemma route_built [simp]: "micro_route (d\<lparr>di_mroute := m\<rparr>) = micro_route d"
proof -
  have "di_phrases (d\<lparr>di_mroute := m\<rparr>) = di_phrases d" by simp
  then have "restart_words (d\<lparr>di_mroute := m\<rparr>) = restart_words d" unfolding fun_eq_iff restart_words_def by metis
  then have "micro_group (d\<lparr>di_mroute := m\<rparr>) = micro_group d"
    by (simp add: fun_eq_iff micro_group_def restart_data_def Let_def)
  then show ?thesis by (simp add: micro_route_def)
qed

lemma route_index_ok:
  assumes "index_ok d keys" "micro_route d = Gives ws"
  shows "index_ok (d\<lparr>di_mroute := Some ws\<rparr>) keys"
  using assms unfolding index_ok_def by simp

lemma routed_ok:
  assumes "index_ok d keys"
  shows "\<exists>d' n. route_microblocks d = Gives (d', n) \<and> index_ok d' keys"
  using assms micro_route_gives [OF assms] route_index_ok [OF assms] by (cases "di_mroute d") (auto simp: route_microblocks_def)

end
