(* ===== verification/Entry_Facts.thy ===== *)
theory Entry_Facts
  imports Tally_Facts Sort_Facts Dict_Theorems
begin

text \<open>
  From keys in any order, with repeats, to an index whose every query is right.
\<close>

subsection \<open>The sizes and the counts\<close>

lemma find_mem: "find P xs = Some d \<Longrightarrow> d \<in> set xs"
  by (auto simp: find_Some_iff)

lemma find_range: "0 < a \<Longrightarrow> find P [a..<b] = Some d \<or> find P (rev [a..<b]) = Some d \<Longrightarrow> 0 < (d :: nat)"
  using find_mem [of P _ d] by fastforce

lemma micro_for_pos:
  assumes "0 < block"
  shows "0 < micro_for block"
proof -
  define P frm where "P = (\<lambda>d. block mod d = 0)" and "frm = clamp 16 32 (isqrt_from block block)"
  have f: "0 < frm" by (simp add: frm_def clamp_def)
  have "micro_for block = (case find P [frm..<33] of Some d \<Rightarrow> d | None \<Rightarrow> (case find P (rev [2..<33]) of Some d \<Rightarrow> d | None \<Rightarrow> block))"
    unfolding micro_for_def Let_def P_def frm_def ..
  moreover have "0 < (2 :: nat)" by simp
  note find_range [OF f, of P 33] find_range [OF this, of P 33]
  ultimately show ?thesis using assms by (cases "find P [frm..<33]"; cases "find P (rev [2..<33])") (simp_all only: option.case, blast+)
qed

lemma build_threads_pos: "0 < build_threads cores n block"
  by (simp add: build_threads_def)

subsection \<open>What is built\<close>

definition key_list :: "bytes list \<Rightarrow> bytes list" where
  "key_list items = sorted_list_of_set (set items)"

lemma key_list_props: "sorted_wrt (<) (key_list items)" "set (key_list items) = set items"
  by (simp_all add: key_list_def)

text \<open>Whether the build of these keys takes up a character code or mines phrases, neither of which
  depends on the threads.\<close>

definition phrases_mined :: "bytes list \<Rightarrow> nat \<Rightarrow> nat \<Rightarrow> bool" where
  "phrases_mined keys block micro = (let pieces = build_pieces keys block micro 0 in
    case train_shards pieces 1 of Gives tables \<Rightarrow> mines pieces tables (length keys) | _ \<Rightarrow> False)"

text \<open>The builds the model covers: the keys fit in memory, no character code pays for them and no phrases are
  mined, because the keys are fewer than \<open>MINE_MIN\<close> or every probed shard would rather pack its bytes.\<close>

definition covered :: "bytes list \<Rightarrow> nat \<Rightarrow> nat \<Rightarrow> bool" where
  "covered items block micro \<longleftrightarrow> (let keys = key_list items in
    run_room keys < 2 ^ 56 \<and> choose_code keys 1 = None \<and> \<not> phrases_mined keys block micro)"

lemma choose_code_threads: "choose_code keys threads = choose_code keys 1"
  by (simp add: choose_code_tally)

lemma phrases_mined_iff:
  "phrases_mined keys block micro \<longleftrightarrow>
    mines (build_pieces keys block micro 0) (map table_of_sample (build_pieces keys block micro 0)) (length keys)"
  by (simp add: phrases_mined_def train_shards_gives Let_def)

text \<open>Few keys, nearly all of them ASCII, are covered; so is no key at all.\<close>

lemma covered_few:
  assumes "length (key_list items) < MINE_MIN" "run_room (key_list items) < 2 ^ 56"
    and "30 * high_total (key_list items) < 4 * byte_total (key_list items) \<or> byte_total (key_list items) = 0"
  shows "covered items block micro"
  using assms choose_code_ascii [OF assms(2,3)] phrases_mined_iff by (simp add: covered_def Let_def mines_def)

lemma view_builds:
  assumes "covered items block micro" "0 < block" "0 < micro"
  shows "\<exists>d. from_view cores (key_list items) block micro = Some (Gives d) \<and> index_ok d (key_list items) \<and> di_block d = block \<and> di_micro d = micro"
proof -
  let ?ks = "key_list items" and ?t = "build_threads cores (length (key_list items)) block"
  let ?pieces = "build_pieces ?ks block micro 0"
  have c: "run_room ?ks < 2 ^ 56" "choose_code ?ks t = None" "\<not> mines ?pieces (map table_of_sample ?pieces) (length ?ks)" for t
    using assms(1) choose_code_threads [of ?ks t] phrases_mined_iff [of ?ks] by (simp_all add: covered_def Let_def)
  obtain d where "from_vocabulary ?ks block micro ?t (map table_of_sample ?pieces) = Gives d" "index_ok d ?ks" "di_block d = block" "di_micro d = micro"
    using vocabulary_builds [OF key_list_props(1) c(1) assms(2,3) build_threads_pos [of cores "length ?ks" block], of "map table_of_sample ?pieces"]
    by (auto simp: table_of_sample_wf)
  then show ?thesis using c(2,3) assms(2,3)
    by (simp add: from_view_def from_sorted_def from_sorted_as_def train_shards_gives [OF train_threads_pos] Let_def)
qed

lemma build_builds:
  assumes "covered items block (micro_for block)" "1 \<le> block" "block \<le> MAX_BLOCK"
  shows "\<exists>d. build_with_block cores items block = Some (Gives d) \<and> index_ok d (key_list items)"
proof -
  obtain d where "from_view cores (key_list items) block (micro_for block) = Some (Gives d)" "index_ok d (key_list items)"
    using view_builds [OF assms(1), of cores] assms(2) micro_for_pos [of block] by auto
  then show ?thesis using assms(2,3) by (simp add: build_with_block_def built_view_def sort_distinct_sorts key_list_def [symmetric])
qed

end
