(* ===== verification/Dictionary.thy ===== *)
theory Dictionary
  imports Entry_Facts
begin

text \<open>
  The contract of the dictionary: what is built from a list of keys answers as the set of the keys does,
  and neither the threads of the build nor the structures that speed a lookup up change an answer. The claims
  on a build are for the builds \<open>covered\<close> names: the keys fit in memory, no character code pays for them, and
  no phrases are mined. By \<open>covered_few\<close> that is every build of fewer than \<open>2 ^ 14\<close> distinct keys of which
  fewer than four bytes in thirty are past ASCII, the build of no keys among them; it is also every larger
  one the bar before the miner turns away, which then has a shard every \<open>2 ^ 16\<close> keys or so.
\<close>

subsection \<open>Ranks in a list as counts in the set\<close>

lemma rank_count: "sorted_wrt (<) keys \<Longrightarrow> below k keys = card {x \<in> set keys. x < k}" for k :: bytes
proof -
  assume s: "sorted_wrt (<) keys"
  have "below k ks = length (filter (\<lambda>x. x < k) ks)" if "sorted ks" for ks
    using that by (induction ks) (auto simp: filter_empty_conv not_less)
  then show ?thesis
    using s distinct_length_filter [of keys "\<lambda>x. x < k"] strict_sorted_imp_sorted [OF s] strict_sorted_iff [of keys]
    by (simp add: Int_def conj_commute)
qed

lemma place_count: "sorted_wrt (<) keys \<Longrightarrow> card {i. i < length keys \<and> P (keys ! i)} = card {x \<in> set keys. P x}" for keys :: "bytes list"
  using length_filter_conv_card [of P keys] distinct_length_filter [of keys P] strict_sorted_iff [of keys]
  by (simp add: Int_def conj_commute)

lemma least_above:
  assumes "sorted_wrt (<) keys" "below k keys < length keys"
  shows "keys ! below k keys = Min {x \<in> set keys. k \<le> x}"
proof (rule Min_eqI [symmetric])
  show "keys ! below k keys \<in> {x \<in> set keys. k \<le> x}"
    using assms less_below [OF assms(1), of "below k keys" k] by (simp add: not_less)
  fix y assume "y \<in> {x \<in> set keys. k \<le> x}"
  then obtain i where i: "i < length keys" "y = keys ! i" "k \<le> keys ! i" by (auto simp: in_set_conv_nth)
  then have "below k keys \<le> i" using less_below [OF assms(1), of i k] by (simp add: not_less [symmetric])
  then show "keys ! below k keys \<le> y" using i strict_sorted_imp_sorted [OF assms(1)] by (simp add: sorted_nth_mono)
qed simp

lemma none_above: "sorted_wrt (<) keys \<Longrightarrow> below k keys < length keys \<longleftrightarrow> (\<exists>x\<in>set keys. k \<le> x)"
proof
  assume s: "sorted_wrt (<) keys" and "\<exists>x\<in>set keys. k \<le> x"
  then obtain i where "i < length keys" "k \<le> keys ! i" by (auto simp: in_set_conv_nth)
  then show "below k keys < length keys" using less_below [OF s, of i k] by (auto simp: not_less [symmetric])
qed (use less_below in \<open>auto simp: not_less [symmetric] intro!: bexI [of _ "keys ! below k keys"]\<close>)

lemma greatest_below:
  assumes "sorted_wrt (<) keys" "at_most k keys \<noteq> 0"
  shows "keys ! (at_most k keys - 1) = Max {x \<in> set keys. x \<le> k}"
proof (rule Max_eqI [symmetric])
  note s = strict_sorted_imp_sorted [OF assms(1)]
  have i: "at_most k keys - 1 < length keys" using assms(2) at_most_le [of k keys] by simp
  then show "keys ! (at_most k keys - 1) \<in> {x \<in> set keys. x \<le> k}"
    using less_at_most_iff [OF s i, of k] assms(2) by simp
  fix y assume "y \<in> {x \<in> set keys. x \<le> k}"
  then obtain j where j: "j < length keys" "y = keys ! j" "keys ! j \<le> k" by (auto simp: in_set_conv_nth)
  then have "j \<le> at_most k keys - 1" using less_at_most_iff [OF s, of j k] by simp
  then show "y \<le> keys ! (at_most k keys - 1)" using j i s by (simp add: sorted_nth_mono)
qed simp

lemma none_below:
  assumes "sorted_wrt (<) keys"
  shows "at_most k keys \<noteq> 0 \<longleftrightarrow> (\<exists>x\<in>set keys. x \<le> k)"
proof
  note s = strict_sorted_imp_sorted [OF assms]
  show "\<exists>x\<in>set keys. x \<le> k" if "at_most k keys \<noteq> 0"
  proof -
    have "0 < length keys" using that at_most_le [of k keys] by linarith
    then show ?thesis using that less_at_most_iff [OF s, of 0 k] by (intro bexI [of _ "keys ! 0"]) simp_all
  qed
  show "at_most k keys \<noteq> 0" if "\<exists>x\<in>set keys. x \<le> k"
  proof -
    obtain i where "i < length keys" "keys ! i \<le> k" using \<open>\<exists>x\<in>set keys. x \<le> k\<close> by (auto simp: in_set_conv_nth)
    then have "i < at_most k keys" using less_at_most_iff [OF s, of i k] by simp
    then show ?thesis by simp
  qed
qed

subsection \<open>The corpus of the witnesses\<close>

definition some_items :: "bytes list" where
  "some_items = [[98, 97], [97], [98, 97], [97, 99]]"

lemma some_key_list: "key_list some_items = [[97], [97, 99], [98, 97]]"
  unfolding key_list_def some_items_def sorted_list_of_set_sort_remdups by simp

lemma some_covered: "covered some_items block micro"
  by (rule covered_few) (simp_all add: some_key_list is_high_def MINE_MIN_def)

lemma some_block: "1 \<le> (256 :: nat)" "256 \<le> MAX_BLOCK"
  by (simp_all add: MAX_BLOCK_def)

subsection \<open>Membership and ranks\<close>

text \<open>C1. A dictionary built without a character code and without phrases (\<open>covered\<close>), from keys in any
  order, with repeats, on any number of cores, answers \<^verbatim>\<open>id\<close> and \<^verbatim>\<open>contains\<close> exactly: a key that was given has for its id the number of distinct keys below it in byte
  order, and every other string, whatever its length and bytes, has none. Neither the build nor a query
  panics or refuses, for any block size the builder takes.\<close>

theorem dict_answers:
  assumes "covered items block (micro_for block)" "1 \<le> block" "block \<le> MAX_BLOCK"
  shows "\<exists>d. build_with_block cores items block = Some (Gives d) \<and>
    (\<forall>k. di_contains d k = Gives (k \<in> set items) \<and>
      di_id d k = Gives (if k \<in> set items then Some (card {x \<in> set items. x < k}) else None))"
proof -
  obtain d where d: "build_with_block cores items block = Some (Gives d)" "index_ok d (key_list items)"
    using build_builds [OF assms, of cores] by blast
  then show ?thesis
    using index_queries(1,2) [OF d(2)] by (intro exI [of _ d]) (simp add: rank_count key_list_props)
qed

theorem dict_answers_witness:
  "\<exists>d. build_with_block 4 some_items 256 = Some (Gives d) \<and>
    (\<forall>k. di_contains d k = Gives (k \<in> set some_items) \<and>
      di_id d k = Gives (if k \<in> set some_items then Some (card {x \<in> set some_items. x < k}) else None))"
  by (rule dict_answers [OF some_covered some_block])

text \<open>C2. In a dictionary built without a character code and without phrases (\<open>covered\<close>), ids and keys are
  inverse to one another: the key the dictionary reads back at the id of a key is that
  key, every id below the number of distinct keys reads a key that has that id, and a larger one is
  refused rather than read.\<close>

theorem dict_round_trip:
  assumes "covered items block (micro_for block)" "1 \<le> block" "block \<le> MAX_BLOCK"
  shows "\<exists>d. build_with_block cores items block = Some (Gives d) \<and>
    (\<forall>k\<in>set items. \<exists>i<card (set items). di_id d k = Gives (Some i) \<and> key_bytes_into d i = Gives k) \<and>
    (\<forall>i. if i < card (set items) then \<exists>k\<in>set items. key_bytes_into d i = Gives k \<and> di_id d k = Gives (Some i)
      else key_bytes_into d i = Refuses)"
proof -
  obtain d where d: "build_with_block cores items block = Some (Gives d)" "index_ok d (key_list items)"
    using build_builds [OF assms, of cores] by blast
  let ?ks = "key_list items"
  note s = key_list_props [of items] and kb = key_bytes_into_gives [OF d(2)]
  have len: "length ?ks = card (set items)" by (simp add: key_list_def)
  have id: "di_id d (?ks ! i) = Gives (Some i)" if "i < length ?ks" for i
    using that index_queries(1) [OF d(2), of "?ks ! i"] below_nth [OF s(1) that] by simp
  have "\<exists>i<card (set items). di_id d k = Gives (Some i) \<and> key_bytes_into d i = Gives k" if "k \<in> set items" for k
  proof -
    have "k \<in> set ?ks" unfolding s(2) by (rule that)
    then obtain i where "i < length ?ks" "k = ?ks ! i" unfolding in_set_conv_nth by blast
    moreover from this have "key_bytes_into d i = Gives k" using kb [of i] by simp
    ultimately show ?thesis using id [of i] unfolding len by blast
  qed
  moreover have "\<exists>k\<in>set items. key_bytes_into d i = Gives k \<and> di_id d k = Gives (Some i)" if "i < card (set items)" for i
  proof -
    have i: "i < length ?ks" using that len by simp
    have "?ks ! i \<in> set items" using nth_mem [OF i] unfolding s(2) .
    moreover have "key_bytes_into d i = Gives (?ks ! i)" using kb [of i] i by simp
    ultimately show ?thesis using id [OF i] by blast
  qed
  moreover have "key_bytes_into d i = Refuses" if "\<not> i < card (set items)" for i using that kb [of i] len by simp
  ultimately show ?thesis using d(1) by (intro exI [of _ d]) (simp only: if_bool_eq_conj, blast)
qed

theorem dict_round_trip_witness:
  "\<exists>d. build_with_block 1 some_items 256 = Some (Gives d) \<and>
    (\<forall>k\<in>set some_items. \<exists>i<card (set some_items). di_id d k = Gives (Some i) \<and> key_bytes_into d i = Gives k) \<and>
    (\<forall>i. if i < card (set some_items) then \<exists>k\<in>set some_items. key_bytes_into d i = Gives k \<and> di_id d k = Gives (Some i)
      else key_bytes_into d i = Refuses)"
  by (rule dict_round_trip [OF some_covered some_block])

subsection \<open>Ranges, prefixes and neighbours\<close>

text \<open>C3. The ordered queries of a dictionary built without a character code and without phrases (\<open>covered\<close>)
  are those of the set of keys: \<^verbatim>\<open>lower_bound\<close> and \<^verbatim>\<open>range_count\<close> count the keys
  below a bound and between two, \<^verbatim>\<open>prefix_count\<close> the keys a prefix begins and \<^verbatim>\<open>prefix_id_range\<close> spans their
  ids and no others (prefixes ending in bytes of 0xff and the empty prefix included), \<^verbatim>\<open>successor\<close> is the
  least key not below the probe and \<^verbatim>\<open>predecessor\<close> the greatest not above it, each with its id, or
  nothing where there is none.\<close>

theorem dict_ordered:
  assumes "covered items block (micro_for block)" "1 \<le> block" "block \<le> MAX_BLOCK"
  shows "\<exists>d. build_with_block cores items block = Some (Gives d) \<and> (\<forall>k hi.
    lower_bound d k = Gives (card {x \<in> set items. x < k}) \<and>
    range_count d k hi = Gives (card {x \<in> set items. k \<le> x \<and> x < hi}) \<and>
    prefix_count d k = Gives (card {x \<in> set items. prefix k x}) \<and>
    (\<exists>s e. prefix_id_range d k = Gives (s, e) \<and>
      {s..<e} = {i. \<exists>x. di_id d x = Gives (Some i) \<and> prefix k x}) \<and>
    successor d k = Gives (if \<exists>x\<in>set items. k \<le> x then Some (Min {x \<in> set items. k \<le> x}, card {x \<in> set items. x < k}) else None) \<and>
    predecessor d k = Gives (if \<exists>x\<in>set items. x \<le> k
      then Some (Max {x \<in> set items. x \<le> k}, card {x \<in> set items. x < Max {x \<in> set items. x \<le> k}}) else None))"
proof -
  obtain d where d: "build_with_block cores items block = Some (Gives d)" "index_ok d (key_list items)"
    using build_builds [OF assms, of cores] by blast
  let ?ks = "key_list items"
  note s = key_list_props(1) [of items] and q = index_queries [OF d(2)]
  have st: "set ?ks = set items" by (rule key_list_props(2))
  have rc: "below k ?ks = card {x \<in> set items. x < k}" for k using rank_count [OF s] by (simp add: st)
  have id: "di_id d x = Gives (Some i) \<longleftrightarrow> i < length ?ks \<and> x = ?ks ! i" for x i
    unfolding q(1) using below_nth [OF s] by (auto simp: in_set_conv_nth)
  have "lower_bound d k = Gives (card {x \<in> set items. x < k})" for k using q(3) rc by simp
  moreover have "range_count d k hi = Gives (card {x \<in> set items. k \<le> x \<and> x < hi})" for k hi
    using q(4) place_count [OF s, of "\<lambda>x. k \<le> x \<and> x < hi"] by (simp add: st)
  moreover have "prefix_count d k = Gives (card {x \<in> set items. prefix k x})" for k
    by (rule index_prefixes [OF d(2), of k]) (use place_count [OF s, of "prefix k"] in \<open>simp add: st\<close>)
  moreover have "\<exists>a e. prefix_id_range d k = Gives (a, e) \<and> {a..<e} = {i. \<exists>x. di_id d x = Gives (Some i) \<and> prefix k x}" for k
    by (rule index_prefixes [OF d(2), of k]) (auto simp: id)
  moreover have "successor d k = Gives (if \<exists>x\<in>set items. k \<le> x then Some (Min {x \<in> set items. k \<le> x}, card {x \<in> set items. x < k}) else None)" for k
    unfolding q(5) none_above [OF s] st using none_above [OF s, of k] least_above [OF s, of k] rc [of k] by (simp add: st)
  moreover have "predecessor d k = Gives (if \<exists>x\<in>set items. x \<le> k
      then Some (Max {x \<in> set items. x \<le> k}, card {x \<in> set items. x < Max {x \<in> set items. x \<le> k}}) else None)" for k
  proof (cases "at_most k ?ks = 0")
    case True
    then show ?thesis unfolding q(6) using none_below [OF s, of k] by (simp add: st)
  next
    case False
    then have i: "at_most k ?ks - 1 < length ?ks" using at_most_le [of k ?ks] by simp
    have m: "?ks ! (at_most k ?ks - 1) = Max {x \<in> set items. x \<le> k}" using greatest_below [OF s False] by (simp add: st)
    have "at_most k ?ks - 1 = below (?ks ! (at_most k ?ks - 1)) ?ks" by (rule below_nth [OF s i, symmetric])
    then have "at_most k ?ks - 1 = card {x \<in> set items. x < Max {x \<in> set items. x \<le> k}}" unfolding m rc .
    then show ?thesis unfolding q(6) using False none_below [OF s, of k] m by (simp add: st)
  qed
  ultimately show ?thesis using d(1) by blast
qed

theorem dict_ordered_witness:
  "\<exists>d. build_with_block 1 some_items 256 = Some (Gives d) \<and> (\<forall>k hi.
    lower_bound d k = Gives (card {x \<in> set some_items. x < k}) \<and>
    range_count d k hi = Gives (card {x \<in> set some_items. k \<le> x \<and> x < hi}) \<and>
    prefix_count d k = Gives (card {x \<in> set some_items. prefix k x}) \<and>
    (\<exists>s e. prefix_id_range d k = Gives (s, e) \<and>
      {s..<e} = {i. \<exists>x. di_id d x = Gives (Some i) \<and> prefix k x}) \<and>
    successor d k = Gives (if \<exists>x\<in>set some_items. k \<le> x
      then Some (Min {x \<in> set some_items. k \<le> x}, card {x \<in> set some_items. x < k}) else None) \<and>
    predecessor d k = Gives (if \<exists>x\<in>set some_items. x \<le> k
      then Some (Max {x \<in> set some_items. x \<le> k}, card {x \<in> set some_items. x < Max {x \<in> set some_items. x \<le> k}}) else None))"
  by (rule dict_ordered [OF some_covered some_block])

subsection \<open>What a lookup may be sped up by\<close>

text \<open>C6. A dictionary built without a character code and without phrases (\<open>covered\<close>) is well formed (its sizes, samples, heads, tries and every block as the lookup
  reads them), \<^verbatim>\<open>route_microblocks\<close> always succeeds on it and gives a well-formed dictionary again, and no
  answer changes: every probe is located, and every id read, as before.\<close>

theorem dict_routed:
  assumes "covered items block (micro_for block)" "1 \<le> block" "block \<le> MAX_BLOCK"
  shows "\<exists>d d' bytes'. build_with_block cores items block = Some (Gives d) \<and> index_ok d (key_list items) \<and>
    route_microblocks d = Gives (d', bytes') \<and> index_ok d' (key_list items) \<and>
    (\<forall>k. locate d' k = locate d k) \<and> (\<forall>i. key_bytes_into d' i = key_bytes_into d i)"
proof -
  obtain d where d: "build_with_block cores items block = Some (Gives d)" "index_ok d (key_list items)"
    using build_builds [OF assms, of cores] by blast
  obtain d' n where r: "route_microblocks d = Gives (d', n)" "index_ok d' (key_list items)"
    using routed_ok [OF d(2)] by blast
  show ?thesis
    using d r locate_finds [OF d(2)] locate_finds [OF r(2)] key_bytes_into_gives [OF d(2)] key_bytes_into_gives [OF r(2)]
    by (intro exI [of _ d] exI [of _ d'] exI [of _ n]) simp
qed

theorem dict_routed_witness:
  "\<exists>d d' bytes'. build_with_block 1 some_items 256 = Some (Gives d) \<and> index_ok d (key_list some_items) \<and>
    route_microblocks d = Gives (d', bytes') \<and> index_ok d' (key_list some_items) \<and>
    (\<forall>k. locate d' k = locate d k) \<and> (\<forall>i. key_bytes_into d' i = key_bytes_into d i)"
  by (rule dict_routed [OF some_covered some_block])

text \<open>C4. Routing refines the search of the block heads: in a dictionary built from at least one key, without
  a character code and without phrases (\<open>covered\<close>), the shared prefix, the search of
  the eight-byte samples, the gallop over a run of equal ones and the tries over long runs always place a
  probe, at the boundary the plain binary search of every head finds, and what a trie reports of the head
  before it (how far the probe shares it, and its length) is true.\<close>

theorem dict_routing_refines:
  assumes "covered items block (micro_for block)" "1 \<le> block" "block \<le> MAX_BLOCK" "items \<noteq> []"
  shows "\<exists>d. build_with_block cores items block = Some (Gives d) \<and> (\<forall>k. \<exists>l known.
    bind_outcome (route d k) (\<lambda>r. case r of Inr s \<Rightarrow> sample_boundary d k s | Inl l \<Rightarrow> Gives (l, None)) = Gives (l, known) \<and>
    head_boundary d k 0 (blocks_len d) = Gives l \<and>
    (\<forall>m n. known = Some (m, n) \<longrightarrow> (\<exists>h. di_head d (l - 1) = Gives h \<and> m = lcp_bytes h k \<and> n = length h)))"
proof -
  obtain d where d: "build_with_block cores items block = Some (Gives d)" "index_ok d (key_list items)"
    using build_builds [OF assms(1-3), of cores] by blast
  note H = index_heads [OF d(2)]
  let ?hs = "heads_of d (key_list items)"
  have ne: "key_list items \<noteq> []" using assms(4) key_list_props(2) [of items] by auto
  have "\<exists>l known. bind_outcome (route d k) (\<lambda>r. case r of Inr s \<Rightarrow> sample_boundary d k s | Inl l \<Rightarrow> Gives (l, None)) = Gives (l, known) \<and>
    head_boundary d k 0 (blocks_len d) = Gives l \<and>
    (\<forall>m n. known = Some (m, n) \<longrightarrow> (\<exists>h. di_head d (l - 1) = Gives h \<and> m = lcp_bytes h k \<and> n = length h))" for k
  proof -
    obtain l known where r: "bind_outcome (route d k) (\<lambda>r. case r of Inr s \<Rightarrow> sample_boundary d k s | Inl l \<Rightarrow> Gives (l, None)) = Gives (l, known)"
      "known_right ?hs k l known" using route_places [OF d(2) ne] by blast
    have l: "l = at_most k ?hs" using r(2) by (simp add: known_right_def)
    have "head_boundary d k 0 (blocks_len d) = Gives l"
      unfolding l by (rule head_boundary_finds [OF H(4) H(2)]) (simp_all add: H(1) [symmetric] at_most_le)
    moreover have "\<exists>h. di_head d (l - 1) = Gives h \<and> m = lcp_bytes h k \<and> n = length h" if "known = Some (m, n)" for m n
    proof -
      have k: "0 < l" "m = lcp (?hs ! (l - 1)) k" "n = length (?hs ! (l - 1))" using r(2) that by (simp_all add: known_right_def)
      moreover have "l - 1 < length ?hs" using k(1) at_most_le [of k ?hs] l by linarith
      ultimately show ?thesis using H(4) by (simp add: lcp_bytes_eq)
    qed
    ultimately show ?thesis using r(1) by blast
  qed
  then show ?thesis using d(1) by blast
qed

theorem dict_routing_refines_witness:
  "\<exists>d. build_with_block 1 some_items 256 = Some (Gives d) \<and> (\<forall>k. \<exists>l known.
    bind_outcome (route d k) (\<lambda>r. case r of Inr s \<Rightarrow> sample_boundary d k s | Inl l \<Rightarrow> Gives (l, None)) = Gives (l, known) \<and>
    head_boundary d k 0 (blocks_len d) = Gives l \<and>
    (\<forall>m n. known = Some (m, n) \<longrightarrow> (\<exists>h. di_head d (l - 1) = Gives h \<and> m = lcp_bytes h k \<and> n = length h)))"
  by (rule dict_routing_refines [OF some_covered some_block]) (simp add: some_items_def)

text \<open>C8. Deriving the tries over the block heads always ends: from any sorted heads and their sorted samples,
  splitting runs, the nodes queued one after another and the search of each group's edges come to an end
  with tries or with none.\<close>

theorem ties_derive_total:
  assumes "sorted hs" "\<forall>h\<in>set hs. take g h = take g (hd hs)"
  shows "\<exists>ties. ties_derive (map (\<lambda>h. sample_at h g) hs) ((!) hs) = Some ties"
  using ties_derive_tries [OF heads_samples_sorted [OF assms] _ assms(1)] by auto

definition some_run :: "bytes list" where
  "some_run = map (\<lambda>b. replicate 9 97 @ [b]) [1, 2, 3, 4, 5, 6, 7, 8, 9]"

theorem ties_derive_total_witness: "\<exists>ties. ties_derive (map (\<lambda>h. sample_at h 1) some_run) ((!) some_run) = Some ties"
  by (rule ties_derive_total) (simp_all add: some_run_def)

subsection \<open>The build\<close>

text \<open>C5. The index does not depend on the threads. However many shards there are and whatever tables they
  have, ranges of shards encoded apart and joined are the part one pass over all of them encodes, with every
  offset moved past what came before it; samples trained a range a thread give the tables of the samples in
  order; the character code is chosen over the same tally; and so a build on any number of cores is the
  same index, field by field, and it refuses, panics or leaves the model (a character code taken up,
  phrases mined) on one number of cores where it does on another.\<close>

theorem build_on_any_cores:
  "encode_parts keys (Suc b) micro (Suc threads) tables = encode_range keys (Suc b) micro tables (shard_blocks_for (Suc b)) 0 \<and>
    train_shards samples (Suc threads) = map_outcome train_one samples \<and>
    choose_code keys threads = choose_code keys 1 \<and>
    build_with_block cores items block = build_with_block cores' items block"
proof -
  have t: "from_sorted_as keys block micro (build_threads c n block) = from_sorted_as keys block micro 1" for keys micro c n
  proof -
    have "train_shards s (train_threads (build_threads c n block)) = train_shards s (train_threads 1)" for s
      by (simp add: train_shards_gives [OF train_threads_pos])
    moreover have "from_vocabulary keys block micro (build_threads c n block) = from_vocabulary keys block micro 1"
      by (rule ext) (rule from_vocabulary_threads [OF build_threads_pos])
    ultimately show ?thesis unfolding from_sorted_as_def by (simp only:)
  qed
  have "from_view cores keys block micro = from_view cores' keys block micro" for keys micro
    unfolding from_view_def choose_code_tally from_sorted_def t by (simp only:)
  then have "build_with_block cores items block = build_with_block cores' items block"
    by (simp add: build_with_block_def built_view_def sort_distinct_sorts)
  moreover have "train_shards samples (Suc threads) = map_outcome train_one samples"
  proof -
    have "map_outcome train_one samples = train_shards samples 1" by (simp add: train_shards_def)
    also have "\<dots> = train_shards samples (Suc threads)" by (simp only: train_shards_gives zero_less_one zero_less_Suc)
    finally show ?thesis ..
  qed
  ultimately show ?thesis by (simp add: encode_parts_once choose_code_threads [of _ threads])
qed

text \<open>C7. The parallel sort is the sort: cut into runs a thread, sorted, cut again at splitters drawn from every
  run and merged, the keys come out sorted, and \<^verbatim>\<open>sort_distinct\<close> gives the distinct keys in order, on any
  number of threads. The check that the keys ascend, a range a thread, is right across the ranges' borders.\<close>

theorem sort_on_any_threads:
  "sort_on keys threads = Gives (sort keys) \<and> sort_distinct keys threads = Gives (sorted_list_of_set (set keys)) \<and>
    strictly_ascending keys threads = sorted_wrt (<) keys"
  using sort_on_sorts sort_distinct_sorts strictly_ascending_iff by blast

text \<open>C10. \<^verbatim>\<open>build_sorted\<close> checks the order the caller promises: keys of which one is below its predecessor are
  refused, and any others, repeats among them, build the index \<^verbatim>\<open>build\<close> makes of them.\<close>

theorem build_sorted_checks:
  "build_sorted_with_block cores items block =
    (if sorted items then build_with_block cores items block else Some Refuses)"
proof (cases "sorted items")
  case True
  then show ?thesis
    by (simp add: build_sorted_with_block_def build_with_block_def ascending_view [OF True] sort_distinct_sorts)
next
  case False
  obtain ks where "distinct_ascending items (build_threads cores (length items) block) = (False, ks)"
    using unordered_view [OF False] by blast
  then show ?thesis using False by (simp add: build_sorted_with_block_def built_view_def)
qed

text \<open>C9. What a vocabulary encodes to is bounded by the keys: encoding never fails under well-formed tables,
  and the block data, restarts and headers included, take at most 34 bytes a key and ten times its
  length, however the ranges were shared out; the heads are the first keys of the blocks.\<close>

theorem encode_parts_bounded:
  assumes "tables \<noteq> []" "\<forall>t\<in>set tables. table_wf t" "0 < block" "0 < micro" "0 < threads" "\<forall>k\<in>set keys. 10 * length k < usize_bound"
  shows "\<exists>pt. encode_parts keys block micro threads tables = Gives pt \<and>
    length (pt_data pt) \<le> (\<Sum>k\<leftarrow>keys. 34 + 10 * length k) \<and> pt_heads pt = concat (map hd (chunks block keys)) \<and>
    length (pt_blocks pt) = div_ceil (length keys) block"
proof -
  obtain pt BS where pt: "encode_parts keys block micro threads tables = Gives pt"
    "part_holds (dict_of []) micro (shard_blocks_for block) (chunks block keys) BS pt"
    using encode_parts_holds [OF assms(1-5)] assms(6) unfolding keys_small_def by blast
  have "length (pt_data pt) \<le> run_room keys"
    using part_room(1) [OF pt(2) _ assms(4)] chunks_nonempty assms(3) by (simp add: concat_of_chunks) blast
  moreover have "pt_heads pt = concat (map hd (chunks block keys))" "length (pt_blocks pt) = div_ceil (length keys) block"
    using pt(2) assms(3) by (simp_all add: part_holds_def length_starts_of length_chunks)
  ultimately show ?thesis using pt(1) by (simp add: run_room_def)
qed

theorem encode_parts_bounded_witness:
  "\<exists>pt. encode_parts [[97], [97, 99], [98, 97]] 2 2 3 [the_table] = Gives pt \<and>
    length (pt_data pt) \<le> (\<Sum>k\<leftarrow>[[97], [97, 99], [98, 97]]. 34 + 10 * length (k :: bytes)) \<and>
    pt_heads pt = concat (map hd (chunks 2 [[97], [97, 99], [98, 97]])) \<and> length (pt_blocks pt) = div_ceil (length [[97], [97, 99], [98, 97 :: u8]]) 2"
  by (rule encode_parts_bounded) (simp_all add: the_table_wf usize_bound_def)

end
