(* ===== verification/Spec2Isabelle.thy ===== *)
theory Spec2Isabelle
  imports Offsets Packed_Facts Overlay_Blob Fsst_Theorems Paircode_Theorems Phrase_Facts Codecs Dictionary
begin

text \<open>
  A verification library for lexindex, a Rust crate of compressed string indexes: static
  dictionaries that map keys to ids in lexicographic order and back, and an overlay that takes
  edits over one of them.

  \<^bold>\<open>The program.\<close> \<^verbatim>\<open>src/dict_index.rs\<close> and the modules under \<^verbatim>\<open>src/dict_index/\<close> are the ordered
  dictionary: sorted distinct keys are cut into blocks, each block opens with a head written in
  full, and the keys after it are front-coded in runs (a restart, then pairs of a shared-prefix
  length and a suffix). A suffix is written raw, under a symbol table (\<^verbatim>\<open>fsst.rs\<close>, with an optional
  phrase dictionary, \<^verbatim>\<open>phrase.rs\<close>) or under a packed alphabet (\<^verbatim>\<open>packed.rs\<close>); the pair headers are
  written under a pair code (\<^verbatim>\<open>paircode.rs\<close>) or under its plain frames. Offsets to blocks and
  runs are packed arrays (\<^verbatim>\<open>offsets.rs\<close>). A lookup places a probe among eight-byte samples of the
  heads, by a small trie (\<^verbatim>\<open>ties.rs\<close>) where samples tie, walks one run, and never decodes a block
  it does not need. \<^verbatim>\<open>overlay.rs\<close> keeps additions and tombstones over any index with a
  stable id per key, and \<^verbatim>\<open>blob.rs\<close> holds the checksums and byte views of every blob.

  \<^bold>\<open>Conventions\<close> (theory Prelude). Rust's \<^verbatim>\<open>u8\<close>, \<^verbatim>\<open>u16\<close>, \<^verbatim>\<open>u32\<close> and \<^verbatim>\<open>u64\<close> are words of that width
  where the code relies on wrapping, and \<^verbatim>\<open>usize\<close> is a \<^verbatim>\<open>nat\<close> with every overflow the code checks
  written out. A routine that can panic or refuse its input gives an outcome: \<^verbatim>\<open>Gives\<close> a value,
  \<^verbatim>\<open>Refuses\<close> for an error returned to the caller, \<^verbatim>\<open>Panics\<close> for an index out of range or a failed
  \<^verbatim>\<open>expect\<close>; so a claim that a routine gives a value also says that it does not panic. Buffers that
  Rust leaves uninitialised are rooms of optional bytes (theory Room), and a read of an unwritten
  byte has no value. Loops are structural recursion or carry a termination proof; where the code
  searches without a bound the model is a partial function and the claim proves that it ends.

  \<^bold>\<open>The theories, bottom up.\<close>

  \<^item> Prelude, Le_Bytes, Room, Utf8: outcomes, little-endian bytes and bit streams, the room of
    \<^verbatim>\<open>room.rs\<close>, and what is relied on of \<^verbatim>\<open>std::str\<close>.
  \<^item> Blob_Hash (\<^verbatim>\<open>blob.rs\<close>): the two checksums, the streaming hasher, shared views. Damage in one
    aligned word changes the hash; the hash does not depend on how writes were cut.
  \<^item> Packed, Packed_Facts (\<^verbatim>\<open>packed.rs\<close>): choosing an alphabet, encoding, the fast and the slow
    decoder, comparing without decoding, and the alphabet in a blob.
  \<^item> Offsets (\<^verbatim>\<open>offsets.rs\<close>): bases and deltas of a packed array; reading returns what was packed.
  \<^item> Fsst, Fsst_Facts, Fsst_Encode, Fsst_Theorems (\<^verbatim>\<open>fsst.rs\<close>): training, the greedy encoder with
    its hash table of symbols, decoding under untrusted tables, the table in a blob.
  \<^item> Varint, Key_Lcp (\<^verbatim>\<open>dict_index.rs\<close>): varints and the word-wise shared prefix.
  \<^item> Paircode, Paircode_Facts, Paircode_Run, Paircode_Theorems (\<^verbatim>\<open>paircode.rs\<close>): fitting frames,
    the learned table, the writer and the reader of a run with their shared scratch tables.
  \<^item> Phrase, Phrase_Facts (\<^verbatim>\<open>phrase.rs\<close>): splits of the reference space, the dictionary and its bytes.
  \<^item> Suffix, Suffix_Facts, Scan, Scan_Facts, Codecs (\<^verbatim>\<open>dict_index/codec.rs\<close>): the three codecs of a
    suffix, their compares and decoders, the entry cursor and the scan of a run. What the walks ask
    of a codec is a locale, and the three codecs are its interpretations.
  \<^item> Ties, Tie_Facts, Tie_Build (\<^verbatim>\<open>ties.rs\<close>): deriving the tries over tied samples and descending one.
  \<^item> Encode, Collect_Facts, Run_Facts, Shard_Facts, Write_Facts, Part_Facts
    (\<^verbatim>\<open>dict_index/encode.rs\<close>): collecting a shard, settling its codec and its header codes, writing
    its runs, training, and packing the offsets. What is written names its keys.
  \<^item> Dict_Index, Order_Facts, Sample_Facts, Route_Facts, Word_Route, Micro_Facts, Locate_Facts,
    Query_Facts (\<^verbatim>\<open>dict_index/route.rs\<close>, \<^verbatim>\<open>dict_index/query.rs\<close>): the index as a record with the fields
    of \<^verbatim>\<open>DictIndex\<close>, its routing and its queries. \<^verbatim>\<open>index_ok\<close> is the invariant that ties an index to a
    list of keys; every query of an index that has it is answered from the keys alone.
  \<^item> Build, Build_Facts, Built_Facts, Thread_Facts, Dict_Build, Dict_Theorems, Sort, Sort_Facts,
    Build_Entry, Entry_Facts (\<^verbatim>\<open>dict_index/build.rs\<close>): the entry points, the sort across
    threads, the parts encoded range by range and joined. What is built has \<^verbatim>\<open>index_ok\<close>.
  \<^item> Char_Count, Char_Code, Tally_Facts (\<^verbatim>\<open>charcode.rs\<close>) and Mine (\<^verbatim>\<open>phrase.rs\<close>): whether a build takes up a
    character code (the count, the tally, the choice and the code chosen) and whether it mines phrases.
  \<^item> Dictionary: the claims on the whole, from keys in any order to answers.
  \<^item> Overlay, Overlay_Facts, Overlay_Theorems, Overlay_Blob (\<^verbatim>\<open>overlay.rs\<close>): the edits as steps over a
    record, invariants over every sequence of edits, compaction, and the OVL1 and OVL2 blobs. The
    index below an overlay is an argument with named laws, as the Rust trait is.

  \<^bold>\<open>Bounds.\<close> \<^verbatim>\<open>run_room\<close> asks that a run's keys stay below \<^verbatim>\<open>2 ^ 56\<close> bytes, past which the code's
  \<^verbatim>\<open>usize\<close> sums and shifts would no longer be exact and which no address space holds. A block has at
  most \<^verbatim>\<open>MAX_BLOCK\<close> keys, as the builder clamps it. An entry point gives \<^verbatim>\<open>None\<close>, leaving the model, where the build
  takes up a character code or mines phrases; \<^verbatim>\<open>covered\<close> names the builds that do neither, and every claim
  on a whole build is for those. They are all builds of fewer than \<^verbatim>\<open>MINE_MIN = 2 ^ 14\<close> distinct keys nearly
  all ASCII, the empty one included (\<^verbatim>\<open>covered_few\<close>), builds in other scripts whose table would not pay, and
  builds of any size whose probed shards would rather pack their bytes, which have a shard every
  \<^verbatim>\<open>SHARD_KEYS = 2 ^ 16\<close> keys. The \<^verbatim>\<open>usize\<close> length of an overlay's base and the sum of it and the additions
  are natural numbers: no index of this crate holds \<^verbatim>\<open>2 ^ 64\<close> keys.

  \<^bold>\<open>Findings.\<close> The reader of an overlay panics on a blob of more than 4 GiB of additions where its
  documentation promises a refusal (Overlay_Blob), and a group's choice between frames and a learned
  table compares prices that are not counted alike (Paircode).

  \<^bold>\<open>Not modelled.\<close> Phrase mining and the trie that parses phrases (\<^verbatim>\<open>phrase.rs\<close>, past the bar before the
  miner), keys spelled in a character code once one is chosen (\<^verbatim>\<open>charcode.rs\<close>) and nested labels
  (\<^verbatim>\<open>labels.rs\<close>). The layout of a dictionary blob
  (\<^verbatim>\<open>dict_index/format.rs\<close>); its parts are read back in their own theories. The builds that stream through
  files and the external sort (\<^verbatim>\<open>extsort.rs\<close>), iterators and batched queries. The hash
  indexes and their perfect hash (\<^verbatim>\<open>mphf.rs\<close>, \<^verbatim>\<open>hash.rs\<close>, \<^verbatim>\<open>closed_hash.rs\<close>, \<^verbatim>\<open>compact_hash.rs\<close>,
  \<^verbatim>\<open>perfect_hash.rs\<close>, \<^verbatim>\<open>hashed_dict.rs\<close>, \<^verbatim>\<open>arena.rs\<close>, \<^verbatim>\<open>superstring.rs\<close>), the double-array trie and the transducer
  index over the fst crate, which are indexes of their own. Estimates, inspection, huge pages, the
  command line and the bindings, which hold no state of an index. Prefetches and heap-byte
  counts have no effect on an answer and are left out throughout.
\<close>

end
